(* ===== verification/Prelude.thy ===== *)
theory Prelude
  imports Main "HOL-Library.Word" "HOL-Library.Multiset"
begin

text \<open>
  What every component shares: the results of a C function that may fail, the loops of the
  source as combinators with an invariant rule, arrays with checked indices, the arithmetic
  of \<open>size_t\<close> (64 bits, wrapping), the heap allocator, and lemmas on lists that are
  permutations of an interval.
\<close>

named_theorems res_simps \<open>rewriting of the result monad\<close>
named_theorems c_arith \<open>64-bit arithmetic that does not wrap\<close>

subsection \<open>Results\<close>

text \<open>
  A call either returns a value or ends the run: \<open>Exit n\<close> is \<open>exit(n)\<close> after a message,
  \<open>OutOfBounds\<close> an access outside the object (or through NULL), \<open>DivByZero\<close> a zero
  divisor, \<open>Undefined\<close> another operation the C standard leaves undefined, \<open>AssertFail\<close> a
  failed \<open>assert\<close>.
\<close>

datatype failure = Exit nat | OutOfBounds | DivByZero | Undefined | AssertFail

type_synonym 'a res = "failure + 'a"

fun rbind :: "'a res \<Rightarrow> ('a \<Rightarrow> 'b res) \<Rightarrow> 'b res" where
  "rbind (Inl e) f = Inl e"
| "rbind (Inr x) f = f x"

lemma rbind_Inr [res_simps]:
  "rbind x f = Inr y \<longleftrightarrow> (\<exists>z. x = Inr z \<and> f z = Inr y)"
  by (cases x) auto

lemma rbind_Inl [res_simps]:
  "rbind x f = Inl e \<longleftrightarrow> x = Inl e \<or> (\<exists>z. x = Inr z \<and> f z = Inl e)"
  by (cases x) auto

lemma rbind_assoc: "rbind (rbind x f) g = rbind x (\<lambda>v. rbind (f v) g)"
  by (cases x) auto

lemma rbind_cong [fundef_cong]:
  "x = y \<Longrightarrow> (\<And>v. y = Inr v \<Longrightarrow> f v = g v) \<Longrightarrow> rbind x f = rbind y g"
  by (cases y) auto

text \<open>
  \<open>wp E Q x\<close>: the result \<open>x\<close> is a failure that \<open>E\<close> allows or a value with \<open>Q\<close>.
  With \<open>E = (\<lambda>_. False)\<close> it says that the call returns and returns a \<open>Q\<close>.
\<close>

fun wp :: "(failure \<Rightarrow> bool) \<Rightarrow> ('a \<Rightarrow> bool) \<Rightarrow> 'a res \<Rightarrow> bool" where
  "wp E Q (Inl e) = E e"
| "wp E Q (Inr v) = Q v"

lemma wp_rbind [simp]: "wp E Q (rbind x f) = wp E (\<lambda>v. wp E Q (f v)) x"
  by (cases x) auto

lemma wp_mono: "wp E Q x \<Longrightarrow> (\<And>e. E e \<Longrightarrow> E' e) \<Longrightarrow> (\<And>v. Q v \<Longrightarrow> Q' v) \<Longrightarrow> wp E' Q' x"
  by (cases x) auto

lemma wp_conj: "wp E P x \<Longrightarrow> wp E Q x \<Longrightarrow> wp E (\<lambda>v. P v \<and> Q v) x"
  by (cases x) auto

lemma wp_total: "wp (\<lambda>_. False) Q x \<longleftrightarrow> (\<exists>v. x = Inr v \<and> Q v)"
  by (cases x) auto

lemma wp_Inr: "wp E Q x \<Longrightarrow> x = Inr v \<Longrightarrow> Q v"
  by simp

lemma wp_bindI:
  "wp E P x \<Longrightarrow> (\<And>v. P v \<Longrightarrow> wp E Q (f v)) \<Longrightarrow> wp E Q (rbind x f)"
  by (cases x) auto

lemma wp_if: "(b \<Longrightarrow> wp E Q x) \<Longrightarrow> (\<not> b \<Longrightarrow> wp E Q y) \<Longrightarrow> wp E Q (if b then x else y)"
  by simp

lemma wp_prodI: "(\<And>a b. v = (a, b) \<Longrightarrow> wp E Q (f a b)) \<Longrightarrow> wp E Q (case v of (a, b) \<Rightarrow> f a b)"
  by (cases v) simp

subsection \<open>Loops\<close>

text \<open>\<open>for (i in xs) body\<close> on an explicit state, left at the first failure.\<close>

primrec for_each :: "'i list \<Rightarrow> ('i \<Rightarrow> 's \<Rightarrow> 's res) \<Rightarrow> 's \<Rightarrow> 's res" where
  "for_each [] body s = Inr s"
| "for_each (x # xs) body s = rbind (body x s) (for_each xs body)"

text \<open>\<open>for (i = 0; i < n; ++i) body\<close>.\<close>

definition for_range :: "nat \<Rightarrow> (nat \<Rightarrow> 's \<Rightarrow> 's res) \<Rightarrow> 's \<Rightarrow> 's res" where
  "for_range n body s = for_each [0..<n] body s"

lemma for_each_append: "for_each (xs @ ys) body s = rbind (for_each xs body s) (for_each ys body)"
proof (induction xs arbitrary: s)
  case (Cons x xs)
  then show ?case by (cases "body x s") auto
qed simp

lemma wp_for_each:
  assumes "I 0 s"
    and "\<And>k s. k < length xs \<Longrightarrow> I k s \<Longrightarrow> wp E (I (Suc k)) (body (xs ! k) s)"
  shows "wp E (I (length xs)) (for_each xs body s)"
  using assms
proof (induction xs arbitrary: s I)
  case Nil
  then show ?case by simp
next
  case (Cons x xs)
  have "wp E (I (Suc 0)) (body x s)"
    using Cons.prems(2)[of 0 s] Cons.prems(1) by simp
  moreover have "wp E (I (Suc (length xs))) (for_each xs body s')" if "I (Suc 0) s'" for s'
    using Cons.IH[of "\<lambda>k. I (Suc k)" s'] that Cons.prems(2)[of "Suc k" for k] by fastforce
  ultimately show ?case
    by (auto elim: wp_mono)
qed

lemma wp_for_range:
  assumes "I 0 s"
    and "\<And>k s. k < n \<Longrightarrow> I k s \<Longrightarrow> wp E (I (Suc k)) (body k s)"
  shows "wp E (I n) (for_range n body s)"
  using wp_for_each[of I s "[0..<n]" E body] assms by (simp add: for_range_def)

lemma wp_for_rangeI:
  assumes "I 0 s"
    and "\<And>k s. k < n \<Longrightarrow> I k s \<Longrightarrow> wp E (I (Suc k)) (body k s)"
    and "\<And>s. I n s \<Longrightarrow> Q s"
  shows "wp E Q (for_range n body s)"
  using wp_for_range[of I s n E body] assms by (blast intro: wp_mono)

lemma for_range_cong:
  assumes "\<And>i s. i < n \<Longrightarrow> body i s = body' i s"
  shows "for_range n body s = for_range n body' s"
proof -
  have "for_each xs body s = for_each xs body' s" if "set xs \<subseteq> {..<n}" for xs
    using that
  proof (induction xs arbitrary: s)
    case (Cons x xs)
    then show ?case using assms[of x s] by (cases "body' x s") auto
  qed simp
  from this[of "[0..<n]"] show ?thesis by (simp add: for_range_def atLeast0LessThan)
qed

lemma for_range_0 [simp]: "for_range 0 body s = Inr s"
  by (simp add: for_range_def)

lemma for_range_Suc [simp]:
  "for_range (Suc n) body s = rbind (for_range n body s) (body n)"
proof -
  have "for_each [x] body = body x" for x :: nat
  proof
    show "for_each [x] body s = body x s" for s by (cases "body x s") auto
  qed
  then show ?thesis by (simp add: for_range_def for_each_append del: for_each.simps)
qed

text \<open>Calls that may not return: None. A loop over a list of such calls.\<close>

fun obind :: "'a res option \<Rightarrow> ('a \<Rightarrow> 'b res option) \<Rightarrow> 'b res option" where
  "obind None f = None"
| "obind (Some (Inl e)) f = Some (Inl e)"
| "obind (Some (Inr x)) f = f x"

primrec for_each_opt :: "'i list \<Rightarrow> ('i \<Rightarrow> 's \<Rightarrow> 's res option) \<Rightarrow> 's \<Rightarrow> 's res option" where
  "for_each_opt [] body s = Some (Inr s)"
| "for_each_opt (x # xs) body s = obind (body x s) (for_each_opt xs body)"

lemma for_each_opt_inv:
  assumes "I 0 s"
    and "\<And>k s. k < length xs \<Longrightarrow> I k s \<Longrightarrow> \<exists>s'. body (xs ! k) s = Some (Inr s') \<and> I (Suc k) s'"
  shows "\<exists>s'. for_each_opt xs body s = Some (Inr s') \<and> I (length xs) s'"
  using assms
proof (induction xs arbitrary: s I)
  case (Cons x xs)
  obtain s' where s': "body x s = Some (Inr s')" "I (Suc 0) s'" using Cons.prems(2)[of 0 s] Cons.prems(1) by auto
  have "\<exists>s''. for_each_opt xs body s' = Some (Inr s'') \<and> I (Suc (length xs)) s''"
    using Cons.IH[of "\<lambda>k. I (Suc k)" s'] s'(2) Cons.prems(2)[of "Suc k" for k] by fastforce
  then show ?case using s'(1) by simp
qed simp

text \<open>Monotonicity of an existential over the components of a result.\<close>

lemma ex_mono2: "\<exists>a b. P a b \<Longrightarrow> (\<And>a b. P a b \<Longrightarrow> Q a b) \<Longrightarrow> \<exists>a b. Q a b"
  by blast

lemma ex_mono3: "\<exists>a b c. P a b c \<Longrightarrow> (\<And>a b c. P a b c \<Longrightarrow> Q a b c) \<Longrightarrow> \<exists>a b c. Q a b c"
  by blast

lemma ex_mono4:
  "\<exists>a b c d. P a b c d \<Longrightarrow> (\<And>a b c d. P a b c d \<Longrightarrow> Q a b c d) \<Longrightarrow> \<exists>a b c d. Q a b c d"
  by blast

subsection \<open>Arrays\<close>

definition arr_get :: "'a list \<Rightarrow> nat \<Rightarrow> 'a res" where
  "arr_get xs i = (if i < length xs then Inr (xs ! i) else Inl OutOfBounds)"

definition arr_set :: "'a list \<Rightarrow> nat \<Rightarrow> 'a \<Rightarrow> 'a list res" where
  "arr_set xs i v = (if i < length xs then Inr (xs[i := v]) else Inl OutOfBounds)"

lemma arr_get_ok [simp]: "i < length xs \<Longrightarrow> arr_get xs i = Inr (xs ! i)"
  by (simp add: arr_get_def)

lemma arr_set_ok [simp]: "i < length xs \<Longrightarrow> arr_set xs i v = Inr (xs[i := v])"
  by (simp add: arr_set_def)

lemma arr_get_fault: "length xs \<le> i \<Longrightarrow> arr_get xs i = Inl OutOfBounds"
  by (simp add: arr_get_def)

subsection \<open>Arithmetic of \<open>size_t\<close>\<close>

text \<open>
  \<open>size_t\<close>, \<open>uint64_t\<close>, \<open>perm_t\<close> and pointers are natural numbers below \<open>W64 = 2 ^ 64\<close>;
  sums, products and differences wrap, as they do in C on the 64-bit targets of the suite.
  \<open>W64\<close> is a constant of its own, so that the simplifier does not expand the power.
\<close>

definition W64 :: nat where
  "W64 = 2 ^ 64"

definition add64 :: "nat \<Rightarrow> nat \<Rightarrow> nat" where
  "add64 a b = (a + b) mod W64"

definition mul64 :: "nat \<Rightarrow> nat \<Rightarrow> nat" where
  "mul64 a b = (a * b) mod W64"

definition sub64 :: "nat \<Rightarrow> nat \<Rightarrow> nat" where
  "sub64 a b = (a + (W64 - b mod W64)) mod W64"

definition div64 :: "nat \<Rightarrow> nat \<Rightarrow> nat res" where
  "div64 a b = (if b = 0 then Inl DivByZero else Inr (a div b))"

definition mod64 :: "nat \<Rightarrow> nat \<Rightarrow> nat res" where
  "mod64 a b = (if b = 0 then Inl DivByZero else Inr (a mod b))"

lemma W64_pos [simp]: "0 < W64"
  by (simp add: W64_def)

lemma W64_gt_1 [simp]: "Suc 0 < W64"
  by (simp add: W64_def)

lemma add64_exact [c_arith]: "a + b < W64 \<Longrightarrow> add64 a b = a + b"
  by (simp add: add64_def)

lemma mul64_exact [c_arith]: "a * b < W64 \<Longrightarrow> mul64 a b = a * b"
  by (simp add: mul64_def)

lemma sub64_exact [c_arith]:
  assumes "b \<le> a" and "a < W64"
  shows "sub64 a b = a - b"
proof -
  have "b mod W64 = b" using assms by simp
  then have "a + (W64 - b mod W64) = (a - b) + W64"
    using assms by linarith
  then have "sub64 a b = ((a - b) + W64) mod W64"
    by (simp only: sub64_def)
  also have "\<dots> = a - b" using assms by (simp only: mod_add_self2 mod_less less_imp_diff_less)
  finally show ?thesis .
qed

lemma add64_lt [simp]: "add64 a b < W64"
  by (simp add: add64_def)

lemma mul64_lt [simp]: "mul64 a b < W64"
  by (simp add: mul64_def)

lemma sub64_lt [simp]: "sub64 a b < W64"
  by (simp add: sub64_def)

lemma div64_ok [simp]: "0 < b \<Longrightarrow> div64 a b = Inr (a div b)"
  by (simp add: div64_def)

lemma mod64_ok [simp]: "0 < b \<Longrightarrow> mod64 a b = Inr (a mod b)"
  by (simp add: mod64_def)

lemma unat_lt_W64 [simp]: "unat (x :: 64 word) < W64"
  using unsigned_less[of x, where ?'a = nat] by (simp add: W64_def)

text \<open>\<open>x & (n - 1)\<close> is \<open>x % n\<close> when \<open>n\<close> is a power of two.\<close>

unbundle bit_operations_syntax

lemma and_pow2_mask: "(x :: nat) AND (2 ^ k - 1) = x mod 2 ^ k"
  by (metis mask_eq_exp_minus_1 take_bit_eq_mask take_bit_eq_mod)

subsection \<open>The heap allocator\<close>

text \<open>
  \<open>malloc\<close> decides from the byte count whether it returns a block; a fresh block holds
  arbitrary words (\<open>junk\<close>). A NULL that the code does not test is the empty array: every
  access through it is out of bounds.
\<close>

record heap_env =
  malloc_ok :: "nat \<Rightarrow> bool"
  junk :: "nat \<Rightarrow> nat"

definition malloc_words :: "heap_env \<Rightarrow> nat \<Rightarrow> nat list option" where
  "malloc_words h bytes =
     (if malloc_ok h bytes then Some (map (junk h) [0..<bytes div 8]) else None)"

definition malloc_unchecked :: "heap_env \<Rightarrow> nat \<Rightarrow> nat list" where
  "malloc_unchecked h bytes = (case malloc_words h bytes of None \<Rightarrow> [] | Some xs \<Rightarrow> xs)"

lemma malloc_words_length: "malloc_words h b = Some xs \<Longrightarrow> length xs = b div 8"
  by (auto simp: malloc_words_def split: if_splits)

lemma malloc_unchecked_length [simp]:
  "malloc_ok h b \<Longrightarrow> length (malloc_unchecked h b) = b div 8"
  by (simp add: malloc_unchecked_def malloc_words_def)

text \<open>\<open>malloc\<close> serves every request below the bound \<open>b\<close>.\<close>

definition malloc_serves :: "heap_env \<Rightarrow> nat \<Rightarrow> bool" where
  "malloc_serves h b \<longleftrightarrow> (\<forall>n. n \<le> b \<longrightarrow> malloc_ok h n)"

lemma malloc_servesD: "malloc_serves h b \<Longrightarrow> n \<le> b \<Longrightarrow> malloc_ok h n"
  by (simp add: malloc_serves_def)

end
