(* ===== verification/Memory.thy ===== *)
theory Memory
  imports Prelude
begin

text \<open>
  The memory the chases live in: bytes at 64-bit addresses, some of them mapped. A pointer
  is eight bytes, least significant first, at any alignment. The interface the rest of the
  development uses is the locale \<open>cell_store\<close> (what a load returns after a store); the byte
  memory is its interpretation. Pointer cycles (\<open>chase_cycle\<close>) and the walk along them
  (\<open>deref_n\<close>, the repeated \<open>p = *(void **)p\<close> of the kernels) are defined here.
\<close>

subsection \<open>Bytes\<close>

type_synonym mem = "nat \<Rightarrow> 8 word option"

fun bytes_of :: "nat \<Rightarrow> nat \<Rightarrow> 8 word list" where
  "bytes_of 0 v = []"
| "bytes_of (Suc k) v = of_nat v # bytes_of k (v div 256)"

fun of_bytes :: "8 word list \<Rightarrow> nat" where
  "of_bytes [] = 0"
| "of_bytes (b # bs) = unat b + 256 * of_bytes bs"

lemma length_bytes_of [simp]: "length (bytes_of k v) = k"
  by (induction k arbitrary: v) auto

lemma of_bytes_bytes_of: "of_bytes (bytes_of k v) = v mod 256 ^ k"
  by (induction k arbitrary: v) (auto simp: unat_of_nat mod_mult2_eq)

lemma of_bytes_lt: "of_bytes bs < 256 ^ length bs"
proof (induction bs)
  case Nil
  then show ?case by simp
next
  case (Cons b bs)
  have "unat b < 256"
    using unsigned_less[of b, where ?'a = nat] by simp
  then show ?case using Cons by simp
qed

subsection \<open>Loads and stores\<close>

definition mapped :: "mem \<Rightarrow> nat \<Rightarrow> nat \<Rightarrow> bool" where
  "mapped m a n \<longleftrightarrow> (\<forall>k<n. m (a + k) \<noteq> None)"

fun read_bytes :: "mem \<Rightarrow> nat \<Rightarrow> nat \<Rightarrow> 8 word list res" where
  "read_bytes m a 0 = Inr []"
| "read_bytes m a (Suc k) =
     (case m a of
        None \<Rightarrow> Inl OutOfBounds
      | Some b \<Rightarrow> rbind (read_bytes m (Suc a) k) (\<lambda>bs. Inr (b # bs)))"

fun write_bytes :: "mem \<Rightarrow> nat \<Rightarrow> 8 word list \<Rightarrow> mem res" where
  "write_bytes m a [] = Inr m"
| "write_bytes m a (b # bs) =
     (if m a = None then Inl OutOfBounds else write_bytes (m(a \<mapsto> b)) (Suc a) bs)"

definition load64 :: "mem \<Rightarrow> nat \<Rightarrow> nat res" where
  "load64 m a = rbind (read_bytes m a 8) (\<lambda>bs. Inr (of_bytes bs))"

definition store64 :: "mem \<Rightarrow> nat \<Rightarrow> nat \<Rightarrow> mem res" where
  "store64 m a v = write_bytes m a (bytes_of 8 v)"

lemma mapped_Suc: "mapped m a (Suc n) \<longleftrightarrow> m a \<noteq> None \<and> mapped m (Suc a) n"
  by (auto simp: mapped_def less_Suc_eq_0_disj)

lemma mapped_sub: "mapped m a n \<Longrightarrow> a \<le> b \<Longrightarrow> b + k \<le> a + n \<Longrightarrow> mapped m b k"
  unfolding mapped_def
proof (intro allI impI)
  fix j assume *: "\<forall>k<n. m (a + k) \<noteq> None" "a \<le> b" "b + k \<le> a + n" "j < k"
  then have "b - a + j < n" "b + j = a + (b - a + j)" by auto
  then show "m (b + j) \<noteq> None" using * by metis
qed

lemma read_bytes_eq:
  "read_bytes m a k =
     (if mapped m a k then Inr (map (\<lambda>i. the (m (a + i))) [0..<k]) else Inl OutOfBounds)"
proof (induction k arbitrary: a)
  case 0
  then show ?case by (simp add: mapped_def)
next
  case (Suc k)
  have "map (\<lambda>i. the (m (a + i))) [0..<Suc k] =
    the (m a) # map (\<lambda>i. the (m (Suc a + i))) [0..<k]"
    by (subst upt_conv_Cons) (simp_all del: upt_Suc flip: map_Suc_upt)
  then show ?case
    using Suc[of "Suc a"] by (auto simp: mapped_Suc simp del: upt_Suc split: option.splits)
qed

text \<open>Fresh pages of an anonymous mapping hold zeros.\<close>

definition map_pages :: "mem \<Rightarrow> nat \<Rightarrow> nat \<Rightarrow> mem" where
  "map_pages m a len = (\<lambda>x. if a \<le> x \<and> x < a + len then Some 0 else m x)"

lemma mapped_map_pages:
  assumes "a \<le> p" and "p + n \<le> a + len"
  shows "mapped (map_pages m a len) p n"
  using assms by (simp add: mapped_def map_pages_def)

text \<open>What a store of a byte list does to the memory.\<close>

definition put_bytes :: "mem \<Rightarrow> nat \<Rightarrow> 8 word list \<Rightarrow> mem" where
  "put_bytes m a bs = (\<lambda>x. if a \<le> x \<and> x < a + length bs then Some (bs ! (x - a)) else m x)"

lemma write_bytes_eq:
  "write_bytes m a bs =
     (if mapped m a (length bs) then Inr (put_bytes m a bs) else Inl OutOfBounds)"
proof (induction bs arbitrary: m a)
  case Nil
  then show ?case by (auto simp: mapped_def put_bytes_def fun_eq_iff)
next
  case (Cons b bs)
  have "mapped (m(a \<mapsto> b)) (Suc a) (length bs) = mapped m (Suc a) (length bs)"
    by (simp add: mapped_def)
  moreover have "put_bytes (m(a \<mapsto> b)) (Suc a) bs = put_bytes m a (b # bs)"
    by (auto simp: put_bytes_def fun_eq_iff nth_Cons' Suc_diff_le split: if_splits)
  ultimately show ?case
    by (simp only: write_bytes.simps Cons length_Cons mapped_Suc) simp
qed

lemma mapped_put_bytes: "mapped m a n \<Longrightarrow> mapped (put_bytes m b bs) a n"
  by (simp add: mapped_def put_bytes_def)

lemma put_bytes_None:
  assumes "mapped m b (length bs)"
  shows "put_bytes m b bs x = None \<longleftrightarrow> m x = None"
proof (cases "b \<le> x \<and> x < b + length bs")
  case True
  then have "x - b < length bs" "b + (x - b) = x" by auto
  then have "m x \<noteq> None" using assms unfolding mapped_def by metis
  then show ?thesis using True by (simp add: put_bytes_def)
next
  case False
  then show ?thesis by (auto simp: put_bytes_def)
qed

lemma mapped_store64: "store64 m b v = Inr m' \<Longrightarrow> mapped m' a n = mapped m a n"
proof -
  assume "store64 m b v = Inr m'"
  then have "mapped m b (length (bytes_of 8 v))" and "m' = put_bytes m b (bytes_of 8 v)"
    by (simp_all add: store64_def write_bytes_eq split: if_splits)
  then show ?thesis
    using put_bytes_None unfolding mapped_def by metis
qed

lemma load64_put:
  assumes "mapped m a 8" and "v < W64"
  shows "load64 (put_bytes m a (bytes_of 8 v)) a = Inr v"
proof -
  let ?m = "put_bytes m a (bytes_of 8 v)"
  have "map (\<lambda>i. the (?m (a + i))) [0..<8] = bytes_of 8 v"
    by (rule nth_equalityI) (auto simp: put_bytes_def)
  then show ?thesis
    using mapped_put_bytes[OF assms(1)] assms(2)
    by (simp add: load64_def read_bytes_eq of_bytes_bytes_of W64_def)
qed

subsection \<open>The interface of a store of pointer cells\<close>

definition apart :: "nat \<Rightarrow> nat \<Rightarrow> bool" where
  "apart a b \<longleftrightarrow> a + 8 \<le> b \<or> b + 8 \<le> a"

lemma apart_sym: "apart a b \<Longrightarrow> apart b a"
  by (auto simp: apart_def)

lemma apart_neq: "apart a b \<Longrightarrow> a \<noteq> b"
  by (auto simp: apart_def)

locale cell_store =
  fixes load :: "'m \<Rightarrow> nat \<Rightarrow> nat res"
    and store :: "'m \<Rightarrow> nat \<Rightarrow> nat \<Rightarrow> 'm res"
    and cell :: "'m \<Rightarrow> nat \<Rightarrow> bool"
  assumes store_cell: "cell m a \<Longrightarrow> \<exists>m'. store m a v = Inr m'"
    and load_same: "store m a v = Inr m' \<Longrightarrow> v < W64 \<Longrightarrow> load m' a = Inr v"
    and load_apart: "store m a v = Inr m' \<Longrightarrow> apart a b \<Longrightarrow> load m' b = load m b"
    and cell_kept: "store m a v = Inr m' \<Longrightarrow> cell m' b = cell m b"
begin

text \<open>Filling pairwise disjoint cells: each holds its value, nothing else changes.\<close>

lemma fill_cells_by:
  assumes body: "\<And>i s. i < n \<Longrightarrow> load s (f i) = load m (f i) \<Longrightarrow> body i s = store s (f i) (g i)"
    and disj: "\<And>i j. i < n \<Longrightarrow> j < n \<Longrightarrow> i \<noteq> j \<Longrightarrow> apart (f i) (f j)"
    and cells: "\<And>i. i < n \<Longrightarrow> cell m (f i)"
    and vals: "\<And>i. i < n \<Longrightarrow> g i < W64"
  shows "wp (\<lambda>_. False)
    (\<lambda>m'. (\<forall>i<n. load m' (f i) = Inr (g i)) \<and>
          (\<forall>b. (\<forall>i<n. apart (f i) b) \<longrightarrow> load m' b = load m b) \<and> (\<forall>b. cell m' b = cell m b))
    (for_range n body m)"
proof -
  let ?I = "\<lambda>k m'. (\<forall>i<k. load m' (f i) = Inr (g i)) \<and>
    (\<forall>i. k \<le> i \<longrightarrow> i < n \<longrightarrow> load m' (f i) = load m (f i)) \<and>
    (\<forall>b. (\<forall>i<n. apart (f i) b) \<longrightarrow> load m' b = load m b) \<and> (\<forall>b. cell m' b = cell m b)"
  have step: "wp (\<lambda>_. False) (?I (Suc k)) (body k s)"
    if k: "k < n" and I: "?I k s" for k s
  proof -
    note I1 = I[THEN conjunct1, rule_format]
      and I2 = I[THEN conjunct2, THEN conjunct1, rule_format]
      and I3 = I[THEN conjunct2, THEN conjunct2, THEN conjunct1, rule_format]
      and I4 = I[THEN conjunct2, THEN conjunct2, THEN conjunct2, rule_format]
    obtain s' where s': "store s (f k) (g k) = Inr s'"
      using store_cell[of s "f k" "g k"] cells[OF k] I4 by blast
    have other: "load s' (f i) = load s (f i)" if "i < n" "i \<noteq> k" for i
      using load_apart[OF s' disj[of k i]] k that by blast
    have "load s' (f i) = Inr (g i)" if "i < Suc k" for i
      using that k I1[of i] other[of i] load_same[OF s' vals[OF k]] by (cases "i = k") auto
    moreover have "load s' (f i) = load m (f i)" if "Suc k \<le> i" "i < n" for i
      using that I2[of i] other[of i] by simp
    moreover have "load s' b = load m b" if "\<forall>i<n. apart (f i) b" for b
      using that I3[of b] load_apart[OF s', of b] k by simp
    moreover have "cell s' b = cell m b" for b
      using I4 cell_kept[OF s'] by simp
    ultimately show ?thesis
      using s' body[OF k I2[of k]] k by simp
  qed
  show ?thesis
    by (rule wp_for_rangeI[where I = ?I]) (simp, rule step, assumption+, simp)
qed

lemmas fill_cells = fill_cells_by[of n f m "\<lambda>i s. store s (f i) (g i)" g for n f m g, OF refl]

end

interpretation bytes: cell_store load64 store64 "\<lambda>m a. mapped m a 8"
proof unfold_locales
  fix m a v m' b
  show "\<exists>m'. store64 m a v = Inr m'" if "mapped m a 8"
    using that by (simp add: store64_def write_bytes_eq)
  assume st: "store64 m a v = Inr m'"
  then have m: "mapped m a 8" and m': "m' = put_bytes m a (bytes_of 8 v)"
    by (auto simp: store64_def write_bytes_eq split: if_splits)
  show "load64 m' a = Inr v" if "v < W64"
    using load64_put[OF m that] m' by simp
  show "load64 m' b = load64 m b" if "apart a b"
  proof -
    have "m' (b + i) = m (b + i)" if "i < 8" for i
      using that \<open>apart a b\<close> m' by (auto simp: put_bytes_def apart_def)
    then show ?thesis
      by (auto simp: load64_def read_bytes_eq mapped_store64[OF st] intro!: arg_cong[of _ _ of_bytes])
  qed
  show "mapped m' b 8 = mapped m b 8"
    by (rule mapped_store64[OF st])
qed

subsection \<open>Pointer cycles\<close>

text \<open>
  The cells \<open>as\<close>, starting at \<open>p\<close>, form one cycle: each holds the address of the next, the
  last the address of the first, and no cell occurs twice.
\<close>

definition chase_cycle :: "mem \<Rightarrow> nat \<Rightarrow> nat list \<Rightarrow> bool" where
  "chase_cycle m p as \<longleftrightarrow>
     as \<noteq> [] \<and> hd as = p \<and> distinct as \<and>
     (\<forall>k<length as. load64 m (as ! k) = Inr (as ! (Suc k mod length as)))"

primrec deref_n :: "mem \<Rightarrow> nat \<Rightarrow> nat \<Rightarrow> nat res" where
  "deref_n m p 0 = Inr p"
| "deref_n m p (Suc k) = rbind (load64 m p) (\<lambda>q. deref_n m q k)"

lemma deref_n_Suc2: "deref_n m p (Suc k) = rbind (deref_n m p k) (load64 m)"
proof (induction k arbitrary: p)
  case 0
  then show ?case by (cases "load64 m p") auto
next
  case (Suc k)
  then show ?case by (cases "load64 m p") auto
qed

lemma deref_n_add: "deref_n m p (j + k) = rbind (deref_n m p j) (\<lambda>q. deref_n m q k)"
proof (induction j arbitrary: p)
  case 0
  then show ?case by simp
next
  case (Suc j)
  then show ?case by (cases "load64 m p") auto
qed

lemma chase_cycleI:
  assumes "0 < n" and "inj_on f {..<n}"
    and "\<And>t. t < n \<Longrightarrow> load64 m (f t) = Inr (f (Suc t mod n))"
  shows "chase_cycle m (f 0) (map f [0..<n])"
  using assms by (simp add: chase_cycle_def hd_map distinct_map atLeast0LessThan)

lemma chase_cycle_deref:
  assumes "chase_cycle m p as"
  shows "deref_n m p k = Inr (as ! (k mod length as))"
proof (induction k)
  case 0
  then show ?case using assms by (auto simp: chase_cycle_def hd_conv_nth)
next
  case (Suc k)
  then show ?case
    using assms by (simp add: deref_n_Suc2 chase_cycle_def mod_Suc_eq del: deref_n.simps(2))
qed

lemma chase_cycle_returns:
  assumes "chase_cycle m p as"
  shows "deref_n m p k = Inr p \<longleftrightarrow> length as dvd k"
proof -
  have "as \<noteq> []" "hd as = p" "distinct as" using assms by (auto simp: chase_cycle_def)
  then have "as ! (k mod length as) = p \<longleftrightarrow> k mod length as = 0"
    using nth_eq_iff_index_eq[of as "k mod length as" 0] by (simp add: hd_conv_nth)
  then show ?thesis by (simp add: chase_cycle_deref[OF assms] dvd_eq_mod_eq_0)
qed

lemma chase_cycle_frame:
  assumes "chase_cycle m p as" and "\<And>a. a \<in> set as \<Longrightarrow> load64 m' a = load64 m a"
  shows "chase_cycle m' p as"
  using assms by (simp add: chase_cycle_def)

end
