(* ===== verification/Branch.thy ===== *)
theory Branch
  imports Memory "HOL-Library.Log_Nat"
begin

text \<open>
  \<open>br_asm.c\<close>: the pointers of a chase become code. In place of each pointer \<open>next\<close> the
  converter writes a block that loads \<open>next\<close> into a register and jumps to it, or, at the end of
  a chunk, returns it. The converter is written once for both architectures of the source, over
  the block an architecture emits (\<open>emitter\<close>); \<open>run_block\<close> is the machine on the instructions
  that occur. \<open>lround(log2(...))\<close> of the C library is the parameter \<open>lround_log2\<close>.
\<close>

subsection \<open>The length of the cycle\<close>

text \<open>\<open>cycle_len\<close>: the loop ends when it is back at \<open>p\<close>; \<open>count\<close> is an \<open>int\<close>.\<close>

partial_function (option) cycle_len_loop :: "mem \<Rightarrow> nat \<Rightarrow> nat \<Rightarrow> nat \<Rightarrow> nat res option" where
  "cycle_len_loop m p q cnt =
     (if 2 ^ 31 - 1 \<le> cnt then Some (Inl Undefined)
      else case load64 m q of
        Inl e \<Rightarrow> Some (Inl e)
      | Inr q' \<Rightarrow> if q' = p then Some (Inr (cnt + 1)) else cycle_len_loop m p q' (cnt + 1))"

definition cycle_len :: "mem \<Rightarrow> nat \<Rightarrow> nat res option" where
  "cycle_len m p = cycle_len_loop m p p 0"

lemma cycle_len_from:
  assumes "chase_cycle m p as" and "length as < 2 ^ 31" and "k < length as"
  shows "cycle_len_loop m p (as ! k) k = Some (Inr (length as))"
  using assms(3)
proof (induction "length as - k" arbitrary: k)
  case (Suc d)
  have c: "as \<noteq> []" "hd as = p" "distinct as" "load64 m (as ! k) = Inr (as ! (Suc k mod length as))"
    using assms(1) Suc.prems by (auto simp: chase_cycle_def)
  have "\<not> 2 ^ 31 - 1 \<le> k" using Suc.prems assms(2) by simp
  then have step: "cycle_len_loop m p (as ! k) k =
      (if as ! (Suc k mod length as) = p then Some (Inr (Suc k))
       else cycle_len_loop m p (as ! (Suc k mod length as)) (Suc k))"
    using c(4) by (subst cycle_len_loop.simps) simp
  have p: "as ! j = p \<longleftrightarrow> j = 0" if "j < length as" for j
    using that c nth_eq_iff_index_eq[of as j 0] by (auto simp: hd_conv_nth)
  show ?case
  proof (cases "Suc k = length as")
    case True
    then show ?thesis using step p[of 0] c by simp
  next
    case False
    then have "Suc k < length as" "d = length as - Suc k" using Suc by simp_all
    then show ?thesis using step p[of "Suc k"] Suc.hyps(1)[of "Suc k"] by simp
  qed
qed simp

lemma cycle_len_cycle:
  assumes "chase_cycle m p as" and "length as < 2 ^ 31"
  shows "cycle_len m p = Some (Inr (length as))"
proof -
  have "0 < length as" "as ! 0 = p" using assms(1) by (auto simp: chase_cycle_def hd_conv_nth)
  then show ?thesis using cycle_len_from[OF assms, of 0] by (simp add: cycle_len_def)
qed

subsection \<open>The converter\<close>

record emitter =
  br_code_len :: nat
  emit :: "nat \<Rightarrow> bool \<Rightarrow> 8 word list"

text \<open>Division of \<open>int\<close>s truncates towards zero.\<close>

definition div_int :: "int \<Rightarrow> int \<Rightarrow> int res" where
  "div_int a b = (if b = 0 then Inl DivByZero else Inr (sgn a * sgn b * (\<bar>a\<bar> div \<bar>b\<bar>)))"

text \<open>\<open>chunk_size\<close>: all of the cycle, or its length divided by a power of two.\<close>

definition base_chunk :: "(nat \<Rightarrow> nat \<Rightarrow> nat) \<Rightarrow> nat \<Rightarrow> nat \<Rightarrow> nat res" where
  "base_chunk lround_log2 remain chunk =
     (if remain < chunk then Inr remain
      else if 31 \<le> lround_log2 remain chunk then Inl Undefined
      else Inr (remain div 2 ^ lround_log2 remain chunk))"

text \<open>The bytes after the pointer must be free.\<close>

definition check_space :: "nat \<Rightarrow> mem \<Rightarrow> nat \<Rightarrow> unit res" where
  "check_space code_len m p =
     for_each [8..<code_len] (\<lambda>i _. case m (p + i) of
         None \<Rightarrow> Inl OutOfBounds
       | Some b \<Rightarrow> if b \<noteq> 0 then Inl (Exit 1) else Inr ()) ()"

text \<open>One round of the loop on the memory, \<open>remain\<close>, \<open>chunk_count\<close> and \<open>chunks_remaining\<close>.\<close>

type_synonym convert_state = "mem \<times> int \<times> int \<times> int"

definition convert_step :: "emitter \<Rightarrow> nat \<Rightarrow> convert_state \<Rightarrow> (nat \<times> convert_state) res" where
  "convert_step arch p st =
     (let (m, remain, chunk_count, chunks_remaining) = st in
      rbind (if chunk_count = 0 then div_int remain chunks_remaining else Inr chunk_count) (\<lambda>chunk_count.
      rbind (load64 m p) (\<lambda>nxt.
      rbind (check_space (br_code_len arch) m p) (\<lambda>_.
      let remain = remain - 1; chunk_count = chunk_count - 1; ret = (chunk_count = 0) in
      rbind (write_bytes m p (emit arch nxt ret)) (\<lambda>m.
      Inr (nxt, m, remain, chunk_count, if ret then chunks_remaining - 1 else chunks_remaining))))))"

partial_function (option) convert_loop ::
    "emitter \<Rightarrow> nat \<Rightarrow> nat \<Rightarrow> convert_state \<Rightarrow> mem res option" where
  "convert_loop arch head p st =
     (case convert_step arch p st of
        Inl e \<Rightarrow> Some (Inl e)
      | Inr (nxt, st') \<Rightarrow>
          if nxt = head then Some (Inr (fst st')) else convert_loop arch head nxt st')"

definition convert_pointers_to_branches ::
    "emitter \<Rightarrow> (nat \<Rightarrow> nat \<Rightarrow> nat) \<Rightarrow> nat \<Rightarrow> nat \<Rightarrow> mem \<Rightarrow> (nat \<times> mem) res option" where
  "convert_pointers_to_branches arch lround_log2 head chunk m =
     (case cycle_len m head of
        None \<Rightarrow> None
      | Some (Inl e) \<Rightarrow> Some (Inl e)
      | Some (Inr remain) \<Rightarrow>
          (case rbind (base_chunk lround_log2 remain chunk)
                  (\<lambda>c. rbind (div64 remain c) (\<lambda>chunks. Inr (c, chunks))) of
             Inl e \<Rightarrow> Some (Inl e)
           | Inr (c, chunks) \<Rightarrow>
               map_option (\<lambda>r. rbind r (\<lambda>m. Inr (c, m)))
                 (convert_loop arch head head (m, int remain, 0, int chunks))))"

subsection \<open>The plan of the chunks\<close>

text \<open>The flags the loop gives its blocks: does this one return?\<close>

fun chunk_plan :: "nat \<Rightarrow> nat \<Rightarrow> nat \<Rightarrow> bool list" where
  "chunk_plan 0 cnt chunks = []"
| "chunk_plan (Suc r) cnt chunks =
     (let c = (if cnt = 0 then Suc r div chunks else cnt) in
      (c = 1) # chunk_plan r (c - 1) (if c = 1 then chunks - 1 else chunks))"

text \<open>States the loop can reach: the current chunk fits, and leaves at least one block for each
  further chunk.\<close>

definition plan_ok :: "nat \<Rightarrow> nat \<Rightarrow> nat \<Rightarrow> bool" where
  "plan_ok r cnt chunks \<longleftrightarrow>
     (if cnt = 0 then (r = 0 \<longleftrightarrow> chunks = 0) \<and> chunks \<le> r
      else 0 < chunks \<and> cnt + (chunks - 1) \<le> r \<and> (chunks = 1 \<longrightarrow> cnt = r))"

lemma plan_count:
  assumes "plan_ok (Suc r) cnt chunks"
  defines "c \<equiv> if cnt = 0 then Suc r div chunks else cnt"
  shows "0 < c" "0 < chunks" "plan_ok r (c - 1) (if c = 1 then chunks - 1 else chunks)"
proof -
  show ch: "0 < chunks" using assms(1) by (auto simp: plan_ok_def split: if_splits)
  have le: "chunks \<le> Suc r" using assms(1) by (auto simp: plan_ok_def split: if_splits)
  show c: "0 < c" using ch le by (simp add: c_def div_greater_zero_iff)
  have fit: "c + (chunks - 1) \<le> Suc r" "chunks = 1 \<longrightarrow> c = Suc r"
  proof -
    show "chunks = 1 \<longrightarrow> c = Suc r" using assms(1) by (simp add: c_def plan_ok_def)
    show "c + (chunks - 1) \<le> Suc r"
    proof (cases "cnt = 0")
      case True
      have "chunks * c \<le> Suc r" using True by (simp add: c_def)
      moreover have "chunks * c = chunks * (c - 1) + chunks" using c by (cases c) simp_all
      moreover have "c - 1 \<le> chunks * (c - 1)" using ch by simp
      ultimately show ?thesis using c ch by linarith
    next
      case False
      then show ?thesis using assms(1) by (auto simp: c_def plan_ok_def)
    qed
  qed
  show "plan_ok r (c - 1) (if c = 1 then chunks - 1 else chunks)"
    using fit c ch by (auto simp: plan_ok_def)
qed

lemma length_chunk_plan [simp]: "length (chunk_plan r cnt chunks) = r"
  by (induction r cnt chunks rule: chunk_plan.induct) (auto simp: Let_def)

text \<open>There are \<open>chunks\<close> returns, and the last block is one.\<close>

lemma chunk_plan_returns:
  assumes "plan_ok r cnt chunks"
  shows "count_list (chunk_plan r cnt chunks) True = chunks \<and>
    (0 < r \<longrightarrow> last (chunk_plan r cnt chunks))"
  using assms
proof (induction r arbitrary: cnt chunks)
  case 0
  then show ?case by (auto simp: plan_ok_def split: if_splits)
next
  case (Suc r)
  define c where "c = (if cnt = 0 then Suc r div chunks else cnt)"
  define ch where "ch = (if c = 1 then chunks - 1 else chunks)"
  have P: "0 < c" "0 < chunks" "plan_ok r (c - 1) ch"
    using plan_count[OF Suc.prems] by (simp_all add: c_def ch_def)
  have IH: "count_list (chunk_plan r (c - 1) ch) True = ch" "0 < r \<longrightarrow> last (chunk_plan r (c - 1) ch)"
    using Suc.IH[OF P(3)] by auto
  have step: "chunk_plan (Suc r) cnt chunks = (c = 1) # chunk_plan r (c - 1) ch"
    by (simp only: chunk_plan.simps Let_def c_def ch_def)
  have "last (chunk_plan (Suc r) cnt chunks)"
  proof (cases "r = 0")
    case True
    have "c - 1 = 0" using P(3) True by (cases "c - 1 = 0") (simp_all add: plan_ok_def)
    then have "c = 1" using P(1) by simp
    then show ?thesis unfolding step using True by simp
  next
    case False
    then have "chunk_plan r (c - 1) ch \<noteq> []" by (metis length_chunk_plan list.size(3))
    then show ?thesis using IH(2) False by (simp add: step del: chunk_plan.simps)
  qed
  moreover have "count_list (chunk_plan (Suc r) cnt chunks) True = chunks"
    using IH(1) P(2) unfolding step by (cases "c = 1") (simp_all add: ch_def)
  ultimately show ?case by blast
qed

subsection \<open>What the converter writes\<close>

definition holds :: "mem \<Rightarrow> nat \<Rightarrow> 8 word list \<Rightarrow> bool" where
  "holds m p bs \<longleftrightarrow> (\<forall>k<length bs. m (p + k) = Some (bs ! k))"

text \<open>The cells are far enough apart for a block each, and hold a pointer and nothing else.\<close>

definition room_for_code :: "emitter \<Rightarrow> mem \<Rightarrow> nat list \<Rightarrow> bool" where
  "room_for_code arch m as \<longleftrightarrow>
     8 \<le> br_code_len arch \<and> (\<forall>nxt ret. length (emit arch nxt ret) \<le> br_code_len arch) \<and>
     (\<forall>i<length as. \<forall>j<length as. i \<noteq> j \<longrightarrow>
        as ! i + br_code_len arch \<le> as ! j \<or> as ! j + br_code_len arch \<le> as ! i) \<and>
     (\<forall>i<length as. \<forall>k. 8 \<le> k \<longrightarrow> k < br_code_len arch \<longrightarrow> m (as ! i + k) = Some 0)"

lemma check_space_ok:
  assumes "\<And>k. 8 \<le> k \<Longrightarrow> k < n \<Longrightarrow> m (p + k) = Some 0"
  shows "check_space n m p = Inr ()"
proof -
  have "for_each xs (\<lambda>i _. case m (p + i) of None \<Rightarrow> Inl OutOfBounds
      | Some b \<Rightarrow> if b \<noteq> 0 then Inl (Exit 1) else Inr ()) () = Inr ()"
    if "\<And>k. k \<in> set xs \<Longrightarrow> m (p + k) = Some 0" for xs
    using that by (induction xs) simp_all
  from this[of "[8..<n]"] show ?thesis unfolding check_space_def using assms by simp
qed

lemma check_space_taken:
  assumes "8 \<le> k" "k < n" "m (p + k) = Some b" "b \<noteq> 0"
    and "\<And>j. 8 \<le> j \<Longrightarrow> j < n \<Longrightarrow> m (p + j) \<noteq> None"
  shows "check_space n m p = Inl (Exit 1)"
proof -
  let ?body = "\<lambda>i _. case m (p + i) of None \<Rightarrow> Inl OutOfBounds
      | Some b \<Rightarrow> if b \<noteq> 0 then Inl (Exit 1) else Inr ()"
  have "for_each xs ?body () = Inl (Exit 1)"
    if "k \<in> set xs" "\<And>j. j \<in> set xs \<Longrightarrow> m (p + j) \<noteq> None" for xs
    using that
  proof (induction xs)
    case (Cons x xs)
    obtain y where y: "m (p + x) = Some y" using Cons.prems(2)[of x] by auto
    show ?case using Cons y assms(3,4) by (cases "y = 0") auto
  qed simp
  from this[of "[8..<n]"] show ?thesis unfolding check_space_def using assms(1,2,5) by simp
qed

lemma load64_cong:
  assumes "\<And>k. k < 8 \<Longrightarrow> m' (p + k) = m (p + k)"
  shows "load64 m' p = load64 m p"
  using assms by (auto simp: load64_def read_bytes_eq mapped_def intro!: arg_cong[of _ _ of_bytes])

text \<open>One round at cell \<open>i\<close> of the cycle.\<close>

lemma convert_step_cell:
  assumes plan: "plan_ok (Suc r) cnt ch"
    and room: "room_for_code arch m as" and i: "i < length as"
    and nxt: "load64 m (as ! i) = Inr q"
  defines "c \<equiv> if cnt = 0 then Suc r div ch else cnt"
  shows "convert_step arch (as ! i) (m, int (Suc r), int cnt, int ch) =
    Inr (q, put_bytes m (as ! i) (emit arch q (c = 1)), int r, int (c - 1),
         int (if c = 1 then ch - 1 else ch))"
proof -
  have c: "0 < c" "0 < ch" using plan_count[OF plan] by (simp_all add: c_def)
  have d: "(if int cnt = 0 then div_int (int (Suc r)) (int ch) else Inr (int cnt)) = Inr (int c)"
    using c by (simp add: div_int_def c_def zdiv_int del: of_nat_Suc)
  have sp: "check_space (br_code_len arch) m (as ! i) = Inr ()"
    using room i by (intro check_space_ok) (auto simp: room_for_code_def)
  have "\<exists>b. m (as ! i + k) = Some b" if "k < br_code_len arch" for k
  proof (cases "k < 8")
    case True
    have "mapped m (as ! i) 8" using nxt by (simp add: load64_def read_bytes_eq split: if_splits)
    then show ?thesis using True by (simp add: mapped_def)
  next
    case False
    then show ?thesis using room i that by (simp add: room_for_code_def)
  qed
  then have "mapped m (as ! i) (br_code_len arch)" unfolding mapped_def by blast
  then have "mapped m (as ! i) (length (emit arch q b))" for b
    using room by (auto simp: room_for_code_def elim: mapped_sub)
  then have w: "write_bytes m (as ! i) (emit arch q b) = Inr (put_bytes m (as ! i) (emit arch q b))" for b
    by (simp add: write_bytes_eq)
  show ?thesis
    unfolding convert_step_def prod.case Let_def d rbind.simps nxt sp w
    using c by (auto simp: of_nat_diff)
qed

text \<open>
  From cell \<open>i\<close> on: every cell gets its block, with the flag of the plan, and nothing outside
  the blocks changes.
\<close>

lemma convert_loop_cycle:
  assumes cyc: "chase_cycle m0 head as" and room: "room_for_code arch m0 as"
    and i: "i < length as" and r: "r = length as - i" and plan: "plan_ok r cnt ch"
    and same: "\<And>j k. i \<le> j \<Longrightarrow> j < length as \<Longrightarrow> k < br_code_len arch \<Longrightarrow>
      m (as ! j + k) = m0 (as ! j + k)"
  shows "\<exists>m'. convert_loop arch head (as ! i) (m, int r, int cnt, int ch) = Some (Inr m') \<and>
    (\<forall>j. i \<le> j \<longrightarrow> j < length as \<longrightarrow>
      holds m' (as ! j) (emit arch (as ! (Suc j mod length as)) (chunk_plan r cnt ch ! (j - i)))) \<and>
    (\<forall>x. (\<forall>j. i \<le> j \<longrightarrow> j < length as \<longrightarrow> x < as ! j \<or> as ! j + br_code_len arch \<le> x) \<longrightarrow> m' x = m x)"
  using assms(3-)
proof (induction r arbitrary: i cnt ch m)
  case (Suc r)
  let ?n = "length as" and ?L = "br_code_len arch"
  define c where "c = (if cnt = 0 then Suc r div ch else cnt)"
  define ch' where "ch' = (if c = 1 then ch - 1 else ch)"
  define q where "q = as ! (Suc i mod ?n)"
  define m1 where "m1 = put_bytes m (as ! i) (emit arch q (c = 1))"
  have L: "8 \<le> ?L" "\<And>q b. length (emit arch q b) \<le> ?L"
    and sep: "\<And>i j. i < ?n \<Longrightarrow> j < ?n \<Longrightarrow> i \<noteq> j \<Longrightarrow> as ! i + ?L \<le> as ! j \<or> as ! j + ?L \<le> as ! i"
    using room by (auto simp: room_for_code_def)
  have "load64 m (as ! i) = load64 m0 (as ! i)"
    using Suc.prems(1,4) L by (intro load64_cong) auto
  then have ld: "load64 m (as ! i) = Inr q"
    using cyc Suc.prems(1) by (simp add: chase_cycle_def q_def)
  have room': "room_for_code arch m [as ! i]"
    using room Suc.prems(1,4) by (auto simp: room_for_code_def)
  have step: "convert_step arch (as ! i) (m, int (Suc r), int cnt, int ch) =
      Inr (q, m1, int r, int (c - 1), int ch')"
    using convert_step_cell[OF Suc.prems(3) room', of 0 q] ld
    unfolding c_def ch'_def m1_def by simp
  have at_i: "holds m1 (as ! i) (emit arch q (c = 1))"
    by (simp add: holds_def m1_def put_bytes_def)
  have off: "m1 x = m x" if "x < as ! i \<or> as ! i + ?L \<le> x" for x
    using that L(2)[of q "c = 1"] by (auto simp: m1_def put_bytes_def)
  have head: "as ! j = head \<longleftrightarrow> j = 0" if "j < ?n" for j
    using that cyc nth_eq_iff_index_eq[of as j 0] by (auto simp: chase_cycle_def hd_conv_nth)
  have plan: "chunk_plan (Suc r) cnt ch = (c = 1) # chunk_plan r (c - 1) ch'"
    by (simp only: chunk_plan.simps Let_def c_def ch'_def)
  show ?case
  proof (cases "r = 0")
    case True
    then have last: "Suc i = ?n" using Suc.prems(1,2) by simp
    have "0 < ?n" using Suc.prems(1) by linarith
    then have "q = head" using head[of 0] last by (simp add: q_def)
    then have "convert_loop arch head (as ! i) (m, int (Suc r), int cnt, int ch) = Some (Inr m1)"
      by (subst convert_loop.simps) (simp only: step sum.case prod.case fst_conv if_True refl)
    moreover have "j = i" if "i \<le> j" "j < ?n" for j using that last by simp
    ultimately show ?thesis using at_i off plan Suc.prems(1) by (auto simp: q_def)
  next
    case False
    then have i': "Suc i < ?n" and q: "q = as ! Suc i" using Suc.prems(1,2) by (auto simp: q_def)
    have same': "m1 (as ! j + k) = m0 (as ! j + k)" if "Suc i \<le> j" "j < ?n" "k < ?L" for j k
      using that off[of "as ! j + k"] sep[of i j] Suc.prems(1) Suc.prems(4)[of j k] by fastforce
    have "plan_ok r (c - 1) ch'"
      using plan_count[OF Suc.prems(3)] by (simp add: c_def ch'_def)
    then obtain m' where m':
      "convert_loop arch head (as ! Suc i) (m1, int r, int (c - 1), int ch') = Some (Inr m')"
      and blocks: "\<And>j. Suc i \<le> j \<Longrightarrow> j < ?n \<Longrightarrow> holds m' (as ! j)
          (emit arch (as ! (Suc j mod ?n)) (chunk_plan r (c - 1) ch' ! (j - Suc i)))"
      and frame: "\<And>x. (\<And>j. Suc i \<le> j \<Longrightarrow> j < ?n \<Longrightarrow> x < as ! j \<or> as ! j + ?L \<le> x) \<Longrightarrow> m' x = m1 x"
      using Suc.IH[of "Suc i" "c - 1" ch' m1] i' Suc.prems(2) same' by fastforce
    have "q \<noteq> head" using head[of "Suc i"] i' q by simp
    then have "convert_loop arch head (as ! i) (m, int (Suc r), int cnt, int ch) = Some (Inr m')"
      using m' q by (subst convert_loop.simps) (simp only: step sum.case prod.case if_False)
    moreover have "holds m' (as ! j) (emit arch (as ! (Suc j mod ?n)) (chunk_plan (Suc r) cnt ch ! (j - i)))"
      if j: "i \<le> j" "j < ?n" for j
    proof (cases "j = i")
      case True
      have "m' (as ! i + k) = m1 (as ! i + k)" if "k < length (emit arch q (c = 1))" for k
      proof (rule frame)
        fix j assume "Suc i \<le> j" "j < ?n"
        then show "as ! i + k < as ! j \<or> as ! j + ?L \<le> as ! i + k"
          using that L(2)[of q "c = 1"] sep[of i j] Suc.prems(1) by fastforce
      qed
      then have "holds m' (as ! i) (emit arch q (c = 1))" using at_i by (simp add: holds_def)
      then show ?thesis by (simp only: True plan diff_self_eq_0 nth_Cons_0 q_def)
    next
      case False
      then have "j - i = Suc (j - Suc i)" using j by simp
      then show ?thesis using blocks[of j] False j by (simp only: plan nth_Cons_Suc)
    qed
    moreover have "m' x = m x"
      if "\<forall>j. i \<le> j \<longrightarrow> j < ?n \<longrightarrow> x < as ! j \<or> as ! j + ?L \<le> x" for x
      using that frame[of x] off[of x] Suc.prems(1) by simp
    ultimately show ?thesis by blast
  qed
qed simp

lemma convert_cycle:
  assumes cyc: "chase_cycle m head as" and room: "room_for_code arch m as"
    and len: "length as < 2 ^ 31" and base: "base_chunk lround_log2 (length as) chunk = Inr c" "0 < c"
      "c \<le> length as"
  defines "plan \<equiv> chunk_plan (length as) 0 (length as div c)"
  shows "\<exists>m'. convert_pointers_to_branches arch lround_log2 head chunk m = Some (Inr (c, m')) \<and>
    (\<forall>j<length as. holds m' (as ! j) (emit arch (as ! (Suc j mod length as)) (plan ! j))) \<and>
    (\<forall>x. (\<forall>a\<in>set as. x < a \<or> a + br_code_len arch \<le> x) \<longrightarrow> m' x = m x)"
proof -
  let ?n = "length as"
  have n: "0 < ?n" "as ! 0 = head" using cyc by (auto simp: chase_cycle_def hd_conv_nth)
  have "plan_ok ?n 0 (?n div c)"
    using base(2,3) n by (auto simp: plan_ok_def div_eq_0_iff)
  then obtain m' where m': "convert_loop arch head head (m, int ?n, 0, int (?n div c)) = Some (Inr m')"
    "\<And>j. j < ?n \<Longrightarrow> holds m' (as ! j) (emit arch (as ! (Suc j mod ?n)) (plan ! j))"
    "\<And>x. (\<And>j. j < ?n \<Longrightarrow> x < as ! j \<or> as ! j + br_code_len arch \<le> x) \<Longrightarrow> m' x = m x"
    using convert_loop_cycle[OF cyc room n(1), of ?n 0 "?n div c" m] n unfolding plan_def by auto
  have "m' x = m x" if "\<forall>a\<in>set as. x < a \<or> a + br_code_len arch \<le> x" for x
    using m'(3)[of x] that nth_mem by blast
  moreover have "convert_pointers_to_branches arch lround_log2 head chunk m = Some (Inr (c, m'))"
    using m'(1) base cycle_len_cycle[OF cyc len] by (simp add: convert_pointers_to_branches_def)
  ultimately show ?thesis using m'(2) by blast
qed

subsection \<open>Running the code\<close>

datatype event = Goto nat nat | Return nat

text \<open>
  \<open>step m pc reg\<close> executes one instruction with \<open>reg\<close> in the register the code uses; \<open>run\<close> goes
  on until the code returns, for at most \<open>fuel\<close> instructions.
\<close>

type_synonym machine = "mem \<Rightarrow> nat \<Rightarrow> nat \<Rightarrow> event res"

primrec run :: "machine \<Rightarrow> mem \<Rightarrow> nat \<Rightarrow> nat \<Rightarrow> nat \<Rightarrow> nat res option" where
  "run step m 0 pc reg = None"
| "run step m (Suc fuel) pc reg =
     (case step m pc reg of
        Inl e \<Rightarrow> Some (Inl e)
      | Inr (Return v) \<Rightarrow> Some (Inr v)
      | Inr (Goto pc' reg') \<Rightarrow> run step m fuel pc' reg')"

text \<open>\<open>p = ((void *(*)(size_t))p)(sum)\<close>, \<open>n\<close> times.\<close>

primrec calls :: "machine \<Rightarrow> mem \<Rightarrow> nat \<Rightarrow> nat \<Rightarrow> nat \<Rightarrow> nat res option" where
  "calls step m fuel 0 p = Some (Inr p)"
| "calls step m fuel (Suc n) p =
     (case run step m fuel p 0 of
        None \<Rightarrow> None
      | Some (Inl e) \<Rightarrow> Some (Inl e)
      | Some (Inr q) \<Rightarrow> calls step m fuel n q)"

text \<open>The block at which a call that starts with block \<open>i\<close> returns.\<close>

definition chunk_end :: "bool list \<Rightarrow> nat \<Rightarrow> nat" where
  "chunk_end plan i = i + length (takeWhile Not (drop i plan))"

lemma chunk_end:
  assumes "i < length plan" and "last plan"
  shows "i \<le> chunk_end plan i" "chunk_end plan i < length plan" "plan ! chunk_end plan i"
    "i \<le> j \<Longrightarrow> j < chunk_end plan i \<Longrightarrow> \<not> plan ! j"
    "count_list (drop i plan) True = Suc (count_list (drop (Suc (chunk_end plan i)) plan) True)"
proof -
  let ?t = "takeWhile Not (drop i plan)" and ?d = "dropWhile Not (drop i plan)"
  have "last (drop i plan)" using assms by simp
  then have "?d \<noteq> []" using assms(1)
    by (metis dropWhile_eq_Nil_conv drop_eq_Nil last_in_set linorder_not_le)
  then have d: "?d \<noteq> []" "hd ?d" using hd_dropWhile[of Not "drop i plan"] by auto
  have split: "drop i plan = ?t @ hd ?d # tl ?d" using d(1) by simp
  from arg_cong[OF split, of length] have "length ?t < length (drop i plan)"
    by (simp only: length_append list.size)
  then show "chunk_end plan i < length plan" by (simp add: chunk_end_def less_diff_conv)
  show "i \<le> chunk_end plan i" by (simp add: chunk_end_def)
  have "drop i plan ! length ?t = hd ?d" by (subst split) (rule nth_append_length)
  then show "plan ! chunk_end plan i" using d(2) assms(1) by (simp add: chunk_end_def)
  show "\<not> plan ! j" if "i \<le> j" "j < chunk_end plan i"
  proof -
    have j: "j - i < length ?t" using that by (simp add: chunk_end_def)
    then have "Not (?t ! (j - i))" using set_takeWhileD[OF nth_mem[OF j]] by simp
    then show ?thesis using j that assms(1) by (simp add: takeWhile_nth)
  qed
  have "drop (Suc (chunk_end plan i)) plan = drop (Suc (length ?t)) (drop i plan)"
    by (simp add: chunk_end_def add.commute)
  also have "\<dots> = tl ?d" by (subst split) simp
  finally have rest: "drop (Suc (chunk_end plan i)) plan = tl ?d" .
  have "True \<notin> set ?t" using set_takeWhileD by force
  then have "count_list ?t True = 0" by (rule count_notin)
  moreover have "count_list (drop i plan) True = count_list ?t True + count_list (hd ?d # tl ?d) True"
    by (subst split) (rule count_list_append)
  ultimately show "count_list (drop i plan) True = Suc (count_list (drop (Suc (chunk_end plan i)) plan) True)"
    using d(2) rest by simp
qed

text \<open>
  What the converter needs of an architecture: blocks that fit, and a processor on which a
  block goes to the next one, or returns it, in at most \<open>steps\<close> instructions. \<open>fits\<close> bounds the
  addresses the block can hold.
\<close>

locale branch_code =
  fixes arch :: emitter and step :: machine and steps :: nat and fits :: "nat \<Rightarrow> bool"
  assumes room_for_pointer: "8 \<le> br_code_len arch"
    and emit_length: "length (emit arch q ret) \<le> br_code_len arch"
    and emit_jumps: "holds m p (emit arch q False) \<Longrightarrow> fits q \<Longrightarrow>
      run step m (steps + n) p reg = run step m n q q"
    and emit_returns: "holds m p (emit arch q True) \<Longrightarrow> fits q \<Longrightarrow>
      run step m (steps + n) p reg = Some (Inr q)"
begin

lemma run_chunk:
  assumes blocks: "\<And>j. j < length as \<Longrightarrow> holds m (as ! j) (emit arch (as ! (Suc j mod length as)) (plan ! j))"
    and fits: "\<And>a. a \<in> set as \<Longrightarrow> fits a" and i: "i \<le> e" and e: "e < length as" "plan ! e"
    and before: "\<And>j. i \<le> j \<Longrightarrow> j < e \<Longrightarrow> \<not> plan ! j"
  shows "run step m (steps * (Suc e - i) + n) (as ! i) reg = Some (Inr (as ! (Suc e mod length as)))"
  using i before
proof (induction "e - i" arbitrary: i reg)
  case 0
  then have "i = e" by simp
  have "Suc e mod length as < length as" using e by (intro mod_less_divisor) linarith
  then show ?case
    using emit_returns[OF _ fits, of m "as ! e" _ n reg] blocks[of e] e \<open>i = e\<close> by simp
next
  case (Suc d)
  then have ie: "i < e" "d = e - Suc i" "\<not> plan ! i" by auto
  have b: "holds m (as ! i) (emit arch (as ! Suc i) False)" using blocks[of i] ie e by simp
  have "Suc e - i = Suc (Suc e - Suc i)" using ie by simp
  then have "steps * (Suc e - i) + n = steps + (steps * (Suc e - Suc i) + n)"
    by (simp only: mult_Suc_right add.assoc)
  then show ?case
    using Suc.hyps(1)[OF ie(2), of "as ! Suc i"] Suc.prems(2) ie e
      emit_jumps[OF b fits, of "steps * (Suc e - Suc i) + n" reg] by (simp add: add.assoc)
qed

lemma calls_lap:
  assumes blocks: "\<And>j. j < length as \<Longrightarrow> holds m (as ! j) (emit arch (as ! (Suc j mod length as)) (plan ! j))"
    and fits: "\<And>a. a \<in> set as \<Longrightarrow> fits a" and len: "length plan = length as" "last plan"
    and i: "i < length as" and fuel: "steps * length as \<le> fuel"
  shows "calls step m fuel (count_list (drop i plan) True) (as ! i) = Some (Inr (as ! 0))"
  using i
proof (induction "length as - i" arbitrary: i rule: less_induct)
  case less
  define e where "e = chunk_end plan i"
  have E: "i \<le> e" "e < length as" "plan ! e" "\<And>j. i \<le> j \<Longrightarrow> j < e \<Longrightarrow> \<not> plan ! j"
    "count_list (drop i plan) True = Suc (count_list (drop (Suc e) plan) True)"
    using chunk_end[of i plan] less.prems len by (auto simp: e_def)
  have "steps * (Suc e - i) \<le> steps * length as" using E by (intro mult_le_mono2) simp
  then have "steps * (Suc e - i) + (fuel - steps * (Suc e - i)) = fuel" using fuel by linarith
  then have "run step m fuel (as ! i) 0 = Some (Inr (as ! (Suc e mod length as)))"
    using run_chunk[of as m plan i e "fuel - steps * (Suc e - i)" 0, OF blocks fits E(1-4)] by simp
  then have next_call: "calls step m fuel (count_list (drop i plan) True) (as ! i) =
      calls step m fuel (count_list (drop (Suc e) plan) True) (as ! (Suc e mod length as))"
    by (simp add: E(5))
  show ?case
  proof (cases "Suc e = length as")
    case True
    then show ?thesis using len next_call by simp
  next
    case False
    then have "Suc e < length as" using E by simp
    then show ?thesis using less.hyps[of "Suc e"] E(1) next_call by simp
  qed
qed

end

subsection \<open>x86-64\<close>

definition x64_emit_mov_imm64_rax :: "nat \<Rightarrow> 8 word list" where
  "x64_emit_mov_imm64_rax imm64 =
     [0x48, 0xb8] @ map (\<lambda>i. of_nat (drop_bit (8 * i) imm64)) [0..<8]"

definition x64_emit_jmp_to_rax :: "8 word list" where
  "x64_emit_jmp_to_rax = [0xff, 0xe0]"

definition x64_emit_ret :: "8 word list" where
  "x64_emit_ret = [0xc3]"

definition x64 :: emitter where
  "x64 = \<lparr>br_code_len = 12,
     emit = (\<lambda>nxt ret. x64_emit_mov_imm64_rax nxt @ (if ret then x64_emit_ret else x64_emit_jmp_to_rax))\<rparr>"

text \<open>\<open>movabs imm64, %rax\<close>, \<open>jmp *%rax\<close> and \<open>ret\<close> with the result in \<open>rax\<close>.\<close>

definition x64_step :: machine where
  "x64_step m pc rax =
     (case (m pc, m (pc + 1)) of
        (Some op, arg) \<Rightarrow>
          if op = 0xc3 then Inr (Return rax)
          else if op = 0x48 \<and> arg = Some 0xb8
            then rbind (load64 m (pc + 2)) (\<lambda>imm. Inr (Goto (pc + 10) imm))
          else if op = 0xff \<and> arg = Some 0xe0 then Inr (Goto rax rax)
          else Inl Undefined
      | _ \<Rightarrow> Inl OutOfBounds)"

lemma bytes_of_shifts: "bytes_of k v = map (\<lambda>i. of_nat (drop_bit (8 * i) v)) [0..<k]"
proof (induction k arbitrary: v)
  case (Suc k)
  have "map (\<lambda>i. of_nat (drop_bit (8 * i) v)) [0..<Suc k] =
    of_nat v # map (\<lambda>i. of_nat (drop_bit (8 * i) (v div 256)) :: 8 word) [0..<k]"
    by (subst upt_conv_Cons)
      (simp_all add: drop_bit_eq_div power_add div_mult2_eq del: upt_Suc flip: map_Suc_upt)
  then show ?case using Suc[of "v div 256"] by simp
qed simp

lemma holds_append: "holds m p (xs @ ys) \<longleftrightarrow> holds m p xs \<and> holds m (p + length xs) ys"
proof
  assume h: "holds m p (xs @ ys)"
  have "m (p + length xs + k) = Some (ys ! k)" if "k < length ys" for k
    using h[unfolded holds_def, rule_format, of "length xs + k"] that by (simp add: add.assoc)
  moreover have "m (p + k) = Some (xs ! k)" if "k < length xs" for k
    using h[unfolded holds_def, rule_format, of k] that by (simp add: nth_append)
  ultimately show "holds m p xs \<and> holds m (p + length xs) ys" by (simp add: holds_def)
next
  assume h: "holds m p xs \<and> holds m (p + length xs) ys"
  show "holds m p (xs @ ys)" unfolding holds_def
  proof (intro allI impI)
    fix k assume k: "k < length (xs @ ys)"
    show "m (p + k) = Some ((xs @ ys) ! k)"
    proof (cases "k < length xs")
      case True
      then show ?thesis using h by (simp add: holds_def nth_append)
    next
      case False
      then have "p + k = p + length xs + (k - length xs)" "k - length xs < length ys" using k by auto
      then show ?thesis using h False unfolding holds_def by (metis nth_append)
    qed
  qed
qed

lemma holds_Cons: "holds m p (b # bs) \<longleftrightarrow> m p = Some b \<and> holds m (p + 1) bs"
  using holds_append[of m p "[b]" bs] by (simp add: holds_def)

lemma holds_Nil: "holds m p []"
  by (simp add: holds_def)

lemma holds_read: "holds m p bs \<Longrightarrow> read_bytes m p (length bs) = Inr bs"
  by (induction bs arbitrary: p) (simp_all add: holds_Cons)

lemma holds_load64: "holds m p (bytes_of 8 v) \<Longrightarrow> v < W64 \<Longrightarrow> load64 m p = Inr v"
  using holds_read[of m p "bytes_of 8 v"] by (simp add: load64_def of_bytes_bytes_of W64_def)

lemma x64_block:
  assumes "holds m p (x64_emit_mov_imm64_rax q @ rest)" and "q < W64"
  shows "x64_step m p reg = Inr (Goto (p + 10) q)" "holds m (p + 10) rest"
proof -
  have mov: "x64_emit_mov_imm64_rax q = 0x48 # 0xb8 # bytes_of 8 q"
    by (simp only: x64_emit_mov_imm64_rax_def bytes_of_shifts append.simps)
  have h: "m p = Some 0x48" "m (p + 1) = Some 0xb8" "holds m (p + 2) (bytes_of 8 q)"
    "holds m (p + 10) rest"
    using assms(1) unfolding mov
    by (simp_all add: holds_Cons holds_append add.commute[of 10] del: bytes_of.simps)
  show "x64_step m p reg = Inr (Goto (p + 10) q)" "holds m (p + 10) rest"
    using h holds_load64[OF h(3) assms(2)] by (simp_all add: x64_step_def)
qed

interpretation x64: branch_code x64 x64_step 2 "\<lambda>q. q < W64"
proof unfold_locales
  show "8 \<le> br_code_len x64" by (simp add: x64_def)
  show "length (emit x64 q ret) \<le> br_code_len x64" for q ret
    by (simp add: x64_def x64_emit_mov_imm64_rax_def x64_emit_ret_def x64_emit_jmp_to_rax_def)
  fix m :: mem and p q n reg :: nat assume q: "q < W64"
  show "run x64_step m (2 + n) p reg = run x64_step m n q q" if "holds m p (emit x64 q False)"
  proof -
    note B = x64_block[OF _ q, of m p x64_emit_jmp_to_rax]
    have h: "holds m p (x64_emit_mov_imm64_rax q @ x64_emit_jmp_to_rax)" using that by (simp add: x64_def)
    have "x64_step m (p + 10) q = Inr (Goto q q)"
      using B(2)[OF h] by (simp add: x64_step_def x64_emit_jmp_to_rax_def holds_Cons)
    then show ?thesis using B(1)[OF h] by simp
  qed
  show "run x64_step m (2 + n) p reg = Some (Inr q)" if "holds m p (emit x64 q True)"
  proof -
    note B = x64_block[OF _ q, of m p x64_emit_ret]
    have h: "holds m p (x64_emit_mov_imm64_rax q @ x64_emit_ret)" using that by (simp add: x64_def)
    have "x64_step m (p + 10) q = Inr (Return q)"
      using B(2)[OF h] by (simp add: x64_step_def x64_emit_ret_def holds_Cons)
    then show ?thesis using B(1)[OF h] by simp
  qed
qed

subsection \<open>AArch64\<close>

definition rbits :: "64 word \<Rightarrow> nat \<Rightarrow> 64 word" where
  "rbits val rmask = val AND (push_bit rmask 1 - 1)"

definition rmask_lsh :: "64 word \<Rightarrow> nat \<Rightarrow> nat \<Rightarrow> 64 word" where
  "rmask_lsh val rmask left_shift = push_bit left_shift (val AND (push_bit rmask 1 - 1))"

text \<open>An instruction is stored as a 32-bit word, the low half of the encoder's \<open>uint64_t\<close>.\<close>

definition emit_word :: "64 word \<Rightarrow> 8 word list" where
  "emit_word w = bytes_of 4 (unat (ucast w :: 32 word))"

definition arm_emit_br :: "64 word \<Rightarrow> 8 word list" where
  "arm_emit_br rs = emit_word (0b11010110000111110000000000000000 OR rmask_lsh rs 5 5)"

definition arm_emit_movk :: "64 word \<Rightarrow> 64 word \<Rightarrow> 64 word \<Rightarrow> 8 word list" where
  "arm_emit_movk rd imm16 shift16 =
     emit_word (push_bit 23 0b111100101 OR rmask_lsh shift16 16 21 OR rmask_lsh imm16 16 5 OR
       rmask_lsh rd 5 0)"

definition arm_emit_movz :: "64 word \<Rightarrow> 64 word \<Rightarrow> 64 word \<Rightarrow> 8 word list" where
  "arm_emit_movz rd imm16 shift16 =
     emit_word (push_bit 23 0b110100101 OR rmask_lsh shift16 16 21 OR rmask_lsh imm16 16 5 OR
       rmask_lsh rd 5 0)"

definition arm_emit_ret :: "8 word list" where
  "arm_emit_ret = emit_word 0xd65f03c0"

definition aarch64 :: emitter where
  "aarch64 = \<lparr>br_code_len = 16,
     emit = (\<lambda>nxt ret. let p = of_nat nxt :: 64 word in
       arm_emit_movz 0 (rbits p 16) 0 @
       arm_emit_movk 0 (rbits (drop_bit 16 p) 16) 1 @
       arm_emit_movk 0 (rbits (drop_bit 32 p) 16) 2 @
       (if ret then arm_emit_ret else arm_emit_br 0))\<rparr>"

text \<open>
  \<open>ret\<close>, \<open>br x0\<close>, \<open>movz x0, #imm, lsl #16*hw\<close> and \<open>movk x0, #imm, lsl #16*hw\<close>: bits 0 to 4
  are the register, 5 to 20 the immediate, 21 and 22 \<open>hw\<close>.
\<close>

definition arm_step :: machine where
  "arm_step m pc x0 =
     rbind (read_bytes m pc 4) (\<lambda>bs.
       let w = of_nat (of_bytes bs) :: 32 word;
           imm = ucast (take_bit 16 (drop_bit 5 w)) :: 64 word;
           hw = unat (take_bit 2 (drop_bit 21 w)) in
       if w = 0xd65f03c0 then Inr (Return x0)
       else if w = 0xd61f0000 then Inr (Goto x0 x0)
       else if drop_bit 23 w = 0b110100101 \<and> take_bit 5 w = 0
         then Inr (Goto (pc + 4) (unat (push_bit (16 * hw) imm)))
       else if drop_bit 23 w = 0b111100101 \<and> take_bit 5 w = 0
         then Inr (Goto (pc + 4)
           (unat ((of_nat x0 AND NOT (push_bit (16 * hw) 0xffff)) OR push_bit (16 * hw) imm)))
       else Inl Undefined)"

lemma rbits_eq: "rbits v k = take_bit k v"
  unfolding rbits_def by (simp add: take_bit_eq_mask mask_eq_exp_minus_1 push_bit_of_1)

lemma rmask_lsh_eq: "rmask_lsh v k l = push_bit l (take_bit k v)"
  unfolding rmask_lsh_def by (simp add: take_bit_eq_mask mask_eq_exp_minus_1 push_bit_of_1)

lemma length_emit_word [simp]: "length (emit_word w) = 4"
  by (simp add: emit_word_def)

lemma holds_emit_word:
  assumes "holds m p (emit_word w)"
  shows "\<exists>bs. read_bytes m p 4 = Inr bs \<and> of_nat (of_bytes bs) = (ucast w :: 32 word)"
proof -
  have "unat (ucast w :: 32 word) < 256 ^ 4"
    using unsigned_less[of "ucast w :: 32 word", where ?'a = nat] by simp
  then have "of_bytes (emit_word w) = unat (ucast w :: 32 word)"
    by (simp only: emit_word_def of_bytes_bytes_of mod_less)
  then show ?thesis using holds_read[OF assms] by simp
qed

lemma move_fields:
  fixes c s imm :: "64 word"
  assumes c: "take_bit 9 c = c" and s: "take_bit 2 s = s"
  defines "w \<equiv> ucast (push_bit 23 c OR rmask_lsh s 16 21 OR rmask_lsh imm 16 5 OR rmask_lsh 0 5 0) :: 32 word"
  shows "drop_bit 23 w = ucast c" "take_bit 5 w = 0" "take_bit 2 (drop_bit 21 w) = ucast s"
    "take_bit 16 (drop_bit 5 w) = ucast (take_bit 16 imm)"
proof -
  have cb: "\<not> bit c n" if "9 \<le> n" for n using c that by (metis bit_take_bit_iff linorder_not_le)
  have sb: "\<not> bit s n" if "2 \<le> n" for n using s that by (metis bit_take_bit_iff linorder_not_le)
  have w: "bit w n \<longleftrightarrow> n < 32 \<and> (23 \<le> n \<and> bit c (n - 23) \<or> 21 \<le> n \<and> bit s (n - 21) \<or>
      5 \<le> n \<and> n < 21 \<and> bit imm (n - 5))" for n
    using sb[of "n - 21"] by (auto simp: w_def rmask_lsh_eq bit_simps)
  have "n < 9" if "bit c n" for n using cb[of n] that by linarith
  then show "drop_bit 23 w = ucast c"
    by (intro bit_word_eqI) (use sb in \<open>auto simp: bit_simps w\<close>)
  have sb': "n < 2" if "bit s n" for n using sb[of n] that by linarith
  show "take_bit 5 w = 0"
    by (rule bit_word_eqI) (auto simp: bit_simps w)
  show "take_bit 2 (drop_bit 21 w) = ucast s"
    by (rule bit_word_eqI) (auto simp: bit_simps w dest: sb')
  show "take_bit 16 (drop_bit 5 w) = ucast (take_bit 16 imm)"
    by (rule bit_word_eqI) (auto simp: bit_simps w)
qed

text \<open>The instructions of a block, and the pointer they put together.\<close>

lemma arm_move:
  fixes c s imm :: "64 word"
  assumes h: "holds m p (emit_word (push_bit 23 c OR rmask_lsh s 16 21 OR rmask_lsh imm 16 5 OR rmask_lsh 0 5 0))"
    and s: "s \<in> {0, 1, 2}" and c: "c \<in> {0b110100101, 0b111100101}"
  shows "arm_step m p reg = Inr (Goto (p + 4)
    (if c = 0b110100101 then unat (push_bit (16 * unat s) (take_bit 16 imm))
     else unat ((of_nat reg AND NOT (push_bit (16 * unat s) 0xffff)) OR push_bit (16 * unat s) (take_bit 16 imm))))"
proof -
  define w where "w = (ucast (push_bit 23 c OR rmask_lsh s 16 21 OR rmask_lsh imm 16 5 OR rmask_lsh 0 5 0) :: 32 word)"
  have F: "drop_bit 23 w = ucast c" "take_bit 5 w = 0" "take_bit 2 (drop_bit 21 w) = ucast s"
    "take_bit 16 (drop_bit 5 w) = ucast (take_bit 16 imm)"
    using move_fields[of c s imm] s c unfolding w_def by auto
  have ne: "w \<noteq> 0xd65f03c0" "w \<noteq> 0xd61f0000"
    using F(1) c by auto
  have hw: "unat (take_bit 2 (drop_bit 21 w)) = unat s"
    unfolding F(3) using s by auto
  have imm: "ucast (take_bit 16 (drop_bit 5 w)) = take_bit 16 imm"
    unfolding F(4) by (rule bit_word_eqI) (auto simp: bit_simps)
  obtain bs where bs: "read_bytes m p 4 = Inr bs" "of_nat (of_bytes bs) = w"
    using holds_emit_word[OF h] unfolding w_def by blast
  have c': "ucast (0b110100101 :: 64 word) = (0b110100101 :: 32 word)"
    "ucast (0b111100101 :: 64 word) = (0b111100101 :: 32 word)" by simp_all
  show ?thesis
    using c unfolding arm_step_def bs rbind.simps Let_def hw imm F(1,2)
    using ne by (elim insertE emptyE) (simp_all only: c', simp_all)
qed

lemma arm_end:
  shows "holds m p arm_emit_ret \<Longrightarrow> arm_step m p reg = Inr (Return reg)"
    and "holds m p (arm_emit_br 0) \<Longrightarrow> arm_step m p reg = Inr (Goto reg reg)"
  using holds_emit_word[of m p "0xd65f03c0"]
    holds_emit_word[of m p "0b11010110000111110000000000000000 OR rmask_lsh 0 5 5"]
  by (auto simp: arm_emit_ret_def arm_emit_br_def arm_step_def rmask_lsh_eq)

lemma pointer_parts:
  fixes p :: "64 word"
  assumes "take_bit 48 p = p"
  shows "((take_bit 16 p AND NOT (push_bit 16 0xffff)) OR push_bit 16 (take_bit 16 (drop_bit 16 p)))
      AND NOT (push_bit 32 0xffff) OR push_bit 32 (take_bit 16 (drop_bit 32 p)) = p"
proof -
  have m: "push_bit k 0xffff = push_bit k (mask 16 :: 64 word)" for k by (simp add: mask_eq_exp_minus_1)
  show ?thesis
    unfolding m
  proof (rule bit_word_eqI)
    fix n assume "n < LENGTH(64)"
    have "n < 48" if "bit p n" using assms that by (metis bit_take_bit_iff)
    then show "bit (((take_bit 16 p AND NOT (push_bit 16 (mask 16))) OR
        push_bit 16 (take_bit 16 (drop_bit 16 p))) AND NOT (push_bit 32 (mask 16)) OR
        push_bit 32 (take_bit 16 (drop_bit 32 p))) n = bit p n"
      using \<open>n < LENGTH(64)\<close>
      by (cases "n < 16"; cases "n < 32"; cases "n < 48") (auto simp: bit_simps)
  qed
qed

lemma arm_block:
  assumes h: "holds m p (emit aarch64 q ret)" and q: "q < 2 ^ 48"
  shows "run arm_step m (4 + n) p reg = (if ret then Some (Inr q) else run arm_step m n q q)"
proof -
  let ?p = "of_nat q :: 64 word"
  have unat_p: "unat ?p = q" using q by (simp add: unat_of_nat)
  have p48: "take_bit 48 ?p = ?p"
    by (rule unsigned_word_eqI[where ?'a = nat]) (simp add: unsigned_take_bit_eq unat_p take_bit_nat_eq_self[OF q])
  have parts: "rbits ?p 16 = take_bit 16 ?p" "take_bit 16 (rbits x 16) = take_bit 16 x" for x
    by (simp_all add: rbits_eq)
  let ?x1 = "unat (take_bit 16 ?p)"
  let ?x2 = "unat ((of_nat ?x1 AND NOT (push_bit 16 0xffff)) OR push_bit 16 (take_bit 16 (drop_bit 16 ?p)))"
  let ?x3 = "unat ((of_nat ?x2 AND NOT (push_bit 32 0xffff)) OR push_bit 32 (take_bit 16 (drop_bit 32 ?p)))"
  have H: "holds m p (arm_emit_movz 0 (rbits ?p 16) 0)"
    "holds m (p + 4) (arm_emit_movk 0 (rbits (drop_bit 16 ?p) 16) 1)"
    "holds m (p + 4 + 4) (arm_emit_movk 0 (rbits (drop_bit 32 ?p) 16) 2)"
    "holds m (p + 4 + 4 + 4) (if ret then arm_emit_ret else arm_emit_br 0)"
    using h by (simp_all only: aarch64_def emitter.simps Let_def holds_append arm_emit_movz_def
        arm_emit_movk_def length_emit_word)
  have s1: "arm_step m p reg = Inr (Goto (p + 4) ?x1)"
    using arm_move[OF H(1)[unfolded arm_emit_movz_def], of reg] by (simp add: parts)
  have s2: "arm_step m (p + 4) ?x1 = Inr (Goto (p + 4 + 4) ?x2)"
    using arm_move[OF H(2)[unfolded arm_emit_movk_def], of ?x1] unfolding parts by simp
  have s3: "arm_step m (p + 4 + 4) ?x2 = Inr (Goto (p + 4 + 4 + 4) ?x3)"
    using arm_move[OF H(3)[unfolded arm_emit_movk_def], of ?x2] unfolding parts by simp
  have x3: "?x3 = q" using pointer_parts[OF p48] unat_p by simp
  have s4: "arm_step m (p + 4 + 4 + 4) q = Inr (if ret then Return q else Goto q q)"
    using H(4) arm_end by (cases ret) simp_all
  have "4 + n = Suc (Suc (Suc (Suc n)))" by simp
  then show ?thesis
    by (simp only: run.simps s1 s2 s3[unfolded x3] s4 sum.case event.case) (cases ret; simp)
qed

interpretation aarch64: branch_code aarch64 arm_step 4 "\<lambda>q. q < 2 ^ 48"
proof unfold_locales
  show "8 \<le> br_code_len aarch64" by (simp add: aarch64_def)
  show "length (emit aarch64 q ret) \<le> br_code_len aarch64" for q ret
    by (simp add: aarch64_def Let_def arm_emit_movz_def arm_emit_movk_def arm_emit_ret_def arm_emit_br_def)
qed (simp_all only: arm_block if_True if_False)

subsection \<open>The branch chase\<close>

text \<open>
  \<open>lround(log2(x))\<close> of the C library: its power of two exceeds \<open>x\<close> by a factor of at most
  \<open>sqrt 2\<close>, so certainly not by more than 2.
\<close>

definition rounds_log2 :: "(nat \<Rightarrow> nat \<Rightarrow> nat) \<Rightarrow> bool" where
  "rounds_log2 lround_log2 \<longleftrightarrow>
     (\<forall>r c. 0 < c \<longrightarrow> c \<le> r \<longrightarrow> 2 ^ lround_log2 r c * c \<le> 2 * r)"

lemma base_chunk_ok:
  assumes log2: "rounds_log2 lround_log2" and r: "0 < r" "r < 2 ^ 31" and chunk: "2 \<le> chunk"
  shows "\<exists>c. base_chunk lround_log2 r chunk = Inr c \<and> 0 < c \<and> c \<le> r"
proof (cases "r < chunk")
  case True
  then show ?thesis using r by (simp add: base_chunk_def)
next
  case False
  let ?k = "lround_log2 r chunk"
  have "2 ^ ?k * chunk \<le> 2 * r" using log2 chunk False by (simp add: rounds_log2_def)
  moreover have "2 ^ ?k * 2 \<le> 2 ^ ?k * chunk" using chunk by (intro mult_le_mono2)
  ultimately have k: "2 ^ ?k \<le> r" by linarith
  then have "(2 :: nat) ^ ?k < 2 ^ 31" using r(2) by (rule order.strict_trans1)
  then have "?k < 31" by (rule power_less_imp_less_exp[rotated]) simp
  moreover have "0 < r div 2 ^ ?k" using k by (simp add: div_greater_zero_iff)
  ultimately show ?thesis using False by (auto simp: base_chunk_def)
qed

text \<open>
  What an architecture's branch chase does: from cell \<open>i\<close> a call runs to the end of its chunk
  and returns the cell after it, and the calls of one lap lead back to the head.
\<close>

context branch_code
begin

lemma branch_chase:
  assumes cyc: "chase_cycle m head as" and room: "room_for_code arch m as" and len: "length as < 2 ^ 31"
    and fits: "\<And>a. a \<in> set as \<Longrightarrow> fits a" and log2: "rounds_log2 lround_log2" and chunk: "2 \<le> chunk"
  shows "\<exists>c m' plan. convert_pointers_to_branches arch lround_log2 head chunk m = Some (Inr (c, m')) \<and>
    0 < c \<and> c \<le> length as \<and> plan = chunk_plan (length as) 0 (length as div c) \<and>
    count_list plan True = length as div c \<and>
    (\<forall>i<length as. run step m' (steps * length as) (as ! i) 0 =
       Some (Inr (as ! (Suc (chunk_end plan i) mod length as)))) \<and>
    calls step m' (steps * length as) (length as div c) head = Some (Inr head)"
proof -
  let ?n = "length as"
  have n: "0 < ?n" "as ! 0 = head" using cyc by (auto simp: chase_cycle_def hd_conv_nth)
  obtain c where c: "base_chunk lround_log2 ?n chunk = Inr c" "0 < c" "c \<le> ?n"
    using base_chunk_ok[OF log2 n(1) len chunk] by blast
  define plan where "plan = chunk_plan ?n 0 (?n div c)"
  obtain m' where m': "convert_pointers_to_branches arch lround_log2 head chunk m = Some (Inr (c, m'))"
    and blocks: "\<And>j. j < ?n \<Longrightarrow> holds m' (as ! j) (emit arch (as ! (Suc j mod ?n)) (plan ! j))"
    using convert_cycle[OF cyc room len c] unfolding plan_def by blast
  have "plan_ok ?n 0 (?n div c)" using c n by (auto simp: plan_ok_def div_eq_0_iff)
  then have P: "length plan = ?n" "last plan" "count_list plan True = ?n div c"
    using chunk_plan_returns[of ?n 0 "?n div c"] n by (auto simp: plan_def)
  have "run step m' (steps * ?n) (as ! i) 0 = Some (Inr (as ! (Suc (chunk_end plan i) mod ?n)))"
    if i: "i < ?n" for i
  proof -
    let ?e = "chunk_end plan i"
    have E: "i \<le> ?e" "?e < ?n" "plan ! ?e" "\<And>j. i \<le> j \<Longrightarrow> j < ?e \<Longrightarrow> \<not> plan ! j"
      using chunk_end[of i plan] i P by auto
    have "steps * (Suc ?e - i) \<le> steps * ?n" using E by (intro mult_le_mono2) simp
    then have "steps * (Suc ?e - i) + (steps * ?n - steps * (Suc ?e - i)) = steps * ?n" by linarith
    then show ?thesis
      using run_chunk[of as m' plan i ?e "steps * ?n - steps * (Suc ?e - i)" 0, OF blocks fits E] by simp
  qed
  moreover have "calls step m' (steps * ?n) (?n div c) head = Some (Inr head)"
    using calls_lap[of as m' plan 0 "steps * ?n", OF blocks fits P(1,2) n(1)] P(3) n(2) by simp
  ultimately show ?thesis using m' c(2,3) P(3) plan_def by blast
qed

end

text \<open>A ring of three cells with room for either architecture's code, and a \<open>log2\<close>.\<close>

definition ring :: mem where
  "ring = (\<lambda>x. if x = 64 then Some 80 else if x = 80 then Some 96 else if x = 96 then Some 64
     else if 64 \<le> x \<and> x < 112 then Some 0 else None)"

definition nearest_log2 :: "nat \<Rightarrow> nat \<Rightarrow> nat" where
  "nearest_log2 r c = floorlog 2 (7 * r div (5 * c)) - 1"

lemma nearest_log2: "rounds_log2 nearest_log2"
  unfolding rounds_log2_def
proof (intro allI impI)
  fix r c :: nat assume c: "0 < c" "c \<le> r"
  let ?x = "7 * r div (5 * c)"
  have "1 \<le> ?x" using c by (simp add: Suc_le_eq div_greater_zero_iff)
  then have "2 ^ nearest_log2 r c \<le> ?x"
    using floorlog_bounds[of ?x 2] by (simp add: nearest_log2_def)
  then have "2 ^ nearest_log2 r c * (5 * c) \<le> ?x * (5 * c)" by (rule mult_le_mono1)
  also have "\<dots> \<le> 7 * r" by simp
  finally show "2 ^ nearest_log2 r c * c \<le> 2 * r" by linarith
qed

lemma ring_cycle: "chase_cycle ring 64 [64, 80, 96]"
proof -
  have "load64 ring 64 = Inr 80" "load64 ring 80 = Inr 96" "load64 ring 96 = Inr 64"
    by code_simp+
  then show ?thesis by (auto simp: chase_cycle_def less_Suc_eq)
qed

lemma ring_room: "room_for_code x64 ring [64, 80, 96]" "room_for_code aarch64 ring [64, 80, 96]"
proof -
  have "ring (a + k) = Some 0" if "a \<in> {64, 80, 96}" "8 \<le> k" "k < 16" for a k
    using that by (auto simp: ring_def)
  then have free: "8 \<le> k \<Longrightarrow> k < 16 \<Longrightarrow> ring (64 + k) = Some 0 \<and> ring (80 + k) = Some 0 \<and> ring (96 + k) = Some 0" for k
    by simp
  have "br_code_len x64 = 12" "br_code_len aarch64 = 16" by (simp_all add: x64_def aarch64_def)
  then show "room_for_code x64 ring [64, 80, 96]" "room_for_code aarch64 ring [64, 80, 96]"
    using free x64.emit_length aarch64.emit_length
    unfolding room_for_code_def by (auto simp: less_Suc_eq)
qed

lemma ring_cells: "length [64, 80, 96 :: nat] = 3" "length [64, 80, 96 :: nat] < 2 ^ 31"
  "\<forall>a\<in>set [64, 80, 96 :: nat]. a < 2 ^ 48" "\<forall>a\<in>set [64, 80, 96 :: nat]. a < 2 ^ 64"
  by simp_all

text \<open>C9: convert_pointers_to_branches on x86_64 turns every pointer cycle whose cells have
  12 free bytes into code: a call at any cell runs to the end of its chunk and returns the
  address of the cell after it, and as many calls as there are chunks lead from the head through
  the whole cycle back to the head.\<close>
theorem x64_branch_chase:
  assumes "chase_cycle m head as" and "room_for_code x64 m as" and "length as < 2 ^ 31"
    and "\<forall>a\<in>set as. a < 2 ^ 64" and "rounds_log2 lround_log2" and "2 \<le> chunk"
  shows "\<exists>c m' plan. convert_pointers_to_branches x64 lround_log2 head chunk m = Some (Inr (c, m')) \<and>
    0 < c \<and> c \<le> length as \<and> plan = chunk_plan (length as) 0 (length as div c) \<and>
    count_list plan True = length as div c \<and>
    (\<forall>i<length as. run x64_step m' (2 * length as) (as ! i) 0 =
       Some (Inr (as ! (Suc (chunk_end plan i) mod length as)))) \<and>
    calls x64_step m' (2 * length as) (length as div c) head = Some (Inr head)"
  using assms by (intro x64.branch_chase) (auto simp: W64_def)

theorem x64_branch_chase_witness:
  "\<exists>c m'. convert_pointers_to_branches x64 nearest_log2 64 2 ring = Some (Inr (c, m')) \<and>
    calls x64_step m' (2 * 3) (3 div c) 64 = Some (Inr 64)"
  using x64_branch_chase[OF ring_cycle ring_room(1) ring_cells(2,4) nearest_log2 order_refl]
  unfolding ring_cells(1) by blast

text \<open>C10: The same for AArch64: the movz, movk, movk, br or ret words that the encoders
  produce put together the 48-bit address of the next cell and go to it or return it.\<close>
theorem aarch64_branch_chase:
  assumes "chase_cycle m head as" and "room_for_code aarch64 m as" and "length as < 2 ^ 31"
    and "\<forall>a\<in>set as. a < 2 ^ 48" and "rounds_log2 lround_log2" and "2 \<le> chunk"
  shows "\<exists>c m' plan. convert_pointers_to_branches aarch64 lround_log2 head chunk m = Some (Inr (c, m')) \<and>
    0 < c \<and> c \<le> length as \<and> plan = chunk_plan (length as) 0 (length as div c) \<and>
    count_list plan True = length as div c \<and>
    (\<forall>i<length as. run arm_step m' (4 * length as) (as ! i) 0 =
       Some (Inr (as ! (Suc (chunk_end plan i) mod length as)))) \<and>
    calls arm_step m' (4 * length as) (length as div c) head = Some (Inr head)"
  using assms by (intro aarch64.branch_chase) auto

theorem aarch64_branch_chase_witness:
  "\<exists>c m'. convert_pointers_to_branches aarch64 nearest_log2 64 2 ring = Some (Inr (c, m')) \<and>
    calls arm_step m' (4 * 3) (3 div c) 64 = Some (Inr 64)"
  using aarch64_branch_chase[OF ring_cycle ring_room(2) ring_cells(2,3) nearest_log2 order_refl]
  unfolding ring_cells(1) by blast

end
