(* ===== verification/Util.thy ===== *)
theory Util
  imports Prelude "HOL-Library.Char_ord"
begin

text \<open>
  \<open>util.c\<close>: \<open>parse_mem_arg\<close>, the reader of every size option (\<open>-m 256m\<close>), on top of C's
  \<open>strtoull(s, &p, 0)\<close>. A string is the list of its characters up to the terminating NUL;
  \<open>strtoull\<close> returns the number and the rest of the string, which is the whole string when
  there is no number. Numbers that do not fit saturate at \<open>ULLONG_MAX\<close>, a minus sign negates
  modulo \<open>2 ^ 64\<close>.
\<close>

subsection \<open>The C library's number reader\<close>

definition is_space :: "char \<Rightarrow> bool" where
  "is_space c \<longleftrightarrow> (let n = of_char c :: nat in 9 \<le> n \<and> n \<le> 13 \<or> n = 32)"

definition digit_val :: "char \<Rightarrow> nat option" where
  "digit_val c =
     (let n = of_char c :: nat in
      if 48 \<le> n \<and> n \<le> 57 then Some (n - 48)
      else if 65 \<le> n \<and> n \<le> 90 then Some (n - 55)
      else if 97 \<le> n \<and> n \<le> 122 then Some (n - 87)
      else None)"

definition is_digit :: "nat \<Rightarrow> char \<Rightarrow> bool" where
  "is_digit b c = (case digit_val c of None \<Rightarrow> False | Some d \<Rightarrow> d < b)"

definition digits_value :: "nat \<Rightarrow> string \<Rightarrow> nat" where
  "digits_value b ds = foldl (\<lambda>a c. a * b + the (digit_val c)) 0 ds"

fun number_sign :: "string \<Rightarrow> bool \<times> string" where
  "number_sign (c # s) =
     (if c = CHR ''-'' then (True, s) else if c = CHR ''+'' then (False, s) else (False, c # s))"
| "number_sign [] = (False, [])"

fun number_base :: "string \<Rightarrow> nat \<times> string" where
  "number_base (c # d # e # s) =
     (if c = CHR ''0'' \<and> (d = CHR ''x'' \<or> d = CHR ''X'') \<and> is_digit 16 e then (16, e # s)
      else if c = CHR ''0'' then (8, c # d # e # s) else (10, c # d # e # s))"
| "number_base (c # s) = (if c = CHR ''0'' then (8, c # s) else (10, c # s))"
| "number_base [] = (10, [])"

definition strtoull :: "string \<Rightarrow> nat \<times> string" where
  "strtoull str =
     (let (neg, s) = number_sign (dropWhile is_space str); (b, s) = number_base s;
          ds = takeWhile (is_digit b) s; v = digits_value b ds in
      if ds = [] then (0, str)
      else (if W64 \<le> v then W64 - 1 else if neg then sub64 0 v else v,
            dropWhile (is_digit b) s))"

text \<open>\<open>atoi\<close>: \<open>strtol\<close> in base 10, cut to an \<open>int\<close>.\<close>

definition atoi :: "string \<Rightarrow> int" where
  "atoi str =
     (let (neg, s) = number_sign (dropWhile is_space str);
          v = int (digits_value 10 (takeWhile (is_digit 10) s));
          v = (if neg then max (- (2 ^ 63)) (- v) else min (2 ^ 63 - 1) v) in
      sint (word_of_int v :: 32 word))"

text \<open>The conversion of an \<open>int\<close> to \<open>size_t\<close>.\<close>

definition size_of_int :: "int \<Rightarrow> nat" where
  "size_of_int x = nat (x mod 2 ^ 64)"

lemma size_of_int_eq: "0 \<le> x \<Longrightarrow> x < 2 ^ 31 \<Longrightarrow> size_of_int x = nat x"
  by (simp add: size_of_int_def)

subsection \<open>parse_mem_arg\<close>

text \<open>The suffix at \<open>*p\<close>: its factor and the string after it.\<close>

fun mem_suffix :: "string \<Rightarrow> nat \<times> string" where
  "mem_suffix (c # p) =
     (if c \<in> {CHR ''k'', CHR ''K''} then (1024, p)
      else if c \<in> {CHR ''m'', CHR ''M''} then (1024 * 1024, p)
      else if c \<in> {CHR ''g'', CHR ''G''} then (1024 * 1024 * 1024, p)
      else (1, c # p))"
| "mem_suffix [] = (1, [])"

text \<open>\<open>None\<close> is the return value -1, with \<open>*result\<close> unchanged.\<close>

definition parse_mem_arg :: "string \<Rightarrow> nat option" where
  "parse_mem_arg str =
     (let (r, p) = strtoull str; (f, p) = mem_suffix p; r = mul64 r f in
      if p \<noteq> [] then None else Some r)"

subsection \<open>Numerals\<close>

definition digit_char :: "nat \<Rightarrow> char" where
  "digit_char d = char_of (if d < 10 then 48 + d else 87 + d)"

fun numeral_string :: "nat \<Rightarrow> nat \<Rightarrow> string" where
  "numeral_string b n =
     (if n < b \<or> b < 2 then [digit_char n]
      else numeral_string b (n div b) @ [digit_char (n mod b)])"

declare numeral_string.simps [simp del]

text \<open>The notations for \<open>n\<close> that base 0 understands: decimal, octal and hexadecimal.\<close>

datatype radix = Decimal | Octal | Hexadecimal

fun literal :: "radix \<Rightarrow> nat \<Rightarrow> string" where
  "literal Decimal n = numeral_string 10 n"
| "literal Octal n = CHR ''0'' # numeral_string 8 n"
| "literal Hexadecimal n = ''0x'' @ numeral_string 16 n"

lemma digit_val_char: "d < 16 \<Longrightarrow> digit_val (digit_char d) = Some d"
  by (simp add: digit_char_def digit_val_def Let_def)

lemma is_digit_char: "d < b \<Longrightarrow> b \<le> 16 \<Longrightarrow> is_digit b (digit_char d)"
  by (simp add: is_digit_def digit_val_char)

lemma digit_char_not:
  assumes "d < 16"
  shows "\<not> is_space (digit_char d)" "digit_char d \<noteq> CHR ''-''" "digit_char d \<noteq> CHR ''+''"
    "digit_char d \<noteq> CHR ''x''" "digit_char d \<noteq> CHR ''X''"
    "digit_char d = CHR ''0'' \<longleftrightarrow> d = 0"
proof -
  have c: "of_char (digit_char d) = (if d < 10 then 48 + d else 87 + d)"
    using assms by (simp add: digit_char_def)
  then show "\<not> is_space (digit_char d)" using assms by (simp add: is_space_def Let_def)
  have ne: "digit_char d \<noteq> e" if "of_char (digit_char d) \<noteq> (of_char e :: nat)" for e
    using that by auto
  show "digit_char d \<noteq> CHR ''-''" "digit_char d \<noteq> CHR ''+''"
    "digit_char d \<noteq> CHR ''x''" "digit_char d \<noteq> CHR ''X''"
    by (rule ne; use c assms in simp)+
  show "digit_char d = CHR ''0'' \<longleftrightarrow> d = 0"
  proof
    assume "digit_char d = CHR ''0''"
    then have "of_char (digit_char d) = (48 :: nat)" by simp
    then show "d = 0" using c by (simp split: if_splits)
  qed (simp add: digit_char_def char_of_eq_iff)
qed

lemma numeral_string_digits:
  assumes b: "2 \<le> b" "b \<le> 16"
  shows "numeral_string b n \<noteq> []" "\<forall>c\<in>set (numeral_string b n). \<exists>d<b. c = digit_char d"
    "n \<noteq> 0 \<Longrightarrow> hd (numeral_string b n) \<noteq> CHR ''0''" "digits_value b (numeral_string b n) = n"
proof (induction n rule: less_induct)
  case (less n)
  have step: "numeral_string b n = (if n < b then [digit_char n]
      else numeral_string b (n div b) @ [digit_char (n mod b)])"
    using b by (subst numeral_string.simps) simp
  have dv: "d < b \<Longrightarrow> digit_val (digit_char d) = Some d" for d
    using b by (intro digit_val_char) simp
  have smaller: "n div b < n" "0 < n div b" if "\<not> n < b"
    using that b by (simp_all add: div_greater_zero_iff)
  have m: "n mod b < b" using b by simp
  {
    case 1
    then show ?case by (simp add: step)
  next
    case 2
    then show ?case using less(2) smaller m by (auto simp: step)
  next
    case 3
    then show ?case
      using less(1,3)[OF smaller(1)] smaller(2) digit_char_not(6)[of n] b
      by (simp add: step hd_append)
  next
    case 4
    then show ?case
      using less(4)[OF smaller(1)] dv[OF m] dv[of n] by (simp add: step digits_value_def)
  }
qed

lemma literal_scan:
  assumes "\<And>c s. rest = c # s \<Longrightarrow> \<not> is_digit b c" and b: "2 \<le> b" "b \<le> 16"
  shows "takeWhile (is_digit b) (numeral_string b n @ rest) = numeral_string b n"
    "dropWhile (is_digit b) (numeral_string b n @ rest) = rest"
proof -
  have all: "is_digit b c" if "c \<in> set (numeral_string b n)" for c
    using numeral_string_digits(2)[OF b, of n, rule_format, OF that] is_digit_char[OF _ b(2)] by auto
  have rest: "takeWhile (is_digit b) rest = []" "dropWhile (is_digit b) rest = rest"
    using assms(1) by (cases rest; simp)+
  show "takeWhile (is_digit b) (numeral_string b n @ rest) = numeral_string b n"
    by (subst takeWhile_append2) (use all rest in auto)
  show "dropWhile (is_digit b) (numeral_string b n @ rest) = rest"
    by (subst dropWhile_append2) (use all rest in auto)
qed

text \<open>The reader takes the base of a literal from its prefix.\<close>

fun radix_base :: "radix \<Rightarrow> nat" where
  "radix_base Decimal = 10"
| "radix_base Octal = 8"
| "radix_base Hexadecimal = 16"

lemma numeral_string_hd:
  assumes "2 \<le> b" "b \<le> 16"
  obtains d s where "numeral_string b n = digit_char d # s" "d < b" "n \<noteq> 0 \<longrightarrow> d \<noteq> 0"
    "n = 0 \<longrightarrow> d = 0 \<and> s = []"
proof -
  obtain c s where cs: "numeral_string b n = c # s"
    using numeral_string_digits(1)[OF assms, of n] by (cases "numeral_string b n") auto
  then obtain d where d: "c = digit_char d" "d < b"
    using numeral_string_digits(2)[OF assms, of n] by auto
  have "n \<noteq> 0 \<longrightarrow> d \<noteq> 0"
    using numeral_string_digits(3)[OF assms, of n] cs d digit_char_not(6)[of d] assms by auto
  moreover have "n = 0 \<longrightarrow> d = 0 \<and> s = []"
  proof
    assume "n = 0"
    then have "c # s = [digit_char 0]" using cs assms by (subst (asm) numeral_string.simps) simp
    then have "digit_char d = digit_char 0" "s = []" using d by simp_all
    then show "d = 0 \<and> s = []" using digit_char_not(6)[of d] digit_char_not(6)[of 0] d assms by simp
  qed
  ultimately show ?thesis using that cs d by blast
qed

definition ends_number :: "string \<Rightarrow> bool" where
  "ends_number rest \<longleftrightarrow>
     (case rest of [] \<Rightarrow> True | c # s \<Rightarrow> \<not> is_digit 16 c \<and> c \<noteq> CHR ''x'' \<and> c \<noteq> CHR ''X'')"

lemma ends_numberD:
  assumes "ends_number rest" "b \<le> 16" "rest = c # s"
  shows "\<not> is_digit b c" "c \<noteq> CHR ''x''" "c \<noteq> CHR ''X''"
  using assms by (auto simp: ends_number_def is_digit_def split: option.splits)

lemma ends_number_scan:
  assumes "ends_number rest" "b \<le> 16"
  shows "takeWhile (is_digit b) rest = []" "dropWhile (is_digit b) rest = rest"
proof -
  have "takeWhile (is_digit b) rest = [] \<and> dropWhile (is_digit b) rest = rest"
  proof (cases rest)
    case (Cons c t)
    then show ?thesis using ends_numberD(1)[OF assms Cons] by simp
  qed simp
  then show "takeWhile (is_digit b) rest = []" "dropWhile (is_digit b) rest = rest" by simp_all
qed

lemma number_base_plain:
  "c \<noteq> CHR ''0'' \<Longrightarrow> number_base (c # s) = (10, c # s)"
  by (cases s; cases "tl s") auto

lemma number_base_octal:
  assumes "\<And>d s'. s = d # s' \<Longrightarrow> d \<noteq> CHR ''x'' \<and> d \<noteq> CHR ''X''"
  shows "number_base (CHR ''0'' # s) = (8, CHR ''0'' # s)"
  using assms by (cases s; cases "tl s") auto

lemma strtoull_unsigned:
  assumes "\<not> is_space c" "c \<noteq> CHR ''-''" "c \<noteq> CHR ''+''"
    and "number_base (c # s) = (b, t)" "takeWhile (is_digit b) t \<noteq> []"
    and "dropWhile (is_digit b) t = rest" "digits_value b (takeWhile (is_digit b) t) = n"
  shows "strtoull (c # s) = (min n (W64 - 1), rest)"
proof -
  have "(if W64 \<le> n then W64 - 1 else n) = min n (W64 - 1)" by simp
  then show ?thesis using assms by (simp add: strtoull_def)
qed

lemma strtoull_literal:
  assumes rest: "ends_number rest"
  shows "strtoull (literal r n @ rest) = (min n (W64 - 1), rest)"
proof (cases r)
  case Decimal
  obtain d s where ns: "numeral_string 10 n = digit_char d # s" "d < 10" "n \<noteq> 0 \<longrightarrow> d \<noteq> 0"
    "n = 0 \<longrightarrow> d = 0 \<and> s = []"
    by (rule numeral_string_hd[of 10 n]) auto
  have start: "\<not> is_space (digit_char d)" "digit_char d \<noteq> CHR ''-''" "digit_char d \<noteq> CHR ''+''"
    using digit_char_not[of d] ns(2) by simp_all
  show ?thesis
  proof (cases "n = 0")
    case True
    then have z: "digit_char d = CHR ''0''" "s = []" using ns digit_char_not(6)[of d] by simp_all
    have "number_base (CHR ''0'' # rest) = (8, CHR ''0'' # rest)"
      by (rule number_base_octal) (use ends_numberD(2,3)[OF rest order_refl] in simp)
    moreover have "takeWhile (is_digit 8) rest = []" "dropWhile (is_digit 8) rest = rest"
      by (simp_all add: ends_number_scan[OF rest])
    moreover have "is_digit 8 (CHR ''0'')" by (simp add: is_digit_def digit_val_def)
    moreover have "digits_value 8 ''0'' = 0" by (simp add: digits_value_def digit_val_def)
    ultimately show ?thesis
      using strtoull_unsigned[of "CHR ''0''" rest 8 "CHR ''0'' # rest" rest 0] start True z ns Decimal
      by simp
  next
    case False
    have "number_base (numeral_string 10 n @ rest) = (10, numeral_string 10 n @ rest)"
      using number_base_plain[of "digit_char d" "s @ rest"] digit_char_not(6)[of d] ns False by simp
    then have nb: "number_base (digit_char d # s @ rest) = (10, numeral_string 10 n @ rest)"
      using ns(1) by simp
    have stop: "\<not> is_digit 10 c" if "rest = c # t" for c t
      using ends_numberD(1)[OF rest _ that] by simp
    have scan: "takeWhile (is_digit 10) (numeral_string 10 n @ rest) = numeral_string 10 n"
      "dropWhile (is_digit 10) (numeral_string 10 n @ rest) = rest"
      by (rule literal_scan; use stop in simp)+
    have "strtoull (digit_char d # s @ rest) = (min n (W64 - 1), rest)"
      by (rule strtoull_unsigned[OF start nb])
        (simp_all only: scan, simp_all add: numeral_string_digits(1,4))
    then show ?thesis using ns(1) Decimal by simp
  qed
next
  case Octal
  let ?t = "numeral_string 8 n"
  obtain d s where ns: "?t = digit_char d # s" "d < 8"
    by (rule numeral_string_hd[of 8 n]) auto
  have "number_base (CHR ''0'' # ?t @ rest) = (8, CHR ''0'' # ?t @ rest)"
    using ns digit_char_not(4,5)[of d] by (intro number_base_octal) auto
  moreover have "is_digit 8 (CHR ''0'')" "digit_val (CHR ''0'') = Some 0"
    by (simp_all add: is_digit_def digit_val_def)
  moreover have "takeWhile (is_digit 8) (?t @ rest) = ?t" "dropWhile (is_digit 8) (?t @ rest) = rest"
    using literal_scan[of rest 8 n] ends_numberD(1)[OF rest, of 8] by auto
  moreover have "digits_value 8 (CHR ''0'' # ?t) = n"
    using numeral_string_digits(4)[of 8 n] \<open>digit_val (CHR ''0'') = Some 0\<close>
    by (simp add: digits_value_def)
  ultimately show ?thesis
    using strtoull_unsigned[of "CHR ''0''" "?t @ rest" 8 "CHR ''0'' # ?t @ rest" rest n] Octal
    by (simp add: is_space_def)
next
  case Hexadecimal
  let ?t = "numeral_string 16 n"
  obtain d s where ns: "?t = digit_char d # s" "d < 16"
    by (rule numeral_string_hd[of 16 n]) auto
  have "number_base (''0x'' @ ?t @ rest) = (16, ?t @ rest)"
    using ns is_digit_char[of d 16] by simp
  moreover have "takeWhile (is_digit 16) (?t @ rest) = ?t" "dropWhile (is_digit 16) (?t @ rest) = rest"
    using literal_scan[of rest 16 n] ends_numberD(1)[OF rest, of 16] by auto
  moreover note numeral_string_digits(1,4)[of 16 n]
  ultimately show ?thesis
    using strtoull_unsigned[of "CHR ''0''" "CHR ''x'' # ?t @ rest" 16 "?t @ rest" rest n] Hexadecimal
    by (simp add: is_space_def)
qed

subsection \<open>Properties\<close>

text \<open>The suffixes and the factors they stand for.\<close>

definition suffix_factor :: "string \<Rightarrow> nat option" where
  "suffix_factor s =
     map_of [('''', 1), (''k'', 1024), (''K'', 1024), (''m'', 1048576), (''M'', 1048576),
       (''g'', 1073741824), (''G'', 1073741824)] s"

lemma suffix_factor_cases:
  assumes "suffix_factor s = Some f"
  shows "ends_number s" "mem_suffix s = (f, [])"
proof -
  have "(s, f) \<in> set [('''', 1), (''k'', 1024), (''K'', 1024), (''m'', 1048576), (''M'', 1048576),
       (''g'', 1073741824), (''G'', 1073741824)]"
    using assms unfolding suffix_factor_def by (rule map_of_SomeD)
  then show "ends_number s" "mem_suffix s = (f, [])"
    by (auto simp: ends_number_def is_digit_def digit_val_def)
qed

text \<open>C24: parse_mem_arg reads back every number written in decimal, octal or hexadecimal
  with an optional k, m or g suffix, saturated at 2^64 - 1 before the multiplication and wrapped
  modulo 2^64 after it.\<close>
theorem parse_mem_arg_literal:
  assumes "suffix_factor suf = Some f"
  shows "parse_mem_arg (literal r n @ suf) = Some (min n (2 ^ 64 - 1) * f mod 2 ^ 64)"
  using strtoull_literal[OF suffix_factor_cases(1)[OF assms], of r n] suffix_factor_cases(2)[OF assms]
  by (simp add: parse_mem_arg_def mul64_def W64_def del: literal.simps)

theorem parse_mem_arg_literal_witness:
  "parse_mem_arg (literal Hexadecimal 64 @ ''k'') = Some 65536 \<and>
   parse_mem_arg (literal Decimal 17179869185 @ ''g'') = Some 1073741824"
  using parse_mem_arg_literal[of "''k''" 1024 Hexadecimal 64]
    parse_mem_arg_literal[of "''g''" 1073741824 Decimal 17179869185]
  by (simp add: suffix_factor_def del: literal.simps)

text \<open>Parse_mem_arg rejects a number that is followed by anything but one suffix
  character at the end of the string.\<close>
theorem parse_mem_arg_garbage:
  assumes "ends_number rest" and "rest \<noteq> []" and "suffix_factor rest = None"
    and "suffix_factor [hd rest] = None \<or> tl rest \<noteq> []"
  shows "parse_mem_arg (literal r n @ rest) = None"
proof -
  obtain c s where rest: "rest = c # s" using assms(2) by (cases rest) auto
  have "snd (mem_suffix rest) \<noteq> []"
    using assms(3,4) by (auto simp: rest suffix_factor_def)
  then have "\<forall>f. mem_suffix rest \<noteq> (f, [])" by auto
  then show ?thesis
    using strtoull_literal[OF assms(1), of r n]
    by (simp add: parse_mem_arg_def split: prod.splits del: literal.simps)
qed

theorem parse_mem_arg_garbage_witness: "parse_mem_arg (literal Decimal 12 @ ''kb'') = None"
  by (rule parse_mem_arg_garbage) (simp_all add: ends_number_def suffix_factor_def is_digit_def digit_val_def)

text \<open>Parse_mem_arg accepts the empty string and a lone suffix as 0, and a negative
  number as its value modulo 2^64.\<close>
theorem parse_mem_arg_accepts:
  "parse_mem_arg '''' = Some 0 \<and> parse_mem_arg ''k'' = Some 0 \<and>
   parse_mem_arg ''-1'' = Some (2 ^ 64 - 1) \<and> parse_mem_arg ''-1k'' = Some (2 ^ 64 - 1024)"
  by (simp add: parse_mem_arg_def strtoull_def is_space_def is_digit_def digit_val_def
      digits_value_def mul64_def sub64_def W64_def)

end
