(* ===== verification/Rng.thy ===== *)
theory Rng
  imports Prelude
begin

text \<open>
  The per-thread random numbers of \<open>permutation.h\<close>. glibc's \<open>random_r\<close> and
  \<open>initstate_r\<close> are parameters: \<open>random_r\<close> maps the thread's state to a 31-bit draw and the
  next state, or fails. \<open>rng_int\<close> glues the low halves of four draws into 64 bits and reduces
  them to \<open>0..limit\<close>.
\<close>

unbundle bit_operations_syntax

type_synonym 'r random_r = "'r \<Rightarrow> (32 word \<times> 'r) option"

definition rng_mix :: "32 word \<Rightarrow> 32 word \<Rightarrow> 32 word \<Rightarrow> 32 word \<Rightarrow> 64 word" where
  "rng_mix r1 r2 r3 r4 =
     (push_bit 0 (scast r1) AND 0x000000000000FFFF) OR
     (push_bit 16 (scast r2) AND 0x00000000FFFF0000) OR
     (push_bit 32 (scast r3) AND 0x0000FFFF00000000) OR
     (push_bit 48 (scast r4) AND 0xFFFF000000000000)"

definition rng_int :: "'r random_r \<Rightarrow> nat \<Rightarrow> 'r \<Rightarrow> (nat \<times> 'r) res" where
  "rng_int random_r limit s =
     (case random_r s of None \<Rightarrow> Inl (Exit 1) | Some (r1, s1) \<Rightarrow>
     (case random_r s1 of None \<Rightarrow> Inl (Exit 1) | Some (r2, s2) \<Rightarrow>
     (case random_r s2 of None \<Rightarrow> Inl (Exit 1) | Some (r3, s3) \<Rightarrow>
     (case random_r s3 of None \<Rightarrow> Inl (Exit 1) | Some (r4, s4) \<Rightarrow>
        rbind (mod64 (unat (rng_mix r1 r2 r3 r4)) (add64 limit 1)) (\<lambda>t. Inr (t, s4))))))"

text \<open>
  \<open>rng_init\<close> allocates the 32-byte buffer (unchecked: \<open>initstate_r\<close> refuses NULL) and the
  48-byte \<open>struct random_data\<close> (asserted), then seeds the generator with the thread number.
\<close>

definition RNG_BUF_SIZE :: nat where
  "RNG_BUF_SIZE = 32"

definition rng_init :: "heap_env \<Rightarrow> (nat \<Rightarrow> 'r option) \<Rightarrow> nat \<Rightarrow> 'r res" where
  "rng_init h initstate_r thread_num =
     (if \<not> malloc_ok h 48 then Inl AssertFail
      else if \<not> malloc_ok h RNG_BUF_SIZE then Inl (Exit 1)
      else case initstate_r thread_num of None \<Rightarrow> Inl (Exit 1) | Some s \<Rightarrow> Inr s)"

text \<open>\<open>random_r\<close> succeeds now and in every later state.\<close>

coinductive rng_ok :: "'r random_r \<Rightarrow> 'r \<Rightarrow> bool" for random_r where
  draw: "random_r s = Some (r, s') \<Longrightarrow> rng_ok random_r s' \<Longrightarrow> rng_ok random_r s"

inductive_simps rng_ok_iff: "rng_ok random_r s"

lemma rng_ok_None: "random_r s = None \<Longrightarrow> \<not> rng_ok random_r s"
  by (subst rng_ok_iff) simp

lemma rng_ok_Some: "random_r s = Some (r, s') \<Longrightarrow> rng_ok random_r s \<longleftrightarrow> rng_ok random_r s'"
  by (subst rng_ok_iff) simp

lemma rng_ok_total:
  assumes "\<And>s. \<exists>r s'. random_r s = Some (r, s')"
  shows "rng_ok random_r s"
proof (coinduction arbitrary: s)
  case rng_ok
  then show ?case using assms[of s] by auto
qed

text \<open>Every bit of the mix is a bit of one draw.\<close>

lemma rng_mix_masks:
  "(0x000000000000FFFF :: 64 word) = push_bit 0 (mask 16)"
  "(0x00000000FFFF0000 :: 64 word) = push_bit 16 (mask 16)"
  "(0x0000FFFF00000000 :: 64 word) = push_bit 32 (mask 16)"
  "(0xFFFF000000000000 :: 64 word) = push_bit 48 (mask 16)"
  by (simp_all add: mask_eq_exp_minus_1 push_bit_eq_mult)

lemma rng_mix_bit:
  assumes "i < 64"
  shows "bit (rng_mix r1 r2 r3 r4) i = bit ([r1, r2, r3, r4] ! (i div 16)) (i mod 16)"
proof -
  have draw: "bit (push_bit n (scast r) AND push_bit n (mask 16) :: 64 word) i \<longleftrightarrow>
      n \<le> i \<and> i < n + 16 \<and> bit r (i - n)" for n and r :: "32 word"
    using assms by (auto simp: bit_simps)
  have mix: "bit (rng_mix r1 r2 r3 r4) i \<longleftrightarrow>
      i < 16 \<and> bit r1 i \<or> 16 \<le> i \<and> i < 32 \<and> bit r2 (i - 16) \<or>
      32 \<le> i \<and> i < 48 \<and> bit r3 (i - 32) \<or> 48 \<le> i \<and> bit r4 (i - 48)"
    unfolding rng_mix_def rng_mix_masks bit_or_iff draw using assms by simp
  obtain k j where i: "i = 16 * k + j" "j < 16" "k < 4"
    using assms that[of "i div 16" "i mod 16"] by simp
  have kj: "i div 16 = k" "i mod 16 = j"
    using i by simp_all
  from i(3) consider "k = 0" | "k = 1" | "k = 2" | "k = 3"
    by linarith
  then show ?thesis
    unfolding mix kj by cases (use i in simp_all)
qed

lemma rng_int_wp:
  assumes "limit < W64 - 1"
  shows "wp (\<lambda>e. e = Exit 1 \<and> \<not> rng_ok random_r s)
    (\<lambda>(t, s'). t \<le> limit \<and> (rng_ok random_r s \<longrightarrow> rng_ok random_r s'))
    (rng_int random_r limit s)"
proof -
  have [simp]: "add64 limit (Suc 0) = Suc limit"
    using assms by (simp add: c_arith)
  have "unat x mod Suc limit \<le> limit" for x :: "64 word"
    using mod_less_divisor[of "Suc limit"] by (simp add: less_Suc_eq_le)
  then show ?thesis
    by (auto simp: rng_int_def mod64_def dest: rng_ok_None rng_ok_Some split: option.splits)
qed

subsection \<open>Properties\<close>

text \<open>Bit i of the 64-bit value rng_int mixes from four draws is bit i mod 16 of draw
  number i / 16; sign extension of a draw never shows.\<close>
theorem rng_mix_bits:
  "bit (rng_mix r1 r2 r3 r4) i \<longleftrightarrow> i < 64 \<and> bit ([r1, r2, r3, r4] ! (i div 16)) (i mod 16)"
proof (cases "i < 64")
  case True
  then show ?thesis by (simp add: rng_mix_bit)
next
  case False
  then show ?thesis using bit_imp_le_length[of "rng_mix r1 r2 r3 r4" i] by auto
qed

text \<open>Rng_int returns a number of at most its limit whenever the generator does not
  fail.\<close>
theorem rng_int_bound:
  assumes "limit < 2 ^ 64 - 1" and "rng_ok random_r s"
  shows "\<exists>t s'. rng_int random_r limit s = Inr (t, s') \<and> t \<le> limit \<and> rng_ok random_r s'"
  using rng_int_wp[of limit random_r s] assms
  by (cases "rng_int random_r limit s") (auto simp: W64_def)

theorem rng_int_bound_witness:
  "\<exists>t s'. rng_int (\<lambda>s :: nat. Some (of_nat s, s + 3)) 9 4 = Inr (t, s') \<and> t \<le> 9"
proof -
  have "rng_ok (\<lambda>s :: nat. Some (of_nat s, s + 3)) 4" by (rule rng_ok_total) simp
  from rng_int_bound[OF _ this, of 9] show ?thesis by auto
qed

end
