(* ===== verification/Permutation.thy ===== *)
theory Permutation
  imports Rng
begin

text \<open>
  The permutation generators of \<open>permutation.c\<close> and its checker. Both generators fill the
  array segment \<open>perm[off ..< off + nr]\<close> (the source passes \<open>&perm[off]\<close>); what the chase
  construction needs from them is the locale \<open>perm_generator\<close>, interpreted for the random and
  for the ordered one.
\<close>

subsection \<open>The generators\<close>

type_synonym 'r gen_fn = "nat list \<Rightarrow> nat \<Rightarrow> nat \<Rightarrow> nat \<Rightarrow> 'r \<Rightarrow> (nat list \<times> 'r) res"

definition gen_random_permutation :: "'r random_r \<Rightarrow> 'r gen_fn" where
  "gen_random_permutation random_r perm off nr base s =
     for_range nr (\<lambda>i (perm, s).
       rbind (rng_int random_r i s) (\<lambda>(t, s).
       rbind (arr_get perm (off + t)) (\<lambda>v.
       rbind (arr_set perm (off + i) v) (\<lambda>perm.
       rbind (arr_set perm (off + t) (add64 base i)) (\<lambda>perm.
       Inr (perm, s)))))) (perm, s)"

definition gen_ordered_permutation :: "'r gen_fn" where
  "gen_ordered_permutation perm off nr base s =
     rbind (for_range nr (\<lambda>i perm. arr_set perm (off + i) (add64 base i)) perm)
       (\<lambda>perm. Inr (perm, s))"

subsection \<open>The shuffle as a function of its draws\<close>

text \<open>
  The draws of one call, and the inside-out shuffle they determine: element number \<open>i\<close> goes
  to a drawn position \<open>t \<le> i\<close> and the element it displaces goes to the end.
\<close>

definition rng_draws :: "'r random_r \<Rightarrow> nat \<Rightarrow> 'r \<Rightarrow> (nat list \<times> 'r) res" where
  "rng_draws random_r nr s =
     for_range nr (\<lambda>i (ts, s).
       rbind (rng_int random_r i s) (\<lambda>(t, s). Inr (ts @ [t], s))) ([], s)"

definition shuffle_step :: "nat \<Rightarrow> nat list \<Rightarrow> nat \<Rightarrow> nat list" where
  "shuffle_step base xs t =
     (if t = length xs then xs @ [base + length xs]
      else xs[t := base + length xs] @ [xs ! t])"

definition inside_out :: "nat \<Rightarrow> nat list \<Rightarrow> nat list" where
  "inside_out base ts = foldl (shuffle_step base) [] ts"

text \<open>A list of draws the shuffle can make: the draw number \<open>i\<close> is at most \<open>i\<close>.\<close>

definition valid_draws :: "nat list \<Rightarrow> bool" where
  "valid_draws ts \<longleftrightarrow> (\<forall>i<length ts. ts ! i \<le> i)"

lemma valid_draws_snoc [simp]: "valid_draws (ts @ [t]) \<longleftrightarrow> valid_draws ts \<and> t \<le> length ts"
  by (auto simp: valid_draws_def nth_append less_Suc_eq)

lemma valid_draws_Nil [simp]: "valid_draws []"
  by (simp add: valid_draws_def)

lemma inside_out_Nil [simp]: "inside_out base [] = []"
  by (simp add: inside_out_def)

lemma inside_out_snoc [simp]:
  "inside_out base (ts @ [t]) = shuffle_step base (inside_out base ts) t"
  by (simp add: inside_out_def)

lemma length_shuffle_step [simp]: "length (shuffle_step base xs t) = Suc (length xs)"
  by (simp add: shuffle_step_def)

lemma length_inside_out [simp]: "length (inside_out base ts) = length ts"
  by (induction ts rule: rev_induct) auto

lemma mset_shuffle_step:
  assumes "t \<le> length xs"
  shows "mset (shuffle_step base xs t) = add_mset (base + length xs) (mset xs)"
  using assms by (auto simp: shuffle_step_def mset_update)

lemma mset_inside_out:
  "valid_draws ts \<Longrightarrow> mset (inside_out base ts) = mset [base..<base + length ts]"
  by (induction ts rule: rev_induct) (auto simp: mset_shuffle_step)

lemma wp_rng_draws:
  assumes "nr < W64"
  shows "wp (\<lambda>e. e = Exit 1 \<and> \<not> rng_ok random_r s)
    (\<lambda>(ts, s'). length ts = nr \<and> valid_draws ts \<and> (rng_ok random_r s \<longrightarrow> rng_ok random_r s'))
    (rng_draws random_r nr s)"
  unfolding rng_draws_def
proof (rule wp_for_rangeI[where I = "\<lambda>k (ts, s'). length ts = k \<and> valid_draws ts \<and>
      (rng_ok random_r s \<longrightarrow> rng_ok random_r s')"], goal_cases)
  case (2 k st)
  obtain ts s' where st: "st = (ts, s')" by force
  have "k < W64 - 1" using 2(1) assms by simp
  from rng_int_wp[OF this, of random_r s'] show ?case
    using 2(2) by (auto simp: st elim!: wp_mono)
qed auto

text \<open>
  The refinement: the array code leaves the rest of the array alone and writes the shuffle of
  its draws, whatever the segment held before (uninitialised memory included), and fails
  exactly when a draw fails.
\<close>

lemma shuffle_in_place:
  assumes "length xs = k" and "t \<le> k" and "ys \<noteq> []"
  shows "(xs @ ys)[k := (xs @ ys) ! t, t := base + k] = shuffle_step base xs t @ tl ys"
  using assms by (cases ys) (auto simp: shuffle_step_def list_update_append nth_append)

lemma gen_random_step:
  assumes "off + k < length perm" and "t \<le> k" and "base + k < W64"
    and "length xs = k"
  shows "rbind (arr_get (take off perm @ xs @ drop (off + k) perm) (off + t)) (\<lambda>v.
         rbind (arr_set (take off perm @ xs @ drop (off + k) perm) (off + k) v) (\<lambda>p.
         rbind (arr_set p (off + t) (add64 base k)) (\<lambda>p. Inr (p, s)))) =
         Inr (take off perm @ shuffle_step base xs t @ drop (off + Suc k) perm, s)"
proof -
  let ?d = "drop (off + k) perm"
  have "?d \<noteq> []" and "tl ?d = drop (off + Suc k) perm"
    using assms by (simp_all add: drop_Suc flip: tl_drop)
  then show ?thesis
    using shuffle_in_place[OF assms(4,2), of ?d base] assms
    by (simp add: nth_append_right list_update_append c_arith)
qed

lemma gen_random_refines:
  assumes "off + nr \<le> length perm" and "base + nr \<le> W64" and "nr < W64"
  shows "gen_random_permutation random_r perm off nr base s =
    rbind (rng_draws random_r nr s) (\<lambda>(ts, s').
      Inr (take off perm @ inside_out base ts @ drop (off + nr) perm, s'))"
  using assms
proof (induction nr)
  case 0
  then show ?case by (simp add: gen_random_permutation_def rng_draws_def)
next
  case (Suc nr)
  have IH: "gen_random_permutation random_r perm off nr base s =
    rbind (rng_draws random_r nr s) (\<lambda>(ts, s').
      Inr (take off perm @ inside_out base ts @ drop (off + nr) perm, s'))"
    using Suc by simp
  show ?case
  proof (cases "rng_draws random_r nr s")
    case (Inl e)
    then show ?thesis
      using IH by (simp add: gen_random_permutation_def rng_draws_def)
  next
    case (Inr r)
    obtain ts s1 where r: "r = (ts, s1)" by force
    have len: "length ts = nr"
      using wp_rng_draws[of nr random_r s] Suc.prems Inr r by simp
    show ?thesis
    proof (cases "rng_int random_r nr s1")
      case (Inl e)
      then show ?thesis
        using IH Inr r by (simp add: gen_random_permutation_def rng_draws_def)
    next
      case i: (Inr q)
      obtain t s2 where q: "q = (t, s2)" by force
      have t: "t \<le> nr"
        using rng_int_wp[of nr random_r s1] Suc.prems i q by simp
      show ?thesis
        using IH Inr r i q gen_random_step[of off nr perm t base "inside_out base ts" s2] t len Suc.prems
        by (simp add: gen_random_permutation_def rng_draws_def del: append_assoc)
    qed
  qed
qed

lemma gen_ordered_eq:
  assumes "off + nr \<le> length perm" and "base + nr \<le> W64"
  shows "gen_ordered_permutation perm off nr base s =
    Inr (take off perm @ [base..<base + nr] @ drop (off + nr) perm, s)"
proof -
  have "for_range nr (\<lambda>i perm. arr_set perm (off + i) (add64 base i)) perm =
      Inr (take off perm @ [base..<base + nr] @ drop (off + nr) perm)"
    using assms
  proof (induction nr)
    case 0
    then show ?case by simp
  next
    case (Suc nr)
    let ?d = "drop (off + nr) perm"
    have "?d \<noteq> []" and "tl ?d = drop (off + Suc nr) perm"
      using Suc.prems by (simp_all add: drop_Suc flip: tl_drop)
    then show ?case
      using Suc by (cases ?d) (simp_all add: list_update_append c_arith)
  qed
  then show ?thesis by (simp add: gen_ordered_permutation_def)
qed

subsection \<open>The interface of a generator\<close>

locale perm_generator =
  fixes gen :: "'r gen_fn" and ok :: "'r \<Rightarrow> bool"
  assumes gen_wp: "off + nr \<le> length perm \<Longrightarrow> base + nr \<le> W64 \<Longrightarrow> nr < W64 \<Longrightarrow>
    wp (\<lambda>e. e = Exit 1 \<and> \<not> ok s)
      (\<lambda>(perm', s'). (ok s \<longrightarrow> ok s') \<and>
        (\<exists>seg. perm' = take off perm @ seg @ drop (off + nr) perm \<and>
               mset seg = mset [base..<base + nr]))
      (gen perm off nr base s)"

interpretation ordered: perm_generator gen_ordered_permutation "\<lambda>_. True"
  by unfold_locales (auto simp: gen_ordered_eq)

interpretation random: perm_generator "gen_random_permutation random_r" "rng_ok random_r"
  for random_r :: "'r random_r"
proof (unfold_locales, goal_cases)
  case (1 off nr perm base s)
  show ?case
    using wp_rng_draws[of nr random_r s] 1(3)
    by (auto simp: gen_random_refines[OF 1(1,2,3)] mset_inside_out elim!: wp_mono)
qed

subsection \<open>Every permutation comes from exactly one sequence of draws\<close>

lemma shuffle_step_pos:
  assumes "t \<le> length xs" and "base + length xs \<notin> set xs" and "i \<le> length xs"
  shows "shuffle_step base xs t ! i = base + length xs \<longleftrightarrow> i = t"
  using assms by (auto simp: shuffle_step_def nth_append nth_list_update in_set_conv_nth)

lemma shuffle_step_inj:
  assumes "shuffle_step base xs t = shuffle_step base ys u"
    and "length xs = length ys" and "t \<le> length xs" and "u \<le> length ys"
    and "base + length xs \<notin> set xs" and "base + length ys \<notin> set ys"
  shows "t = u \<and> xs = ys"
proof
  show tu: "t = u"
    using shuffle_step_pos[of t xs base t] shuffle_step_pos[of u ys base t] assms by auto
  show "xs = ys"
  proof (cases "t = length xs")
    case True
    then show ?thesis using assms(1,2) tu by (simp add: shuffle_step_def)
  next
    case False
    then have "xs[t := base + length xs] = ys[t := base + length xs]" and "xs ! t = ys ! t"
      using assms(1,2) tu by (auto simp: shuffle_step_def)
    then show ?thesis
      by (metis list_update_id list_update_overwrite)
  qed
qed

lemma inside_out_set: "valid_draws ts \<Longrightarrow> set (inside_out base ts) = {base..<base + length ts}"
  using mset_inside_out[of ts base] by (metis set_mset_mset set_upt)

lemma inside_out_inj:
  "valid_draws ts \<Longrightarrow> valid_draws us \<Longrightarrow> length ts = length us \<Longrightarrow>
   inside_out base ts = inside_out base us \<Longrightarrow> ts = us"
proof (induction ts arbitrary: us rule: rev_induct)
  case Nil
  then show ?case by simp
next
  case (snoc t ts)
  obtain u us' where us: "us = us' @ [u]"
    using snoc.prems(3) by (cases us rule: rev_cases) auto
  have "t = u \<and> inside_out base ts = inside_out base us'"
    using snoc.prems us by (intro shuffle_step_inj[of base]) (auto simp: inside_out_set)
  then show ?case
    using snoc.IH[of us'] snoc.prems us by simp
qed

lemma shuffle_step_surj:
  assumes "mset zs = mset [base..<base + Suc n]"
  obtains xs t where "mset xs = mset [base..<base + n]" "t \<le> n" "shuffle_step base xs t = zs"
proof (cases zs rule: rev_cases)
  case Nil
  then show ?thesis using assms by simp
next
  case (snoc ys z)
  have m: "add_mset z (mset ys) = add_mset (base + n) (mset [base..<base + n])"
    using assms snoc by simp
  have len: "length ys = n"
    using arg_cong[OF m, of size] by simp
  show ?thesis
  proof (cases "z = base + n")
    case True
    then show ?thesis
      using that[of ys n] m snoc len by (simp add: shuffle_step_def)
  next
    case False
    then have "base + n \<in># add_mset z (mset ys)" unfolding m by simp
    then obtain t where t: "t < n" "ys ! t = base + n"
      using False len by (auto simp: in_set_conv_nth)
    have "mset (ys[t := z]) = add_mset z (mset ys) - {#base + n#}"
      using t len nth_mem_mset[of t ys] by (simp add: mset_update)
    then have "mset (ys[t := z]) = mset [base..<base + n]"
      unfolding m by simp
    moreover have "shuffle_step base (ys[t := z]) t = zs"
      using t len snoc by (simp add: shuffle_step_def list_update_same_conv)
    ultimately show ?thesis
      using that[of "ys[t := z]" t] t by simp
  qed
qed

lemma inside_out_surj:
  "mset zs = mset [base..<base + n] \<Longrightarrow>
   \<exists>ts. length ts = n \<and> valid_draws ts \<and> inside_out base ts = zs"
proof (induction n arbitrary: zs)
  case 0
  then show ?case by (intro exI[of _ "[]"]) simp
next
  case (Suc n)
  obtain xs t where xs: "mset xs = mset [base..<base + n]" "t \<le> n" "shuffle_step base xs t = zs"
    using shuffle_step_surj[OF Suc.prems] by blast
  obtain ts where "length ts = n" "valid_draws ts" "inside_out base ts = xs"
    using Suc.IH[OF xs(1)] by blast
  then show ?case
    using xs by (intro exI[of _ "ts @ [t]"]) simp
qed

subsection \<open>Properties\<close>

text \<open>C8: gen_random_permutation, on any array segment (uninitialised memory included), is
  the inside-out shuffle of the draws it makes: it succeeds when the generator does, writes a
  permutation of base .. base + nr - 1 to the segment and leaves the rest of the array alone.\<close>
theorem gen_random_permutation_shuffle:
  assumes "off + nr \<le> length perm" and "base + nr \<le> 2 ^ 64" and "nr < 2 ^ 64"
    and "rng_ok random_r s"
  shows "\<exists>ts s'. rng_draws random_r nr s = Inr (ts, s') \<and> length ts = nr \<and> valid_draws ts \<and>
    gen_random_permutation random_r perm off nr base s =
      Inr (take off perm @ inside_out base ts @ drop (off + nr) perm, s') \<and>
    mset (inside_out base ts) = mset [base..<base + nr] \<and> rng_ok random_r s'"
proof -
  have b: "base + nr \<le> W64" "nr < W64" using assms by (simp_all add: W64_def)
  obtain ts s' where "rng_draws random_r nr s = Inr (ts, s')" "length ts = nr" "valid_draws ts"
    "rng_ok random_r s'"
    using wp_rng_draws[OF b(2), of random_r s] assms(4)
    by (cases "rng_draws random_r nr s") auto
  then show ?thesis
    using gen_random_refines[OF assms(1) b, of random_r s] mset_inside_out[of ts base] by simp
qed

theorem gen_random_permutation_shuffle_witness:
  "\<exists>ts s'. rng_draws (\<lambda>s. Some (of_nat s, Suc s)) 3 5 = Inr (ts, s') \<and> length ts = 3 \<and>
    gen_random_permutation (\<lambda>s. Some (of_nat s, Suc s)) [9, 9, 9, 9, 9] 1 3 100 5 =
      Inr ([9] @ inside_out 100 ts @ [9], s')"
proof -
  have ok: "rng_ok (\<lambda>s. Some (of_nat s, Suc s)) 5" by (rule rng_ok_total) simp
  show ?thesis
    using gen_random_permutation_shuffle[OF _ _ _ ok, of 1 3 "[9, 9, 9, 9, 9]" 100]
    by (auto simp del: append_Cons)
qed

text \<open>The shuffle of gen_random_permutation maps the possible sequences of draws one to
  one onto the permutations, so every permutation is reached, by exactly one sequence of draws.\<close>
theorem inside_out_bijection:
  "bij_betw (inside_out base) {ts. length ts = n \<and> valid_draws ts}
     {zs. mset zs = mset [base..<base + n]}"
  unfolding bij_betw_def
proof
  show "inj_on (inside_out base) {ts. length ts = n \<and> valid_draws ts}"
    by (rule inj_onI) (auto dest: inside_out_inj)
  show "inside_out base ` {ts. length ts = n \<and> valid_draws ts} = {zs. mset zs = mset [base..<base + n]}"
    (is "?f ` ?T = ?Z")
  proof (rule set_eqI)
    fix zs
    have "zs \<in> ?f ` ?T \<longleftrightarrow> (\<exists>ts. length ts = n \<and> valid_draws ts \<and> inside_out base ts = zs)"
      by blast
    also have "\<dots> \<longleftrightarrow> mset zs = mset [base..<base + n]"
      using mset_inside_out[of _ base] inside_out_surj[of zs base n] by metis
    finally show "zs \<in> ?f ` ?T \<longleftrightarrow> zs \<in> ?Z" by simp
  qed
qed

text \<open>The ordered generator writes base, base + 1, ... to the segment and nothing
  else.\<close>
theorem gen_ordered_permutation_writes:
  assumes "off + nr \<le> length perm" and "base + nr \<le> 2 ^ 64"
  shows "gen_ordered_permutation perm off nr base s =
    Inr (take off perm @ [base..<base + nr] @ drop (off + nr) perm, s)"
  using gen_ordered_eq[OF assms(1)] assms(2) by (simp add: W64_def)

theorem gen_ordered_permutation_writes_witness:
  "gen_ordered_permutation [7, 7, 7, 7] 1 2 40 () = Inr ([7, 40, 41, 7], ())"
  using gen_ordered_permutation_writes[of 1 2 "[7, 7, 7, 7]" 40 "()"]
  by (simp add: upt_rec)

text \<open>The ordered generator on a segment that is longer than the rest of its array
  ends in an out-of-bounds write.\<close>
theorem gen_ordered_permutation_overrun:
  assumes "off \<le> length perm" and "length perm < off + nr"
  shows "gen_ordered_permutation perm off nr base s = Inl OutOfBounds"
proof -
  let ?body = "\<lambda>i p. arr_set p (off + i) (add64 base i)"
  have inside: "wp (\<lambda>_. False) (\<lambda>p. length p = length perm) (for_range k ?body perm)"
    if "off + k \<le> length perm" for k
    by (rule wp_for_rangeI[where I = "\<lambda>_ p. length p = length perm"]) (use that in auto)
  have "for_range n ?body perm = Inl OutOfBounds" if "length perm < off + n" for n
    using that
  proof (induction n)
    case 0
    then show ?case using assms(1) by simp
  next
    case (Suc n)
    show ?case
    proof (cases "length perm < off + n")
      case True
      then show ?thesis using Suc by simp
    next
      case False
      then show ?thesis using inside[of n] Suc.prems by (auto simp: wp_total arr_set_def)
    qed
  qed
  then show ?thesis using assms(2) by (simp add: gen_ordered_permutation_def)
qed

theorem gen_ordered_permutation_overrun_witness:
  "gen_ordered_permutation [7, 7, 7] 1 4 0 () = Inl OutOfBounds"
  using gen_ordered_permutation_overrun[of 1 "[7, 7, 7]" 4 0 "()"] by simp

end
