(* ===== verification/Mixer.thy ===== *)
theory Mixer
  imports Permutation
begin

text \<open>
  The mixer of \<open>permutation.c\<close>: a table with one row per mixer index and one column per
  value of the low bits of the element number; each column is a permutation of the mixer
  indices. A chase with mixer index \<open>j\<close> places its pointer for element \<open>x\<close> at the offset the
  table gives for row \<open>j\<close> and the low bits of \<open>x\<close>.
\<close>

unbundle bit_operations_syntax

record 'r chase_args =
  arena :: nat
  total_memory :: nat
  stride :: nat
  tlb_locality :: nat
  nr_mixers :: nat
  gen_permutation :: "'r gen_fn"
  nr_mixer_indices :: nat
  mixer :: "nat list"

subsection \<open>The number of columns\<close>

text \<open>
  \<open>__builtin_clzl(x)\<close> is undefined for \<open>x = 0\<close>: its value there is the parameter \<open>clz0\<close>
  (64 where the compiler emits \<open>lzcnt\<close>). \<open>1 << k\<close> is a shift of an \<open>int\<close>.
\<close>

fun bit_width :: "nat \<Rightarrow> nat" where
  "bit_width n = (if n = 0 then 0 else Suc (bit_width (n div 2)))"

declare bit_width.simps [simp del]

definition clzl :: "nat \<Rightarrow> nat \<Rightarrow> nat" where
  "clzl clz0 x = (if x = 0 then clz0 else 64 - bit_width x)"

definition int_shl1 :: "nat \<Rightarrow> nat res" where
  "int_shl1 k = (if k < 31 then Inr (2 ^ k) else Inl Undefined)"

definition mixer_columns :: "nat \<Rightarrow> nat \<Rightarrow> nat res" where
  "mixer_columns clz0 n =
     rbind (int_shl1 (64 - clzl clz0 (sub64 n 1))) (\<lambda>c. Inr (if c < 64 then 64 else c))"

definition generate_chase_mixer ::
    "heap_env \<Rightarrow> nat \<Rightarrow> 'r chase_args \<Rightarrow> nat \<Rightarrow> 'r \<Rightarrow> ('r chase_args \<times> 'r) res" where
  "generate_chase_mixer h clz0 args nr_mix s =
     (let nmi = nr_mixer_indices args; gen = gen_permutation args in
      rbind (mixer_columns clz0 nr_mix) (\<lambda>n.
      case malloc_words h (mul64 nmi 8) of None \<Rightarrow> Inl (Exit 1) | Some t \<Rightarrow>
      (case malloc_words h (mul64 (mul64 nmi n) 8) of None \<Rightarrow> Inl (Exit 1) | Some r \<Rightarrow>
      rbind (for_range n (\<lambda>i (r, t, s).
          rbind (gen t 0 nmi 0 s) (\<lambda>(t, s).
          rbind (for_range nmi (\<lambda>j r.
              rbind (arr_get t j) (\<lambda>v. arr_set r (add64 (mul64 j n) i) v)) r) (\<lambda>r.
          Inr (r, t, s)))) (r, t, s)) (\<lambda>(r, t, s).
      Inr (args\<lparr>nr_mixers := n, mixer := r\<rparr>, s)))))"

lemma bit_width_bounds: "n < 2 ^ bit_width n \<and> (0 < n \<longrightarrow> 2 ^ (bit_width n - 1) \<le> n)"
proof (induction n rule: bit_width.induct)
  case (1 n)
  show ?case
  proof (cases "n = 0")
    case True
    then show ?thesis by (simp add: bit_width.simps)
  next
    case False
    let ?w = "bit_width (n div 2)"
    have bw: "bit_width n = Suc ?w" using False by (subst bit_width.simps) simp
    have IH: "n div 2 < 2 ^ ?w" "0 < n div 2 \<longrightarrow> 2 ^ (?w - 1) \<le> n div 2"
      using 1 False by auto
    have "2 ^ ?w \<le> n"
    proof (cases "n div 2 = 0")
      case True
      then show ?thesis using False by (simp add: bit_width.simps)
    next
      case nz: False
      then have "?w = Suc (?w - 1)" by (subst (1 2) bit_width.simps) simp
      then have "(2::nat) ^ ?w = 2 * 2 ^ (?w - 1)" by (metis power_Suc)
      then show ?thesis using IH(2) nz by linarith
    qed
    then show ?thesis using IH(1) bw by simp
  qed
qed

text \<open>For at least two mixers, the columns are the least power of two that is at least
  \<open>max n 64\<close>.\<close>

lemma mixer_columns_ge2:
  assumes "2 \<le> n" and "n \<le> 2 ^ 30"
  shows "\<exists>k. mixer_columns clz0 n = Inr (2 ^ k) \<and> max n 64 \<le> 2 ^ k \<and> k \<le> 30 \<and>
    (\<forall>j. max n 64 \<le> 2 ^ j \<longrightarrow> k \<le> j)"
proof -
  let ?w = "bit_width (n - 1)"
  have lt: "n - 1 < 2 ^ ?w" and ge: "2 ^ (?w - 1) \<le> n - 1"
    using bit_width_bounds[of "n - 1"] assms by auto
  have "(2::nat) ^ (?w - 1) < 2 ^ 30" using ge assms by linarith
  then have w30: "?w \<le> 30" using power_less_imp_less_exp[of "2::nat" "?w - 1" 30] by simp
  have least: "?w \<le> j" if "n \<le> 2 ^ j" for j
  proof -
    have "(2::nat) ^ (?w - 1) < 2 ^ j" using ge that assms by linarith
    then have "?w - 1 < j" by (rule power_less_imp_less_exp[rotated]) simp
    then show ?thesis by simp
  qed
  have "n < W64" using assms by (simp add: W64_def)
  then have sub: "sub64 n (Suc 0) = n - 1" using assms by (simp add: c_arith)
  have cols: "mixer_columns clz0 n = Inr (if 2 ^ ?w < (64::nat) then 64 else 2 ^ ?w)"
    using assms w30 by (simp add: mixer_columns_def sub clzl_def int_shl1_def)
  have p6: "(64::nat) = 2 ^ 6" by simp
  show ?thesis
  proof (cases "2 ^ ?w < (64::nat)")
    case True
    have "k \<ge> 6" if "(64::nat) \<le> 2 ^ k" for k
      using that unfolding p6 by (rule power_le_imp_le_exp[rotated]) simp
    then show ?thesis
      using True lt by (intro exI[of _ 6]) (auto simp: cols)
  next
    case False
    then show ?thesis
      using lt w30 least by (intro exI[of _ ?w]) (auto simp: cols)
  qed
qed

text \<open>For one mixer the code evaluates \<open>__builtin_clzl(0)\<close>; any value the compiler may
  deliver gives a power of two of at least 64.\<close>

lemma mixer_columns_1:
  assumes "34 \<le> clz0" and "clz0 \<le> 64"
  shows "\<exists>k. mixer_columns clz0 1 = Inr (2 ^ k) \<and> 64 \<le> (2::nat) ^ k \<and> k \<le> 30"
proof -
  have "sub64 1 1 = 0" by (simp add: c_arith)
  then have "mixer_columns clz0 1 =
      Inr (if 2 ^ (64 - clz0) < (64::nat) then 64 else 2 ^ (64 - clz0))"
    using assms by (simp add: mixer_columns_def clzl_def int_shl1_def)
  then show ?thesis
  proof (cases "2 ^ (64 - clz0) < (64::nat)")
    case True
    with \<open>mixer_columns clz0 1 = _\<close> show ?thesis by (intro exI[of _ 6]) simp
  next
    case False
    with \<open>mixer_columns clz0 1 = _\<close> show ?thesis
      using assms by (intro exI[of _ "64 - clz0"]) simp
  qed
qed

text \<open>Where \<open>__builtin_clzl(0)\<close> is at least 58, the columns stay below twice their demand.\<close>

lemma mixer_columns_bound:
  assumes "1 \<le> n" and "n \<le> 2 ^ 30" and "58 \<le> clz0" and "clz0 \<le> 64"
  shows "\<exists>k. mixer_columns clz0 n = Inr (2 ^ k) \<and> (2 :: nat) ^ k < 2 * max n 64"
proof (cases "n = 1")
  case True
  have "sub64 1 1 = 0" by (simp add: c_arith)
  moreover have "(2 :: nat) ^ (64 - clz0) \<le> 2 ^ 6" using assms(3) by (intro power_increasing) auto
  ultimately have "mixer_columns clz0 1 = Inr (2 ^ 6)"
    using assms(3) by (auto simp: mixer_columns_def clzl_def int_shl1_def)
  then show ?thesis unfolding True by (intro exI[of _ 6]) simp
next
  case False
  then obtain k where k: "mixer_columns clz0 n = Inr (2 ^ k)" "\<forall>j. max n 64 \<le> 2 ^ j \<longrightarrow> k \<le> j" "max n 64 \<le> 2 ^ k"
    using mixer_columns_ge2[of n clz0] assms by auto
  have "0 < k" using k(3) by (cases k) auto
  then have "(2 :: nat) ^ k = 2 * 2 ^ (k - 1)" by (cases k) auto
  moreover have "2 ^ (k - 1) < max n 64" using k(2)[rule_format, of "k - 1"] \<open>0 < k\<close> by linarith
  ultimately have "(2 :: nat) ^ k < 2 * max n 64" by linarith
  then show ?thesis using k(1) by blast
qed

subsection \<open>The table\<close>

definition mixer_column :: "'r chase_args \<Rightarrow> nat \<Rightarrow> nat list" where
  "mixer_column args i =
     map (\<lambda>j. mixer args ! (j * nr_mixers args + i)) [0..<nr_mixer_indices args]"

definition mixer_ok :: "'r chase_args \<Rightarrow> bool" where
  "mixer_ok args \<longleftrightarrow>
     (\<exists>k. nr_mixers args = 2 ^ k) \<and>
     length (mixer args) = nr_mixer_indices args * nr_mixers args \<and>
     length (mixer args) < W64 \<and>
     (\<forall>i<nr_mixers args. mset (mixer_column args i) = mset [0..<nr_mixer_indices args])"

lemma table_index: "j < m \<Longrightarrow> i < n \<Longrightarrow> j * n + i < m * (n :: nat)"
  using mult_le_mono1[of "Suc j" m n] by simp

lemma wp_fill_column:
  assumes t: "length t = m" and r: "length r = m * n" "m * n < W64" and i: "i < n"
  shows "wp (\<lambda>_. False)
    (\<lambda>r'. length r' = m * n \<and> (\<forall>j<m. r' ! (j * n + i) = t ! j) \<and>
          (\<forall>q<m * n. q mod n \<noteq> i \<longrightarrow> r' ! q = r ! q))
    (for_range m (\<lambda>j r. rbind (arr_get t j) (\<lambda>v. arr_set r (add64 (mul64 j n) i) v)) r)"
proof (rule wp_for_rangeI[where I = "\<lambda>k r'. length r' = m * n \<and> (\<forall>j<k. r' ! (j * n + i) = t ! j) \<and>
    (\<forall>q<m * n. q mod n \<noteq> i \<longrightarrow> r' ! q = r ! q)"], goal_cases)
  case (2 k r')
  have lt: "k * n + i < m * n" using 2 i by (simp add: table_index)
  then have ix: "add64 (mul64 k n) i = k * n + i"
    using r(2) by (simp add: c_arith)
  have "(k * n + i) mod n = i" using i by simp
  moreover have "j * n + i \<noteq> k * n + i" if "j < k" for j using that i by auto
  ultimately show ?case
    using 2 lt t ix by (auto simp: less_Suc_eq nth_list_update)
qed (use r in auto)

context perm_generator
begin

lemma wp_gen_fill:
  assumes "length t = m" and "m < W64"
  shows "wp (\<lambda>e. e = Exit 1 \<and> \<not> ok s)
    (\<lambda>(t', s'). length t' = m \<and> mset t' = mset [0..<m] \<and> (ok s \<longrightarrow> ok s')) (gen t 0 m 0 s)"
proof -
  have "length seg = m" if "mset seg = mset [0..<m]" for seg :: "nat list"
    using arg_cong[OF that, of size] by simp
  then show ?thesis
    using gen_wp[of 0 m t 0 s] assms by (auto elim!: wp_mono)
qed

lemma wp_mixer:
  assumes gen: "gen_permutation args = gen"
    and cols: "mixer_columns clz0 k = Inr n" "n = 2 ^ e"
    and size: "nr_mixer_indices args * n * 8 < W64"
    and malloc: "malloc_serves h (nr_mixer_indices args * n * 8)"
  shows "wp (\<lambda>e. e = Exit 1 \<and> \<not> ok s)
    (\<lambda>(args', s'). mixer_ok args' \<and> (ok s \<longrightarrow> ok s') \<and>
       args' = args\<lparr>nr_mixers := n, mixer := mixer args'\<rparr>)
    (generate_chase_mixer h clz0 args k s)"
proof -
  let ?m = "nr_mixer_indices args"
  have n: "0 < n" using cols by simp
  have le: "?m \<le> ?m * n" using n by simp
  then have "?m * 8 < W64" using size by linarith
  then have b1: "mul64 ?m 8 = ?m * 8" by (simp add: c_arith)
  have b2: "mul64 (mul64 ?m n) 8 = ?m * n * 8" using size by (simp add: c_arith)
  obtain t where t: "malloc_words h (?m * 8) = Some t" "length t = ?m"
    using malloc_servesD[OF malloc, of "?m * 8"] le by (auto simp: malloc_words_def)
  obtain r where r: "malloc_words h (?m * n * 8) = Some r" "length r = ?m * n"
    using malloc_servesD[OF malloc, of "?m * n * 8"] by (auto simp: malloc_words_def)
  let ?I = "\<lambda>i (r', t', s'). length r' = ?m * n \<and> length t' = ?m \<and> (ok s \<longrightarrow> ok s') \<and>
    (\<forall>c<i. mset (map (\<lambda>j. r' ! (j * n + c)) [0..<?m]) = mset [0..<?m])"
  have "wp (\<lambda>e. e = Exit 1 \<and> \<not> ok s) (?I n)
    (for_range n (\<lambda>i (r, t, s).
          rbind (gen t 0 ?m 0 s) (\<lambda>(t, s).
          rbind (for_range ?m (\<lambda>j r.
              rbind (arr_get t j) (\<lambda>v. arr_set r (add64 (mul64 j n) i) v)) r) (\<lambda>r.
          Inr (r, t, s)))) (r, t, s))"
  proof (rule wp_for_range[where I = ?I], goal_cases)
    case 1
    then show ?case using t r by simp
  next
    case (2 i st)
    obtain r1 t1 s1 where st: "st = (r1, t1, s1)" by (cases st)
    have len: "length r1 = ?m * n" "length t1 = ?m" and ok1: "ok s \<longrightarrow> ok s1"
      and cs: "\<forall>c<i. mset (map (\<lambda>j. r1 ! (j * n + c)) [0..<?m]) = mset [0..<?m]"
      using 2(2) by (auto simp: st)
    have col: "wp (\<lambda>e. e = Exit 1 \<and> \<not> ok s) (\<lambda>r2. ?I (Suc i) (r2, t2, s2))
        (for_range ?m (\<lambda>j r. rbind (arr_get t2 j) (\<lambda>v. arr_set r (add64 (mul64 j n) i) v)) r1)"
      if t2: "length t2 = ?m" "mset t2 = mset [0..<?m]" and ok2: "ok s1 \<longrightarrow> ok s2" for t2 s2
    proof (rule wp_mono[OF wp_fill_column[OF t2(1) len(1) _ 2(1)]])
      fix r2 assume r2: "length r2 = ?m * n \<and> (\<forall>j<?m. r2 ! (j * n + i) = t2 ! j) \<and>
        (\<forall>q<?m * n. q mod n \<noteq> i \<longrightarrow> r2 ! q = r1 ! q)"
      have new: "map (\<lambda>j. r2 ! (j * n + i)) [0..<?m] = t2"
        using r2 t2 by (intro nth_equalityI) auto
      have old: "map (\<lambda>j. r2 ! (j * n + c)) [0..<?m] = map (\<lambda>j. r1 ! (j * n + c)) [0..<?m]"
        if "c < i" for c
        using r2 2(1) that by (auto simp: table_index)
      have "mset (map (\<lambda>j. r2 ! (j * n + c)) [0..<?m]) = mset [0..<?m]" if "c < Suc i" for c
        using that new t2(2) old[of c] cs by (metis less_Suc_eq)
      then show "?I (Suc i) (r2, t2, s2)"
        using r2 t2 ok1 ok2 by (simp del: mset_map mset_upt)
    qed (use size in auto)
    have m64: "?m < W64" using size le by linarith
    show ?case
      unfolding st prod.case wp_rbind
    proof (rule wp_mono[OF wp_gen_fill[OF len(2) m64]])
      fix v assume v: "case v of (t', s') \<Rightarrow> length t' = ?m \<and> mset t' = mset [0..<?m] \<and> (ok s1 \<longrightarrow> ok s')"
      obtain t2 s2 where v': "v = (t2, s2)" by (cases v)
      show "wp (\<lambda>e. e = Exit 1 \<and> \<not> ok s) (?I (Suc i)) (case v of (t, s) \<Rightarrow>
          rbind (for_range ?m (\<lambda>j r.
              rbind (arr_get t j) (\<lambda>v. arr_set r (add64 (mul64 j n) i) v)) r1) (\<lambda>r. Inr (r, t, s)))"
        using col[of t2 s2] v unfolding v' prod.case wp_rbind wp.simps by blast
    qed (use ok1 in blast)
  qed
  then show ?thesis
    unfolding generate_chase_mixer_def Let_def gen cols(1) b1 b2 rbind.simps t(1) r(1) option.case
    using size cols(2) by (auto simp: mixer_ok_def mixer_column_def elim!: wp_mono)
qed

end

end
