(* ===== verification/Perms.thy ===== *)
theory Perms
  imports Prelude
begin

text \<open>
  Lemmas on lists that are permutations of an interval, built from groups of equal length:
  what the chase construction needs of its permutation and inverse arrays.
\<close>

definition perm_upto :: "nat \<Rightarrow> nat list \<Rightarrow> bool" where
  "perm_upto n xs \<longleftrightarrow> mset xs = mset [0..<n]"

lemma perm_uptoD:
  assumes "perm_upto n xs"
  shows "length xs = n" "distinct xs" "set xs = {0..<n}"
proof -
  have m: "mset xs = mset [0..<n]" using assms by (simp add: perm_upto_def)
  from arg_cong[OF m, of size] show "length xs = n" by simp
  show "distinct xs" using m by (metis distinct_upt mset_eq_imp_distinct_iff)
  show "set xs = {0..<n}" using m by (metis set_mset_mset set_upt)
qed

lemma perm_upto_nth: "perm_upto n xs \<Longrightarrow> i < n \<Longrightarrow> xs ! i < n"
  using perm_uptoD[of n xs] by (metis atLeastLessThan_iff nth_mem)

lemma perm_upto_ex: "perm_upto n xs \<Longrightarrow> e < n \<Longrightarrow> \<exists>i<n. xs ! i = e"
  using perm_uptoD[of n xs] by (metis atLeastLessThan_iff in_set_conv_nth le0)

text \<open>Positions of one group hold elements of one group.\<close>

definition tlb_grouped :: "nat \<Rightarrow> nat list \<Rightarrow> bool" where
  "tlb_grouped q xs \<longleftrightarrow>
     (\<forall>a<length xs. \<forall>b<length xs. a div q = b div q \<longrightarrow> xs ! a div q = xs ! b div q)"

lemma length_concat_const:
  "(\<And>ys. ys \<in> set xss \<Longrightarrow> length ys = q) \<Longrightarrow> length (concat xss) = length xss * q"
  by (induction xss) auto

lemma nth_concat_const:
  assumes "\<And>ys. ys \<in> set xss \<Longrightarrow> length ys = q" and "k < length xss * q"
  shows "concat xss ! k = xss ! (k div q) ! (k mod q)"
  using assms
proof (induction xss arbitrary: k)
  case Nil
  then show ?case by simp
next
  case (Cons ys xss)
  have q: "0 < q" using Cons.prems(2) by (auto intro: Nat.gr0I)
  show ?case
  proof (cases "k < q")
    case True
    then show ?thesis using Cons.prems(1) by (simp add: nth_append)
  next
    case False
    then have "k div q = Suc ((k - q) div q)" "k mod q = (k - q) mod q" "k - q < length xss * q"
      using q Cons.prems(2) by (auto simp: le_div_geq le_mod_geq)
    then show ?thesis
      using False Cons.IH[of "k - q"] Cons.prems(1) by (simp add: nth_append)
  qed
qed

lemma mset_concat_map_perm:
  assumes "mset xs = mset ys"
  shows "mset (concat (map f xs)) = mset (concat (map f ys))"
proof -
  have "mset (concat (map f zs)) = sum_mset (image_mset (mset \<circ> f) (mset zs))" for zs
    by (induction zs) auto
  then show ?thesis using assms by simp
qed

lemma concat_upt_groups:
  "concat (map (\<lambda>g. [b + g * q..<b + g * q + q]) [0..<n]) = [b..<b + n * (q::nat)]"
proof (induction n)
  case 0
  then show ?case by simp
next
  case (Suc n)
  have "[b..<b + Suc n * q] = [b..<b + n * q] @ [b + n * q..<b + n * q + q]"
    using upt_add_eq_append[of b "b + n * q" q] by (simp add: ac_simps)
  then show ?case using Suc by simp
qed

text \<open>Groups laid out in the order of a permutation of the group numbers.\<close>

definition group_layout :: "nat \<Rightarrow> nat \<Rightarrow> nat list \<Rightarrow> nat list list \<Rightarrow> bool" where
  "group_layout b q tlb segs \<longleftrightarrow>
     length segs = length tlb \<and>
     (\<forall>i<length tlb. mset (segs ! i) = mset [b + tlb ! i * q..<b + tlb ! i * q + q])"

lemma group_layout_Nil [simp]: "group_layout b q [] []"
  by (simp add: group_layout_def)

lemma group_layout_snoc:
  assumes "group_layout b q tlb segs" and "mset seg = mset [b + g * q..<b + g * q + q]"
  shows "group_layout b q (tlb @ [g]) (segs @ [seg])"
  using assms by (auto simp: group_layout_def nth_append less_Suc_eq)

lemma group_layoutD:
  assumes "group_layout b q tlb segs"
  shows "\<And>ys. ys \<in> set segs \<Longrightarrow> length ys = q" "length (concat segs) = length tlb * q"
proof -
  show len: "length ys = q" if mem: "ys \<in> set segs" for ys
  proof -
    obtain i where "i < length tlb" "ys = segs ! i"
      using mem assms unfolding group_layout_def in_set_conv_nth by metis
    then have "mset ys = mset [b + tlb ! i * q..<b + tlb ! i * q + q]"
      using assms by (simp add: group_layout_def)
    from arg_cong[OF this, of size] show ?thesis by simp
  qed
  show "length (concat segs) = length tlb * q"
    using length_concat_const[OF len] assms by (simp add: group_layout_def)
qed

lemma group_layout_mset:
  assumes "group_layout b q tlb segs" and "perm_upto n tlb"
  shows "mset (concat segs) = mset [b..<b + n * q]"
proof -
  let ?f = "\<lambda>g. [b + g * q..<b + g * q + q]"
  have "map mset segs = map (mset \<circ> ?f) tlb"
    using assms(1) by (intro nth_equalityI) (auto simp: group_layout_def)
  then have "mset (concat segs) = mset (concat (map ?f tlb))"
    by (simp add: mset_concat map_map)
  also have "\<dots> = mset (concat (map ?f [0..<n]))"
    using assms(2) by (intro mset_concat_map_perm) (simp add: perm_upto_def)
  also have "\<dots> = mset [b..<b + n * q]"
    by (simp only: concat_upt_groups)
  finally show ?thesis .
qed

lemma group_layout_elem:
  assumes "group_layout b q tlb segs" and "a < length tlb * q"
  shows "b + tlb ! (a div q) * q \<le> concat segs ! a" "concat segs ! a < b + tlb ! (a div q) * q + q"
proof -
  have q: "0 < q" using assms(2) by (auto intro: Nat.gr0I)
  have i: "a div q < length tlb" using assms(2) by (simp add: less_mult_imp_div_less)
  let ?s = "segs ! (a div q)"
  have s: "mset ?s = mset [b + tlb ! (a div q) * q..<b + tlb ! (a div q) * q + q]"
    using assms(1) i by (simp add: group_layout_def)
  have "length ?s = q" using arg_cong[OF s, of size] by simp
  then have "?s ! (a mod q) \<in> set ?s" using q by simp
  moreover have "set ?s = {b + tlb ! (a div q) * q..<b + tlb ! (a div q) * q + q}"
    using s by (metis set_mset_mset set_upt)
  moreover have "concat segs ! a = ?s ! (a mod q)"
    using nth_concat_const[of segs q a] group_layoutD(1)[OF assms(1)] assms
    by (simp add: group_layout_def)
  ultimately show "b + tlb ! (a div q) * q \<le> concat segs ! a"
    "concat segs ! a < b + tlb ! (a div q) * q + q" by auto
qed

lemma group_layout_grouped:
  assumes "group_layout 0 q tlb segs"
  shows "tlb_grouped q (concat segs)"
proof -
  have "concat segs ! a div q = tlb ! (a div q)" if "a < length (concat segs)" for a
    using group_layout_elem[OF assms, of a] that group_layoutD(2)[OF assms]
    by (intro div_nat_eqI) (simp_all add: mult.commute)
  then show ?thesis by (simp add: tlb_grouped_def)
qed

lemma mod_add_inj:
  assumes "(c + r) mod n = (c + s) mod n" and "r < n" and "s < (n::nat)"
  shows "r = s"
proof -
  have "rotate c [0..<n] ! r = rotate c [0..<n] ! s"
    using assms by (simp add: nth_rotate)
  then show ?thesis
    using assms by (simp add: nth_eq_iff_index_eq)
qed

lemma perm_uptoI:
  assumes "length xs = n" and "distinct xs" and "\<And>x. x \<in> set xs \<Longrightarrow> x < n"
  shows "perm_upto n xs"
proof -
  have "set xs \<subseteq> {0..<n}" using assms(3) by auto
  moreover have "card (set xs) = card {0..<n}" using assms(1,2) by (simp add: distinct_card)
  ultimately have "set xs = set [0..<n]" by (simp add: card_subset_eq)
  then show ?thesis
    using assms(2) set_eq_iff_mset_eq_distinct[of xs "[0..<n]"] by (simp add: perm_upto_def)
qed

end
