(* ===== verification/Chase.thy ===== *)
theory Chase
  imports Mixer Memory Perms
begin

text \<open>
  \<open>generate_chase\<close> and \<open>generate_chase_long\<close> of \<open>permutation.c\<close>: a permutation of the
  elements that keeps TLB groups together, its inverse, and the loop that writes into every
  element the address of its successor. \<open>mixed\<close> is the macro \<open>MIXED\<close> (and \<open>MIXED_2\<close>): the
  offset of element \<open>x\<close>, read through the mixer row that starts at index \<open>row\<close>.
\<close>

unbundle bit_operations_syntax

subsection \<open>The code\<close>

text \<open>The chases of a thread, of \<open>multichase.c\<close> on 64-bit targets.\<close>

definition MAX_PARALLEL :: nat where
  "MAX_PARALLEL = 10"

definition mixed :: "'r chase_args \<Rightarrow> nat \<Rightarrow> nat \<Rightarrow> nat \<Rightarrow> nat res" where
  "mixed args row scale x =
     rbind (arr_get (mixer args) (add64 row (x AND sub64 (nr_mixers args) 1))) (\<lambda>v.
     Inr (add64 (mul64 x (stride args)) (mul64 v scale)))"

definition fill_groups ::
    "'r gen_fn \<Rightarrow> nat list \<Rightarrow> nat \<Rightarrow> nat \<Rightarrow> nat \<Rightarrow> nat list \<Rightarrow> 'r \<Rightarrow> (nat list \<times> 'r) res" where
  "fill_groups gen tlb_perm nr_tlb_groups per_tlb base perm s =
     for_range nr_tlb_groups (\<lambda>i (perm, s).
       rbind (arr_get tlb_perm i) (\<lambda>g.
       gen perm (add64 base (mul64 i per_tlb)) per_tlb (add64 base (mul64 g per_tlb)) s)) (perm, s)"

definition invert_perm :: "nat \<Rightarrow> nat list \<Rightarrow> nat list \<Rightarrow> nat list res" where
  "invert_perm n perm perm_inverse =
     for_range n (\<lambda>i pinv. rbind (arr_get perm i) (\<lambda>p. arr_set pinv p i)) perm_inverse"

definition thread_step ::
    "'r chase_args \<Rightarrow> nat \<Rightarrow> nat \<Rightarrow> nat \<Rightarrow> nat list \<Rightarrow> nat list \<Rightarrow> nat \<Rightarrow> mem \<Rightarrow> mem res" where
  "thread_step args row scale nr_elts perm perm_inverse i m =
     rbind (arr_get perm_inverse i) (\<lambda>k.
     let next = add64 k 1; next = (if next = nr_elts then 0 else next) in
     rbind (arr_get perm next) (\<lambda>q.
     rbind (mixed args row scale i) (\<lambda>a.
     rbind (mixed args row scale q) (\<lambda>b.
     store64 m (add64 (arena args) a) (add64 (arena args) b)))))"

definition generate_chase ::
    "heap_env \<Rightarrow> 'r chase_args \<Rightarrow> nat \<Rightarrow> mem \<Rightarrow> 'r \<Rightarrow> (nat \<times> mem \<times> 'r) res" where
  "generate_chase h args mixer_idx m s =
     (let gen = gen_permutation args; row = mul64 mixer_idx (nr_mixers args) in
      rbind (div64 (total_memory args) (tlb_locality args)) (\<lambda>nr_tlb_groups.
      rbind (div64 (tlb_locality args) (stride args)) (\<lambda>per_tlb.
      rbind (div64 (total_memory args) (stride args)) (\<lambda>nr_elts.
      rbind (div64 (stride args) (nr_mixer_indices args)) (\<lambda>scale.
      rbind (gen (malloc_unchecked h (mul64 nr_tlb_groups 8)) 0 nr_tlb_groups 0 s) (\<lambda>(tlb_perm, s).
      rbind (fill_groups gen tlb_perm nr_tlb_groups per_tlb 0
               (malloc_unchecked h (mul64 nr_elts 8)) s) (\<lambda>(perm, s).
      rbind (invert_perm nr_elts perm (malloc_unchecked h (mul64 nr_elts 8))) (\<lambda>perm_inverse.
      rbind (for_range nr_elts (thread_step args row scale nr_elts perm perm_inverse) m) (\<lambda>m.
      rbind (mixed args row scale 0) (\<lambda>a.
      Inr (add64 (arena args) a, m, s)))))))))))"

definition long_perms ::
    "heap_env \<Rightarrow> 'r gen_fn \<Rightarrow> nat \<Rightarrow> nat \<Rightarrow> nat \<Rightarrow> nat \<Rightarrow> nat list \<Rightarrow> 'r \<Rightarrow> (nat list \<times> 'r) res" where
  "long_perms h gen nr_iteration nr_elts nr_tlb_groups per_tlb perm s =
     for_range nr_iteration (\<lambda>j (perm, s).
       case malloc_words h (mul64 nr_tlb_groups 8) of None \<Rightarrow> Inl (Exit 1) | Some tlb_perm \<Rightarrow>
       rbind (gen tlb_perm 0 nr_tlb_groups 0 s) (\<lambda>(tlb_perm, s).
       fill_groups gen tlb_perm nr_tlb_groups per_tlb (mul64 j nr_elts) perm s)) (perm, s)"

definition thread_long_step ::
    "'r chase_args \<Rightarrow> nat \<Rightarrow> nat \<Rightarrow> nat \<Rightarrow> nat \<Rightarrow> nat list \<Rightarrow> nat list \<Rightarrow> nat \<Rightarrow> mem \<Rightarrow> mem res" where
  "thread_long_step args row scale nr_iteration n perm perm_inverse i m =
     (let j = i div n; mix = (\<lambda>e. mixed args (add64 row (mul64 (e div n) (nr_mixers args))) scale (e mod n)) in
      rbind (mix i) (\<lambda>a.
      rbind (load64 m (add64 (arena args) a)) (\<lambda>old.
      if old \<noteq> 0 then Inl AssertFail else
      rbind (arr_get perm_inverse i) (\<lambda>k.
      let next = add64 k 1;
          next = (if next mod n = 0 \<and> next div n > j then mul64 j n else next) in
      rbind (arr_get perm next) (\<lambda>q.
      if q mod n = 0 then
        (let new = mul64 (add64 j 1) n; new = (if new = mul64 nr_iteration n then 0 else new) in
         rbind (mix new) (\<lambda>b. store64 m (add64 (arena args) a) (add64 (arena args) b)))
      else rbind (mix q) (\<lambda>b. store64 m (add64 (arena args) a) (add64 (arena args) b)))))))"

definition generate_chase_long ::
    "heap_env \<Rightarrow> 'r chase_args \<Rightarrow> nat \<Rightarrow> nat \<Rightarrow> mem \<Rightarrow> 'r \<Rightarrow> (nat \<times> mem \<times> 'r) res" where
  "generate_chase_long h args mixer_idx total_par m s =
     (let gen = gen_permutation args in
      rbind (div64 (nr_mixer_indices args) total_par) (\<lambda>nr_iteration.
      let row = mul64 (mul64 mixer_idx nr_iteration) (nr_mixers args) in
      rbind (div64 (total_memory args) (tlb_locality args)) (\<lambda>nr_tlb_groups.
      rbind (div64 (tlb_locality args) (stride args)) (\<lambda>per_tlb.
      rbind (div64 (total_memory args) (stride args)) (\<lambda>nr_elts.
      rbind (div64 (stride args) (nr_mixer_indices args)) (\<lambda>scale.
      case malloc_words h (mul64 (mul64 nr_iteration nr_elts) 8) of None \<Rightarrow> Inl (Exit 1) | Some perm \<Rightarrow>
      rbind (long_perms h gen nr_iteration nr_elts nr_tlb_groups per_tlb perm s) (\<lambda>(perm, s).
      case malloc_words h (mul64 (mul64 nr_iteration nr_elts) 8) of None \<Rightarrow> Inl (Exit 1) | Some blk \<Rightarrow>
      rbind (invert_perm (mul64 nr_iteration nr_elts) perm blk) (\<lambda>perm_inverse.
      rbind (for_range (mul64 nr_elts nr_iteration)
               (thread_long_step args row scale nr_iteration nr_elts perm perm_inverse) m) (\<lambda>m.
      rbind (mixed args row scale 0) (\<lambda>a.
      Inr (add64 (arena args) a, m, s)))))))))))"

subsection \<open>Where the cells are\<close>

text \<open>
  The geometry the option checks of \<open>main\<close> establish and \<open>generate_chase_mixer\<close> completes:
  whole elements in whole TLB groups, room for one pointer per mixer index in each element,
  an arena that does not wrap.
\<close>

definition chase_geometry :: "'r chase_args \<Rightarrow> bool" where
  "chase_geometry args \<longleftrightarrow>
     0 < stride args \<and> stride args dvd tlb_locality args \<and>
     tlb_locality args dvd total_memory args \<and> 0 < total_memory args \<and>
     8 \<le> stride args div nr_mixer_indices args \<and>
     arena args + total_memory args < W64 \<and> mixer_ok args"

definition nr_elements :: "'r chase_args \<Rightarrow> nat" where
  "nr_elements args = total_memory args div stride args"

definition cell_addr :: "'r chase_args \<Rightarrow> nat \<Rightarrow> nat \<Rightarrow> nat" where
  "cell_addr args j x =
     arena args + (x * stride args +
       mixer args ! (j * nr_mixers args + x mod nr_mixers args) *
         (stride args div nr_mixer_indices args))"

lemma mixer_entry:
  assumes "mixer_ok args" and "j < nr_mixer_indices args"
  shows "mixer args ! (j * nr_mixers args + x mod nr_mixers args) < nr_mixer_indices args"
proof -
  have c: "x mod nr_mixers args < nr_mixers args"
    using assms(1) by (auto simp: mixer_ok_def)
  then have "mset (mixer_column args (x mod nr_mixers args)) = mset [0..<nr_mixer_indices args]"
    using assms(1) by (simp add: mixer_ok_def)
  then have "set (mixer_column args (x mod nr_mixers args)) = {0..<nr_mixer_indices args}"
    by (metis set_mset_mset set_upt)
  moreover have "mixer args ! (j * nr_mixers args + x mod nr_mixers args) \<in>
      set (mixer_column args (x mod nr_mixers args))"
    using assms(2) by (auto simp: mixer_column_def)
  ultimately show ?thesis by auto
qed

lemma row_offset_lt:
  assumes "mixer_ok args" and "j < nr_mixer_indices args"
  shows "j * nr_mixers args < W64"
proof -
  have "0 < nr_mixers args" using assms(1) by (auto simp: mixer_ok_def)
  then have "j * nr_mixers args < nr_mixer_indices args * nr_mixers args"
    using assms(2) by simp
  also have "\<dots> < W64" using assms(1) unfolding mixer_ok_def by metis
  finally show ?thesis .
qed

lemma mixer_rows_differ:
  assumes "mixer_ok args" and "j < nr_mixer_indices args" and "k < nr_mixer_indices args" and "j \<noteq> k"
  shows "mixer args ! (j * nr_mixers args + x mod nr_mixers args) \<noteq>
         mixer args ! (k * nr_mixers args + x mod nr_mixers args)"
proof -
  let ?c = "mixer_column args (x mod nr_mixers args)"
  have c: "x mod nr_mixers args < nr_mixers args"
    using assms(1) by (auto simp: mixer_ok_def)
  then have "mset ?c = mset [0..<nr_mixer_indices args]"
    using assms(1) by (simp add: mixer_ok_def)
  then have d: "distinct ?c" by (metis distinct_upt mset_eq_imp_distinct_iff)
  have "?c ! j = ?c ! k \<longleftrightarrow> j = k"
    by (rule nth_eq_iff_index_eq[OF d]) (simp_all add: mixer_column_def assms)
  then show ?thesis using assms by (simp add: mixer_column_def)
qed

lemma geometryD:
  assumes "chase_geometry args"
  shows "0 < stride args" "0 < nr_elements args" "0 < nr_mixers args"
    "nr_elements args * stride args = total_memory args"
    "0 < nr_mixer_indices args" "mixer_ok args" "arena args + total_memory args < W64"
    "8 \<le> stride args div nr_mixer_indices args"
proof -
  have dvd: "stride args dvd total_memory args"
    using assms dvd_trans by (auto simp: chase_geometry_def)
  then show "nr_elements args * stride args = total_memory args"
    by (simp add: nr_elements_def)
  then show "0 < nr_elements args"
    using assms by (auto simp: chase_geometry_def intro: Nat.gr0I)
  show "0 < nr_mixer_indices args"
    using assms by (auto simp: chase_geometry_def intro: Nat.gr0I)
  show "0 < nr_mixers args"
    using assms by (auto simp: chase_geometry_def mixer_ok_def)
qed (use assms in \<open>auto simp: chase_geometry_def\<close>)

text \<open>Every cell lies inside its element, and the elements tile the arena.\<close>

lemma cell_addr_bounds:
  assumes geo: "chase_geometry args" and j: "j < nr_mixer_indices args"
  shows "arena args + x * stride args \<le> cell_addr args j x"
    and "cell_addr args j x + 8 \<le> arena args + Suc x * stride args"
proof -
  let ?v = "mixer args ! (j * nr_mixers args + x mod nr_mixers args)"
  let ?s = "stride args div nr_mixer_indices args"
  show "arena args + x * stride args \<le> cell_addr args j x"
    by (simp add: cell_addr_def)
  have "?v < nr_mixer_indices args"
    using mixer_entry j geometryD(6)[OF geo] by blast
  then have "Suc ?v * ?s \<le> nr_mixer_indices args * ?s"
    by (intro mult_le_mono1) simp
  also have "\<dots> \<le> stride args" by simp
  finally have "?v * ?s + 8 \<le> stride args"
    using geometryD(8)[OF geo] by simp
  then show "cell_addr args j x + 8 \<le> arena args + Suc x * stride args"
    by (simp add: cell_addr_def)
qed

lemma element_in_arena:
  assumes "chase_geometry args" and "x < nr_elements args"
  shows "arena args + Suc x * stride args \<le> arena args + total_memory args"
  using mult_le_mono1[of "Suc x" "nr_elements args" "stride args"] assms
  by (simp add: geometryD(4))

lemma cell_addr_lt:
  assumes "chase_geometry args" and "j < nr_mixer_indices args" and "x < nr_elements args"
  shows "cell_addr args j x + 8 \<le> arena args + total_memory args" "cell_addr args j x < W64"
proof -
  show "cell_addr args j x + 8 \<le> arena args + total_memory args"
    using cell_addr_bounds(2)[OF assms(1,2), of x] element_in_arena[OF assms(1,3)] by linarith
  then show "cell_addr args j x < W64"
    using geometryD(7)[OF assms(1)] by linarith
qed

text \<open>Cells of different elements, or of different mixer rows, do not overlap.\<close>

lemma cell_addr_apart:
  assumes geo: "chase_geometry args" and j: "j < nr_mixer_indices args" "k < nr_mixer_indices args"
    and ne: "x \<noteq> y \<or> j \<noteq> k"
  shows "apart (cell_addr args j x) (cell_addr args k y)"
proof (cases x y rule: linorder_cases)
  case less
  have "Suc x * stride args \<le> y * stride args"
    using less by (intro mult_le_mono1) simp
  then show ?thesis
    using cell_addr_bounds(2)[OF geo j(1), of x] cell_addr_bounds(1)[OF geo j(2), of y]
    by (simp add: apart_def)
next
  case greater
  have "Suc y * stride args \<le> x * stride args"
    using greater by (intro mult_le_mono1) simp
  then show ?thesis
    using cell_addr_bounds(2)[OF geo j(2), of y] cell_addr_bounds(1)[OF geo j(1), of x]
    by (simp add: apart_def)
next
  case equal
  let ?s = "stride args div nr_mixer_indices args"
  let ?v = "\<lambda>r. mixer args ! (r * nr_mixers args + x mod nr_mixers args)"
  have "?v j \<noteq> ?v k"
    using mixer_rows_differ geometryD(6)[OF geo] j ne equal by blast
  then consider "Suc (?v j) \<le> ?v k" | "Suc (?v k) \<le> ?v j" by linarith
  then have "?v j * ?s + 8 \<le> ?v k * ?s \<or> ?v k * ?s + 8 \<le> ?v j * ?s"
  proof cases
    case 1
    then have "Suc (?v j) * ?s \<le> ?v k * ?s" by (rule mult_le_mono1)
    then show ?thesis using geometryD(8)[OF geo] by simp
  next
    case 2
    then have "Suc (?v k) * ?s \<le> ?v j * ?s" by (rule mult_le_mono1)
    then show ?thesis using geometryD(8)[OF geo] by simp
  qed
  then show ?thesis by (auto simp: apart_def cell_addr_def equal)
qed

lemma cell_addr_inj:
  assumes "chase_geometry args" "j < nr_mixer_indices args" "k < nr_mixer_indices args"
    and "cell_addr args j x = cell_addr args k y"
  shows "x = y \<and> j = k"
  using cell_addr_apart[OF assms(1-3), of x y] assms(4) apart_neq by blast

text \<open>The macro computes these addresses, with no wrap-around on the way.\<close>

lemma mixed_cell:
  assumes geo: "chase_geometry args" and j: "j < nr_mixer_indices args"
    and x: "x < nr_elements args"
  shows "\<exists>a. mixed args (j * nr_mixers args) (stride args div nr_mixer_indices args) x = Inr a \<and>
    add64 (arena args) a = cell_addr args j x"
proof -
  let ?n = "nr_mixers args" and ?s = "stride args div nr_mixer_indices args"
  let ?v = "mixer args ! (j * ?n + x mod ?n)"
  have ok: "mixer_ok args" and n: "0 < ?n" using geometryD[OF geo] by auto
  have idx: "j * ?n + x mod ?n < length (mixer args)"
    using table_index[OF j, of "x mod ?n" ?n] n ok by (simp add: mixer_ok_def)
  then have idx64: "j * ?n + x mod ?n < W64" using ok by (simp add: mixer_ok_def)
  obtain k where k: "?n = 2 ^ k" using ok by (auto simp: mixer_ok_def)
  have "?n \<le> nr_mixer_indices args * ?n" using geometryD(5)[OF geo] by simp
  also have "\<dots> < W64" using ok unfolding mixer_ok_def by metis
  finally have n64: "?n < W64" .
  have mask: "x AND sub64 ?n 1 = x mod ?n"
    using n n64 and_pow2_mask[of x k] by (simp add: c_arith k)
  have lt: "cell_addr args j x < W64" by (rule cell_addr_lt(2)[OF assms])
  have off: "x * stride args + ?v * ?s < W64"
    using lt by (simp add: cell_addr_def)
  have "mixed args (j * ?n) ?s x = Inr (x * stride args + ?v * ?s)"
    using idx idx64 off by (simp add: mixed_def mask[simplified] c_arith)
  then show ?thesis
    using lt by (simp add: cell_addr_def c_arith)
qed

subsection \<open>The permutation and its inverse\<close>

lemma wp_invert_perm:
  assumes "perm_upto n perm" and "length pinv = n"
  shows "wp (\<lambda>_. False) (\<lambda>pinv'. length pinv' = n \<and> (\<forall>i<n. pinv' ! (perm ! i) = i))
    (invert_perm n perm pinv)"
  unfolding invert_perm_def
proof (rule wp_for_rangeI[where I = "\<lambda>k pinv'. length pinv' = n \<and> (\<forall>i<k. pinv' ! (perm ! i) = i)"],
    goal_cases)
  case (2 k pinv')
  have "perm ! i \<noteq> perm ! k" if "i < k" for i
    using that 2(1) perm_uptoD[OF assms(1)] by (simp add: nth_eq_iff_index_eq)
  then show ?case
    using 2 perm_uptoD(1)[OF assms(1)] perm_upto_nth[OF assms(1) 2(1)]
    by (fastforce simp: less_Suc_eq nth_list_update)
qed (use assms in auto)

lemma inverse_facts:
  assumes "perm_upto n perm" and "\<forall>i<n. pinv ! (perm ! i) = i" and "e < n"
  shows "pinv ! e < n" "perm ! (pinv ! e) = e"
  using perm_upto_ex[OF assms(1,3)] assms(2) by auto

context perm_generator
begin

lemma wp_fill_groups:
  assumes len: "b + length tlb * q \<le> length perm" and bnd: "length perm < W64"
    and tlb: "\<And>g. g \<in> set tlb \<Longrightarrow> g < length tlb"
  shows "wp (\<lambda>e. e = Exit 1 \<and> \<not> ok s)
    (\<lambda>(perm', s'). (ok s \<longrightarrow> ok s') \<and> (\<exists>segs. group_layout b q tlb segs \<and>
      perm' = take b perm @ concat segs @ drop (b + length tlb * q) perm))
    (fill_groups gen tlb (length tlb) q b perm s)"
  unfolding fill_groups_def
proof (rule wp_for_rangeI[where I = "\<lambda>i (perm', s'). (ok s \<longrightarrow> ok s') \<and>
    (\<exists>segs. group_layout b q (take i tlb) segs \<and>
      perm' = take b perm @ concat segs @ drop (b + i * q) perm)"], goal_cases)
  case (2 i st)
  obtain p1 s1 segs where st: "st = (p1, s1)" and ok1: "ok s \<longrightarrow> ok s1"
    and lay: "group_layout b q (take i tlb) segs"
    and p1: "p1 = take b perm @ concat segs @ drop (b + i * q) perm"
    using 2(2) by (cases st) auto
  have "Suc i * q \<le> length tlb * q" using 2(1) by (intro mult_le_mono1) simp
  then have fit: "b + i * q + q \<le> length perm" using len by simp
  have cl: "length (concat segs) = i * q"
    using group_layoutD(2)[OF lay] 2(1) by simp
  have lp1: "length p1 = length perm" using p1 cl fit by simp
  let ?g = "tlb ! i"
  have "Suc ?g * q \<le> length tlb * q" using tlb[of ?g] 2(1) by (intro mult_le_mono1) simp
  then have gfit: "b + ?g * q + q < W64" using len bnd by simp
  have ix: "add64 b (mul64 i q) = b + i * q" "add64 b (mul64 ?g q) = b + ?g * q"
    using fit gfit bnd by (simp_all add: c_arith)
  have tk: "take (b + i * q) p1 = take b perm @ concat segs"
    using cl fit by (simp add: p1)
  have dr: "drop (b + i * q + q) p1 = drop (b + Suc i * q) perm"
    using cl fit by (simp add: p1 add.commute add.left_commute)
  have "wp (\<lambda>e. e = Exit 1 \<and> \<not> ok s1) (\<lambda>(perm', s'). (ok s1 \<longrightarrow> ok s') \<and>
      (\<exists>seg. perm' = take (b + i * q) p1 @ seg @ drop (b + i * q + q) p1 \<and>
        mset seg = mset [b + ?g * q..<b + ?g * q + q]))
      (gen p1 (b + i * q) q (b + ?g * q) s1)"
    using gfit fit lp1 by (intro gen_wp) simp_all
  then have "wp (\<lambda>e. e = Exit 1 \<and> \<not> ok s) (\<lambda>(perm', s'). (ok s \<longrightarrow> ok s') \<and>
      (\<exists>segs. group_layout b q (take (Suc i) tlb) segs \<and>
        perm' = take b perm @ concat segs @ drop (b + Suc i * q) perm))
      (gen p1 (b + i * q) q (b + ?g * q) s1)"
  proof (rule wp_mono, goal_cases)
    case (2 r)
    then obtain p2 s2 seg where r: "r = (p2, s2)" "ok s1 \<longrightarrow> ok s2"
      "p2 = take b perm @ concat (segs @ [seg]) @ drop (b + Suc i * q) perm"
      and seg: "mset seg = mset [b + ?g * q..<b + ?g * q + q]"
      unfolding tk dr by (cases r) auto
    have "group_layout b q (take (Suc i) tlb) (segs @ [seg])"
      using group_layout_snoc[OF lay seg] \<open>i < length tlb\<close> by (simp add: take_Suc_conv_app_nth)
    then show ?case using r ok1 by (auto simp del: concat_append)
  qed (use ok1 in auto)
  then show ?case
    using 2(1) by (simp add: st ix)
qed (auto intro: exI[of _ "[]"])

end

subsection \<open>Threading the chase\<close>

text \<open>
  The chase for row \<open>j\<close> follows a permutation of the elements: from some position of it,
  round to that position again.
\<close>

definition chase_follows :: "'r chase_args \<Rightarrow> nat \<Rightarrow> nat list \<Rightarrow> mem \<Rightarrow> bool" where
  "chase_follows args j perm m \<longleftrightarrow>
     (\<exists>k. chase_cycle m (cell_addr args j 0) (map (cell_addr args j) (rotate k perm)))"

text \<open>The memory outside the cells of row \<open>j\<close> is as before, and mapped as before.\<close>

definition only_row :: "'r chase_args \<Rightarrow> nat \<Rightarrow> mem \<Rightarrow> mem \<Rightarrow> bool" where
  "only_row args j m m' \<longleftrightarrow>
     (\<forall>a. (\<forall>x<nr_elements args. apart (cell_addr args j x) a) \<longrightarrow> load64 m' a = load64 m a) \<and>
     (\<forall>a. mapped m' a 8 = mapped m a 8)"

lemma thread_step_eq:
  assumes geo: "chase_geometry args" and j: "j < nr_mixer_indices args"
    and n: "n = nr_elements args" "n < W64"
    and perm: "perm_upto n perm" and inv: "length pinv = n" "\<forall>i<n. pinv ! (perm ! i) = i"
    and i: "i < n"
  shows "thread_step args (j * nr_mixers args) (stride args div nr_mixer_indices args) n perm pinv i m =
    store64 m (cell_addr args j i) (cell_addr args j (perm ! (Suc (pinv ! i) mod n)))"
proof -
  let ?k = "pinv ! i"
  have k: "?k < n" by (rule inverse_facts[OF perm inv(2) i])
  then have suc: "add64 ?k (Suc 0) = Suc ?k" and
    next_: "Suc ?k mod n = (if Suc ?k = n then 0 else Suc ?k)"
    using n(2) by (auto simp: c_arith)
  have nx: "Suc ?k mod n < n" using k by simp
  then have q: "perm ! (Suc ?k mod n) < n" by (rule perm_upto_nth[OF perm])
  obtain a b where
    "mixed args (j * nr_mixers args) (stride args div nr_mixer_indices args) i = Inr a"
    "add64 (arena args) a = cell_addr args j i"
    "mixed args (j * nr_mixers args) (stride args div nr_mixer_indices args) (perm ! (Suc ?k mod n)) = Inr b"
    "add64 (arena args) b = cell_addr args j (perm ! (Suc ?k mod n))"
    using mixed_cell[OF geo j] i q n(1) by metis
  then show ?thesis
    using i inv k nx perm_uptoD(1)[OF perm]
    by (auto simp: thread_step_def Let_def suc next_)
qed

lemma cells_mapped:
  assumes "chase_geometry args" and "mapped m (arena args) (total_memory args)"
    and "j < nr_mixer_indices args" and "x < nr_elements args"
  shows "mapped m (cell_addr args j x) 8"
  using assms cell_addr_bounds(1)[OF assms(1,3), of x] cell_addr_lt(1)[OF assms(1,3,4)]
  by (auto intro: mapped_sub)

text \<open>The cycle the successor pointers form.\<close>

lemma successors_cycle:
  assumes perm: "perm_upto n perm" and inv: "\<forall>i<n. pinv ! (perm ! i) = i" and n: "0 < n"
    and inj: "\<And>x y. x < n \<Longrightarrow> y < n \<Longrightarrow> f x = f y \<Longrightarrow> x = y"
    and cells: "\<And>i. i < n \<Longrightarrow> load64 m (f i) = Inr (f (perm ! (Suc (pinv ! i) mod n)))"
  shows "chase_cycle m (f 0) (map f (rotate (pinv ! 0) perm))"
  unfolding chase_cycle_def
proof (intro conjI allI impI)
  note P = perm_uptoD[OF perm]
  let ?xs = "rotate (pinv ! 0) perm"
  show "map f ?xs \<noteq> []" using P n by auto
  have at: "?xs ! k = perm ! ((pinv ! 0 + k) mod n)" if "k < n" for k
    using that P by (simp add: nth_rotate)
  have "?xs ! 0 = 0"
    using at[of 0] n inverse_facts[OF perm inv, of 0] by simp
  then show "hd (map f ?xs) = f 0"
    using P n by (subst hd_conv_nth) auto
  show "distinct (map f ?xs)"
    using P inj by (auto simp: distinct_map inj_on_def)
  fix k assume "k < length (map f ?xs)"
  then have k: "k < n" using P by simp
  let ?e = "(pinv ! 0 + k) mod n"
  have e: "?e < n" using n by simp
  have "load64 m (map f ?xs ! k) = Inr (f (perm ! (Suc ?e mod n)))"
    using cells[OF perm_upto_nth[OF perm e]] inv e k P at[OF k] by simp
  moreover have "Suc ?e mod n = (pinv ! 0 + Suc k mod n) mod n"
    by (simp add: mod_Suc_eq mod_add_right_eq)
  ultimately show "load64 m (map f ?xs ! k) = Inr (map f ?xs ! (Suc k mod length (map f ?xs)))"
    using at[of "Suc k mod n"] n P by simp
qed

lemma wp_thread:
  assumes geo: "chase_geometry args" and j: "j < nr_mixer_indices args"
    and m: "mapped m (arena args) (total_memory args)"
    and n: "n = nr_elements args" "n < W64"
    and perm: "perm_upto n perm" and inv: "length pinv = n" "\<forall>i<n. pinv ! (perm ! i) = i"
  shows "wp (\<lambda>_. False) (\<lambda>m'. chase_follows args j perm m' \<and> only_row args j m m')
    (for_range n (thread_step args (j * nr_mixers args)
       (stride args div nr_mixer_indices args) n perm pinv) m)"
proof -
  let ?f = "cell_addr args j" and ?g = "\<lambda>i. cell_addr args j (perm ! (Suc (pinv ! i) mod n))"
  have n0: "0 < n" using geometryD(2)[OF geo] n by simp
  have "for_range n (thread_step args (j * nr_mixers args)
       (stride args div nr_mixer_indices args) n perm pinv) m =
    for_range n (\<lambda>i s. store64 s (?f i) (?g i)) m"
    by (intro for_range_cong thread_step_eq assms)
  moreover have "wp (\<lambda>_. False) (\<lambda>m'. (\<forall>i<n. load64 m' (?f i) = Inr (?g i)) \<and>
        (\<forall>a. (\<forall>i<n. apart (?f i) a) \<longrightarrow> load64 m' a = load64 m a) \<and>
        (\<forall>a. mapped m' a 8 = mapped m a 8))
      (for_range n (\<lambda>i s. store64 s (?f i) (?g i)) m)"
  proof (rule bytes.fill_cells)
    show "mapped m (?f i) 8" if "i < n" for i
      using cells_mapped[OF geo m j] that n by simp
    show "?g i < W64" for i
      using cell_addr_lt(2)[OF geo j] perm_upto_nth[OF perm] n n0 by simp
  qed (use cell_addr_apart[OF geo j j] in blast)
  moreover have "chase_follows args j perm m'" if "\<forall>i<n. load64 m' (?f i) = Inr (?g i)" for m'
    unfolding chase_follows_def
    using successors_cycle[OF perm inv(2) n0, of ?f m'] that cell_addr_inj[OF geo j j] by blast
  ultimately show ?thesis
    by (auto simp: only_row_def n elim!: wp_mono)
qed

subsection \<open>generate_chase\<close>

lemma geometry_counts:
  assumes "chase_geometry args"
  shows "total_memory args div tlb_locality args * (tlb_locality args div stride args) = nr_elements args"
    "0 < tlb_locality args" "nr_elements args * 8 \<le> total_memory args"
    "total_memory args div tlb_locality args \<le> nr_elements args" "total_memory args < W64"
proof -
  have s: "0 < stride args" and dvd: "stride args dvd tlb_locality args"
      "tlb_locality args dvd total_memory args" and t: "0 < total_memory args"
    using assms by (auto simp: chase_geometry_def)
  obtain p where p: "tlb_locality args = stride args * p"
    using dvd(1) by (rule dvdE)
  obtain g where g: "total_memory args = tlb_locality args * g"
    using dvd(2) by (rule dvdE)
  have pg: "0 < p" "0 < g" using t p g by (auto intro: Nat.gr0I)
  have eq: "total_memory args div tlb_locality args = g" "tlb_locality args div stride args = p"
    "nr_elements args = g * p"
    using s pg by (simp_all add: nr_elements_def p g mult.assoc mult.commute)
  then show "total_memory args div tlb_locality args * (tlb_locality args div stride args) = nr_elements args"
    by simp
  show "0 < tlb_locality args" using p pg s by simp
  show "total_memory args div tlb_locality args \<le> nr_elements args" using eq pg by simp
  have "8 \<le> stride args"
    using geometryD(8)[OF assms] div_le_dividend[of "stride args" "nr_mixer_indices args"] by linarith
  then show "nr_elements args * 8 \<le> total_memory args"
    using geometryD(4)[OF assms] by (metis mult_le_mono2)
  show "total_memory args < W64" using geometryD(7)[OF assms] by simp
qed

context perm_generator
begin

lemma wp_chase_perm:
  assumes tlb: "perm_upto G tlb" and len: "length perm = G * q" and bnd: "G * q < W64"
  shows "wp (\<lambda>e. e = Exit 1 \<and> \<not> ok s)
    (\<lambda>(perm', s'). (ok s \<longrightarrow> ok s') \<and> perm_upto (G * q) perm' \<and> tlb_grouped q perm')
    (fill_groups gen tlb G q 0 perm s)"
proof -
  note T = perm_uptoD[OF tlb]
  have "wp (\<lambda>e. e = Exit 1 \<and> \<not> ok s)
    (\<lambda>(perm', s'). (ok s \<longrightarrow> ok s') \<and> (\<exists>segs. group_layout 0 q tlb segs \<and>
      perm' = take 0 perm @ concat segs @ drop (0 + length tlb * q) perm))
    (fill_groups gen tlb (length tlb) q 0 perm s)"
    using T len bnd by (intro wp_fill_groups) auto
  then show ?thesis
    using T len group_layout_mset[OF _ tlb] group_layout_grouped
    by (fastforce simp: perm_upto_def elim!: wp_mono)
qed

end

text \<open>The blocks \<open>malloc\<close> returns have the lengths the code asked for.\<close>

lemma chase_blocks:
  assumes "chase_geometry args" and "malloc_serves h (total_memory args)"
  shows "length (malloc_unchecked h (mul64 (total_memory args div tlb_locality args) 8)) =
      total_memory args div tlb_locality args"
    "length (malloc_unchecked h (mul64 (nr_elements args) 8)) = nr_elements args"
proof -
  let ?G = "total_memory args div tlb_locality args" and ?n = "nr_elements args"
  note C = geometry_counts[OF assms(1)]
  have "?G * 8 \<le> total_memory args" "?n * 8 \<le> total_memory args" using C by linarith+
  then show "length (malloc_unchecked h (mul64 ?G 8)) = ?G"
    "length (malloc_unchecked h (mul64 ?n 8)) = ?n"
    using malloc_servesD[OF assms(2)] C(5) by (simp_all add: c_arith)
qed

text \<open>Whatever permutation the two generator calls deliver, the chase follows it.\<close>

lemma wp_generate_chase_of:
  assumes geo: "chase_geometry args" and j: "j < nr_mixer_indices args"
    and m: "mapped m (arena args) (total_memory args)"
    and n: "n = nr_elements args" and G: "G = total_memory args div tlb_locality args"
    and q: "q = tlb_locality args div stride args"
    and tb: "tb = malloc_unchecked h (mul64 G 8)" and pb: "pb = malloc_unchecked h (mul64 n 8)"
    and lpb: "length pb = n"
    and perms: "wp E (\<lambda>(tlb, s1). wp E (\<lambda>(perm, s2). perm_upto n perm \<and> P perm s2)
      (fill_groups (gen_permutation args) tlb G q 0 pb s1)) (gen_permutation args tb 0 G 0 s)"
  shows "wp E (\<lambda>(p, m', s'). p = cell_addr args j 0 \<and> only_row args j m m' \<and>
      (\<exists>perm. perm_upto n perm \<and> P perm s' \<and> chase_follows args j perm m'))
    (generate_chase h args j m s)"
proof -
  note C = geometry_counts[OF geo, folded n] and D = geometryD[OF geo, folded n]
  have n64: "n < W64" using C by simp
  have jn: "mul64 j (nr_mixers args) = j * nr_mixers args"
    using row_offset_lt[OF D(6) j] by (simp add: c_arith)
  have rest: "wp E (\<lambda>pinv. wp E (\<lambda>m'. only_row args j m m' \<and> chase_follows args j perm m')
      (for_range n (thread_step args (j * nr_mixers args)
        (stride args div nr_mixer_indices args) n perm pinv) m)) (invert_perm n perm pb)"
    if "perm_upto n perm" for perm
    using wp_invert_perm[OF that lpb] wp_thread[OF geo j m n n64 that]
    by (fastforce elim!: wp_mono)
  obtain a where a: "mixed args (j * nr_mixers args) (stride args div nr_mixer_indices args) 0 = Inr a"
    "add64 (arena args) a = cell_addr args j 0"
    using mixed_cell[OF geo j, of 0] D(2)[unfolded n] by blast
  have divs: "div64 (total_memory args) (tlb_locality args) = Inr G"
    "div64 (tlb_locality args) (stride args) = Inr q"
    "div64 (total_memory args) (stride args) = Inr n"
    "div64 (stride args) (nr_mixer_indices args) = Inr (stride args div nr_mixer_indices args)"
    using C D by (simp_all add: n nr_elements_def G q)
  show ?thesis
    unfolding generate_chase_def Let_def divs rbind.simps jn tb[symmetric] pb[symmetric] wp_rbind
  proof (rule wp_mono[OF perms], goal_cases)
    case (2 v)
    then show ?case
      by (auto simp: a elim!: wp_mono intro!: wp_mono[OF rest] split: prod.splits)
  qed
qed

context perm_generator
begin

lemma wp_generate_chase:
  assumes gen: "gen_permutation args = gen"
    and geo: "chase_geometry args" and j: "j < nr_mixer_indices args"
    and m: "mapped m (arena args) (total_memory args)"
    and malloc: "malloc_serves h (total_memory args)"
  shows "wp (\<lambda>e. e = Exit 1 \<and> \<not> ok s)
    (\<lambda>(p, m', s'). p = cell_addr args j 0 \<and> only_row args j m m' \<and> (ok s \<longrightarrow> ok s') \<and>
      (\<exists>perm. perm_upto (nr_elements args) perm \<and>
        tlb_grouped (tlb_locality args div stride args) perm \<and> chase_follows args j perm m'))
    (generate_chase h args j m s)"
proof -
  let ?G = "total_memory args div tlb_locality args"
  let ?q = "tlb_locality args div stride args"
  let ?n = "nr_elements args"
  note B = chase_blocks[OF geo malloc] and C = geometry_counts[OF geo]
  have n64: "?n < W64" "?G < W64" using C by simp_all
  have "wp (\<lambda>e. e = Exit 1 \<and> \<not> ok s)
      (\<lambda>(tlb, s'). perm_upto ?G tlb \<and> (ok s \<longrightarrow> ok s'))
      (gen (malloc_unchecked h (mul64 ?G 8)) 0 ?G 0 s)"
    using wp_gen_fill[OF B(1), of s] n64 by (auto simp: perm_upto_def elim!: wp_mono)
  moreover have "wp (\<lambda>e. e = Exit 1 \<and> \<not> ok s)
      (\<lambda>(perm, s'). perm_upto ?n perm \<and> tlb_grouped ?q perm \<and> (ok s \<longrightarrow> ok s'))
      (fill_groups gen tlb ?G ?q 0 (malloc_unchecked h (mul64 ?n 8)) s1)"
    if "perm_upto ?G tlb" "ok s \<longrightarrow> ok s1" for tlb s1
    using wp_chase_perm[OF that(1) _ _, of "malloc_unchecked h (mul64 ?n 8)" ?q s1]
      B(2) that(2) n64(1) unfolding C(1) by (auto elim!: wp_mono)
  ultimately have "wp (\<lambda>e. e = Exit 1 \<and> \<not> ok s)
      (\<lambda>(tlb, s1). wp (\<lambda>e. e = Exit 1 \<and> \<not> ok s)
        (\<lambda>(perm, s2). perm_upto ?n perm \<and> (tlb_grouped ?q perm \<and> (ok s \<longrightarrow> ok s2)))
        (fill_groups gen tlb ?G ?q 0 (malloc_unchecked h (mul64 ?n 8)) s1))
      (gen (malloc_unchecked h (mul64 ?G 8)) 0 ?G 0 s)"
    by (auto elim!: wp_mono)
  from wp_generate_chase_of[OF geo j m refl refl refl refl refl B(2) this[folded gen]]
  show ?thesis by (auto elim!: wp_mono)
qed

end

end
