(* ===== verification/Options.thy ===== *)
theory Options
  imports Util Chase
begin

text \<open>
  The command line of \<open>multichase.c\<close>: the table of chases, the selection of a chase by name, the
  \<open>getopt\<close> loop as a fold over the options it delivers, and the checks that turn the sizes into
  a geometry. \<open>getopt\<close> itself, \<open>open\<close> and the page size are parameters; every message that
  precedes an \<open>exit(1)\<close> is left out.
\<close>

subsection \<open>The table of chases\<close>

text \<open>The 64-bit targets; \<open>AArch64\<close> stands for every target that is not \<open>x86_64\<close>.\<close>

datatype arch = X86_64 | AArch64

datatype chase_fn = Simple | Gpu | Work | Incr | Branch | Prefetch string | Movdqa | Movntdqa |
  Parallel nat | Critword2

record chase_t =
  fn :: chase_fn
  base_object_size :: nat
  name :: string
  requires_arg :: bool
  parallelism :: nat

definition chase_row :: "chase_fn \<Rightarrow> nat \<Rightarrow> string \<Rightarrow> bool \<Rightarrow> nat \<Rightarrow> chase_t" where
  "chase_row f sz nm req par =
     \<lparr>fn = f, base_object_size = sz, name = nm, requires_arg = req, parallelism = par\<rparr>"

definition chases :: "arch \<Rightarrow> chase_t list" where
  "chases arch =
     [chase_row Simple 8 ''simple'' False 1,
      chase_row Gpu 8 ''gpu'' False 1,
      chase_row Work 8 ''work'' True 1,
      chase_row Incr 16 ''incr'' False 1,
      chase_row Branch 16 ''branch'' False 1] @
     (if arch = X86_64 then
       [chase_row (Prefetch ''t0'') 8 ''t0'' False 1,
        chase_row (Prefetch ''t1'') 8 ''t1'' False 1,
        chase_row (Prefetch ''t2'') 8 ''t2'' False 1,
        chase_row (Prefetch ''nta'') 8 ''nta'' False 1,
        chase_row Movdqa 64 ''movdqa'' False 1,
        chase_row Movntdqa 64 ''movntdqa'' False 1] else []) @
     [chase_row (Parallel 2) 8 ''parallel2'' False 2,
      chase_row (Parallel 3) 8 ''parallel3'' False 3,
      chase_row (Parallel 4) 8 ''parallel4'' False 4,
      chase_row (Parallel 5) 8 ''parallel5'' False 5,
      chase_row (Parallel 6) 8 ''parallel6'' False 6,
      chase_row (Parallel 7) 8 ''parallel7'' False 7,
      chase_row (Parallel 8) 8 ''parallel8'' False 8,
      chase_row (Parallel 9) 8 ''parallel9'' False 9,
      chase_row (Parallel 10) 8 ''parallel10'' False 10] @
     (if arch = X86_64 then [chase_row Critword2 64 ''critword2'' True 1] else []) @
     [chase_row Simple 64 ''critword'' True 1]"

text \<open>\<open>strncmp(a, b, n) == 0\<close>.\<close>

fun strncmp_eq :: "string \<Rightarrow> string \<Rightarrow> nat \<Rightarrow> bool" where
  "strncmp_eq a b 0 = True"
| "strncmp_eq (x # a) (y # b) (Suc n) = (x = y \<and> strncmp_eq a b n)"
| "strncmp_eq [] [] (Suc n) = True"
| "strncmp_eq _ _ (Suc n) = False"

text \<open>\<open>case 'c'\<close>: the first entry whose name starts with the characters before the colon.\<close>

definition select_chase :: "arch \<Rightarrow> string \<Rightarrow> string option \<Rightarrow> (chase_t \<times> string option) res" where
  "select_chase arch optarg extra_args =
     (let key = takeWhile (\<lambda>c. c \<noteq> CHR '':'') optarg; p = drop (length key) optarg in
      case find (\<lambda>e. strncmp_eq optarg (name e) (length key)) (chases arch) of
        None \<Rightarrow> Inl (Exit 1)
      | Some e \<Rightarrow>
          if requires_arg e then
            (if p = [] \<or> tl p = [] then Inl (Exit 1) else Inr (e, Some (tl p)))
          else if p \<noteq> [] then Inl (Exit 1) else Inr (e, extra_args))"

subsection \<open>The option loop\<close>

definition MAX_MEM_NODES :: nat where
  "MAX_MEM_NODES = 64"

record settings =
  print_average :: bool
  chase :: chase_t
  extra_args :: "string option"
  fd :: int
  cache_flush_size :: nat
  page_size :: nat
  use_thp :: bool
  use_malloc :: bool
  use_longer_chase :: bool
  mem_size :: nat
  elt_stride :: nat
  tlb_size :: nat
  ordered_chase :: bool
  duration_nsecs :: nat
  nr_samples :: nat
  offset :: nat
  nr_threads :: nat
  verbosity :: nat
  is_weighted_mbind :: bool
  mbind_weights :: "nat list"
  set_thread_affinity :: bool
  print_timestamp :: bool

definition default_settings :: "arch \<Rightarrow> nat \<Rightarrow> settings" where
  "default_settings arch native_page_size =
     \<lparr>print_average = False, chase = hd (chases arch), extra_args = None, fd = -1,
      cache_flush_size = 64 * 1024 * 1024, page_size = native_page_size, use_thp = False,
      use_malloc = False, use_longer_chase = False, mem_size = 256 * 1024 * 1024,
      elt_stride = 256, tlb_size = mul64 64 native_page_size, ordered_chase = False,
      duration_nsecs = W64 - 1, nr_samples = 5, offset = 0, nr_threads = 1, verbosity = 0,
      is_weighted_mbind = False, mbind_weights = replicate MAX_MEM_NODES 0,
      set_thread_affinity = True, print_timestamp = False\<rparr>"

text \<open>\<open>strtok_r(s, sep)\<close> until NULL: the maximal runs without the separator.\<close>

fun split_at :: "char \<Rightarrow> string \<Rightarrow> string list" where
  "split_at sep [] = [[]]"
| "split_at sep (c # s) =
     (case split_at sep s of
        [] \<Rightarrow> [[c]]
      | t # ts \<Rightarrow> if c = sep then [] # t # ts else (c # t) # ts)"

definition tokens :: "char \<Rightarrow> string \<Rightarrow> string list" where
  "tokens sep s = filter (\<lambda>t. t \<noteq> []) (split_at sep s)"

text \<open>\<open>sscanf(tok, "%hu:%hu", \<dots>) == 2\<close>; a number is cut to its low 16 bits.\<close>

definition scan_hu :: "string \<Rightarrow> (nat \<times> string) option" where
  "scan_hu str =
     (let (neg, s) = number_sign (dropWhile is_space str);
          ds = takeWhile (is_digit 10) s; v = digits_value 10 ds;
          v = (if W64 \<le> v then W64 - 1 else if neg then sub64 0 v else v) in
      if ds = [] then None else Some (v mod 65536, dropWhile (is_digit 10) s))"

definition scan_weight :: "string \<Rightarrow> (nat \<times> nat) option" where
  "scan_weight tok =
     (case scan_hu tok of
        None \<Rightarrow> None
      | Some (node, rest) \<Rightarrow>
          if rest = [] \<or> hd rest \<noteq> CHR '':'' then None
          else map_option (\<lambda>(weight, _). (node, weight)) (scan_hu (tl rest)))"

primrec set_weights :: "string list \<Rightarrow> nat list \<Rightarrow> nat list res" where
  "set_weights [] ws = Inr ws"
| "set_weights (tok # toks) ws =
     (case scan_weight tok of
        None \<Rightarrow> Inl (Exit 1)
      | Some (node, weight) \<Rightarrow>
          if length ws \<le> node then Inl (Exit 1) else set_weights toks (ws[node := weight]))"

text \<open>A size option, and a number that \<open>strtoul\<close> reads to the end of the string.\<close>

definition size_arg :: "string \<Rightarrow> nat res" where
  "size_arg s = (case parse_mem_arg s of None \<Rightarrow> Inl (Exit 1) | Some n \<Rightarrow> Inr n)"

definition number_arg :: "string \<Rightarrow> nat res" where
  "number_arg s = (let (n, p) = strtoull s in if p \<noteq> [] then Inl (Exit 1) else Inr n)"

definition set_option ::
    "arch \<Rightarrow> (string \<Rightarrow> int) \<Rightarrow> char \<times> string \<Rightarrow> settings \<Rightarrow> settings res" where
  "set_option arch open_rdwr opt s =
     (let (c, optarg) = opt in
      if c = CHR ''a'' then Inr (s\<lparr>print_average := True\<rparr>)
      else if c = CHR ''c'' then
        rbind (select_chase arch optarg (extra_args s)) (\<lambda>(e, x). Inr (s\<lparr>chase := e, extra_args := x\<rparr>))
      else if c = CHR ''f'' then
        (if fd s \<noteq> -1 then Inl (Exit 1)
         else if open_rdwr optarg = -1 then Inl (Exit 1) else Inr (s\<lparr>fd := open_rdwr optarg\<rparr>))
      else if c = CHR ''F'' then rbind (size_arg optarg) (\<lambda>n. Inr (s\<lparr>cache_flush_size := n\<rparr>))
      else if c = CHR ''p'' then rbind (size_arg optarg) (\<lambda>n. Inr (s\<lparr>page_size := n\<rparr>))
      else if c = CHR ''H'' then Inr (s\<lparr>use_thp := True\<rparr>)
      else if c = CHR ''M'' then Inr (s\<lparr>use_malloc := True\<rparr>)
      else if c = CHR ''L'' then Inr (s\<lparr>use_longer_chase := True\<rparr>)
      else if c = CHR ''m'' then
        rbind (size_arg optarg) (\<lambda>n. if n = 0 then Inl (Exit 1) else Inr (s\<lparr>mem_size := n\<rparr>))
      else if c = CHR ''N'' then Inr (s\<lparr>duration_nsecs := 0\<rparr>)
      else if c = CHR ''n'' then rbind (number_arg optarg) (\<lambda>n. Inr (s\<lparr>nr_samples := n\<rparr>))
      else if c = CHR ''O'' then rbind (size_arg optarg) (\<lambda>n. Inr (s\<lparr>offset := n\<rparr>))
      else if c = CHR ''o'' then Inr (s\<lparr>ordered_chase := True\<rparr>)
      else if c = CHR ''s'' then rbind (size_arg optarg) (\<lambda>n. Inr (s\<lparr>elt_stride := n\<rparr>))
      else if c = CHR ''T'' then rbind (size_arg optarg) (\<lambda>n. Inr (s\<lparr>tlb_size := n\<rparr>))
      else if c = CHR ''t'' then
        rbind (number_arg optarg) (\<lambda>n. if n = 0 then Inl (Exit 1) else Inr (s\<lparr>nr_threads := n\<rparr>))
      else if c = CHR ''v'' then Inr (s\<lparr>verbosity := Suc (verbosity s)\<rparr>)
      else if c = CHR ''W'' then
        rbind (set_weights (tokens CHR '','' optarg) (mbind_weights s))
          (\<lambda>ws. Inr (s\<lparr>is_weighted_mbind := True, mbind_weights := ws\<rparr>))
      else if c = CHR ''X'' then Inr (s\<lparr>set_thread_affinity := False\<rparr>)
      else if c = CHR ''y'' then Inr (s\<lparr>print_timestamp := True\<rparr>)
      else Inl (Exit 1))"

definition read_options ::
    "arch \<Rightarrow> (string \<Rightarrow> int) \<Rightarrow> nat \<Rightarrow> (char \<times> string) list \<Rightarrow> nat \<Rightarrow> settings res" where
  "read_options arch open_rdwr native_page_size opts operands =
     rbind (for_each opts (set_option arch open_rdwr) (default_settings arch native_page_size)) (\<lambda>s.
     if operands \<noteq> 0 then Inl (Exit 1) else Inr s)"

subsection \<open>The geometry\<close>

definition round_tlb :: "nat \<Rightarrow> nat \<Rightarrow> nat" where
  "round_tlb elt tlb = (if tlb < elt then elt else tlb - tlb mod elt)"

definition round_memory :: "nat \<Rightarrow> nat \<Rightarrow> nat \<Rightarrow> nat \<times> nat" where
  "round_memory elt tlb mem =
     (if mem < tlb then
        (let mem = (if mem < elt then elt else mem - mem mod elt) in (mem, mem))
      else (mem - mem mod tlb, tlb))"

definition settle_geometry :: "settings \<Rightarrow> (settings \<times> nat) res" where
  "settle_geometry s =
     (if elt_stride s < 8 then Inl (Exit 1)
      else let tlb = round_tlb (elt_stride s) (tlb_size s);
               (mem, tlb) = round_memory (elt_stride s) tlb (mem_size s);
               nr_mixer_indices = elt_stride s div base_object_size (chase s) in
           if nr_mixer_indices < mul64 (nr_threads s) (parallelism (chase s)) then Inl (Exit 1)
           else Inr (s\<lparr>tlb_size := tlb, mem_size := mem\<rparr>, nr_mixer_indices))"


lemma round_tlb_ok:
  assumes "0 < elt"
  shows "0 < round_tlb elt tlb" "elt dvd round_tlb elt tlb" "elt \<le> round_tlb elt tlb"
    "round_tlb elt tlb \<le> max elt tlb"
proof -
  have "tlb - tlb mod elt = tlb div elt * elt" by (simp add: minus_mod_eq_div_mult)
  moreover have "0 < tlb div elt" if "\<not> tlb < elt" using that assms by (simp add: div_greater_zero_iff)
  ultimately show "0 < round_tlb elt tlb" "elt dvd round_tlb elt tlb" "round_tlb elt tlb \<le> max elt tlb"
    using assms by (auto simp: round_tlb_def)
  then show "elt \<le> round_tlb elt tlb" by (simp add: dvd_imp_le)
qed

lemma round_memory_ok:
  assumes "0 < elt" "elt dvd tlb" "0 < tlb" and r: "round_memory elt tlb mem = (mem', tlb')"
  shows "elt dvd tlb'" "tlb' dvd mem'" "0 < mem'" "tlb' \<le> tlb" "mem' \<le> max elt mem"
proof -
  have cut: "n - n mod k = n div k * k" "k \<le> n \<Longrightarrow> 0 < k \<Longrightarrow> 0 < n div k" for n k :: nat
    by (simp_all add: minus_mod_eq_div_mult div_greater_zero_iff)
  have "elt \<le> tlb" using assms by (simp add: dvd_imp_le)
  then show "elt dvd tlb'" "tlb' dvd mem'" "0 < mem'" "mem' \<le> max elt mem"
    using assms cut(2)[of elt mem] cut(2)[of tlb mem]
    by (auto simp: round_memory_def Let_def cut(1) not_less split: if_splits)
  show "tlb' \<le> tlb"
    using assms \<open>elt \<le> tlb\<close> by (auto simp: round_memory_def Let_def split: if_splits)
qed

subsection \<open>The table and the selection\<close>

lemma chases_ok:
  assumes "e \<in> set (chases arch)"
  shows "8 \<le> base_object_size e" "1 \<le> parallelism e" "parallelism e \<le> 10"
  using assms by (auto simp: chases_def chase_row_def split: if_splits)

lemma strncmp_eq_take:
  "n \<le> length a \<Longrightarrow> strncmp_eq a b n \<longleftrightarrow> take n a = take n b"
  by (induction a b n rule: strncmp_eq.induct) auto

lemma select_chase_in:
  assumes "select_chase arch s x = Inr (e, y)"
  shows "e \<in> set (chases arch)"
proof -
  have "find (\<lambda>e. strncmp_eq s (name e) (length (takeWhile (\<lambda>c. c \<noteq> CHR '':'') s))) (chases arch) = Some e"
    using assms by (auto simp: select_chase_def Let_def split: option.splits if_splits)
  then show ?thesis by (auto simp: find_Some_iff)
qed

lemma find_append:
  "find P (xs @ ys) = (case find P xs of None \<Rightarrow> find P ys | Some x \<Rightarrow> Some x)"
  by (induction xs) auto

text \<open>No name has a colon, and only \<open>critword\<close> is a prefix of an earlier name.\<close>

lemma chases_names:
  "\<forall>e\<in>set (chases arch). \<forall>c\<in>set (name e). c \<noteq> CHR '':''"
  "e \<in> set (chases arch) \<Longrightarrow> arch = AArch64 \<or> name e \<noteq> ''critword'' \<Longrightarrow>
   find (\<lambda>f. take (length (name e)) (name f) = name e) (chases arch) = Some e"
proof -
  show "\<forall>e\<in>set (chases arch). \<forall>c\<in>set (name e). c \<noteq> CHR '':''"
    by (cases arch; hypsubst) code_simp+
  have "list_all (\<lambda>e. arch = AArch64 \<or> name e \<noteq> ''critword'' \<longrightarrow>
      find (\<lambda>f. take (length (name e)) (name f) = name e) (chases arch) = Some e) (chases arch)"
    by (cases arch; hypsubst) code_simp+
  then show "e \<in> set (chases arch) \<Longrightarrow> arch = AArch64 \<or> name e \<noteq> ''critword'' \<Longrightarrow>
      find (\<lambda>f. take (length (name e)) (name f) = name e) (chases arch) = Some e"
    by (auto simp only: list_all_iff)
qed

text \<open>Option -c with the exact name of a chase (and an argument when the chase requires
  one) selects that chase, for every entry of the table except critword on x86_64.\<close>
theorem select_chase_by_name:
  assumes "e \<in> set (chases arch)" and "arch = AArch64 \<or> name e \<noteq> ''critword''" and "a \<noteq> []"
  shows "select_chase arch (name e @ (if requires_arg e then CHR '':'' # a else [])) x =
    Inr (e, if requires_arg e then Some a else x)"
proof -
  let ?rest = "if requires_arg e then CHR '':'' # a else []" and ?n = "length (name e)"
  have colon: "\<forall>c\<in>set (name e). c \<noteq> CHR '':''" using chases_names(1) assms(1) by blast
  then have key: "takeWhile (\<lambda>c. c \<noteq> CHR '':'') (name e @ ?rest) = name e"
    by (subst takeWhile_append2) auto
  have "find (\<lambda>f. strncmp_eq (name e @ ?rest) (name f) ?n) (chases arch) = Some e"
    using chases_names(2)[of e arch] assms(1,2) strncmp_eq_take[of ?n "name e @ ?rest"]
    by (simp add: eq_commute[of "name e"])
  then show ?thesis
    using assms(3) by (simp only: select_chase_def Let_def key) simp
qed

theorem select_chase_by_name_witness:
  "select_chase X86_64 ''critword2:64'' None =
    Inr (chase_row Critword2 64 ''critword2'' True 1, Some ''64'')"
  using select_chase_by_name[of "chase_row Critword2 64 ''critword2'' True 1" X86_64 "''64''" None]
  by (simp add: chases_def chase_row_def)

text \<open>On x86_64 no argument of -c selects the chase critword: every prefix that matches
  it matches the earlier entry critword2.\<close>
theorem critword_unreachable:
  assumes "select_chase X86_64 optarg x = Inr (e, y)"
  shows "name e \<noteq> ''critword''"
proof
  assume crit: "name e = ''critword''"
  let ?n = "length (takeWhile (\<lambda>c. c \<noteq> CHR '':'') optarg)"
  let ?P = "\<lambda>e. strncmp_eq optarg (name e) ?n"
  let ?c2 = "chase_row Critword2 64 ''critword2'' True 1" and ?c1 = "chase_row Simple 64 ''critword'' True 1"
  obtain pre where pre: "chases X86_64 = pre @ [?c2, ?c1]" "\<forall>e\<in>set pre. name e \<noteq> ''critword''"
    by (rule that[of "butlast (butlast (chases X86_64))"]) (simp_all add: chases_def chase_row_def)
  have found: "find ?P (chases X86_64) = Some e"
    using assms by (auto simp: select_chase_def Let_def split: option.splits if_splits)
  have n: "?n \<le> length optarg" by (rule length_takeWhile_le)
  have Pe: "?P e" using found by (auto simp: find_Some_iff)
  then have t: "take ?n optarg = take ?n ''critword''"
    using crit strncmp_eq_take[OF n] by simp
  have "?n = length (take ?n optarg)" using n by simp
  also have "\<dots> \<le> 8" unfolding t by simp
  finally have "take ?n (''critword'' @ ''2'') = take ?n ''critword''" by (subst take_append) simp
  then have "?P ?c2"
    using t strncmp_eq_take[OF n, of "''critword2''"] by (simp add: chase_row_def)
  then have "e \<in> set pre \<or> e = ?c2"
    using found by (auto simp: pre(1) find_append find_Some_iff split: option.splits)
  then show False
    using pre(2) crit by (auto simp: chase_row_def)
qed

theorem critword_unreachable_witness:
  "\<exists>e y. select_chase X86_64 ''critword:64'' None = Inr (e, y) \<and> name e \<noteq> ''critword''"
proof -
  have "select_chase X86_64 ''critword:64'' None =
      Inr (chase_row Critword2 64 ''critword2'' True 1, Some ''64'')"
    by (simp add: select_chase_def chases_def chase_row_def Let_def)
  from this critword_unreachable[OF this] show ?thesis by blast
qed

subsection \<open>What the option loop establishes\<close>

definition settings_ok :: "arch \<Rightarrow> settings \<Rightarrow> bool" where
  "settings_ok arch s \<longleftrightarrow>
     chase s \<in> set (chases arch) \<and> 0 < mem_size s \<and> mem_size s < W64 \<and> elt_stride s < W64 \<and>
     tlb_size s < W64 \<and> 0 < nr_threads s \<and> nr_threads s < W64 \<and> offset s < W64 \<and>
     page_size s < W64 \<and> cache_flush_size s < W64 \<and> nr_samples s < W64 \<and> duration_nsecs s < W64 \<and>
     length (mbind_weights s) = MAX_MEM_NODES \<and> (\<forall>w\<in>set (mbind_weights s). w < 65536)"

lemma strtoull_lt: "strtoull s = (n, p) \<Longrightarrow> n < W64"
proof -
  assume *: "strtoull s = (n, p)"
  have "W64 - 1 < W64" by simp
  then show "n < W64"
    using * by (auto simp: strtoull_def Let_def split: prod.splits if_splits)
qed

lemma wp_size_arg: "wp (\<lambda>e. e = Exit 1) (\<lambda>n. n < W64) (size_arg s)"
  by (auto simp: size_arg_def parse_mem_arg_def Let_def split: option.splits prod.splits if_splits)

lemma wp_number_arg: "wp (\<lambda>e. e = Exit 1) (\<lambda>n. n < W64) (number_arg s)"
  by (auto simp: number_arg_def dest: strtoull_lt split: prod.splits)

lemma scan_weight_lt: "scan_weight t = Some (node, w) \<Longrightarrow> w < 65536"
  by (auto simp: scan_weight_def scan_hu_def Let_def split: option.splits prod.splits if_splits)

lemma wp_set_weights:
  assumes "\<forall>w\<in>set ws. w < 65536"
  shows "wp (\<lambda>e. e = Exit 1)
    (\<lambda>ws'. length ws' = length ws \<and> (\<forall>w\<in>set ws'. w < 65536)) (set_weights toks ws)"
  using assms
proof (induction toks arbitrary: ws)
  case (Cons t toks)
  show ?case
  proof (cases "scan_weight t")
    case (Some nw)
    obtain node w where nw: "nw = (node, w)" by force
    have "\<forall>v\<in>set (ws[node := w]). v < 65536"
      using Cons.prems scan_weight_lt[of t node w] Some nw by (auto dest!: set_update_subset_insert[THEN subsetD])
    from Cons.IH[OF this] show ?thesis by (auto simp: Some nw)
  qed simp
qed simp

lemma wp_select_chase: "wp (\<lambda>e. e = Exit 1) (\<lambda>(e, x). e \<in> set (chases arch)) (select_chase arch s x)"
proof (cases "select_chase arch s x")
  case (Inl e)
  then show ?thesis by (auto simp: select_chase_def Let_def split: option.splits if_splits)
next
  case (Inr r)
  then show ?thesis by (cases r) (auto dest: select_chase_in)
qed

lemma wp_set_option:
  assumes "settings_ok arch s"
  shows "wp (\<lambda>e. e = Exit 1) (settings_ok arch) (set_option arch open_rdwr opt s)"
proof -
  obtain c a where opt: "opt = (c, a)" by force
  note S = wp_if wp_bindI[OF wp_size_arg] wp_bindI[OF wp_number_arg] wp_bindI[OF wp_select_chase]
    wp_bindI[OF wp_set_weights] wp_prodI
  have ws: "\<forall>w\<in>set (mbind_weights s). w < 65536" using assms by (simp add: settings_ok_def)
  show ?thesis
    unfolding opt set_option_def Let_def prod.case
    by (intro S ws; use assms in \<open>simp add: settings_ok_def\<close>)
qed

text \<open>C23: Reading the options, with a page size of the system below 2^64, either exits with
  status 1 or leaves settings in which the chase is one of the table, total_memory and
  nr_threads are positive, every size and count (-m, -s, -T, -O, -p, -F, -t, -n and the
  duration) fits in 64 bits and the 64 node weights fit in 16 bits.\<close>
theorem read_options_ok:
  assumes "native_page_size < 2 ^ 64"
  shows "case read_options arch open_rdwr native_page_size opts operands of
     Inl e \<Rightarrow> e = Exit 1
   | Inr s \<Rightarrow> settings_ok arch s \<and> operands = 0"
proof -
  have init: "settings_ok arch (default_settings arch native_page_size)"
    using assms by (auto simp: settings_ok_def default_settings_def chases_def W64_def mul64_def)
  have "wp (\<lambda>e. e = Exit 1) (settings_ok arch)
      (for_each opts (set_option arch open_rdwr) (default_settings arch native_page_size))"
    by (rule wp_for_each[where I = "\<lambda>_. settings_ok arch"]) (use init wp_set_option in auto)
  then have "wp (\<lambda>e. e = Exit 1) (\<lambda>s. settings_ok arch s \<and> operands = 0)
      (read_options arch open_rdwr native_page_size opts operands)"
    by (auto simp: read_options_def elim!: wp_mono)
  then show ?thesis by (cases "read_options arch open_rdwr native_page_size opts operands") auto
qed

theorem read_options_ok_witness:
  "case read_options AArch64 (\<lambda>_. 3) 65536 [(CHR ''F'', ''256m''), (CHR ''p'', ''2m''), (CHR ''t'', ''4'')] 0 of
     Inl e \<Rightarrow> e = Exit 1
   | Inr s \<Rightarrow> settings_ok AArch64 s \<and> (0::nat) = 0"
  by (rule read_options_ok) simp

subsection \<open>What the size checks establish\<close>

lemma settle_geometry_result:
  assumes "settings_ok arch s"
  shows "case settle_geometry s of
      Inl e \<Rightarrow> e = Exit 1 \<and> (elt_stride s < 8 \<or>
        elt_stride s div base_object_size (chase s) < nr_threads s * parallelism (chase s) mod 2 ^ 64)
    | Inr (s', n) \<Rightarrow>
        8 \<le> elt_stride s \<and> n = elt_stride s div base_object_size (chase s) \<and>
        nr_threads s * parallelism (chase s) mod 2 ^ 64 \<le> n \<and>
        s' = s\<lparr>tlb_size := tlb_size s', mem_size := mem_size s'\<rparr> \<and>
        elt_stride s' dvd tlb_size s' \<and> tlb_size s' dvd mem_size s' \<and> 0 < mem_size s' \<and>
        mem_size s' \<le> max (elt_stride s) (mem_size s) \<and>
        (nr_threads s * parallelism (chase s) < 2 ^ 64 \<longrightarrow>
           nr_threads s' * parallelism (chase s') \<le> n \<and> 0 < n \<and> 8 \<le> elt_stride s' div n)"
proof -
  let ?e = "elt_stride s" and ?b = "base_object_size (chase s)"
  let ?n = "?e div ?b" and ?par = "nr_threads s * parallelism (chase s)"
  obtain mem tlb where r: "round_memory ?e (round_tlb ?e (tlb_size s)) (mem_size s) = (mem, tlb)"
    by force
  have ch: "chase s \<in> set (chases arch)" and t: "0 < nr_threads s"
    using assms(1) by (simp_all add: settings_ok_def)
  note C = chases_ok[OF ch]
  have par: "mul64 (nr_threads s) (parallelism (chase s)) = ?par mod 2 ^ 64"
    by (simp add: mul64_def W64_def)
  have "0 < ?par" using C t by simp
  have "8 \<le> ?e div ?n" if "0 < ?n"
  proof -
    have "?b * ?n \<le> ?e" by simp
    then have "?b \<le> ?e div ?n" using that by (simp add: less_eq_div_iff_mult_less_eq)
    then show ?thesis using C by simp
  qed
  moreover have "?par \<le> ?n" if "?par mod 2 ^ 64 \<le> ?n" "?par < 2 ^ 64" using that by simp
  ultimately have room: "?par \<le> ?n \<and> 0 < ?n \<and> 8 \<le> ?e div ?n" if "?par mod 2 ^ 64 \<le> ?n" "?par < 2 ^ 64"
    using that \<open>0 < ?par\<close> less_le_trans by blast
  have cut: "?e dvd tlb \<and> tlb dvd mem \<and> 0 < mem \<and> mem \<le> max ?e (mem_size s)" if pos: "0 < ?e"
    using round_memory_ok[OF pos round_tlb_ok(2,1)[OF pos] r] by simp
  consider "?e < 8" | "8 \<le> ?e" "?n < ?par mod 2 ^ 64" | "8 \<le> ?e" "?par mod 2 ^ 64 \<le> ?n" by linarith
  then show ?thesis
  proof cases
    case 3
    then have "settle_geometry s = Inr (s\<lparr>tlb_size := tlb, mem_size := mem\<rparr>, ?n)"
      by (simp add: settle_geometry_def r par Let_def not_less)
    then show ?thesis using cut room[OF 3(2)] 3 by simp
  qed (simp_all add: settle_geometry_def r par Let_def)
qed

text \<open>C22: The size checks of main exit exactly when the stride is below 8 or holds fewer
  base objects than the product of threads and parallelism modulo 2^64; otherwise the arena has
  whole elements in whole TLB groups and, when that product does not wrap, room for all chases
  with at least 8 bytes per mixer index.\<close>
theorem settle_geometry_ok:
  assumes "settings_ok arch s"
  shows "case settle_geometry s of
      Inl e \<Rightarrow> e = Exit 1 \<and> (elt_stride s < 8 \<or>
        elt_stride s div base_object_size (chase s) < nr_threads s * parallelism (chase s) mod 2 ^ 64)
    | Inr (s', n) \<Rightarrow>
        8 \<le> elt_stride s \<and> n = elt_stride s div base_object_size (chase s) \<and>
        nr_threads s * parallelism (chase s) mod 2 ^ 64 \<le> n \<and>
        s' = s\<lparr>tlb_size := tlb_size s', mem_size := mem_size s'\<rparr> \<and>
        elt_stride s' dvd tlb_size s' \<and> tlb_size s' dvd mem_size s' \<and> 0 < mem_size s' \<and>
        mem_size s' \<le> max (elt_stride s) (mem_size s) \<and>
        (nr_threads s * parallelism (chase s) < 2 ^ 64 \<longrightarrow>
           nr_threads s' * parallelism (chase s') \<le> n \<and> 0 < n \<and> 8 \<le> elt_stride s' div n)"
  using assms by (rule settle_geometry_result)

theorem settle_geometry_ok_witness:
  "case settle_geometry (default_settings X86_64 4096) of
      Inl e \<Rightarrow> False
    | Inr (s', n) \<Rightarrow> tlb_size s' dvd mem_size s' \<and> 1 \<le> n"
proof -
  have "settings_ok X86_64 (default_settings X86_64 4096)"
    by (auto simp: settings_ok_def default_settings_def chases_def W64_def mul64_def)
  moreover have "nr_threads (default_settings X86_64 4096) = 1"
    "parallelism (chase (default_settings X86_64 4096)) = 1"
    "elt_stride (default_settings X86_64 4096) = 256"
    "base_object_size (chase (default_settings X86_64 4096)) = 8"
    by (simp_all add: default_settings_def chases_def chase_row_def)
  ultimately show ?thesis
    using settle_geometry_ok[of X86_64 "default_settings X86_64 4096"]
    by (auto split: sum.splits)
qed

text \<open>A total memory below the stride is rounded up to one element.\<close>
theorem settle_geometry_rounds_up:
  assumes "8 \<le> elt_stride s" and "mem_size s < elt_stride s"
    and "settle_geometry s = Inr (s', n)"
  shows "mem_size s' = elt_stride s \<and> mem_size s < mem_size s' \<and> tlb_size s' = elt_stride s"
proof -
  have "elt_stride s \<le> round_tlb (elt_stride s) (tlb_size s)"
    using assms(1) by (intro round_tlb_ok) simp
  then show ?thesis
    using assms by (auto simp: settle_geometry_def round_memory_def Let_def split: if_splits)
qed

theorem settle_geometry_rounds_up_witness:
  "\<exists>s' n. settle_geometry (default_settings X86_64 4096\<lparr>mem_size := 100\<rparr>) = Inr (s', n) \<and>
     mem_size s' = 256"
proof -
  let ?s = "default_settings X86_64 4096\<lparr>mem_size := 100\<rparr>"
  have "\<exists>r. settle_geometry ?s = Inr r"
    by (simp add: settle_geometry_def default_settings_def chases_def chase_row_def
        round_tlb_def round_memory_def mul64_def W64_def)
  then obtain s' n where "settle_geometry ?s = Inr (s', n)" by auto
  from settle_geometry_rounds_up[OF _ _ this] this show ?thesis
    by (simp add: default_settings_def)
qed

text \<open>The product of the room check is a \<open>size_t\<close>: with \<open>-c parallel2\<close> and \<open>-t\<close> 2^63 it is 0, and
  main goes on although 32 objects per element cannot hold 2^64 chases.\<close>
theorem room_check_wraps:
  "\<exists>s s' n. settings_ok AArch64 s \<and> settle_geometry s = Inr (s', n) \<and>
     n < nr_threads s * parallelism (chase s)"
proof -
  let ?c = "chase_row (Parallel 2) 8 ''parallel2'' False 2"
  let ?s = "default_settings AArch64 4096\<lparr>chase := ?c, nr_threads := 2 ^ 63\<rparr>"
  have "?c \<in> set (chases AArch64)" by (simp add: chases_def)
  then have ok: "settings_ok AArch64 ?s"
    by (simp add: settings_ok_def default_settings_def W64_def mul64_def)
  have fields: "nr_threads ?s = 2 ^ 63" "parallelism (chase ?s) = 2" "elt_stride ?s = 256" "base_object_size (chase ?s) = 8"
    by (simp_all add: default_settings_def chase_row_def)
  obtain s' n where "settle_geometry ?s = Inr (s', n)" and "n = 32"
    using settle_geometry_result[OF ok] unfolding fields by (auto split: sum.splits)
  moreover have "n < nr_threads ?s * parallelism (chase ?s)" unfolding fields \<open>n = 32\<close> by simp
  ultimately show ?thesis using ok by blast
qed

end
