(* ===== verification/Kernels.thy ===== *)
theory Kernels
  imports Branch Options
begin

text \<open>
  The chase kernels of \<open>multichase.c\<close>: each repeats an unrolled block of dereferences and then
  adds their number to the thread's 32-bit \<open>count\<close> with \<open>__sync_add_and_fetch\<close>, until the sum is 0.
  The main thread takes the count and sets it to 0 between two additions (\<open>__sync_lock_test_and_set\<close>):
  \<open>sampled k\<close> says that it does so before the \<open>k\<close>-th addition. A kernel that never ends is the
  value None.
\<close>

subsection \<open>The loop of a kernel\<close>

text \<open>The fields of \<open>per_thread_t\<close> that a kernel uses.\<close>

record per_thread =
  thread_count :: nat
  cycle :: "nat list"
  extra_arg :: string
  dummy :: "32 word"
  branch_chunk_size :: nat

partial_function (option) kernel_loop ::
    "nat \<Rightarrow> ('s \<Rightarrow> 's res option) \<Rightarrow> nat \<Rightarrow> (nat \<Rightarrow> bool) \<Rightarrow> nat \<Rightarrow> 's \<Rightarrow> nat \<Rightarrow> 's res option" where
  "kernel_loop bits body n sampled k s c =
     (case body s of
        None \<Rightarrow> None
      | Some (Inl e) \<Rightarrow> Some (Inl e)
      | Some (Inr s') \<Rightarrow>
          (let c' = ((if sampled k then 0 else c) + n) mod 2 ^ bits in
           if c' = 0 then Some (Inr s') else kernel_loop bits body n sampled (Suc k) s' c'))"

text \<open>The loop from the thread's count, and what is stored when it is left (\<open>fin\<close>).\<close>

definition kernel ::
    "nat \<Rightarrow> ('s \<Rightarrow> 's res option) \<Rightarrow> nat \<Rightarrow> (nat \<Rightarrow> bool) \<Rightarrow> per_thread \<Rightarrow> 's res \<Rightarrow>
     ('s \<Rightarrow> per_thread) \<Rightarrow> (per_thread \<times> 's) res option" where
  "kernel bits body n sampled t start fin =
     (case start of
        Inl e \<Rightarrow> Some (Inl e)
      | Inr s \<Rightarrow> map_option (\<lambda>r. rbind r (\<lambda>s. Inr ((fin s)\<lparr>thread_count := 0\<rparr>, s)))
          (kernel_loop bits body n sampled 0 s (thread_count t)))"

definition rep :: "nat \<Rightarrow> ('s \<Rightarrow> 's res) \<Rightarrow> 's \<Rightarrow> 's res option" where
  "rep n f s = Some (for_range n (\<lambda>_. f) s)"

subsection \<open>The kernels\<close>

definition chase_simple :: "nat \<Rightarrow> mem \<Rightarrow> (nat \<Rightarrow> bool) \<Rightarrow> per_thread \<Rightarrow> (per_thread \<times> nat) res option" where
  "chase_simple bits m sampled t =
     kernel bits (rep 200 (load64 m)) 200 sampled t (arr_get (cycle t) 0) (\<lambda>p. t\<lparr>dummy := of_nat p\<rparr>)"

text \<open>\<open>template(n, expand, inner)\<close>: \<open>D(i)\<close> on the first \<open>n\<close> of the ten pointers.\<close>

definition parallel_expand :: "nat \<Rightarrow> nat" where
  "parallel_expand n = the (map_of (zip [2, 3, 4, 5, 6, 7, 8, 9, 10] [100, 66, 50, 40, 32, 28, 24, 22, 20]) n)"

definition deref_at :: "mem \<Rightarrow> nat \<Rightarrow> nat list \<Rightarrow> nat list res" where
  "deref_at m i ps = rbind (arr_get ps i) (\<lambda>p. rbind (load64 m p) (\<lambda>q. arr_set ps i q))"

definition chase_parallel ::
    "nat \<Rightarrow> nat \<Rightarrow> mem \<Rightarrow> (nat \<Rightarrow> bool) \<Rightarrow> per_thread \<Rightarrow> (per_thread \<times> nat list) res option" where
  "chase_parallel bits n m sampled t =
     kernel bits (rep (parallel_expand n) (for_range n (deref_at m))) (n * parallel_expand n) sampled t
       (for_range 10 (\<lambda>i ps. rbind (arr_get (cycle t) i) (\<lambda>p. Inr (ps @ [p]))) [])
       (\<lambda>ps. t\<lparr>dummy := of_nat (sum_list ps)\<rparr>)"

text \<open>The state is \<open>(work, p)\<close>.\<close>

definition work_step :: "mem \<Rightarrow> nat \<Rightarrow> nat \<times> nat \<Rightarrow> (nat \<times> nat) res" where
  "work_step m extra_work s =
     (let (work, p) = s; work = add64 work p in
      rbind (load64 m p) (\<lambda>p.
      rbind (for_range extra_work (\<lambda>i work. Inr (work XOR i)) work) (\<lambda>work.
      Inr (work, p))))"

definition chase_work :: "nat \<Rightarrow> mem \<Rightarrow> (nat \<Rightarrow> bool) \<Rightarrow> per_thread \<Rightarrow> (per_thread \<times> nat \<times> nat) res option" where
  "chase_work bits m sampled t =
     (let extra_work = fst (strtoull (extra_arg t)) in
      kernel bits (rep 25 (work_step m extra_work)) 25 sampled t
        (rbind (arr_get (cycle t) 0) (\<lambda>p. Inr (0, p)))
        (\<lambda>(work, p). t\<lparr>cycle := (cycle t)[0 := p], dummy := of_nat work\<rparr>))"

text \<open>\<open>++p->incme\<close> on the \<open>unsigned\<close> behind the pointer; the state is \<open>(p, m)\<close>.\<close>

definition load32 :: "mem \<Rightarrow> nat \<Rightarrow> nat res" where
  "load32 m a = rbind (read_bytes m a 4) (\<lambda>bs. Inr (of_bytes bs))"

definition store32 :: "mem \<Rightarrow> nat \<Rightarrow> nat \<Rightarrow> mem res" where
  "store32 m a v = write_bytes m a (bytes_of 4 v)"

definition incr_step :: "nat \<times> mem \<Rightarrow> (nat \<times> mem) res" where
  "incr_step s =
     (let (p, m) = s in
      rbind (load32 m (p + 8)) (\<lambda>v.
      rbind (store32 m (p + 8) ((v + 1) mod 2 ^ 32)) (\<lambda>m.
      rbind (load64 m p) (\<lambda>p. Inr (p, m)))))"

definition chase_incr :: "nat \<Rightarrow> mem \<Rightarrow> (nat \<Rightarrow> bool) \<Rightarrow> per_thread \<Rightarrow> (per_thread \<times> nat \<times> mem) res option" where
  "chase_incr bits m sampled t =
     kernel bits (rep 50 incr_step) 50 sampled t (rbind (arr_get (cycle t) 0) (\<lambda>p. Inr (p, m)))
       (\<lambda>(p, m). t\<lparr>cycle := (cycle t)[0 := p]\<rparr>)"

text \<open>Each call runs one chunk of branches, of at most \<open>fuel\<close> instructions.\<close>

definition chase_branch ::
    "nat \<Rightarrow> machine \<Rightarrow> nat \<Rightarrow> mem \<Rightarrow> (nat \<Rightarrow> bool) \<Rightarrow> per_thread \<Rightarrow> (per_thread \<times> nat) res option" where
  "chase_branch bits cpu fuel m sampled t =
     kernel bits (\<lambda>fp. run cpu m fuel fp 0) (branch_chunk_size t) sampled t (arr_get (cycle t) 0)
       (\<lambda>_. t\<lparr>dummy := of_nat (cycle t ! 0)\<rparr>)"

text \<open>A prefetch changes nothing that the program can see.\<close>

definition chase_prefetch :: "nat \<Rightarrow> mem \<Rightarrow> (nat \<Rightarrow> bool) \<Rightarrow> per_thread \<Rightarrow> (per_thread \<times> nat) res option" where
  "chase_prefetch bits m sampled t =
     kernel bits (rep 100 (load64 m)) 100 sampled t (arr_get (cycle t) 0)
       (\<lambda>p. t\<lparr>cycle := (cycle t)[0 := p]\<rparr>)"

text \<open>
  \<open>movdqa\<close> and \<open>movntdqa\<close> fault on an address that is not a multiple of 16; \<open>paddq\<close> adds each
  half of the register, \<open>movq\<close> takes the low half.
\<close>

definition low_of_128 :: "mem \<Rightarrow> nat \<Rightarrow> nat res" where
  "low_of_128 m a =
     (if a mod 16 \<noteq> 0 then Inl OutOfBounds
      else rbind (load64 m a) (\<lambda>low. rbind (load64 m (a + 8)) (\<lambda>_. Inr low)))"

definition sum_of_line :: "mem \<Rightarrow> nat \<Rightarrow> nat res" where
  "sum_of_line m p =
     rbind (low_of_128 m p) (\<lambda>xmm0.
     rbind (low_of_128 m (p + 16)) (\<lambda>xmm1.
     let xmm0 = add64 xmm0 xmm1 in
     rbind (low_of_128 m (p + 32)) (\<lambda>xmm2.
     let xmm0 = add64 xmm0 xmm2 in
     rbind (low_of_128 m (p + 48)) (\<lambda>xmm3.
     Inr (add64 xmm0 xmm3)))))"

definition chase_movdqa :: "nat \<Rightarrow> mem \<Rightarrow> (nat \<Rightarrow> bool) \<Rightarrow> per_thread \<Rightarrow> (per_thread \<times> nat) res option" where
  "chase_movdqa bits m sampled t =
     kernel bits (rep 100 (sum_of_line m)) 100 sampled t (arr_get (cycle t) 0)
       (\<lambda>p. t\<lparr>cycle := (cycle t)[0 := p]\<rparr>)"

definition chase_movntdqa :: "nat \<Rightarrow> mem \<Rightarrow> (nat \<Rightarrow> bool) \<Rightarrow> per_thread \<Rightarrow> (per_thread \<times> nat) res option" where
  "chase_movntdqa bits m sampled t =
     kernel bits (rep 100 (sum_of_line m)) 100 sampled t (arr_get (cycle t) 0)
       (\<lambda>p. t\<lparr>cycle := (cycle t)[0 := p]\<rparr>)"

definition chase_critword2 ::
    "nat \<Rightarrow> mem \<Rightarrow> (nat \<Rightarrow> bool) \<Rightarrow> per_thread \<Rightarrow> (per_thread \<times> nat \<times> nat) res option" where
  "chase_critword2 bits m sampled t =
     (let offset = fst (strtoull (extra_arg t)) in
      kernel bits
        (rep 100 (\<lambda>(p, q). rbind (load64 m p) (\<lambda>p. rbind (load64 m q) (\<lambda>q. Inr (p, q))))) 100 sampled t
        (rbind (arr_get (cycle t) 0) (\<lambda>p. Inr (p, add64 p offset)))
        (\<lambda>(p, q). t\<lparr>cycle := (cycle t)[0 := add64 p q]\<rparr>))"

subsection \<open>When the loop ends\<close>

lemma wrap_iff:
  assumes "0 < n"
  shows "(k * n) mod 2 ^ bits = 0 \<longleftrightarrow> 2 ^ bits div gcd n (2 ^ bits) dvd (k :: nat)"
proof -
  let ?g = "gcd n (2 ^ bits)"
  obtain a b where ab: "n = ?g * a" "2 ^ bits = ?g * b" "coprime a b"
    using gcd_coprime_exists[of n "2 ^ bits"] assms by (metis gcd_pos_nat mult.commute neq0_conv)
  have g: "0 < ?g" using assms by (simp add: gcd_pos_nat)
  have b: "2 ^ bits div ?g = b" using ab(2) g by (metis nonzero_mult_div_cancel_left neq0_conv)
  have "(k * n) mod 2 ^ bits = 0 \<longleftrightarrow> ?g * b dvd ?g * (k * a)"
    using ab(1,2) by (metis dvd_eq_mod_eq_0 mult.left_commute)
  also have "\<dots> \<longleftrightarrow> b dvd k * a" using g by (rule nat_mult_dvd_cancel1)
  also have "\<dots> \<longleftrightarrow> b dvd k" using ab(3) by (simp add: coprime_dvd_mult_left_iff coprime_commute)
  finally show ?thesis by (simp only: b)
qed

text \<open>
  \<open>f k\<close> is the state after \<open>k\<close> rounds. Without a sample the loop ends when \<open>count\<close> comes round to 0;
  with a sample in every \<open>w\<close> rounds, and \<open>w\<close> rounds too few to wrap, it does not end.
\<close>

lemma kernel_loop_unsampled:
  assumes step: "\<And>k. body (f k) = Some (Inr (f (Suc k)))" and n: "0 < n"
  shows "kernel_loop bits body n (\<lambda>_. False) 0 (f 0) 0 = Some (Inr (f (2 ^ bits div gcd n (2 ^ bits))))"
proof -
  let ?r = "2 ^ bits div gcd n (2 ^ bits) :: nat"
  have r: "0 < ?r" using n by (simp add: div_greater_zero_iff gcd_le2_nat gcd_pos_nat)
  have add_n: "(k * n mod 2 ^ bits + n) mod 2 ^ bits = (Suc k * n) mod 2 ^ bits" for k
    unfolding mod_add_left_eq by (simp only: mult_Suc add.commute)
  have "kernel_loop bits body n (\<lambda>_. False) k (f k) (k * n mod 2 ^ bits) = Some (Inr (f ?r))" if "k < ?r" for k
    using that
  proof (induction "?r - Suc k" arbitrary: k)
    case 0
    then have "Suc k = ?r" by simp
    moreover have "(Suc k * n) mod 2 ^ bits = 0" using wrap_iff[OF n, of "Suc k"] calculation by simp
    ultimately show ?case
      by (subst kernel_loop.simps) (simp only: step option.case sum.case if_False add_n Let_def if_True refl)
  next
    case (Suc d)
    then have k: "Suc k < ?r" "d = ?r - Suc (Suc k)" by auto
    then have "\<not> ?r dvd Suc k" by (meson dvd_imp_le not_le zero_less_Suc)
    then have "(Suc k * n) mod 2 ^ bits \<noteq> 0" using wrap_iff[OF n, of "Suc k"] by blast
    then show ?case
      using Suc.hyps(1)[OF k(2,1)]
      by (subst kernel_loop.simps) (simp only: step option.case sum.case if_False add_n Let_def)
  qed
  from this[OF r] show ?thesis by simp
qed

lemma kernel_loop_sampled:
  assumes step: "\<And>k. body (f k) = Some (Inr (f (Suc k)))" and n: "0 < n"
    and often: "\<And>k. \<exists>j<w. sampled (k + j)" and w: "w * n < 2 ^ bits"
  shows "kernel_loop bits body n sampled 0 (f 0) 0 = None"
proof (rule ccontr)
  let ?inv = "\<lambda>k s c. s = f k \<and> (\<exists>d. c = d * n \<and> d \<le> k \<and> (\<forall>j. k - d < j \<and> j < k \<longrightarrow> \<not> sampled j))"
  assume "kernel_loop bits body n sampled 0 (f 0) 0 \<noteq> None"
  then obtain y where ret: "kernel_loop bits body n sampled 0 (f 0) 0 = Some y" by blast
  have "bits = bits \<longrightarrow> body = body \<longrightarrow> n = n \<longrightarrow> sampled = sampled \<longrightarrow> \<not> ?inv 0 (f 0) 0"
  proof (rule kernel_loop.raw_induct[where P = "\<lambda>bits' body' n' sampled' k s c y. bits' = bits \<longrightarrow>
      body' = body \<longrightarrow> n' = n \<longrightarrow> sampled' = sampled \<longrightarrow> \<not> ?inv k s c", OF _ ret])
    fix loop bits' body' n' sampled' k s c y
    assume IH: "\<And>bits' body' n' sampled' k s c y. loop bits' body' n' sampled' k s c = Some y \<Longrightarrow>
        bits' = bits \<longrightarrow> body' = body \<longrightarrow> n' = n \<longrightarrow> sampled' = sampled \<longrightarrow> \<not> ?inv k s c"
      and ret: "(case body' s of None \<Rightarrow> None | Some (Inl e) \<Rightarrow> Some (Inl e)
        | Some (Inr s') \<Rightarrow> let c' = ((if sampled' k then 0 else c) + n') mod 2 ^ bits'
            in if c' = 0 then Some (Inr s') else loop bits' body' n' sampled' (Suc k) s' c') = Some y"
    show "bits' = bits \<longrightarrow> body' = body \<longrightarrow> n' = n \<longrightarrow> sampled' = sampled \<longrightarrow> \<not> ?inv k s c"
    proof (intro impI notI)
      assume eq: "bits' = bits" "body' = body" "n' = n" "sampled' = sampled" and inv: "?inv k s c"
      then obtain d where s: "s = f k" and d: "c = d * n" "d \<le> k" "\<And>j. k - d < j \<Longrightarrow> j < k \<Longrightarrow> \<not> sampled j"
        by blast
      define d' where "d' = (if sampled k then 1 else d + 1)"
      have d'_k: "d' \<le> Suc k" "\<And>j. Suc k - d' < j \<Longrightarrow> j < Suc k \<Longrightarrow> \<not> sampled j"
        using d(2,3) by (auto simp: d'_def less_Suc_eq split: if_splits)
      have "d' \<le> w"
      proof (rule ccontr)
        assume long: "\<not> d' \<le> w"
        obtain j where j: "j < w" "sampled (Suc k - w + j)" using often by blast
        have "Suc k - d' < Suc k - w + j" "Suc k - w + j < Suc k" using long j(1) d'_k(1) by linarith+
        then show False using d'_k(2) j(2) by blast
      qed
      then have "d' * n \<le> w * n" by (rule mult_le_mono1)
      then have small: "d' * n < 2 ^ bits" using w by linarith
      have c': "((if sampled k then 0 else c) + n) mod 2 ^ bits = d' * n"
        using small d(1) by (cases "sampled k") (simp_all add: d'_def add.commute)
      have nz: "d' * n \<noteq> 0" using n by (simp add: d'_def)
      have "loop bits body n sampled (Suc k) (f (Suc k)) (d' * n) = Some y"
        using ret unfolding eq s step Let_def option.case sum.case c' by (simp only: nz if_False)
      from IH[OF this] show False using d'_k by blast
    qed
  qed
  then show False by force
qed

text \<open>The count after \<open>k\<close> rounds, whenever main has taken it.\<close>

fun round_count :: "nat \<Rightarrow> nat \<Rightarrow> (nat \<Rightarrow> bool) \<Rightarrow> nat \<Rightarrow> nat \<Rightarrow> nat" where
  "round_count bits n sampled c 0 = c"
| "round_count bits n sampled c (Suc k) = ((if sampled k then 0 else round_count bits n sampled c k) + n) mod 2 ^ bits"

lemma kernel_loop_ends:
  assumes step: "\<And>k. body (f k) = Some (Inr (f (Suc k)))"
    and "k < r" and "round_count bits n sampled c r = 0" and "\<And>j. k < j \<Longrightarrow> j < r \<Longrightarrow> round_count bits n sampled c j \<noteq> 0"
  shows "kernel_loop bits body n sampled k (f k) (round_count bits n sampled c k) = Some (Inr (f r))"
  using assms(2-4)
proof (induction "r - Suc k" arbitrary: k)
  case 0
  then have "r = Suc k" by simp
  then show ?case using 0(3) by (subst kernel_loop.simps) (simp add: step Let_def)
next
  case (Suc d)
  have "Suc k < r" "d = r - Suc (Suc k)" using Suc.hyps(2) by auto
  moreover from this have nz: "((if sampled k then 0 else round_count bits n sampled c k) + n) mod 2 ^ bits \<noteq> 0"
    unfolding round_count.simps(2)[symmetric] using Suc.prems(3)[of "Suc k"] by linarith
  ultimately have "kernel_loop bits body n sampled (Suc k) (f (Suc k)) (round_count bits n sampled c (Suc k)) = Some (Inr (f r))"
    using Suc.hyps(1)[of "Suc k"] Suc.prems(2,3) Suc_lessD by blast
  then show ?case
    by (subst kernel_loop.simps) (simp only: step option.case sum.case Let_def round_count.simps if_not_P[OF nz])
qed

lemma kernel_loop_never:
  assumes step: "\<And>k. body (f k) = Some (Inr (f (Suc k)))" and nz: "\<And>r. 0 < r \<Longrightarrow> round_count bits n sampled c r \<noteq> 0"
  shows "kernel_loop bits body n sampled 0 (f 0) c = None"
proof (rule ccontr)
  let ?inv = "\<lambda>k s c'. s = f k \<and> c' = round_count bits n sampled c k"
  assume "kernel_loop bits body n sampled 0 (f 0) c \<noteq> None"
  then obtain y where ret: "kernel_loop bits body n sampled 0 (f 0) c = Some y" by blast
  have "bits = bits \<longrightarrow> body = body \<longrightarrow> n = n \<longrightarrow> sampled = sampled \<longrightarrow> \<not> ?inv 0 (f 0) c"
  proof (rule kernel_loop.raw_induct[where P = "\<lambda>bits' body' n' sampled' k s c' y. bits' = bits \<longrightarrow>
      body' = body \<longrightarrow> n' = n \<longrightarrow> sampled' = sampled \<longrightarrow> \<not> ?inv k s c'", OF _ ret])
    fix loop bits' body' n' sampled' k s c' y
    assume IH: "\<And>bits' body' n' sampled' k s c' y. loop bits' body' n' sampled' k s c' = Some y \<Longrightarrow>
        bits' = bits \<longrightarrow> body' = body \<longrightarrow> n' = n \<longrightarrow> sampled' = sampled \<longrightarrow> \<not> ?inv k s c'"
      and ret: "(case body' s of None \<Rightarrow> None | Some (Inl e) \<Rightarrow> Some (Inl e)
        | Some (Inr s') \<Rightarrow> let c'' = ((if sampled' k then 0 else c') + n') mod 2 ^ bits'
            in if c'' = 0 then Some (Inr s') else loop bits' body' n' sampled' (Suc k) s' c'') = Some y"
    show "bits' = bits \<longrightarrow> body' = body \<longrightarrow> n' = n \<longrightarrow> sampled' = sampled \<longrightarrow> \<not> ?inv k s c'"
    proof (intro impI notI)
      assume eq: "bits' = bits" "body' = body" "n' = n" "sampled' = sampled" and inv: "?inv k s c'"
      have "loop bits body n sampled (Suc k) (f (Suc k)) (round_count bits n sampled c (Suc k)) = Some y"
        using ret nz[of "Suc k"] unfolding eq inv[THEN conjunct1] inv[THEN conjunct2]
        by (simp only: step option.case sum.case Let_def round_count.simps if_False zero_less_Suc simp_thms)
      from IH[OF this] show False by simp
    qed
  qed
  then show False by simp
qed

subsection \<open>What the kernels do\<close>

lemma rep_deref: "rep n (load64 m) p = Some (deref_n m p n)"
proof -
  have "for_range n (\<lambda>_. load64 m) p = deref_n m p n"
  proof (induction n)
    case (Suc n)
    then show ?case by (simp only: for_range_Suc deref_n_Suc2)
  qed simp
  then show ?thesis by (simp add: rep_def)
qed

lemma deref_cell:
  assumes "chase_cycle m p as"
  shows "deref_n m (as ! (j mod length as)) k = Inr (as ! ((j + k) mod length as))"
  using chase_cycle_deref[OF assms] deref_n_add[of m p j k] by simp

lemma rep_cells:
  assumes "chase_cycle m p as"
  shows "rep n (load64 m) (as ! ((n * k) mod length as)) = Some (Inr (as ! ((n * Suc k) mod length as)))"
  using deref_cell[OF assms, of "n * k" n] by (simp add: rep_deref add.commute)

lemma cycle_start: "chase_cycle m p as \<Longrightarrow> as ! 0 = p \<and> 0 < length as"
  by (auto simp: chase_cycle_def hd_conv_nth)

lemma kernel_returns:
  assumes "kernel_loop bits body n sampled 0 s (thread_count t) = Some (Inr s')"
  shows "kernel bits body n sampled t (Inr s) fin = Some (Inr ((fin s')\<lparr>thread_count := 0\<rparr>, s'))"
  using assms by (simp add: kernel_def)

lemma rounds_even:
  assumes "odd a" and "k \<le> bits"
  shows "2 ^ bits div gcd (2 ^ k * a) (2 ^ bits) = (2 ^ (bits - k) :: nat)"
proof -
  have "coprime a (2 ^ (bits - k))" using assms(1) by simp
  moreover have "(2 :: nat) ^ bits = 2 ^ k * 2 ^ (bits - k)" using assms(2) by (simp flip: power_add)
  ultimately have "gcd (2 ^ k * a) (2 ^ bits) = 2 ^ k" by (simp flip: gcd_mult_distrib_nat)
  then show ?thesis using assms(2) by (simp add: power_diff)
qed

lemma rounds_200: "3 \<le> bits \<Longrightarrow> 2 ^ bits div gcd 200 (2 ^ bits) = (2 ^ (bits - 3) :: nat)"
  using rounds_even[of 25 3 bits] by simp

lemma rounds_50: "1 \<le> bits \<Longrightarrow> 2 ^ bits div gcd 50 (2 ^ bits) = (2 ^ (bits - 1) :: nat)"
  using rounds_even[of 25 1 bits] by simp

text \<open>Without a sample the kernel chase_simple does end, after 2^bits / 8 rounds, when
  its counter comes round to 0, with the pointer that many dereferences further along the cycle
  (the comment says that this point is never reached).\<close>
theorem chase_simple_ends:
  assumes "chase_cycle m p as" and "cycle t = p # ps" and "thread_count t = 0" and "3 \<le> bits"
  shows "chase_simple bits m (\<lambda>_. False) t =
    Some (Inr (t\<lparr>dummy := of_nat (as ! (200 * 2 ^ (bits - 3) mod length as))\<rparr>, as ! (200 * 2 ^ (bits - 3) mod length as)))"
proof -
  let ?f = "\<lambda>k. as ! (200 * k mod length as)"
  have f0: "?f 0 = p" using cycle_start[OF assms(1)] by simp
  have "kernel_loop bits (rep 200 (load64 m)) 200 (\<lambda>_. False) 0 p (thread_count t) = Some (Inr (?f (2 ^ (bits - 3))))"
    using kernel_loop_unsampled[where bits = bits and f = ?f and n = 200, OF rep_cells[OF assms(1)]]
    unfolding f0 rounds_200[OF assms(4)] assms(3) by simp
  note ended = kernel_returns[OF this, of "\<lambda>p. t\<lparr>dummy := of_nat p\<rparr>"]
  have "t\<lparr>dummy := d, thread_count := 0\<rparr> = t\<lparr>dummy := d\<rparr>" for d using assms(3) by simp
  then show ?thesis
    unfolding chase_simple_def assms(2) using ended by simp
qed

text \<open>When main takes the count at least once in every w rounds, w * 200 below 2^bits,
  chase_simple never ends.\<close>
theorem chase_simple_runs:
  assumes "chase_cycle m p as" and "cycle t = p # ps" and "thread_count t = 0"
    and "\<forall>k. \<exists>j<w. sampled (k + j)" and "w * 200 < 2 ^ bits"
  shows "chase_simple bits m sampled t = None"
  using kernel_loop_sampled[of "rep 200 (load64 m)" "\<lambda>k. as ! (200 * k mod length as)" 200 w sampled]
    assms rep_cells[OF assms(1)] cycle_start[OF assms(1)] by (simp add: chase_simple_def kernel_def)

text \<open>\<open>h j\<close> is the state after \<open>j\<close> repetitions of the unrolled step.\<close>

lemma rep_steps:
  assumes "\<And>j. g (h j) = Inr (h (Suc j))"
  shows "rep e g (h j) = Some (Inr (h (j + e)))"
  unfolding rep_def by (induction e) (simp_all add: assms)

lemma kernel_unsampled:
  assumes "\<And>j. g (h j) = Inr (h (Suc j))" and "0 < n" and "thread_count t = 0"
  shows "kernel bits (rep e g) n (\<lambda>_. False) t (Inr (h 0)) fin =
    (let s = h (e * (2 ^ bits div gcd n (2 ^ bits))) in Some (Inr ((fin s)\<lparr>thread_count := 0\<rparr>, s)))"
proof -
  have "rep e g (h (e * k)) = Some (Inr (h (e * Suc k)))" for k
    using rep_steps[of g h, OF assms(1)] by (simp add: add.commute)
  from kernel_loop_unsampled[of "rep e g" "\<lambda>k. h (e * k)", OF this assms(2)]
  have "kernel_loop bits (rep e g) n (\<lambda>_. False) 0 (h 0) (thread_count t) =
      Some (Inr (h (e * (2 ^ bits div gcd n (2 ^ bits)))))"
    unfolding assms(3) by simp
  from kernel_returns[OF this] show ?thesis by (simp add: Let_def)
qed

text \<open>The parallel chases: every pointer stays on its own cycle.\<close>

definition places :: "nat \<Rightarrow> (nat \<Rightarrow> nat list) \<Rightarrow> nat list \<Rightarrow> nat \<Rightarrow> nat list" where
  "places n as start j =
     map (\<lambda>i. if i < n then as i ! (j mod length (as i)) else start ! i) [0..<10]"

lemma parallel_round:
  assumes cyc: "\<And>i. i < n \<Longrightarrow> chase_cycle m (start ! i) (as i)" and n: "n \<le> 10"
  shows "for_range n (deref_at m) (places n as start j) = Inr (places n as start (Suc j))"
proof -
  let ?at = "\<lambda>k. map (\<lambda>i. if i < n then as i ! ((if i < k then Suc j else j) mod length (as i))
    else start ! i) [0..<10]"
  have "wp (\<lambda>_. False) (\<lambda>ps. ps = places n as start (Suc j)) (for_range n (deref_at m) (places n as start j))"
  proof (rule wp_for_rangeI[where I = "\<lambda>k ps. ps = ?at k"])
    show "places n as start j = ?at 0" by (simp add: places_def)
    fix k ps assume k: "k < n" and ps: "ps = ?at k"
    have cell: "ps ! k = as k ! (j mod length (as k))" "k < length ps" using k n ps by simp_all
    have "load64 m (ps ! k) = Inr (as k ! (Suc j mod length (as k)))"
      using deref_cell[OF cyc[OF k], of j 1] cell by (cases "load64 m (ps ! k)") simp_all
    moreover have "ps[k := as k ! (Suc j mod length (as k))] = ?at (Suc k)"
      by (rule nth_equalityI) (use ps k in \<open>auto simp: nth_list_update less_Suc_eq\<close>)
    ultimately show "wp (\<lambda>_. False) (\<lambda>ps. ps = ?at (Suc k)) (deref_at m k ps)"
      using cell(2) by (simp add: deref_at_def)
  next
    fix ps assume "ps = ?at n"
    then show "ps = places n as start (Suc j)"
      by (simp add: places_def cong: if_cong)
  qed
  then show ?thesis by (simp add: wp_total)
qed

lemma load_start:
  assumes "length cs = 10"
  shows "for_range 10 (\<lambda>i ps. rbind (arr_get cs i) (\<lambda>p. Inr (ps @ [p]))) [] = Inr cs"
proof -
  have "wp (\<lambda>_. False) (\<lambda>ps. ps = cs) (for_range 10 (\<lambda>i ps. rbind (arr_get cs i) (\<lambda>p. Inr (ps @ [p]))) [])"
    by (rule wp_for_rangeI[where I = "\<lambda>k ps. ps = take k cs"]) (use assms in \<open>auto simp: take_Suc_conv_app_nth\<close>)
  then show ?thesis by (simp add: wp_total)
qed

text \<open>Without a sample the number of rounds is that after which the count is 0 again.\<close>
theorem chase_parallel_unsampled:
  assumes "\<forall>i<n. chase_cycle m (cycle t ! i) (as i)" and "2 \<le> n" and "n \<le> 10"
    and "length (cycle t) = MAX_PARALLEL" and "thread_count t = 0"
  defines "e \<equiv> parallel_expand n"
  shows "\<exists>t' ps. chase_parallel bits n m (\<lambda>_. False) t = Some (Inr (t', ps)) \<and> length ps = 10 \<and>
    (\<forall>i<n. ps ! i = as i ! (e * (2 ^ bits div gcd (n * e) (2 ^ bits)) mod length (as i))) \<and>
    (\<forall>i. n \<le> i \<longrightarrow> i < 10 \<longrightarrow> ps ! i = cycle t ! i)"
proof -
  let ?h = "places n as (cycle t)" and ?r = "2 ^ bits div gcd (n * e) (2 ^ bits) :: nat"
  have len: "length (cycle t) = 10" using assms(4) by (simp add: MAX_PARALLEL_def)
  have cyc: "chase_cycle m (cycle t ! i) (as i)" if "i < n" for i using assms(1) that by blast
  have h0: "?h 0 = cycle t"
    by (rule nth_equalityI) (use len cycle_start[OF cyc] in \<open>auto simp: places_def\<close>)
  have "n \<in> {2, 3, 4, 5, 6, 7, 8, 9, 10}" using assms(2,3) by auto
  then have "0 < e" unfolding e_def parallel_expand_def by auto
  then have "0 < n * e" using assms(2) by simp
  from kernel_unsampled[of "for_range n (deref_at m)" ?h, OF parallel_round[OF cyc assms(3)] this assms(5)]
  have "\<exists>t'. chase_parallel bits n m (\<lambda>_. False) t = Some (Inr (t', ?h (e * ?r)))"
    unfolding chase_parallel_def load_start[OF len] h0 e_def Let_def by blast
  then obtain t' where t': "chase_parallel bits n m (\<lambda>_. False) t = Some (Inr (t', ?h (e * ?r)))" by blast
  have "length (?h (e * ?r)) = 10" by (simp add: places_def)
  moreover have "?h (e * ?r) ! i = as i ! (e * ?r mod length (as i))" if "i < n" for i
    using that assms(3) by (simp add: places_def)
  moreover have "?h (e * ?r) ! i = cycle t ! i" if "n \<le> i" "i < 10" for i
    using that by (simp add: places_def)
  ultimately show ?thesis using t' by blast
qed

text \<open>C20: In chase_parallel every one of the n pointers advances along its own cycle by the
  unroll factor per round and the other pointers stay, from whatever count the kernel starts and
  whenever main takes the count: it returns, with the pointers of that round, exactly at the
  first round after which the count is 0, and does not return when there is none.\<close>
theorem chase_parallel_follows:
  assumes "\<forall>i<n. chase_cycle m (cycle t ! i) (as i)" and "2 \<le> n" and "n \<le> 10"
    and "length (cycle t) = MAX_PARALLEL"
  defines "e \<equiv> parallel_expand n"
  defines "state k \<equiv> map (\<lambda>i. if i < n then as i ! (e * k mod length (as i)) else cycle t ! i) [0..<10]"
  shows "state 0 = cycle t \<and> (\<forall>k. rep e (for_range n (deref_at m)) (state k) = Some (Inr (state (Suc k)))) \<and>
    (\<forall>sampled. let count = round_count bits (n * e) sampled (thread_count t) in
       (\<forall>r>0. count r = 0 \<and> (\<forall>j. 0 < j \<and> j < r \<longrightarrow> count j \<noteq> 0) \<longrightarrow>
          (\<exists>t'. chase_parallel bits n m sampled t = Some (Inr (t', state r)))) \<and>
       ((\<forall>r>0. count r \<noteq> 0) \<longrightarrow> chase_parallel bits n m sampled t = None))"
proof -
  have len: "length (cycle t) = 10" using assms(4) by (simp add: MAX_PARALLEL_def)
  have cyc: "chase_cycle m (cycle t ! i) (as i)" if "i < n" for i using assms(1) that by blast
  have places: "state k = places n as (cycle t) (e * k)" for k by (simp add: state_def places_def)
  have start: "state 0 = cycle t"
    unfolding state_def by (rule nth_equalityI) (use len cycle_start[OF cyc] in auto)
  have step: "rep e (for_range n (deref_at m)) (state k) = Some (Inr (state (Suc k)))" for k
    unfolding places using rep_steps[of "for_range n (deref_at m)" "places n as (cycle t)", OF parallel_round[OF cyc assms(3)]] by (simp add: add.commute)
  have ends: "\<exists>t'. chase_parallel bits n m sampled t = Some (Inr (t', state r))"
    if "0 < r" "round_count bits (n * e) sampled (thread_count t) r = 0"
      "\<And>j. 0 < j \<Longrightarrow> j < r \<Longrightarrow> round_count bits (n * e) sampled (thread_count t) j \<noteq> 0" for sampled r
    using kernel_loop_ends[where f = state and k = 0 and c = "thread_count t", OF step that(1) that(2) that(3)] start
    unfolding chase_parallel_def load_start[OF len] e_def[symmetric] by (simp add: kernel_def)
  have never: "chase_parallel bits n m sampled t = None"
    if "\<And>r. 0 < r \<Longrightarrow> round_count bits (n * e) sampled (thread_count t) r \<noteq> 0" for sampled
    using kernel_loop_never[where f = state and c = "thread_count t", OF step that] start
    unfolding chase_parallel_def load_start[OF len] e_def[symmetric] by (simp add: kernel_def)
  show ?thesis unfolding Let_def using start step ends never by blast
qed

text \<open>\<open>movdqa\<close>: the line sum is the pointer when the rest of the element is zero.\<close>

definition clean_line :: "mem \<Rightarrow> nat \<Rightarrow> bool" where
  "clean_line m a \<longleftrightarrow> a mod 16 = 0 \<and> mapped m a 64 \<and>
     (\<forall>k\<in>{16, 32, 48}. load64 m (a + k) = Inr 0)"

lemma mapped_load: "mapped m a 8 \<Longrightarrow> \<exists>v. load64 m a = Inr v \<and> v < W64"
  using of_bytes_lt[of "map (\<lambda>i. the (m (a + i))) [0..<8]"]
  by (simp add: load64_def read_bytes_eq W64_def)

lemma sum_of_clean_line:
  assumes "clean_line m a"
  shows "sum_of_line m a = load64 m a"
proof -
  have al: "a mod 16 = 0" and mp: "mapped m a 64"
    and z: "load64 m (a + 16) = Inr 0" "load64 m (a + 32) = Inr 0" "load64 m (a + 48) = Inr 0"
    using assms by (auto simp: clean_line_def)
  have al': "(a + 16) mod 16 = 0" "(a + 32) mod 16 = 0" "(a + 48) mod 16 = 0" using al by presburger+
  have "\<exists>v. load64 m (a + k) = Inr v \<and> v < W64" if "k \<le> 56" for k
    by (rule mapped_load, rule mapped_sub[OF mp]) (use that in auto)
  note ld = this[of 0] this[of 8] this[of 24] this[of 40] this[of 56]
  have k: "a + 16 + 8 = a + 24" "a + 32 + 8 = a + 40" "a + 48 + 8 = a + 56" by simp_all
  have low: "low_of_128 m (a + 16) = Inr 0" "low_of_128 m (a + 32) = Inr 0" "low_of_128 m (a + 48) = Inr 0"
    using ld al' z unfolding low_of_128_def k by auto
  obtain v where v: "load64 m a = Inr v" "v < W64" using ld(1) by auto
  then have "low_of_128 m a = Inr v" using ld(2) al by (auto simp: low_of_128_def)
  then show ?thesis using low v by (simp add: sum_of_line_def add64_def)
qed

lemma kernel_loop_cong:
  assumes same: "\<And>s. I s \<Longrightarrow> body s = body' s" and kept: "\<And>s s'. I s \<Longrightarrow> body s = Some (Inr s') \<Longrightarrow> I s'"
    and "I s"
  shows "kernel_loop bits body n sampled k s c = kernel_loop bits body' n sampled k s c"
proof -
  have half: "kernel_loop bits b' n sampled k s c = Some y"
    if ret: "kernel_loop bits b n sampled k s c = Some y"
      and same: "\<And>s. I s \<Longrightarrow> b s = b' s" and kept: "\<And>s s'. I s \<Longrightarrow> b s = Some (Inr s') \<Longrightarrow> I s'"
    for b b' y
  proof -
    have "bits = bits \<longrightarrow> b = b \<longrightarrow> n = n \<longrightarrow> sampled = sampled \<longrightarrow> I s \<longrightarrow> kernel_loop bits b' n sampled k s c = Some y"
    proof (rule kernel_loop.raw_induct[where P = "\<lambda>bits' bb n' sampled' k s c y.
        bits' = bits \<longrightarrow> bb = b \<longrightarrow> n' = n \<longrightarrow> sampled' = sampled \<longrightarrow> I s \<longrightarrow> kernel_loop bits b' n sampled k s c = Some y", OF _ ret])
      fix loop bits' bb n' sampled' k s c y
      assume IH: "\<And>bits' bb n' sampled' k s c y. loop bits' bb n' sampled' k s c = Some y \<Longrightarrow>
          bits' = bits \<longrightarrow> bb = b \<longrightarrow> n' = n \<longrightarrow> sampled' = sampled \<longrightarrow> I s \<longrightarrow> kernel_loop bits b' n sampled k s c = Some y"
        and ret: "(case bb s of None \<Rightarrow> None | Some (Inl e) \<Rightarrow> Some (Inl e)
          | Some (Inr s') \<Rightarrow> let c' = ((if sampled' k then 0 else c) + n') mod 2 ^ bits'
              in if c' = 0 then Some (Inr s') else loop bits' bb n' sampled' (Suc k) s' c') = Some y"
      show "bits' = bits \<longrightarrow> bb = b \<longrightarrow> n' = n \<longrightarrow> sampled' = sampled \<longrightarrow> I s \<longrightarrow> kernel_loop bits b' n sampled k s c = Some y"
      proof (intro impI)
        assume eq: "bits' = bits" "bb = b" "n' = n" "sampled' = sampled" and I: "I s"
        show "kernel_loop bits b' n sampled k s c = Some y"
        proof (cases "b s")
          case None
          then show ?thesis using ret eq by simp
        next
          case (Some r)
          then have b': "b' s = Some r" using same[OF I] by simp
          show ?thesis
          proof (cases r)
            case (Inl e)
            then show ?thesis
              using ret unfolding eq Some Inl by (subst kernel_loop.simps) (auto simp: b' Inl)
          next
            case (Inr s')
            then have I': "I s'" using kept[OF I] Some by simp
            show ?thesis
              using ret IH I' unfolding eq Some Inr
              by (subst kernel_loop.simps) (auto simp: b' Inr Let_def split: if_splits)
          qed
        qed
      qed
    qed
    then show ?thesis using \<open>I s\<close> by blast
  qed
  have "kernel_loop bits body n sampled k s c = Some y \<longleftrightarrow> kernel_loop bits body' n sampled k s c = Some y" for y
    using half[of body y body'] half[of body' y body] same kept by (metis (no_types))
  then show ?thesis by (metis not_None_eq)
qed

lemma rep_cong:
  assumes same: "\<And>s. I s \<Longrightarrow> f s = g s" and kept: "\<And>s s'. I s \<Longrightarrow> f s = Inr s' \<Longrightarrow> I s'" and s: "I s"
  shows "rep n f s = rep n g s \<and> (\<forall>s'. rep n f s = Some (Inr s') \<longrightarrow> I s')"
proof -
  have "for_range n (\<lambda>_. f) s = for_range n (\<lambda>_. g) s \<and> (\<forall>s'. for_range n (\<lambda>_. f) s = Inr s' \<longrightarrow> I s')"
  proof (induction n)
    case (Suc n)
    show ?case
    proof (cases "for_range n (\<lambda>_. g) s")
      case (Inl e)
      then show ?thesis using Suc by simp
    next
      case (Inr s1)
      then have "I s1" using Suc by simp
      from same[OF this] kept[OF this] show ?thesis using Suc Inr by simp
    qed
  qed (simp add: s)
  then show ?thesis by (simp add: rep_def)
qed

text \<open>C21: The SSE kernels chase_movdqa and chase_movntdqa behave as a plain dereferencing
  kernel on a cycle whose elements are aligned and hold zeros behind the pointer.\<close>
theorem chase_movdqa_is_plain:
  assumes "chase_cycle m p as" and "\<forall>a\<in>set as. clean_line m a" and "cycle t = p # ps"
  shows "chase_movdqa bits m sampled t = chase_prefetch bits m sampled t \<and>
    chase_movntdqa bits m sampled t = chase_prefetch bits m sampled t"
proof -
  let ?I = "\<lambda>a. a \<in> set as"
  have same: "sum_of_line m a = load64 m a" if "?I a" for a
    using assms(2) that sum_of_clean_line by blast
  have kept: "?I q" if "?I a" "sum_of_line m a = Inr q" for a q
  proof -
    from that(1) obtain i where i: "i < length as" "a = as ! i" by (auto simp: in_set_conv_nth)
    then have "q = as ! (Suc i mod length as)" using that same assms(1) by (simp add: chase_cycle_def)
    moreover have "Suc i mod length as < length as" using cycle_start[OF assms(1)] by simp
    ultimately show ?thesis by simp
  qed
  have R: "rep 100 (sum_of_line m) s = rep 100 (load64 m) s \<and>
      (\<forall>s'. rep 100 (sum_of_line m) s = Some (Inr s') \<longrightarrow> ?I s')" if "?I s" for s
    by (rule rep_cong[where I = ?I]) (use same kept that in auto)
  have "?I p" using assms(1) by (auto simp: chase_cycle_def)
  then have "kernel_loop bits (rep 100 (sum_of_line m)) 100 sampled 0 p c =
      kernel_loop bits (rep 100 (load64 m)) 100 sampled 0 p c" for c
    by (intro kernel_loop_cong[where I = ?I]) (use R in blast)+
  then have "chase_movdqa bits m sampled t = chase_prefetch bits m sampled t"
    by (simp add: chase_movdqa_def chase_prefetch_def kernel_def assms(3))
  then show ?thesis
    by (simp add: chase_movntdqa_def chase_movdqa_def)
qed

text \<open>\<open>chase_incr\<close>: the counter of every cell counts the visits, and the chase stays as it is.\<close>

definition visits :: "nat \<Rightarrow> nat \<Rightarrow> nat \<Rightarrow> nat" where
  "visits R j i = card {t. t < j \<and> t mod R = i}"

lemma visits_Suc: "visits R (Suc j) i = visits R j i + (if j mod R = i then 1 else 0)"
proof -
  have "{t. t < Suc j \<and> t mod R = i} =
      {t. t < j \<and> t mod R = i} \<union> (if j mod R = i then {j} else {})"
    by (auto simp: less_Suc_eq)
  then show ?thesis by (simp add: visits_def card_insert_if)
qed

lemma load32_cong:
  assumes "\<And>k. k < 4 \<Longrightarrow> m' (p + k) = m (p + k)"
  shows "load32 m' p = load32 m p"
  using assms by (auto simp: load32_def read_bytes_eq mapped_def intro!: arg_cong[of _ _ of_bytes])

lemma load32_put:
  assumes "mapped m a 4" and "v < 2 ^ 32"
  shows "load32 (put_bytes m a (bytes_of 4 v)) a = Inr v"
proof -
  let ?m = "put_bytes m a (bytes_of 4 v)"
  have "map (\<lambda>i. the (?m (a + i))) [0..<4] = bytes_of 4 v"
    by (rule nth_equalityI) (auto simp: put_bytes_def)
  then show ?thesis
    using mapped_put_bytes[OF assms(1)] assms(2)
    by (simp add: load32_def read_bytes_eq of_bytes_bytes_of)
qed

definition incr_cells :: "nat list \<Rightarrow> bool" where
  "incr_cells as \<longleftrightarrow> (\<forall>i<length as. \<forall>j<length as. i \<noteq> j \<longrightarrow>
     as ! i + 12 \<le> as ! j \<or> as ! j + 12 \<le> as ! i)"

lemma incr_step_cell:
  assumes cyc: "chase_cycle m p as" and apart: "incr_cells as" and i: "i < length as"
    and cnt: "\<forall>j<length as. load32 m (as ! j + 8) = Inr (v j)"
  shows "\<exists>m'. incr_step (as ! i, m) = Inr (as ! (Suc i mod length as), m') \<and> chase_cycle m' p as \<and>
    (\<forall>j<length as. load32 m' (as ! j + 8) = Inr (if j = i then (v i + 1) mod 2 ^ 32 else v j))"
proof -
  let ?a = "as ! i + 8"
  define m' where "m' = put_bytes m ?a (bytes_of 4 ((v i + 1) mod 2 ^ 32))"
  have mp: "mapped m ?a 4" using cnt i by (auto simp: load32_def read_bytes_eq split: if_splits)
  have far: "x < ?a \<or> ?a + 4 \<le> x" if "j < length as" "x = as ! j + k" "k < 8 \<or> (j \<noteq> i \<and> k < 12)" for j k x
    using apart[unfolded incr_cells_def, rule_format, OF that(1) i] that by (cases "j = i") auto
  have off: "m' x = m x" if "x < ?a \<or> ?a + 4 \<le> x" for x
    using that by (auto simp: m'_def put_bytes_def)
  have ld: "load64 m' (as ! j) = load64 m (as ! j)" if "j < length as" for j
    by (rule load64_cong) (use off far that in blast)
  then have cyc': "chase_cycle m' p as"
    by (intro chase_cycle_frame[OF cyc]) (auto simp: in_set_conv_nth)
  have "load32 m' (as ! j + 8) = load32 m (as ! j + 8)" if j: "j < length as" "j \<noteq> i" for j
  proof (rule load32_cong)
    fix k :: nat assume "k < 4"
    then show "m' (as ! j + 8 + k) = m (as ! j + 8 + k)"
      using far[of j "as ! j + 8 + k" "8 + k"] j off by simp
  qed
  moreover have "load32 m' ?a = Inr ((v i + 1) mod 2 ^ 32)"
    unfolding m'_def by (rule load32_put[OF mp]) simp
  moreover have "incr_step (as ! i, m) = Inr (as ! (Suc i mod length as), m')"
    using cnt i ld[OF i] cyc mp
    by (simp add: incr_step_def store32_def write_bytes_eq m'_def chase_cycle_def)
  ultimately show ?thesis using cyc' cnt by auto
qed

text \<open>Chase_incr leaves the cycle as it is and adds to the counter in each element,
  modulo 2^32, the number of times it has visited the element.\<close>
theorem chase_incr_counts:
  assumes cyc: "chase_cycle m p as" and "incr_cells as"
    and "\<forall>i<length as. load32 m (as ! i + 8) = Inr (v i)" and "\<forall>i. v i < 2 ^ 32"
    and "cycle t = p # ps" and "thread_count t = 0" and "1 \<le> bits"
  shows "\<exists>t' m'. chase_incr bits m (\<lambda>_. False) t = Some (Inr (t', as ! (50 * 2 ^ (bits - 1) mod length as), m')) \<and>
    chase_cycle m' p as \<and>
    (\<forall>i<length as. load32 m' (as ! i + 8) = Inr ((v i + visits (length as) (50 * 2 ^ (bits - 1)) i) mod 2 ^ 32))"
proof -
  let ?R = "length as"
  let ?next = "\<lambda>s. case incr_step s of Inr s' \<Rightarrow> s' | Inl _ \<Rightarrow> s"
  define h where "h j = (?next ^^ j) (p, m)" for j
  have h: "h 0 = (p, m)" "h (Suc j) = ?next (h j)" for j unfolding h_def by simp_all
  define inv where "inv j s \<longleftrightarrow> fst s = as ! (j mod ?R) \<and> chase_cycle (snd s) p as \<and>
    (\<forall>i<?R. load32 (snd s) (as ! i + 8) = Inr ((v i + visits ?R j i) mod 2 ^ 32))" for j s
  have R: "0 < ?R" "as ! 0 = p" using cycle_start[OF cyc] by auto
  have step: "\<exists>s'. incr_step s = Inr s' \<and> inv (Suc j) s'" if inv: "inv j s" for j s
  proof -
    have s: "s = (as ! (j mod ?R), snd s)" using inv by (simp add: inv_def prod_eq_iff)
    have jR: "j mod ?R < ?R" using R by simp
    obtain m' where m': "incr_step (as ! (j mod ?R), snd s) = Inr (as ! (Suc (j mod ?R) mod ?R), m')"
      "chase_cycle m' p as" "\<And>i. i < ?R \<Longrightarrow> load32 m' (as ! i + 8) =
        Inr (if i = j mod ?R then ((v (j mod ?R) + visits ?R j (j mod ?R)) mod 2 ^ 32 + 1) mod 2 ^ 32
             else (v i + visits ?R j i) mod 2 ^ 32)"
      using incr_step_cell[OF _ assms(2) jR, of "snd s" p "\<lambda>i. (v i + visits ?R j i) mod 2 ^ 32"] inv
      unfolding inv_def by blast
    have "load32 m' (as ! i + 8) = Inr ((v i + visits ?R (Suc j) i) mod 2 ^ 32)" if "i < ?R" for i
      using m'(3)[OF that] by (auto simp: visits_Suc mod_Suc_eq)
    then have "inv (Suc j) (as ! (Suc j mod ?R), m')" using m'(2) by (simp add: inv_def)
    then show ?thesis using m'(1) s by (metis mod_Suc_eq)
  qed
  have "inv 0 (p, m)"
    using cyc R assms(3,4) by (simp add: inv_def visits_def)
  then have inv: "inv j (h j)" for j
  proof (induction j)
    case 0
    then show ?case by (simp add: h)
  next
    case (Suc j)
    then obtain s' where "incr_step (h j) = Inr s'" "inv (Suc j) s'" using step by blast
    then show ?case by (simp add: h)
  qed
  have run: "incr_step (h j) = Inr (h (Suc j))" for j
  proof -
    obtain s' where "incr_step (h j) = Inr s'" using step[OF inv] by blast
    then show ?thesis by (simp add: h)
  qed
  let ?s = "h (50 * 2 ^ (bits - 1))"
  have "\<exists>t'. chase_incr bits m (\<lambda>_. False) t = Some (Inr (t', ?s))"
    using kernel_unsampled[where bits = bits and h = h and e = 50 and n = 50, OF run _ assms(6)] assms(5)
    unfolding chase_incr_def rounds_50[OF assms(7)] h(1) Let_def by simp
  moreover have "?s = (as ! (50 * 2 ^ (bits - 1) mod ?R), snd ?s)" using inv[of "50 * 2 ^ (bits - 1)"] by (simp add: inv_def prod_eq_iff)
  ultimately show ?thesis using inv[of "50 * 2 ^ (bits - 1)"] unfolding inv_def by metis
qed

subsection \<open>The ring of three cells\<close>

definition ring_thread :: per_thread where
  "ring_thread = \<lparr>thread_count = 0, cycle = 64 # replicate 9 0, extra_arg = ''8'', dummy = 0, branch_chunk_size = 0\<rparr>"

theorem chase_simple_ends_witness:
  "chase_simple 32 ring (\<lambda>_. False) ring_thread = Some (Inr (ring_thread\<lparr>dummy := 80\<rparr>, 80))"
  using chase_simple_ends[OF ring_cycle, of ring_thread "replicate 9 0" 32] by (simp add: ring_thread_def)

theorem chase_simple_runs_witness: "chase_simple 32 ring even ring_thread = None"
proof -
  have "\<exists>j<2. even (k + j)" for k :: nat
    by (rule exI[of _ "if even k then 0 else 1"]) simp
  then show ?thesis
    using chase_simple_runs[OF ring_cycle, of ring_thread "replicate 9 0" 2 even 32]
    by (simp add: ring_thread_def)
qed

definition parallel_thread :: per_thread where
  "parallel_thread = ring_thread\<lparr>cycle := [64, 80] @ replicate 8 0\<rparr>"

lemma ring_cycle2: "chase_cycle ring 80 [80, 96, 64]"
proof -
  have "load64 ring 64 = Inr 80" "load64 ring 80 = Inr 96" "load64 ring 96 = Inr 64"
    by code_simp+
  then show ?thesis by (auto simp: chase_cycle_def less_Suc_eq)
qed

theorem chase_parallel_follows_witness:
  "chase_parallel 32 2 ring (\<lambda>_. True) parallel_thread = None"
proof -
  define as where "as i = (if i = 0 then [64, 80, 96] else [80, 96, 64 :: nat])" for i :: nat
  have "\<forall>i<2. chase_cycle ring (cycle parallel_thread ! i) (as i)"
    using ring_cycle ring_cycle2
    by (auto simp: parallel_thread_def ring_thread_def as_def less_2_cases_iff)
  note follows = chase_parallel_follows[OF this, of 32]
  have "round_count 32 (2 * parallel_expand 2) (\<lambda>_. True) c r \<noteq> 0" if "0 < r" for c r
    using that by (cases r) (simp_all add: parallel_expand_def)
  then show ?thesis
    using follows by (auto simp: parallel_thread_def ring_thread_def MAX_PARALLEL_def Let_def)
qed

definition lines :: mem where
  "lines = (\<lambda>x. if x = 64 then Some 128 else if x = 128 then Some 64
     else if 64 \<le> x \<and> x < 192 then Some 0 else None)"

lemma lines_facts: "chase_cycle lines 64 [64, 128]" "clean_line lines 64" "clean_line lines 128"
proof -
  have "load64 lines 64 = Inr 128" "load64 lines 128 = Inr 64" by code_simp+
  then show "chase_cycle lines 64 [64, 128]" by (auto simp: chase_cycle_def less_Suc_eq)
  have "load64 lines (64 + 16) = Inr 0" "load64 lines (64 + 32) = Inr 0" "load64 lines (64 + 48) = Inr 0"
    "load64 lines (128 + 16) = Inr 0" "load64 lines (128 + 32) = Inr 0" "load64 lines (128 + 48) = Inr 0"
    by code_simp+
  then show "clean_line lines 64" "clean_line lines 128"
    by (auto simp: clean_line_def mapped_def lines_def)
qed

theorem chase_movdqa_is_plain_witness:
  "chase_movdqa 32 lines (\<lambda>_. False) ring_thread = chase_prefetch 32 lines (\<lambda>_. False) ring_thread"
  using chase_movdqa_is_plain[OF lines_facts(1), of ring_thread "replicate 9 0" 32] lines_facts(2,3)
  by (simp add: ring_thread_def)

theorem chase_incr_counts_witness:
  "\<exists>t' m'. chase_incr 32 ring (\<lambda>_. False) ring_thread = Some (Inr (t', 80, m')) \<and>
    chase_cycle m' 64 [64, 80, 96]"
proof -
  have "incr_cells [64, 80, 96]" by (auto simp: incr_cells_def less_Suc_eq)
  moreover have "load32 ring (64 + 8) = Inr 0" "load32 ring (80 + 8) = Inr 0" "load32 ring (96 + 8) = Inr 0"
    by code_simp+
  then have "\<forall>i<length [64, 80, 96 :: nat]. load32 ring ([64, 80, 96] ! i + 8) = Inr ((\<lambda>_. 0) i)"
    by (auto simp: less_Suc_eq)
  ultimately show ?thesis
    using chase_incr_counts[OF ring_cycle, of "\<lambda>_. 0" ring_thread "replicate 9 0" 32]
    by (auto simp: ring_thread_def)
qed

end
