(* ===== verification/Barrier.thy ===== *)
theory Barrier
  imports Prelude
begin

text \<open>
  The startup barrier of \<open>multichase.c\<close> (end of \<open>thread_start\<close>, and the wait in \<open>main\<close>) and of
  \<open>fairness.c\<close> (\<open>wait_for_startup\<close>): a counter of the threads still to come, a mutex and a
  condition variable. The code between lock and unlock is one step; \<open>pthread_cond_wait\<close> leaves
  the thread \<open>Waiting\<close> until a broadcast makes it \<open>Woken\<close>, and a woken thread goes on without
  looking at the counter again, as the source has \<open>if\<close> and not \<open>while\<close> around the wait. The
  parameter \<open>spurious\<close> lets waits end on their own, which POSIX allows.
\<close>

subsection \<open>The code\<close>

text \<open>The size of \<open>cpu_set_t\<close>.\<close>

definition CPU_SETSIZE :: nat where
  "CPU_SETSIZE = 1024"

datatype status = Arriving | Waiting | Woken | Running

record barrier =
  nr_to_startup :: nat
  status_of :: "nat \<Rightarrow> status"
  executable :: bool

definition set_status :: "nat \<Rightarrow> status \<Rightarrow> barrier \<Rightarrow> barrier" where
  "set_status w x st = st\<lparr>status_of := (status_of st)(w := x)\<rparr>"

definition cond_broadcast :: "barrier \<Rightarrow> barrier" where
  "cond_broadcast st =
     st\<lparr>status_of := (\<lambda>w. if status_of st w = Waiting then Woken else status_of st w)\<rparr>"

text \<open>\<open>wait_for_startup\<close> of \<open>fairness.c\<close>, called by thread \<open>w\<close>.\<close>

definition wait_for_startup :: "nat \<Rightarrow> barrier \<Rightarrow> barrier" where
  "wait_for_startup w st =
     (let st = st\<lparr>nr_to_startup := sub64 (nr_to_startup st) 1\<rparr> in
      if nr_to_startup st \<noteq> 0 then set_status w Waiting st
      else set_status w Running (cond_broadcast st))"

text \<open>The same in \<open>thread_start\<close>; the last thread of a branch chase first makes the arena
  executable.\<close>

definition thread_barrier :: "bool \<Rightarrow> nat \<Rightarrow> barrier \<Rightarrow> barrier" where
  "thread_barrier branch w st =
     (let st = (if nr_to_startup st = 1 \<and> branch then st\<lparr>executable := True\<rparr> else st);
          st = st\<lparr>nr_to_startup := sub64 (nr_to_startup st) 1\<rparr> in
      if nr_to_startup st \<noteq> 0 then set_status w Waiting st
      else set_status w Running (cond_broadcast st))"

text \<open>The same in \<open>thread_start\<close> of \<open>multiload.c\<close>, which has no branch chase.\<close>

definition ml_thread_barrier :: "nat \<Rightarrow> barrier \<Rightarrow> barrier" where
  "ml_thread_barrier w st =
     (let st = st\<lparr>nr_to_startup := sub64 (nr_to_startup st) 1\<rparr> in
      if nr_to_startup st \<noteq> 0 then set_status w Waiting st
      else set_status w Running (cond_broadcast st))"

text \<open>\<open>main\<close> of \<open>multichase.c\<close> and of \<open>multiload.c\<close> waits for the counter without being counted.\<close>

definition main_wait :: "nat \<Rightarrow> barrier \<Rightarrow> barrier" where
  "main_wait w st =
     (if nr_to_startup st \<noteq> 0 then set_status w Waiting st else set_status w Running st)"

definition startup_init :: "nat \<Rightarrow> barrier" where
  "startup_init n = \<lparr>nr_to_startup = n, status_of = (\<lambda>_. Arriving), executable = False\<rparr>"

text \<open>Threads \<open>0 ..< n\<close> are counted, threads \<open>n ..< k\<close> watch the counter.\<close>

inductive startup_step ::
    "(nat \<Rightarrow> barrier \<Rightarrow> barrier) \<Rightarrow> nat \<Rightarrow> nat \<Rightarrow> bool \<Rightarrow> barrier \<Rightarrow> barrier \<Rightarrow> bool"
  for arrive n k spurious where
  arrive: "w < n \<Longrightarrow> status_of st w = Arriving \<Longrightarrow> startup_step arrive n k spurious st (arrive w st)"
| watch: "n \<le> w \<Longrightarrow> w < k \<Longrightarrow> status_of st w = Arriving \<Longrightarrow>
    startup_step arrive n k spurious st (main_wait w st)"
| wake: "w < k \<Longrightarrow> status_of st w = Woken \<Longrightarrow>
    startup_step arrive n k spurious st (set_status w Running st)"
| spurious: "spurious \<Longrightarrow> w < k \<Longrightarrow> status_of st w = Waiting \<Longrightarrow>
    startup_step arrive n k spurious st (set_status w Woken st)"

inductive_cases startup_stepE: "startup_step arrive n k spurious st st'"

abbreviation startup_run ::
    "(nat \<Rightarrow> barrier \<Rightarrow> barrier) \<Rightarrow> nat \<Rightarrow> nat \<Rightarrow> bool \<Rightarrow> barrier \<Rightarrow> barrier \<Rightarrow> bool" where
  "startup_run arrive n k spurious \<equiv> (startup_step arrive n k spurious)\<^sup>*\<^sup>*"

subsection \<open>The interface of a counted arrival\<close>

definition wake_status :: "status \<Rightarrow> status" where
  "wake_status x = (if x = Waiting then Woken else x)"

text \<open>The counted threads that have not arrived yet.\<close>

definition still_out :: "nat \<Rightarrow> (nat \<Rightarrow> status) \<Rightarrow> nat" where
  "still_out n s = card {w. w < n \<and> s w = Arriving}"

lemma still_out_step:
  assumes "w < n" and "s w = Arriving" and "s' w \<noteq> Arriving"
    and "\<And>v. v \<noteq> w \<Longrightarrow> s' v = Arriving \<longleftrightarrow> s v = Arriving"
  shows "Suc (still_out n s') = still_out n s"
proof -
  have "{v. v < n \<and> s v = Arriving} = insert w {v. v < n \<and> s' v = Arriving}"
    using assms by auto metis
  then show ?thesis using assms(3) by (simp add: still_out_def)
qed

lemma still_out_cong: "(\<And>v. v < n \<Longrightarrow> s' v = Arriving \<longleftrightarrow> s v = Arriving) \<Longrightarrow> still_out n s' = still_out n s"
  by (auto simp: still_out_def intro!: arg_cong[of _ _ card])

lemma still_out_le: "still_out n s \<le> n"
  using card_mono[of "{..<n}" "{w. w < n \<and> s w = Arriving}"] by (auto simp: still_out_def)

lemma still_out_0: "still_out n s = 0 \<longleftrightarrow> (\<forall>w<n. s w \<noteq> Arriving)"
  by (auto simp: still_out_def)

locale startup_barrier =
  fixes arrive :: "nat \<Rightarrow> barrier \<Rightarrow> barrier" and ready :: "barrier \<Rightarrow> bool"
  assumes arrive_last: "nr_to_startup st = 1 \<Longrightarrow>
      nr_to_startup (arrive w st) = 0 \<and> ready (arrive w st) \<and>
      status_of (arrive w st) = (\<lambda>v. if v = w then Running else wake_status (status_of st v))"
    and arrive_more: "1 < nr_to_startup st \<Longrightarrow> nr_to_startup st < W64 \<Longrightarrow>
      nr_to_startup (arrive w st) = nr_to_startup st - 1 \<and>
      status_of (arrive w st) = (status_of st)(w := Waiting)"
    and ready_kept: "ready st \<Longrightarrow> ready (set_status w x st)"
begin

text \<open>The counter counts the threads still to arrive; until it is 0 nobody has left the
  barrier, and once it is 0 nobody is left waiting.\<close>

definition startup_inv :: "nat \<Rightarrow> nat \<Rightarrow> barrier \<Rightarrow> bool" where
  "startup_inv n k st \<longleftrightarrow>
     nr_to_startup st = still_out n (status_of st) \<and>
     (if nr_to_startup st = 0 then ready st \<and> (\<forall>w<k. status_of st w \<noteq> Waiting)
      else \<forall>w<k. status_of st w = Arriving \<or> status_of st w = Waiting)"

lemma inv_step:
  assumes "startup_step arrive n k False st st'" and inv: "startup_inv n k st" and "n < W64" "n \<le> k"
  shows "startup_inv n k st'"
  using assms(1)
proof (rule startup_stepE, goal_cases)
  case arr: (1 w)
  have nr: "nr_to_startup st = still_out n (status_of st)" using inv by (simp add: startup_inv_def)
  moreover have "nr_to_startup st \<noteq> 0" using arr still_out_0[of n "status_of st"] nr by auto
  ultimately consider "nr_to_startup st = 1" | "1 < nr_to_startup st" "nr_to_startup st < W64"
    using assms(3) still_out_le[of n "status_of st"] by linarith
  then show ?thesis
  proof cases
    case one: 1
    note L = arrive_last[OF one, of w]
    have "Suc (still_out n (status_of st')) = still_out n (status_of st)"
      by (rule still_out_step[of w]) (use arr L in \<open>auto simp: wake_status_def\<close>)
    moreover have "\<forall>v<k. status_of st' v \<noteq> Waiting" using L arr by (simp add: wake_status_def)
    ultimately show ?thesis using arr L one nr by (simp add: startup_inv_def)
  next
    case more: 2
    note L = arrive_more[OF more, of w]
    have "Suc (still_out n (status_of st')) = still_out n (status_of st)"
      by (rule still_out_step[of w]) (use arr L in auto)
    then have "nr_to_startup st' = still_out n (status_of st')" using L nr arr(1) by simp
    moreover have "\<forall>v<k. status_of st' v = Arriving \<or> status_of st' v = Waiting"
      using inv more L arr by (auto simp: startup_inv_def split: if_splits)
    moreover have "nr_to_startup st' \<noteq> 0" using L more arr(1) by simp
    ultimately show ?thesis by (simp add: startup_inv_def)
  qed
next
  case w: (2 w)
  have "still_out n (status_of st') = still_out n (status_of st)"
    by (rule still_out_cong) (use w in \<open>auto simp: main_wait_def set_status_def\<close>)
  moreover have "nr_to_startup st' = nr_to_startup st" by (simp add: w main_wait_def set_status_def)
  moreover have "ready st \<Longrightarrow> ready st'" if "nr_to_startup st = 0"
    using ready_kept[of st w Running] that by (simp add: w main_wait_def)
  ultimately show ?thesis
    using w inv by (auto simp: startup_inv_def main_wait_def set_status_def split: if_splits)
next
  case w: (3 w)
  have "still_out n (status_of st') = still_out n (status_of st)"
    by (rule still_out_cong) (use w in \<open>auto simp: set_status_def\<close>)
  moreover have "nr_to_startup st = 0" using w inv by (auto simp: startup_inv_def split: if_splits)
  moreover have "nr_to_startup st' = nr_to_startup st" by (simp add: w set_status_def)
  moreover have "ready st \<Longrightarrow> ready st'" using ready_kept[of st w Running] by (simp add: w)
  ultimately show ?thesis
    using w inv by (auto simp: startup_inv_def set_status_def)
qed simp

lemma inv_run:
  assumes "startup_run arrive n k False (startup_init n) st" and "n < W64" "n \<le> k" "0 < n"
  shows "startup_inv n k st"
  using assms(1)
proof (induction rule: rtranclp_induct)
  case base
  then show ?case using assms(4) by (simp add: startup_inv_def startup_init_def still_out_def)
next
  case (step y z)
  then show ?case using inv_step assms(2,3) by blast
qed

text \<open>A thread that has left the barrier left it after everyone had arrived.\<close>

lemma left_after_all:
  assumes "startup_run arrive n k False (startup_init n) st" and "n < W64" "n \<le> k" "0 < n"
    and "w < k" "status_of st w = Running"
  shows "ready st \<and> (\<forall>v<n. status_of st v \<noteq> Arriving)"
proof -
  note I = inv_run[OF assms(1-4)]
  then have "nr_to_startup st = 0" using assms(5,6) by (auto simp: startup_inv_def split: if_splits)
  then show ?thesis using I still_out_0[of n "status_of st"] by (simp add: startup_inv_def)
qed

text \<open>No wakeup is lost: a run that cannot go on has let everyone through.\<close>

lemma stuck_all_running:
  assumes "startup_run arrive n k False (startup_init n) st" and "n < W64" "n \<le> k" "0 < n"
    and stuck: "\<And>st'. \<not> startup_step arrive n k False st st'"
  shows "\<forall>w<k. status_of st w = Running"
proof -
  note I = inv_run[OF assms(1-4)]
  have no_arriving: "status_of st w \<noteq> Arriving" if "w < k" for w
    using stuck startup_step.arrive[of w n st arrive k False] startup_step.watch[of n w k st arrive False] that
    by (cases "w < n") auto
  have "status_of st w \<noteq> Woken" if "w < k" for w
    using stuck startup_step.wake[of w k st arrive n False] that by blast
  moreover have "still_out n (status_of st) = 0" using no_arriving assms(3) by (simp add: still_out_0)
  ultimately have "status_of st w \<noteq> Waiting" "status_of st w \<noteq> Woken" if "w < k" for w
    using I that by (auto simp: startup_inv_def)
  then show ?thesis using no_arriving by (metis status.exhaust)
qed

end

interpretation fairness: startup_barrier wait_for_startup "\<lambda>_. True"
  by unfold_locales
    (auto simp: wait_for_startup_def set_status_def cond_broadcast_def wake_status_def c_arith Let_def fun_eq_iff)

interpretation multichase: startup_barrier "thread_barrier branch" "\<lambda>st. branch \<longrightarrow> executable st"
  for branch
  by unfold_locales
    (auto simp: thread_barrier_def set_status_def cond_broadcast_def wake_status_def c_arith Let_def fun_eq_iff)

interpretation multiload: startup_barrier ml_thread_barrier "\<lambda>_. True"
  by unfold_locales
    (auto simp: ml_thread_barrier_def set_status_def cond_broadcast_def wake_status_def c_arith Let_def fun_eq_iff)

subsection \<open>Every run ends\<close>

fun status_rank :: "status \<Rightarrow> nat" where
  "status_rank Arriving = 3"
| "status_rank Waiting = 2"
| "status_rank Woken = 1"
| "status_rank Running = 0"

definition barrier_rank :: "nat \<Rightarrow> barrier \<Rightarrow> nat" where
  "barrier_rank k st = (\<Sum>w<k. status_rank (status_of st w))"

lemma rank_less:
  assumes "w < k" "status_rank (s w) < status_rank (status_of st w)"
    and "\<And>v. status_rank (s v) \<le> status_rank (status_of st v)"
  shows "(\<Sum>w<k. status_rank (s w)) < barrier_rank k st"
  unfolding barrier_rank_def by (rule sum_strict_mono_ex1) (use assms in auto)

subsection \<open>Properties\<close>

lemma first_arrival:
  "startup_run (thread_barrier True) 1 2 False (startup_init 1) (thread_barrier True 0 (startup_init 1))"
  by (rule r_into_rtranclp, rule startup_step.arrive) (simp_all add: startup_init_def)

lemmas barrier_eval = thread_barrier_def wait_for_startup_def main_wait_def startup_init_def
  set_status_def cond_broadcast_def sub64_def W64_def Let_def

text \<open>C11: Without spurious wakeups a thread (or main) leaves the startup barrier of
  multichase only after every thread has arrived, and for a branch chase only after the arena
  has been made executable.\<close>
theorem multichase_barrier_safe:
  assumes "startup_run (thread_barrier branch) n (Suc n) False (startup_init n) st"
    and "0 < n" and "n < 2 ^ 64" and "w \<le> n" and "status_of st w = Running"
  shows "(branch \<longrightarrow> executable st) \<and> (\<forall>v<n. status_of st v \<noteq> Arriving)"
  using multichase.left_after_all[OF assms(1), of w] assms(2-5) by (simp add: W64_def)

theorem multichase_barrier_safe_witness: "executable (thread_barrier True 0 (startup_init 1))"
proof -
  have "status_of (thread_barrier True 0 (startup_init 1)) 0 = Running" by (simp add: barrier_eval)
  moreover have "startup_run (thread_barrier True) 1 (Suc 1) False (startup_init 1)
      (thread_barrier True 0 (startup_init 1))"
    using first_arrival by (simp add: numeral_2_eq_2)
  ultimately show ?thesis using multichase_barrier_safe[of True 1 _ 0] by simp
qed

text \<open>C12: No wakeup of the startup barrier is lost: a run that can make no further step has
  let every thread and main through.\<close>
theorem multichase_barrier_progress:
  assumes "startup_run (thread_barrier branch) n (Suc n) False (startup_init n) st"
    and "0 < n" and "n < 2 ^ 64"
    and "\<not> (\<exists>st'. startup_step (thread_barrier branch) n (Suc n) False st st')"
  shows "\<forall>w\<le>n. status_of st w = Running"
  using multichase.stuck_all_running[OF assms(1)] assms(2-4) by (simp add: W64_def less_Suc_eq_le)

theorem multichase_barrier_progress_witness:
  "status_of (main_wait 1 (thread_barrier True 0 (startup_init 1))) 1 = Running"
proof -
  let ?st = "main_wait 1 (thread_barrier True 0 (startup_init 1))"
  have "startup_step (thread_barrier True) 1 2 False (thread_barrier True 0 (startup_init 1)) ?st"
    by (rule startup_step.watch) (simp_all add: barrier_eval)
  with first_arrival have run: "startup_run (thread_barrier True) 1 (Suc 1) False (startup_init 1) ?st"
    by (simp add: numeral_2_eq_2)
  have all: "status_of ?st w = Running" if "w < Suc 1" for w
    using that by (auto simp: barrier_eval less_Suc_eq)
  then have "\<not> (\<exists>st'. startup_step (thread_barrier True) 1 (Suc 1) False ?st st')"
    by (fastforce elim!: startup_stepE)
  from multichase_barrier_progress[OF run _ _ this] show ?thesis by simp
qed

text \<open>Every step of the startup barrier decreases a rank, so every run of it is finite,
  spurious wakeups included.\<close>
theorem startup_terminates:
  assumes "startup_step (thread_barrier branch) n k spurious st st'" and "n \<le> k"
  shows "barrier_rank k st' < barrier_rank k st"
  using assms(1)
proof (rule startup_stepE, goal_cases)
  case (1 w)
  have "status_of st' = (\<lambda>v. if v = w then Running else wake_status (status_of st v)) \<or>
    status_of st' = (status_of st)(w := Waiting)"
    by (auto simp: 1(1) thread_barrier_def set_status_def cond_broadcast_def wake_status_def
        Let_def fun_eq_iff)
  then show ?case
    using 1 assms(2) unfolding barrier_rank_def[of k st']
    by (intro rank_less[of w]) (auto simp: wake_status_def)
next
  case (2 w)
  then show ?case
    unfolding barrier_rank_def[of k st']
    by (intro rank_less[of w]) (auto simp: main_wait_def set_status_def)
next
  case (3 w)
  then show ?case
    unfolding barrier_rank_def[of k st'] by (intro rank_less[of w]) (auto simp: set_status_def)
next
  case (4 w)
  then show ?case
    unfolding barrier_rank_def[of k st'] by (intro rank_less[of w]) (auto simp: set_status_def)
qed

theorem startup_terminates_witness:
  "barrier_rank 2 (thread_barrier True 0 (startup_init 1)) < barrier_rank 2 (startup_init 1)"
  by (rule startup_terminates[of True 1 2 False], rule startup_step.arrive)
    (simp_all add: startup_init_def)

text \<open>Without spurious wakeups wait_for_startup of fairness lets nobody through before
  everyone has arrived.\<close>
theorem fairness_barrier_safe:
  assumes "startup_run wait_for_startup n n False (startup_init n) st"
    and "0 < n" and "n < 2 ^ 64" and "w < n" and "status_of st w = Running"
  shows "\<forall>v<n. status_of st v \<noteq> Arriving"
  using fairness.left_after_all[OF assms(1), of w] assms(2-5) by (simp add: W64_def)

theorem fairness_barrier_safe_witness:
  "status_of (wait_for_startup 0 (startup_init 1)) 0 \<noteq> Arriving"
proof -
  have "startup_run wait_for_startup 1 1 False (startup_init 1) (wait_for_startup 0 (startup_init 1))"
    by (rule r_into_rtranclp, rule startup_step.arrive) (simp_all add: startup_init_def)
  moreover have "status_of (wait_for_startup 0 (startup_init 1)) 0 = Running" by (simp add: barrier_eval)
  ultimately show ?thesis using fairness_barrier_safe[of 1 "wait_for_startup 0 (startup_init 1)" 0] by simp
qed

text \<open>With a spurious wakeup of pthread_cond_wait a thread of multichase starts its
  branch chase while another has not arrived and the arena is not executable.\<close>
theorem spurious_wakeup_starts_early:
  "\<exists>st. startup_run (thread_barrier True) 2 3 True (startup_init 2) st \<and>
     status_of st 0 = Running \<and> status_of st 1 = Arriving \<and> \<not> executable st"
proof -
  let ?s1 = "thread_barrier True 0 (startup_init 2)"
  let ?s2 = "set_status 0 Woken ?s1"
  let ?s3 = "set_status 0 Running ?s2"
  note defs = thread_barrier_def startup_init_def set_status_def sub64_def W64_def Let_def
  have "startup_step (thread_barrier True) 2 3 True (startup_init 2) ?s1"
    by (rule startup_step.arrive) (simp_all add: startup_init_def)
  moreover have "startup_step (thread_barrier True) 2 3 True ?s1 ?s2"
    by (rule startup_step.spurious) (simp_all add: defs)
  moreover have "startup_step (thread_barrier True) 2 3 True ?s2 ?s3"
    by (rule startup_step.wake) (simp_all add: defs)
  ultimately have "startup_run (thread_barrier True) 2 3 True (startup_init 2) ?s3"
    by (meson converse_rtranclp_into_rtranclp rtranclp.rtrancl_refl)
  moreover have "status_of ?s3 0 = Running" "status_of ?s3 1 = Arriving" "\<not> executable ?s3"
    by (simp_all add: defs)
  ultimately show ?thesis by blast
qed

end
