(* ===== verification/Worker.thy ===== *)
theory Worker
  imports Kernels Barrier
begin

text \<open>
  The rest of \<open>thread_start\<close> of \<open>multichase.c\<close>: the choice of a cpu, the changes the critword and
  branch chases make to the finished cycle, the flush of the caches, and the call of the kernel.
\<close>

subsection \<open>The cpu of a thread\<close>

text \<open>The search loop, with \<open>k\<close> cpus left to look at: the \<open>num\<close>-th member of the set.\<close>

fun cpu_loop :: "(nat \<Rightarrow> bool) \<Rightarrow> nat \<Rightarrow> nat \<Rightarrow> nat \<Rightarrow> nat" where
  "cpu_loop isset 0 my_cpu num = my_cpu"
| "cpu_loop isset (Suc k) my_cpu num =
     (if \<not> isset my_cpu then cpu_loop isset k (my_cpu + 1) num
      else if num = 0 then my_cpu
      else cpu_loop isset k (my_cpu + 1) (num - 1))"

text \<open>\<open>sched_getaffinity\<close> delivers the set or fails; \<open>sched_setaffinity\<close> succeeds or not.\<close>

definition set_affinity :: "(nat \<Rightarrow> bool) option \<Rightarrow> (nat \<Rightarrow> bool) \<Rightarrow> nat \<Rightarrow> nat res" where
  "set_affinity getaffinity setaffinity thread_num =
     (case getaffinity of
        None \<Rightarrow> Inl (Exit 1)
      | Some cpus \<Rightarrow>
          (let my_cpu = cpu_loop cpus CPU_SETSIZE 0 thread_num in
           if my_cpu = CPU_SETSIZE then Inl (Exit 1)
           else if setaffinity my_cpu then Inr my_cpu else Inl (Exit 1)))"

lemma cpu_loop_nth:
  "cpu_loop isset k c num =
     (let cs = filter isset [c..<c + k] in if num < length cs then cs ! num else c + k)"
proof (induction k arbitrary: c num)
  case (Suc k)
  have "[c..<c + Suc k] = c # [Suc c..<Suc c + k]" by (simp add: upt_conv_Cons)
  then show ?case
    using Suc[of "Suc c"] by (cases "isset c"; cases num) (auto simp: Let_def)
qed simp

text \<open>Thread \<open>n\<close> is moved to the \<open>n\<close>-th cpu of the set, and the program exits when there is none.\<close>
theorem set_affinity_nth:
  "set_affinity (Some cpus) (\<lambda>_. True) thread_num =
     (let cs = filter cpus [0..<CPU_SETSIZE] in
      if thread_num < length cs then Inr (cs ! thread_num) else Inl (Exit 1))"
proof -
  let ?cs = "filter cpus [0..<CPU_SETSIZE]"
  have "?cs ! thread_num < CPU_SETSIZE" if "thread_num < length ?cs"
    using nth_mem[OF that] by simp
  then show ?thesis by (auto simp: set_affinity_def cpu_loop_nth Let_def)
qed

subsection \<open>The critword chases\<close>

text \<open>\<open>do { \<dots> } while (p != q)\<close> over the cells of a cycle.\<close>

partial_function (option) do_cells ::
    "('s \<Rightarrow> nat \<Rightarrow> (nat \<times> 's) res) \<Rightarrow> nat \<Rightarrow> nat \<Rightarrow> 's \<Rightarrow> 's res option" where
  "do_cells body q p s =
     (case body s p of
        Inl e \<Rightarrow> Some (Inl e)
      | Inr (nxt, s') \<Rightarrow> if nxt = q then Some (Inr s') else do_cells body q nxt s')"

definition critword2_cell :: "nat \<Rightarrow> mem \<Rightarrow> nat \<Rightarrow> (nat \<times> mem) res" where
  "critword2_cell off m p =
     rbind (load64 m p) (\<lambda>nxt.
     rbind (store64 m (add64 p off) (add64 nxt off)) (\<lambda>m. Inr (nxt, m)))"

definition critword_cell :: "nat \<Rightarrow> mem \<Rightarrow> nat \<Rightarrow> (nat \<times> mem) res" where
  "critword_cell off m p =
     rbind (load64 m p) (\<lambda>nxt.
     rbind (store64 m (add64 p off) nxt) (\<lambda>m.
     rbind (store64 m p (add64 p off)) (\<lambda>m. Inr (nxt, m))))"

lemma do_cells_cycle:
  assumes cyc: "distinct as" "as \<noteq> []" and I0: "I 0 s"
    and step: "\<And>i s. i < length as \<Longrightarrow> I i s \<Longrightarrow>
      \<exists>s'. body s (as ! i) = Inr (as ! (Suc i mod length as), s') \<and> I (Suc i) s'"
  shows "\<exists>s'. do_cells body (hd as) (hd as) s = Some (Inr s') \<and> I (length as) s'"
proof -
  let ?n = "length as"
  have head: "as ! j = hd as \<longleftrightarrow> j = 0" if "j < ?n" for j
    using that cyc nth_eq_iff_index_eq[of as j 0] by (auto simp: hd_conv_nth)
  have "\<exists>s'. do_cells body (hd as) (as ! i) s = Some (Inr s') \<and> I ?n s'" if "i < ?n" "I i s" for i s
    using that
  proof (induction "?n - Suc i" arbitrary: i s)
    case 0
    then have last: "Suc i = ?n" by simp
    obtain s' where s': "body s (as ! i) = Inr (as ! (Suc i mod ?n), s')" "I (Suc i) s'"
      using step[OF "0.prems"] by blast
    have "as ! (Suc i mod ?n) = hd as" using head[of 0] cyc(2) last by simp
    then show ?case using s' last by (subst do_cells.simps) auto
  next
    case (Suc d)
    then have i: "Suc i < ?n" "d = ?n - Suc (Suc i)" by auto
    obtain s' where s': "body s (as ! i) = Inr (as ! (Suc i mod ?n), s')" "I (Suc i) s'"
      using step[OF Suc.prems] by blast
    then show ?case
      using Suc.hyps(1)[OF i(2,1) s'(2)] head[OF i(1)] i(1) by (subst do_cells.simps) simp
  qed
  from this[of 0 s] show ?thesis using cyc(2) I0 by (simp add: hd_conv_nth)
qed

text \<open>The cells and their copies \<open>off\<close> bytes further on do not overlap.\<close>

definition offset_cells :: "mem \<Rightarrow> nat \<Rightarrow> nat list \<Rightarrow> bool" where
  "offset_cells m off as \<longleftrightarrow>
     (\<forall>a\<in>set as. a + off < W64 \<and> mapped m (a + off) 8) \<and>
     (\<forall>a\<in>set as. \<forall>b\<in>set as. apart (a + off) b \<and> (a \<noteq> b \<longrightarrow> apart a b))"

lemma offset_apart: "apart a b \<Longrightarrow> apart (a + k) (b + k)"
  by (auto simp: apart_def)

lemma critword2_cells:
  assumes cyc: "chase_cycle m p as" and cells: "offset_cells m off as" "\<forall>a\<in>set as. mapped m a 8"
  shows "\<exists>m'. do_cells (critword2_cell off) p p m = Some (Inr m') \<and>
    chase_cycle m' p as \<and> chase_cycle m' (p + off) (map (\<lambda>a. a + off) as)"
proof -
  let ?n = "length as"
  have C: "as \<noteq> []" "hd as = p" "distinct as"
    "\<And>i. i < ?n \<Longrightarrow> load64 m (as ! i) = Inr (as ! (Suc i mod ?n))"
    using cyc by (auto simp: chase_cycle_def)
  have n: "0 < ?n" using C(1) by simp
  have add: "add64 (as ! i) off = as ! i + off" "mapped m (as ! i + off) 8" "as ! i + off < W64" if "i < ?n" for i
    using cells(1) that by (auto simp: offset_cells_def add64_exact)
  have ap: "apart (as ! i + off) (as ! j)" "i \<noteq> j \<Longrightarrow> apart (as ! i + off) (as ! j + off)"
    if "i < ?n" "j < ?n" for i j
    using cells(1) that C(3) by (auto simp: offset_cells_def nth_eq_iff_index_eq intro: offset_apart)
  define I where "I k m' \<longleftrightarrow> (\<forall>i<?n. load64 m' (as ! i) = load64 m (as ! i)) \<and>
    (\<forall>i<k. load64 m' (as ! i + off) = Inr (as ! (Suc i mod ?n) + off)) \<and>
    (\<forall>a. mapped m' a 8 = mapped m a 8)" for k m'
  have "\<exists>m'. critword2_cell off s (as ! i) = Inr (as ! (Suc i mod ?n), m') \<and> I (Suc i) m'"
    if i: "i < ?n" and I: "I i s" for i s
  proof -
    let ?q = "as ! (Suc i mod ?n)"
    have q: "Suc i mod ?n < ?n" using n by simp
    have "mapped s (as ! i + off) 8" using add(2)[OF i] I by (simp add: I_def)
    then obtain m' where m': "store64 s (as ! i + off) (?q + off) = Inr m'"
      using bytes.store_cell by blast
    have "load64 m' (as ! j) = load64 m (as ! j)" if "j < ?n" for j
      using bytes.load_apart[OF m' ap(1)[OF i that]] I that by (simp add: I_def)
    moreover have "load64 m' (as ! j + off) = Inr (as ! (Suc j mod ?n) + off)" if "j < Suc i" for j
    proof (cases "j = i")
      case True
      then show ?thesis using bytes.load_same[OF m' add(3)[OF q]] by simp
    next
      case False
      then have "j < i" "j < ?n" "i \<noteq> j" using that i by auto
      then show ?thesis using bytes.load_apart[OF m' ap(2)[OF i]] I by (simp add: I_def)
    qed
    moreover have "mapped m' a 8 = mapped m a 8" for a
      using bytes.cell_kept[OF m'] I by (simp add: I_def)
    ultimately have "I (Suc i) m'" by (simp add: I_def)
    moreover have "critword2_cell off s (as ! i) = Inr (?q, m')"
      using I i C(4)[OF i] m' by (simp add: critword2_cell_def I_def add(1)[OF i] add(1)[OF q])
    ultimately show ?thesis by blast
  qed
  moreover have "I 0 m" by (simp add: I_def)
  ultimately obtain m' where m': "do_cells (critword2_cell off) (hd as) (hd as) m = Some (Inr m')" "I ?n m'"
    using do_cells_cycle[OF C(3,1), of I m] by blast
  have "chase_cycle m' p as"
    using m'(2) by (intro chase_cycle_frame[OF cyc]) (auto simp: I_def in_set_conv_nth)
  moreover have "chase_cycle m' (p + off) (map (\<lambda>a. a + off) as)"
    using m'(2) C n by (auto simp: I_def chase_cycle_def hd_map distinct_map inj_on_def)
  ultimately show ?thesis using m'(1) C(2) by auto
qed

lemma critword_cells:
  assumes cyc: "chase_cycle m p as" and cells: "offset_cells m off as" "\<forall>a\<in>set as. mapped m a 8"
  shows "\<exists>m'. do_cells (critword_cell off) p p m = Some (Inr m') \<and>
    chase_cycle m' p (concat (map (\<lambda>a. [a, a + off]) as))"
proof -
  let ?n = "length as"
  have C: "as \<noteq> []" "hd as = p" "distinct as"
    "\<And>i. i < ?n \<Longrightarrow> load64 m (as ! i) = Inr (as ! (Suc i mod ?n))"
    using cyc by (auto simp: chase_cycle_def)
  have n: "0 < ?n" using C(1) by simp
  have add: "add64 (as ! i) off = as ! i + off" "mapped m (as ! i + off) 8" "as ! i + off < W64"
    "mapped m (as ! i) 8" if "i < ?n" for i
    using cells that by (auto simp: offset_cells_def add64_exact)
  have ap: "apart (as ! i + off) (as ! j)" "i \<noteq> j \<Longrightarrow> apart (as ! i + off) (as ! j + off)"
    "i \<noteq> j \<Longrightarrow> apart (as ! i) (as ! j)" if "i < ?n" "j < ?n" for i j
    using cells(1) that C(3) by (auto simp: offset_cells_def nth_eq_iff_index_eq intro: offset_apart)
  have next_lt: "as ! (Suc i mod ?n) < W64" for i
    using add(3)[of "Suc i mod ?n"] n by simp
  define I where "I k m' \<longleftrightarrow> (\<forall>i<k. load64 m' (as ! i) = Inr (as ! i + off)) \<and>
    (\<forall>i<k. load64 m' (as ! i + off) = Inr (as ! (Suc i mod ?n))) \<and>
    (\<forall>i. k \<le> i \<longrightarrow> i < ?n \<longrightarrow> load64 m' (as ! i) = load64 m (as ! i)) \<and>
    (\<forall>a. mapped m' a 8 = mapped m a 8)" for k m'
  have "\<exists>m'. critword_cell off s (as ! i) = Inr (as ! (Suc i mod ?n), m') \<and> I (Suc i) m'"
    if i: "i < ?n" and I: "I i s" for i s
  proof -
    let ?q = "as ! (Suc i mod ?n)"
    have "mapped s (as ! i + off) 8" using add(2)[OF i] I by (simp add: I_def)
    then obtain m1 where m1: "store64 s (as ! i + off) ?q = Inr m1"
      using bytes.store_cell by blast
    have mp: "mapped m1 a 8 = mapped m a 8" for a
      using bytes.cell_kept[OF m1] I by (simp add: I_def)
    obtain m' where m': "store64 m1 (as ! i) (as ! i + off) = Inr m'"
      using bytes.store_cell add(4)[OF i] mp by blast
    have old: "load64 m' (as ! j) = load64 s (as ! j)" if "j < ?n" "j \<noteq> i" for j
      using bytes.load_apart[OF m' ap(3)[OF i that(1)]] bytes.load_apart[OF m1 ap(1)[OF i that(1)]] that by simp
    have old': "load64 m' (as ! j + off) = load64 s (as ! j + off)" if "j < ?n" "j \<noteq> i" for j
      using bytes.load_apart[OF m' apart_sym[OF ap(1)[OF that(1) i]]]
        bytes.load_apart[OF m1 ap(2)[OF i that(1)]] that by simp
    have new: "load64 m' (as ! i + off) = Inr ?q"
      using bytes.load_apart[OF m' apart_sym[OF ap(1)[OF i i]]] bytes.load_same[OF m1 next_lt] by simp
    have new': "load64 m' (as ! i) = Inr (as ! i + off)" by (rule bytes.load_same[OF m' add(3)[OF i]])
    have "mapped m' a 8 = mapped m a 8" for a using bytes.cell_kept[OF m'] mp by simp
    then have "I (Suc i) m'"
      using I i old old' new new' by (auto simp: I_def less_Suc_eq)
    moreover have "critword_cell off s (as ! i) = Inr (?q, m')"
      using I i C(4)[OF i] m1 m' by (simp add: critword_cell_def I_def add(1)[OF i])
    ultimately show ?thesis by blast
  qed
  moreover have "I 0 m" by (simp add: I_def)
  ultimately obtain m' where m': "do_cells (critword_cell off) (hd as) (hd as) m = Some (Inr m')" "I ?n m'"
    using do_cells_cycle[OF C(3,1), of I m] by blast
  let ?f = "\<lambda>t. as ! (t div 2) + (if even t then 0 else off)"
  have pairs: "concat (map (\<lambda>a. [a, a + off]) bs) = map (\<lambda>t. bs ! (t div 2) + (if even t then 0 else off)) [0..<2 * length bs]" for bs
  proof (induction bs)
    case (Cons b bs)
    have "[0..<2 * length (b # bs)] = 0 # 1 # map (\<lambda>t. t + 2) [0..<2 * length bs]"
      by (rule nth_equalityI) (auto simp: nth_Cons simp del: upt_Suc split: nat.splits)
    then show ?case using Cons by (simp add: comp_def del: upt_Suc)
  qed simp
  have "chase_cycle m' (?f 0) (map ?f [0..<2 * ?n])"
  proof (rule chase_cycleI)
    show "0 < 2 * ?n" using n by simp
    show "inj_on ?f {..<2 * ?n}"
    proof (rule inj_onI)
      fix s t assume st: "s \<in> {..<2 * ?n}" "t \<in> {..<2 * ?n}" "?f s = ?f t"
      then have lt: "s div 2 < ?n" "t div 2 < ?n" by auto
      have par: "even s = even t"
        using st(3) ap(1)[OF lt] ap(1)[OF lt(2,1)] by (auto dest: apart_neq split: if_splits)
      then have "as ! (s div 2) = as ! (t div 2)" using st(3) by simp
      then have "s div 2 = t div 2" using lt C(3) by (simp add: nth_eq_iff_index_eq)
      then show "s = t" using par by (metis even_iff_mod_2_eq_zero div_mult_mod_eq odd_iff_mod_2_eq_one)
    qed
    fix t assume t: "t < 2 * ?n"
    then have lt: "t div 2 < ?n" by auto
    show "load64 m' (?f t) = Inr (?f (Suc t mod (2 * ?n)))"
    proof (cases "even t")
      case True
      then have "Suc t < 2 * ?n" using t by presburger
      then show ?thesis using True m'(2) lt by (simp add: I_def)
    next
      case False
      then have "Suc t = 2 * Suc (t div 2)" by presburger
      then have "Suc t mod (2 * ?n) = 2 * (Suc (t div 2) mod ?n)" by (metis mult_mod_right)
      then show ?thesis using False m'(2) lt by (simp add: I_def)
    qed
  qed
  then show ?thesis using m'(1) C(1,2) by (auto simp: pairs hd_conv_nth)
qed

text \<open>The loop that prepares a critword2 chase adds a second cycle, the copy of the
  first one offset bytes further on, and both are followed in step.\<close>
theorem critword2_two_chases:
  assumes "chase_cycle m p as" and "offset_cells m off as" and "\<forall>a\<in>set as. mapped m a 8"
  shows "\<exists>m'. do_cells (critword2_cell off) p p m = Some (Inr m') \<and>
    (\<forall>k. deref_n m' p k = Inr (as ! (k mod length as)) \<and>
         deref_n m' (p + off) k = Inr (as ! (k mod length as) + off))"
proof -
  obtain m' where m': "do_cells (critword2_cell off) p p m = Some (Inr m')" "chase_cycle m' p as"
    "chase_cycle m' (p + off) (map (\<lambda>a. a + off) as)"
    using critword2_cells[OF assms] by blast
  have "length as > 0" using cycle_start[OF assms(1)] by blast
  then show ?thesis
    using m'(1) chase_cycle_deref[OF m'(2)] chase_cycle_deref[OF m'(3)] by auto
qed

text \<open>The loop that prepares a critword chase makes one cycle of twice the length that
  visits in each element the word and then the word offset bytes further on.\<close>
theorem critword_reads_both_words:
  assumes "chase_cycle m p as" and "offset_cells m off as" and "\<forall>a\<in>set as. mapped m a 8"
  shows "\<exists>m'. do_cells (critword_cell off) p p m = Some (Inr m') \<and>
    (\<forall>k. deref_n m' p (2 * k) = Inr (as ! (k mod length as)) \<and>
         deref_n m' p (2 * k + 1) = Inr (as ! (k mod length as) + off))"
proof -
  let ?n = "length as" and ?bs = "concat (map (\<lambda>a. [a, a + off]) as)"
  obtain m' where m': "do_cells (critword_cell off) p p m = Some (Inr m')" "chase_cycle m' p ?bs"
    using critword_cells[OF assms] by blast
  have n: "0 < ?n" using cycle_start[OF assms(1)] by blast
  have len: "length (concat (map (\<lambda>a. [a, a + off]) bs)) = 2 * length bs" for bs
    by (induction bs) auto
  have nth: "concat (map (\<lambda>a. [a, a + off]) bs) ! (2 * i) = bs ! i \<and>
      concat (map (\<lambda>a. [a, a + off]) bs) ! (2 * i + 1) = bs ! i + off" if "i < length bs" for bs i
    using that by (induction bs arbitrary: i) (auto simp: nth_Cons split: nat.splits)
  have "deref_n m' p (2 * k) = Inr (as ! (k mod ?n)) \<and> deref_n m' p (2 * k + 1) = Inr (as ! (k mod ?n) + off)" for k
  proof -
    have k: "(2 * k) mod (2 * ?n) = 2 * (k mod ?n)" "(2 * k + 1) mod (2 * ?n) = 2 * (k mod ?n) + 1"
      unfolding mod_mult2_eq by simp_all
    show ?thesis
      using chase_cycle_deref[OF m'(2), of "2 * k"] chase_cycle_deref[OF m'(2), of "2 * k + 1"]
        nth[of "k mod ?n" as] n unfolding len k by (simp del: deref_n.simps)
  qed
  then show ?thesis using m'(1) by blast
qed

subsection \<open>thread_start\<close>

definition branch_emitter :: "arch \<Rightarrow> emitter" where
  "branch_emitter a = (case a of X86_64 \<Rightarrow> x64 | AArch64 \<Rightarrow> aarch64)"

text \<open>What the finished chases become; the chase is chosen by its name.\<close>

definition adapt_chase ::
    "arch \<Rightarrow> (nat \<Rightarrow> nat \<Rightarrow> nat) \<Rightarrow> chase_t \<Rightarrow> per_thread \<Rightarrow> mem \<Rightarrow> (per_thread \<times> mem) res option" where
  "adapt_chase a lround_log2 ch t m =
     (let off = fst (strtoull (extra_arg t)); p = cycle t ! 0 in
      obind (if name ch = ''critword2'' then do_cells (critword2_cell off) p p m else Some (Inr m)) (\<lambda>m.
      obind (if name ch = ''critword'' then do_cells (critword_cell off) p p m else Some (Inr m)) (\<lambda>m.
      if name ch = ''branch'' then
        obind (convert_pointers_to_branches (branch_emitter a) lround_log2 p 200 m)
          (\<lambda>(c, m). Some (Inr (t\<lparr>branch_chunk_size := c\<rparr>, m)))
      else Some (Inr (t, m)))))"

text \<open>The sum over the flush arena at \<open>base\<close>; \<open>dummy\<close> is an \<open>int\<close>.\<close>

definition flush_caches :: "nat \<Rightarrow> nat \<Rightarrow> mem \<Rightarrow> per_thread \<Rightarrow> per_thread res" where
  "flush_caches bytes base m t =
     (if bytes = 0 then Inr t
      else rbind (for_range (bytes div 8) (\<lambda>i sum. rbind (load64 m (base + 8 * i)) (\<lambda>v. Inr (add64 sum v))) 0)
        (\<lambda>sum. Inr (t\<lparr>dummy := dummy t + of_nat sum\<rparr>)))"

text \<open>\<open>args->x.chase->fn(data)\<close>; the kernel of the GPU is an argument (\<open>Gpu_Chase\<close>).\<close>

definition run_chase ::
    "nat \<Rightarrow> (per_thread \<Rightarrow> mem \<Rightarrow> (per_thread \<times> mem) res option) \<Rightarrow> machine \<Rightarrow> nat \<Rightarrow> chase_t \<Rightarrow> (nat \<Rightarrow> bool) \<Rightarrow>
     mem \<Rightarrow> per_thread \<Rightarrow> (per_thread \<times> mem) res option" where
  "run_chase bits gpu cpu fuel ch sampled m t =
     (case fn ch of
        Simple \<Rightarrow> obind (chase_simple bits m sampled t) (\<lambda>(t, _). Some (Inr (t, m)))
      | Gpu \<Rightarrow> gpu t m
      | Work \<Rightarrow> obind (chase_work bits m sampled t) (\<lambda>(t, _). Some (Inr (t, m)))
      | Incr \<Rightarrow> obind (chase_incr bits m sampled t) (\<lambda>(t, _, m). Some (Inr (t, m)))
      | Branch \<Rightarrow> obind (chase_branch bits cpu fuel m sampled t) (\<lambda>(t, _). Some (Inr (t, m)))
      | Prefetch _ \<Rightarrow> obind (chase_prefetch bits m sampled t) (\<lambda>(t, _). Some (Inr (t, m)))
      | Movdqa \<Rightarrow> obind (chase_movdqa bits m sampled t) (\<lambda>(t, _). Some (Inr (t, m)))
      | Movntdqa \<Rightarrow> obind (chase_movntdqa bits m sampled t) (\<lambda>(t, _). Some (Inr (t, m)))
      | Parallel n \<Rightarrow> obind (chase_parallel bits n m sampled t) (\<lambda>(t, _). Some (Inr (t, m)))
      | Critword2 \<Rightarrow> obind (chase_critword2 bits m sampled t) (\<lambda>(t, _). Some (Inr (t, m))))"

subsection \<open>Two cells with room for a second word\<close>

lemma lines_offset: "offset_cells lines 8 [64, 128]" "\<forall>a\<in>set [64, 128 :: nat]. mapped lines a 8"
  by (auto simp: offset_cells_def apart_def mapped_def lines_def W64_def)

theorem critword2_two_chases_witness:
  "\<exists>m'. do_cells (critword2_cell 8) 64 64 lines = Some (Inr m') \<and>
    deref_n m' 64 3 = Inr 128 \<and> deref_n m' (64 + 8) 3 = Inr (128 + 8)"
proof -
  obtain m' where "do_cells (critword2_cell 8) 64 64 lines = Some (Inr m')"
    "deref_n m' 64 3 = Inr ([64, 128] ! (3 mod length [64, 128 :: nat]))"
    "deref_n m' (64 + 8) 3 = Inr ([64, 128] ! (3 mod length [64, 128 :: nat]) + 8)"
    using critword2_two_chases[OF lines_facts(1) lines_offset] by blast
  moreover have "[64, 128] ! (3 mod length [64, 128 :: nat]) = (128 :: nat)" by code_simp
  ultimately show ?thesis by auto
qed

theorem critword_reads_both_words_witness:
  "\<exists>m'. do_cells (critword_cell 8) 64 64 lines = Some (Inr m') \<and>
    deref_n m' 64 (2 * 1) = Inr 128 \<and> deref_n m' 64 (2 * 1 + 1) = Inr (128 + 8)"
proof -
  obtain m' where "do_cells (critword_cell 8) 64 64 lines = Some (Inr m')"
    "deref_n m' 64 (2 * 1) = Inr ([64, 128] ! (1 mod length [64, 128 :: nat]))"
    "deref_n m' 64 (2 * 1 + 1) = Inr ([64, 128] ! (1 mod length [64, 128 :: nat]) + 8)"
    using critword_reads_both_words[OF lines_facts(1) lines_offset] by blast
  moreover have "[64, 128] ! (1 mod length [64, 128 :: nat]) = (128 :: nat)" by code_simp
  ultimately show ?thesis by auto
qed

end
