(* ===== verification/Chase_Long.thy ===== *)
theory Chase_Long
  imports Chase
begin

text \<open>
  \<open>generate_chase_long\<close>: one cycle through \<open>nr_iteration\<close> rows of the mixer, each row a
  permutation of all elements of its own, started at element 0 and left for the next row when
  it is complete. Element \<open>e\<close> of the long chase is element \<open>e mod n\<close> in row \<open>e div n\<close>.
\<close>

unbundle bit_operations_syntax

definition long_cell :: "'r chase_args \<Rightarrow> nat \<Rightarrow> nat \<Rightarrow> nat" where
  "long_cell args r e =
     cell_addr args (r + e div nr_elements args) (e mod nr_elements args)"

definition blockwise :: "nat \<Rightarrow> nat \<Rightarrow> nat list \<Rightarrow> bool" where
  "blockwise n rows perm \<longleftrightarrow>
     perm_upto (rows * n) perm \<and> (\<forall>a<rows * n. perm ! a div n = a div n)"

text \<open>The successor the threading loop computes for element \<open>i\<close>.\<close>

definition long_succ :: "nat \<Rightarrow> nat \<Rightarrow> nat list \<Rightarrow> nat list \<Rightarrow> nat \<Rightarrow> nat" where
  "long_succ n rows perm pinv i =
     (let p = Suc (pinv ! i); q = perm ! (if p mod n = 0 then i div n * n else p) in
      if q mod n = 0 then (if Suc (i div n) = rows then 0 else Suc (i div n) * n) else q)"

lemma block_start_lt: "e < rows * n \<Longrightarrow> e div n * n < rows * (n::nat)"
  by (meson div_times_less_eq_dividend le_less_trans)

lemma block_next:
  assumes "Suc p mod n = 0" and "0 < (n::nat)"
  shows "Suc p div n = Suc (p div n)"
  using assms by (simp add: div_Suc)

lemma pos_block:
  assumes "blockwise n rows perm" and "\<forall>i<rows * n. pinv ! (perm ! i) = i" and "i < rows * n"
  shows "pinv ! i < rows * n" "perm ! (pinv ! i) = i" "pinv ! i div n = i div n"
  using inverse_facts[of "rows * n" perm pinv i] assms unfolding blockwise_def by metis+

lemma long_pos_lt:
  assumes "p < rows * n" and "0 < (n::nat)"
  shows "(if Suc p mod n = 0 then p div n * n else Suc p) < rows * n"
proof (cases "Suc p mod n = 0")
  case True
  then show ?thesis using block_start_lt[OF assms(1)] by simp
next
  case False
  then have "Suc p \<noteq> rows * n" by (metis mod_mult_self2_is_0)
  then show ?thesis using False assms by simp
qed

lemma long_succ_lt:
  assumes b: "blockwise n rows perm" and inv: "\<forall>i<rows * n. pinv ! (perm ! i) = i"
    and i: "i < rows * n" and n: "0 < n"
  shows "long_succ n rows perm pinv i < rows * n"
proof -
  note P = pos_block[OF b inv i]
  have "perm ! (if Suc (pinv ! i) mod n = 0 then i div n * n else Suc (pinv ! i)) < rows * n"
    using long_pos_lt[OF P(1) n] P(3) perm_upto_nth b unfolding blockwise_def by metis
  moreover have "Suc (i div n) * n < rows * n" if "Suc (i div n) \<noteq> rows"
  proof -
    have "i div n < rows" using i by (simp add: less_mult_imp_div_less)
    then show ?thesis using that n by (intro mult_less_mono1) auto
  qed
  moreover have "0 < rows * n" by (rule le_less_trans[OF le0 i])
  ultimately show ?thesis by (simp only: long_succ_def Let_def split: if_split) blast
qed

lemma mixed_long:
  assumes geo: "chase_geometry args" and r: "r + rows \<le> nr_mixer_indices args"
    and n: "n = nr_elements args" and e: "e < rows * n"
  shows "\<exists>a. mixed args (add64 (r * nr_mixers args) (mul64 (e div n) (nr_mixers args)))
      (stride args div nr_mixer_indices args) (e mod n) = Inr a \<and>
    add64 (arena args) a = long_cell args r e"
proof -
  have d: "e div n < rows" using e by (simp add: less_mult_imp_div_less)
  then have j: "r + e div n < nr_mixer_indices args" using r by simp
  have x: "e mod n < nr_elements args" using geometryD(2)[OF geo] n by simp
  have "(r + e div n) * nr_mixers args < W64"
    by (rule row_offset_lt[OF geometryD(6)[OF geo] j])
  then have "add64 (r * nr_mixers args) (mul64 (e div n) (nr_mixers args)) =
      (r + e div n) * nr_mixers args"
    by (simp add: c_arith add_mult_distrib)
  then show ?thesis
    using mixed_cell[OF geo j x] by (simp add: long_cell_def n)
qed

lemma thread_long_step_eq:
  assumes geo: "chase_geometry args" and r: "r + rows \<le> nr_mixer_indices args"
    and n: "n = nr_elements args" "rows * n < W64"
    and b: "blockwise n rows perm"
    and inv: "length pinv = rows * n" "\<forall>i<rows * n. pinv ! (perm ! i) = i"
    and i: "i < rows * n" and zero: "load64 m (long_cell args r i) = Inr 0"
  shows "thread_long_step args (r * nr_mixers args) (stride args div nr_mixer_indices args)
      rows n perm pinv i m =
    store64 m (long_cell args r i) (long_cell args r (long_succ n rows perm pinv i))"
proof -
  note P = pos_block[OF b inv(2) i]
  have n0: "0 < n" using geometryD(2)[OF geo] n by simp
  have lp: "length perm = rows * n" using b perm_uptoD(1) by (auto simp: blockwise_def)
  let ?p = "pinv ! i" and ?j = "i div n"
  have jr: "?j < rows" using i by (simp add: less_mult_imp_div_less)
  have suc: "add64 ?p (Suc 0) = Suc ?p" using P(1) n(2) by (simp add: c_arith)
  have cond: "Suc ?p mod n = 0 \<and> Suc ?p div n > ?j \<longleftrightarrow> Suc ?p mod n = 0"
    using block_next[OF _ n0] P(3) by auto
  have jn: "mul64 ?j n = ?j * n"
    by (rule mul64_exact[OF less_trans[OF block_start_lt[OF i] n(2)]])
  let ?np = "if Suc ?p mod n = 0 then ?j * n else Suc ?p"
  have np: "?np < rows * n" using long_pos_lt[OF P(1) n0] by (simp only: P(3))
  let ?q = "perm ! ?np"
  have q: "?q < rows * n" using perm_upto_nth np b unfolding blockwise_def by blast
  have le: "Suc ?j * n \<le> rows * n" using jr by (intro mult_le_mono1) simp
  have new: "mul64 (add64 ?j (Suc 0)) n = Suc ?j * n" "mul64 rows n = rows * n"
  proof -
    have "rows < W64" by (rule le_less_trans[OF _ n(2)]) (use n0 in simp)
    then have "add64 ?j (Suc 0) = Suc ?j" using jr by (simp add: c_arith)
    then show "mul64 (add64 ?j (Suc 0)) n = Suc ?j * n"
      by (simp only: mul64_exact[OF le_less_trans[OF le n(2)]])
    show "mul64 rows n = rows * n" using n(2) by (simp add: c_arith)
  qed
  have last: "Suc ?j * n = rows * n \<longleftrightarrow> Suc ?j = rows"
    using n0 by (intro mult_right_cancel) simp
  let ?t = "long_succ n rows perm pinv i"
  have t: "?t < rows * n" by (rule long_succ_lt[OF b inv(2) i n0])
  obtain a c where
    a: "mixed args (add64 (r * nr_mixers args) (mul64 ?j (nr_mixers args)))
      (stride args div nr_mixer_indices args) (i mod n) = Inr a" "add64 (arena args) a = long_cell args r i"
    and c: "mixed args (add64 (r * nr_mixers args) (mul64 (?t div n) (nr_mixers args)))
      (stride args div nr_mixer_indices args) (?t mod n) = Inr c" "add64 (arena args) c = long_cell args r ?t"
    using mixed_long[OF geo r n(1) i] mixed_long[OF geo r n(1) t] by blast
  have t_eq: "?t = (if ?q mod n = 0 then (if Suc ?j * n = rows * n then 0 else Suc ?j * n) else ?q)"
    by (simp only: long_succ_def Let_def last)
  have get: "arr_get pinv i = Inr ?p" "arr_get perm ?np = Inr ?q"
    using i inv(1) np lp by (simp_all only: arr_get_ok)
  show ?thesis
  proof (cases "?q mod n = 0")
    case True
    then have "?t = (if Suc ?j * n = rows * n then 0 else Suc ?j * n)" using t_eq by simp
    then show ?thesis
      using c True
      by (simp only: thread_long_step_def Let_def a rbind.simps zero One_nat_def suc cond jn get new
          if_True simp_thms not_True_eq_False if_False)
  next
    case False
    then have "?t = ?q" using t_eq by simp
    then show ?thesis
      using c False
      by (simp only: thread_long_step_def Let_def a rbind.simps zero One_nat_def suc cond jn get new
          if_True simp_thms not_True_eq_False if_False)
  qed
qed

subsection \<open>The cycle through all rows\<close>

text \<open>The position, in \<open>perm\<close>, of the element visited at step \<open>t\<close>.\<close>

definition long_pos :: "nat \<Rightarrow> nat list \<Rightarrow> nat \<Rightarrow> nat" where
  "long_pos n pinv t = t div n * n + (pinv ! (t div n * n) mod n + t mod n) mod n"

lemma long_pos_div [simp]: "0 < n \<Longrightarrow> long_pos n pinv t div n = t div n"
  by (simp add: long_pos_def)

lemma long_pos_bound:
  assumes "t < rows * n"
  shows "long_pos n pinv t < rows * n"
proof -
  have n: "0 < n" using assms by (auto intro: Nat.gr0I)
  have "Suc (t div n) * n \<le> rows * n"
    using less_mult_imp_div_less[OF assms] by (intro mult_le_mono1) simp
  then show ?thesis
    using mod_less_divisor[OF n, of "pinv ! (t div n * n) mod n + t mod n"]
    unfolding long_pos_def mult_Suc by linarith
qed

lemma long_pos_inj:
  assumes "long_pos n pinv t = long_pos n pinv u" and n: "0 < n"
  shows "t = u"
proof -
  have d: "t div n = u div n"
    using long_pos_div[OF n, of pinv t] long_pos_div[OF n, of pinv u] assms(1) by simp
  have "(pinv ! (t div n * n) mod n + t mod n) mod n = (pinv ! (t div n * n) mod n + u mod n) mod n"
    using assms(1) by (simp only: long_pos_def d add_left_cancel)
  then have "t mod n = u mod n"
    using n by (elim mod_add_inj) simp_all
  then show ?thesis using d by (metis div_mult_mod_eq)
qed

lemma long_pos_start:
  assumes b: "blockwise n rows perm" and inv: "\<forall>i<rows * n. pinv ! (perm ! i) = i"
    and j: "j < rows" and n: "0 < n"
  shows "long_pos n pinv (j * n) = pinv ! (j * n)" "perm ! long_pos n pinv (j * n) = j * n"
proof -
  have lt: "j * n < rows * n" using j n by simp
  note P = pos_block[OF b inv lt]
  have "pinv ! (j * n) div n = j" using P(3) n by simp
  then have "long_pos n pinv (j * n) = pinv ! (j * n) div n * n + pinv ! (j * n) mod n"
    using n by (simp add: long_pos_def)
  then show "long_pos n pinv (j * n) = pinv ! (j * n)" by simp
  then show "perm ! long_pos n pinv (j * n) = j * n" using P(2) by simp
qed

lemma long_succ_order:
  assumes b: "blockwise n rows perm" and inv: "\<forall>i<rows * n. pinv ! (perm ! i) = i"
    and t: "t < rows * n"
  shows "long_succ n rows perm pinv (perm ! long_pos n pinv t) =
    perm ! long_pos n pinv (Suc t mod (rows * n))"
proof -
  have n: "0 < n" using t by (auto intro: Nat.gr0I)
  let ?j = "t div n" and ?r = "t mod n" and ?p = "long_pos n pinv t"
  let ?o = "pinv ! (?j * n) mod n"
  have j: "?j < rows" by (rule less_mult_imp_div_less[OF t])
  have p: "?p < rows * n" by (rule long_pos_bound[OF t])
  have ip: "pinv ! (perm ! ?p) = ?p" using inv p by blast
  have idiv: "perm ! ?p div n = ?j"
    using b p n long_pos_div unfolding blockwise_def by metis
  have smod: "Suc ?p mod n = Suc (?o + ?r) mod n"
    by (simp add: long_pos_def mod_Suc_eq flip: add_Suc_right)
  have np: "(if Suc ?p mod n = 0 then ?j * n else Suc ?p) = ?j * n + Suc (?o + ?r) mod n"
  proof (cases "Suc ?p mod n = 0")
    case True
    then show ?thesis using smod by simp
  next
    case False
    then have "Suc ((?o + ?r) mod n) \<noteq> n" using smod mod_Suc[of "?o + ?r" n] by auto
    then have "Suc (?o + ?r) mod n = Suc ((?o + ?r) mod n)"
      by (simp add: mod_Suc)
    then show ?thesis using False by (simp add: long_pos_def)
  qed
  let ?q = "perm ! (?j * n + Suc (?o + ?r) mod n)"
  have succ: "long_succ n rows perm pinv (perm ! ?p) =
      (if ?q mod n = 0 then (if Suc ?j = rows then 0 else Suc ?j * n) else ?q)"
    by (simp only: long_succ_def Let_def ip idiv np)
  have start: "perm ! long_pos n pinv (k * n) = k * n" if "k < rows" for k
    by (rule long_pos_start(2)[OF b inv that n])
  show ?thesis
  proof (cases "Suc ?r = n")
    case True
    then have "?q = ?j * n"
      using start[OF j] n by (simp add: long_pos_def flip: add_Suc_right)
    moreover have st: "Suc t = Suc ?j * n"
      using True div_mult_mod_eq[of t n] unfolding mult_Suc by linarith
    moreover have "Suc t mod (rows * n) = (if Suc ?j = rows then 0 else Suc ?j * n)"
    proof (cases "Suc ?j = rows")
      case False
      then have "Suc ?j * n < rows * n" using j n by (intro mult_less_mono1) auto
      then show ?thesis using st False by (simp only: mod_less if_False)
    qed (use st in auto)
    ultimately show ?thesis
      using succ start[of "Suc ?j"] start[of 0] j by auto
  next
    case False
    then have r: "Suc ?r < n" using n mod_less_divisor[OF n, of t] by linarith
    then have st: "Suc t div n = ?j" "Suc t mod n = Suc ?r"
      by (simp_all add: div_Suc mod_Suc)
    have "Suc t < rows * n"
    proof -
      have "Suc t div n < rows" using st j by simp
      then show ?thesis using n by (simp add: div_less_iff_less_mult)
    qed
    then have "Suc t mod (rows * n) = Suc t" by simp
    have q: "?q = perm ! long_pos n pinv (Suc t)"
      by (simp add: long_pos_def st)
    have "?q mod n \<noteq> 0"
    proof
      assume z: "?q mod n = 0"
      have lt: "long_pos n pinv (Suc t) < rows * n"
        by (rule long_pos_bound) fact
      have "?q div n = ?j"
        using b lt n long_pos_div st(1) unfolding q blockwise_def by metis
      then have "?q = perm ! long_pos n pinv (?j * n)"
        using z div_mult_mod_eq[of ?q n] start[OF j] by simp
      moreover have "distinct perm" "length perm = rows * n"
        using b perm_uptoD unfolding blockwise_def by blast+
      moreover have "?j * n < rows * n" using j n by simp
      ultimately have "long_pos n pinv (Suc t) = long_pos n pinv (?j * n)"
        using lt long_pos_bound[of "?j * n" rows n pinv] unfolding q
        by (simp only: nth_eq_iff_index_eq)
      then have "Suc t = ?j * n" by (rule long_pos_inj[OF _ n])
      then show False using st(2) by simp
    qed
    then show ?thesis using succ q \<open>Suc t mod (rows * n) = Suc t\<close> by simp
  qed
qed

text \<open>The elements in the order of the walk: a permutation, row after row.\<close>

definition long_order :: "nat \<Rightarrow> nat \<Rightarrow> nat list \<Rightarrow> nat list \<Rightarrow> nat list" where
  "long_order n rows perm pinv = map (\<lambda>t. perm ! long_pos n pinv t) [0..<rows * n]"

lemma long_order_blockwise:
  assumes b: "blockwise n rows perm"
  shows "blockwise n rows (long_order n rows perm pinv)"
proof (cases "n = 0")
  case True
  then show ?thesis by (simp add: blockwise_def long_order_def perm_upto_def)
next
  case False
  have d: "distinct perm" "length perm = rows * n"
    using b perm_uptoD unfolding blockwise_def by blast+
  have "inj_on (\<lambda>t. perm ! long_pos n pinv t) {..<rows * n}"
  proof (rule inj_onI)
    fix t u assume tu: "t \<in> {..<rows * n}" "u \<in> {..<rows * n}"
      "perm ! long_pos n pinv t = perm ! long_pos n pinv u"
    then have "long_pos n pinv t = long_pos n pinv u"
      using d long_pos_bound[of t rows n pinv] long_pos_bound[of u rows n pinv]
      by (simp add: nth_eq_iff_index_eq)
    then show "t = u" by (rule long_pos_inj) (use False in simp)
  qed
  then have "distinct (long_order n rows perm pinv)"
    by (simp add: long_order_def distinct_map atLeast0LessThan)
  moreover have "perm ! long_pos n pinv t < rows * n" if "t < rows * n" for t
    using b perm_upto_nth long_pos_bound[OF that] unfolding blockwise_def by blast
  ultimately have "perm_upto (rows * n) (long_order n rows perm pinv)"
    by (intro perm_uptoI) (auto simp: long_order_def)
  moreover have "perm ! long_pos n pinv t div n = t div n" if "t < rows * n" for t
    using b long_pos_bound[OF that] long_pos_div[of n pinv t] False unfolding blockwise_def by simp
  ultimately show ?thesis by (simp add: blockwise_def long_order_def)
qed

lemma long_succ_cycle:
  assumes b: "blockwise n rows perm" and inv: "\<forall>i<rows * n. pinv ! (perm ! i) = i"
    and N: "0 < rows * n" and inj: "inj_on f {..<rows * n}"
    and cells: "\<And>i. i < rows * n \<Longrightarrow> load64 m (f i) = Inr (f (long_succ n rows perm pinv i))"
  shows "chase_cycle m (f 0) (map f (long_order n rows perm pinv))"
proof -
  have n: "0 < n" "0 < rows" using N by auto
  let ?o = "long_order n rows perm pinv"
  have o: "?o ! t = perm ! long_pos n pinv t" if "t < rows * n" for t
    using that by (simp add: long_order_def)
  note P = perm_uptoD[OF long_order_blockwise[OF b, of pinv, unfolded blockwise_def, THEN conjunct1]]
  have lt: "perm ! long_pos n pinv t < rows * n" if "t < rows * n" for t
    using b perm_upto_nth long_pos_bound[OF that] unfolding blockwise_def by blast
  have o0: "?o ! 0 = 0" using o[OF N] long_pos_start(2)[OF b inv n(2,1)] by simp
  have "inj_on f (set ?o)" using inj P(3) by (simp add: atLeast0LessThan)
  then have "distinct (map f ?o)" using P(2) by (simp add: distinct_map)
  moreover have "hd (map f ?o) = f 0" using P(1) N o0 by (subst hd_conv_nth) auto
  moreover have "load64 m (f (?o ! t)) = Inr (f (?o ! (Suc t mod (rows * n))))" if "t < rows * n" for t
    using cells[OF lt[OF that]] long_succ_order[OF b inv that] o[OF that] o[of "Suc t mod (rows * n)"] N
    by simp
  ultimately show ?thesis
    using P(1) N unfolding chase_cycle_def by (auto simp: nth_map)
qed

subsection \<open>The whole operation\<close>

lemma wp_thread_long:
  assumes geo: "chase_geometry args" and r: "r + rows \<le> nr_mixer_indices args"
    and n: "n = nr_elements args" "rows * n < W64" and rows: "0 < rows"
    and m: "mapped m (arena args) (total_memory args)"
    and zero: "\<And>e. e < rows * n \<Longrightarrow> load64 m (long_cell args r e) = Inr 0"
    and b: "blockwise n rows perm"
    and inv: "length pinv = rows * n" "\<forall>i<rows * n. pinv ! (perm ! i) = i"
  shows "wp (\<lambda>_. False)
    (\<lambda>m'. (\<exists>ord. blockwise n rows ord \<and>
        chase_cycle m' (cell_addr args r 0) (map (long_cell args r) ord)) \<and>
      (\<forall>a. (\<forall>e<rows * n. apart (long_cell args r e) a) \<longrightarrow> load64 m' a = load64 m a) \<and>
      (\<forall>a. mapped m' a 8 = mapped m a 8))
    (for_range (rows * n) (thread_long_step args (r * nr_mixers args)
      (stride args div nr_mixer_indices args) rows n perm pinv) m)"
proof -
  let ?f = "long_cell args r" and ?s = "long_succ n rows perm pinv"
  have n0: "0 < n" using geometryD(2)[OF geo] n by simp
  have row: "r + e div n < nr_mixer_indices args" if "e < rows * n" for e
    using less_mult_imp_div_less[OF that] r by simp
  have el: "e mod n < nr_elements args" for e using n0 n by simp
  have disj: "apart (?f i) (?f k)" if "i < rows * n" "k < rows * n" "i \<noteq> k" for i k
  proof -
    have "i mod n \<noteq> k mod n \<or> r + i div n \<noteq> r + k div n"
      using that(3) by (metis add_left_cancel div_mult_mod_eq)
    then show ?thesis
      using cell_addr_apart[OF geo row[OF that(1)] row[OF that(2)]] by (simp add: long_cell_def n)
  qed
  then have inj: "inj_on ?f {..<rows * n}"
    unfolding inj_on_def using apart_neq by (metis lessThan_iff)
  have fill: "wp (\<lambda>_. False) (\<lambda>m'. (\<forall>i<rows * n. load64 m' (?f i) = Inr (?f (?s i))) \<and>
      (\<forall>a. (\<forall>i<rows * n. apart (?f i) a) \<longrightarrow> load64 m' a = load64 m a) \<and>
      (\<forall>a. mapped m' a 8 = mapped m a 8))
    (for_range (rows * n) (thread_long_step args (r * nr_mixers args)
      (stride args div nr_mixer_indices args) rows n perm pinv) m)"
  proof (rule bytes.fill_cells_by)
    show "thread_long_step args (r * nr_mixers args) (stride args div nr_mixer_indices args)
        rows n perm pinv i s = store64 s (?f i) (?f (?s i))"
      if "i < rows * n" "load64 s (?f i) = load64 m (?f i)" for i s
      using thread_long_step_eq[OF geo r n b inv that(1)] that(2) zero[OF that(1)] by simp
    show "mapped m (?f i) 8" if "i < rows * n" for i
      using cells_mapped[OF geo m row[OF that] el] by (simp add: long_cell_def n)
    show "?f (?s i) < W64" if "i < rows * n" for i
      using cell_addr_lt(2)[OF geo row[OF long_succ_lt[OF b inv(2) that n0]] el]
      by (simp add: long_cell_def n)
  qed (use disj in blast)
  have f0: "?f 0 = cell_addr args r 0" by (simp add: long_cell_def)
  have N: "0 < rows * n" using rows n0 by simp
  have "\<exists>ord. blockwise n rows ord \<and> chase_cycle m' (cell_addr args r 0) (map ?f ord)"
    if "\<forall>i<rows * n. load64 m' (?f i) = Inr (?f (?s i))" for m'
    using long_succ_cycle[OF b inv(2) N inj, of m'] that long_order_blockwise[OF b, of pinv]
    unfolding f0 by blast
  then show ?thesis
    by (intro wp_mono[OF fill]) auto
qed

context perm_generator
begin

lemma wp_long_perms:
  assumes len: "length perm = rows * (G * q)" and bnd: "rows * (G * q) < W64"
    and G: "G * 8 < W64" "malloc_serves h (G * 8)"
  shows "wp (\<lambda>e. e = Exit 1 \<and> \<not> ok s)
    (\<lambda>(perm', s'). (ok s \<longrightarrow> ok s') \<and> blockwise (G * q) rows perm')
    (long_perms h gen rows (G * q) G q perm s)"
  unfolding long_perms_def
proof (rule wp_for_rangeI[where I = "\<lambda>j (perm', s'). (ok s \<longrightarrow> ok s') \<and>
    (\<exists>blocks. group_layout 0 (G * q) [0..<j] blocks \<and>
      perm' = concat blocks @ drop (j * (G * q)) perm)"], goal_cases)
  case 1
  then show ?case by (auto intro: exI[of _ "[]"])
next
  case (2 j st)
  let ?n = "G * q"
  obtain p1 s1 blocks where st: "st = (p1, s1)" and ok1: "ok s \<longrightarrow> ok s1"
    and lay: "group_layout 0 ?n [0..<j] blocks" and p1: "p1 = concat blocks @ drop (j * ?n) perm"
    using 2(2) by (cases st) auto
  have cl: "length (concat blocks) = j * ?n" using group_layoutD(2)[OF lay] by simp
  have le: "Suc j * ?n \<le> rows * ?n" using 2(1) by (intro mult_le_mono1) simp
  then have fit: "j * ?n + ?n \<le> rows * ?n" by simp
  have lp1: "length p1 = length perm" using cl fit len by (simp add: p1)
  have jb: "mul64 j ?n = j * ?n" using fit bnd by (simp add: c_arith)
  obtain tb where tb: "malloc_words h (mul64 G 8) = Some tb" "length tb = G"
    using malloc_servesD[OF G(2), of "G * 8"] G(1) by (auto simp: malloc_words_def c_arith)
  have "wp (\<lambda>e. e = Exit 1 \<and> \<not> ok s) (\<lambda>(p2, s3). (ok s \<longrightarrow> ok s3) \<and>
      (\<exists>blocks. group_layout 0 ?n [0..<Suc j] blocks \<and>
        p2 = concat blocks @ drop (Suc j * ?n) perm))
      (fill_groups gen tlb G q (j * ?n) p1 s2)"
    if tlb: "perm_upto G tlb" and ok2: "ok s1 \<longrightarrow> ok s2" for tlb s2
  proof -
    note T = perm_uptoD[OF tlb]
    have "wp (\<lambda>e. e = Exit 1 \<and> \<not> ok s2) (\<lambda>(perm', s'). (ok s2 \<longrightarrow> ok s') \<and>
        (\<exists>segs. group_layout (j * ?n) q tlb segs \<and>
          perm' = take (j * ?n) p1 @ concat segs @ drop (j * ?n + length tlb * q) p1))
        (fill_groups gen tlb (length tlb) q (j * ?n) p1 s2)"
      using T fit len lp1 bnd by (intro wp_fill_groups) auto
    from this[unfolded T(1)] show ?thesis
    proof (rule wp_mono, goal_cases)
      case (2 v)
      then obtain p2 s3 segs where v: "v = (p2, s3)" "ok s2 \<longrightarrow> ok s3"
        "group_layout (j * ?n) q tlb segs"
        "p2 = take (j * ?n) p1 @ concat segs @ drop (j * ?n + G * q) p1"
        by (cases v) auto
      have "mset (concat segs) = mset [0 + j * ?n..<0 + j * ?n + ?n]"
        using group_layout_mset[OF v(3) tlb] by simp
      then have "group_layout 0 ?n [0..<Suc j] (blocks @ [concat segs])"
        using group_layout_snoc[OF lay, of "concat segs" j] by simp
      moreover have "p2 = concat (blocks @ [concat segs]) @ drop (Suc j * ?n) perm"
        using v(4) cl by (simp add: p1 add.commute)
      ultimately show ?case using v(1,2) ok1 ok2 by auto
    qed (use ok1 ok2 in auto)
  qed
  then show ?case
    unfolding st prod.case tb option.case wp_rbind jb
    using wp_gen_fill[OF tb(2), of s1] G ok1
    by (auto simp: perm_upto_def elim!: wp_mono)
next
  case (3 st)
  then obtain p1 s1 blocks where st: "st = (p1, s1)" "ok s \<longrightarrow> ok s1"
    and lay: "group_layout 0 (G * q) [0..<rows] blocks" and p1: "p1 = concat blocks"
    using len by (cases st) auto
  have "perm_upto (rows * (G * q)) p1"
    using group_layout_mset[OF lay, of rows] by (simp add: p1 perm_upto_def)
  moreover have "p1 ! a div (G * q) = a div (G * q)" if "a < rows * (G * q)" for a
    using group_layout_elem[OF lay, of a] that less_mult_imp_div_less[OF that]
    by (intro div_nat_eqI) (simp_all add: p1 mult.commute)
  ultimately show ?case using st by (simp add: blockwise_def)
qed

end

text \<open>The rows the mixer has for the iterations of index \<open>idx\<close> of \<open>total_par\<close>.\<close>

lemma long_rows_fit:
  assumes "idx < total_par"
  shows "idx * (nmi div total_par) + nmi div total_par \<le> (nmi :: nat)"
proof -
  have "Suc idx * (nmi div total_par) \<le> total_par * (nmi div total_par)"
    using assms by (intro mult_le_mono1) simp
  also have "\<dots> \<le> nmi" by simp
  finally show ?thesis by simp
qed

lemma long_size:
  assumes geo: "chase_geometry args" and r: "rows \<le> nr_mixer_indices args"
  shows "rows * nr_elements args * 8 \<le> total_memory args" "rows * nr_elements args < W64"
    "nr_mixer_indices args < W64"
proof -
  have le: "nr_mixer_indices args * 8 \<le> stride args"
    using mult_le_mono2[OF geometryD(8)[OF geo], of "nr_mixer_indices args"]
      times_div_less_eq_dividend[of "nr_mixer_indices args" "stride args"] by linarith
  have "rows * 8 \<le> stride args" using r le by linarith
  then have "nr_elements args * (rows * 8) \<le> nr_elements args * stride args"
    by (rule mult_le_mono2)
  then show *: "rows * nr_elements args * 8 \<le> total_memory args"
    by (simp add: geometryD(4)[OF geo] ac_simps)
  then show "rows * nr_elements args < W64" using geometry_counts(5)[OF geo] by linarith
  have "stride args \<le> nr_elements args * stride args" using geometryD(2)[OF geo] by simp
  then show "nr_mixer_indices args < W64"
    using geometry_counts(5)[OF geo] le unfolding geometryD(4)[OF geo] by linarith
qed

context perm_generator
begin

lemma wp_generate_chase_long:
  assumes gen: "gen_permutation args = gen"
    and geo: "chase_geometry args"
    and par: "idx < total_par" "total_par \<le> nr_mixer_indices args"
    and rows: "rows = nr_mixer_indices args div total_par" and r: "r = idx * rows"
    and m: "mapped m (arena args) (total_memory args)"
    and zero: "\<And>e. e < rows * nr_elements args \<Longrightarrow> load64 m (long_cell args r e) = Inr 0"
    and malloc: "malloc_serves h (total_memory args)"
  shows "wp (\<lambda>e. e = Exit 1 \<and> \<not> ok s)
    (\<lambda>(p, m', s'). p = cell_addr args r 0 \<and> (ok s \<longrightarrow> ok s') \<and>
      (\<exists>ord. blockwise (nr_elements args) rows ord \<and>
        chase_cycle m' p (map (long_cell args r) ord)) \<and>
      (\<forall>a. (\<forall>e<rows * nr_elements args. apart (long_cell args r e) a) \<longrightarrow> load64 m' a = load64 m a) \<and>
      (\<forall>a. mapped m' a 8 = mapped m a 8))
    (generate_chase_long h args idx total_par m s)"
proof -
  let ?G = "total_memory args div tlb_locality args"
  let ?q = "tlb_locality args div stride args"
  define n where "n = nr_elements args"
  define N where "N = rows * n"
  note C = geometry_counts[OF geo, folded n_def] and D = geometryD[OF geo, folded n_def]
  have fit: "r + rows \<le> nr_mixer_indices args"
    using long_rows_fit[OF par(1)] by (simp add: r rows)
  have rows_le: "rows \<le> nr_mixer_indices args" using fit by simp
  have rows0: "0 < rows" using par by (simp add: rows div_greater_zero_iff)
  note S = long_size[OF geo rows_le, folded n_def, folded N_def]
  have rlt: "r < nr_mixer_indices args" using fit rows0 by linarith
  have row: "mul64 (mul64 idx rows) (nr_mixers args) = r * nr_mixers args"
    using row_offset_lt[OF D(6) rlt] rlt S(3) by (simp add: c_arith r)
  have cnt: "mul64 rows n = N" "mul64 n rows = N" "mul64 N 8 = N * 8"
    using S C by (simp_all add: c_arith N_def mult.commute)
  obtain pb where pb: "malloc_words h (N * 8) = Some pb" "length pb = N"
    using malloc_servesD[OF malloc, of "N * 8"] S by (auto simp: malloc_words_def)
  have n64: "n < W64" using C by linarith
  have first: "wp (\<lambda>e. e = Exit 1 \<and> \<not> ok s)
      (\<lambda>(perm, s'). (ok s \<longrightarrow> ok s') \<and> blockwise n rows perm) (long_perms h gen rows n ?G ?q pb s)"
    using wp_long_perms[of pb rows ?G ?q h s] pb S C malloc_serves_def[of h] malloc
    by (simp add: N_def)
  have rest: "wp E (\<lambda>pinv. wp E (\<lambda>m'.
        (\<exists>ord. blockwise n rows ord \<and> chase_cycle m' (cell_addr args r 0) (map (long_cell args r) ord)) \<and>
        (\<forall>a. (\<forall>e<N. apart (long_cell args r e) a) \<longrightarrow> load64 m' a = load64 m a) \<and>
        (\<forall>a. mapped m' a 8 = mapped m a 8))
      (for_range N (thread_long_step args (r * nr_mixers args)
        (stride args div nr_mixer_indices args) rows n perm pinv) m)) (invert_perm N perm pb)"
    if b: "blockwise n rows perm" for perm E
  proof -
    have p: "perm_upto N perm" using b by (simp add: blockwise_def N_def)
    show ?thesis
      using wp_invert_perm[OF p pb(2)]
        wp_thread_long[OF geo fit n_def S(2)[unfolded N_def] rows0 m zero[folded n_def] b]
      by (fastforce simp: N_def elim!: wp_mono)
  qed
  obtain a where a: "mixed args (r * nr_mixers args) (stride args div nr_mixer_indices args) 0 = Inr a"
    "add64 (arena args) a = cell_addr args r 0"
    using mixed_cell[OF geo rlt, of 0] D(2)[unfolded n_def] by blast
  have divs: "div64 (nr_mixer_indices args) total_par = Inr rows"
    "div64 (total_memory args) (tlb_locality args) = Inr ?G"
    "div64 (tlb_locality args) (stride args) = Inr ?q"
    "div64 (total_memory args) (stride args) = Inr n"
    "div64 (stride args) (nr_mixer_indices args) = Inr (stride args div nr_mixer_indices args)"
    using C D par by (simp_all add: n_def nr_elements_def rows)
  show ?thesis
    unfolding generate_chase_long_def Let_def gen divs rbind.simps row cnt pb(1) option.case
      wp_rbind n_def[symmetric] N_def[symmetric]
  proof (rule wp_mono[OF first], goal_cases)
    case (2 v)
    then obtain perm s1 where v: "v = (perm, s1)" "blockwise n rows perm" "ok s \<longrightarrow> ok s1"
      by (cases v) auto
    show ?case
      using rest[OF v(2), of "\<lambda>e. e = Exit 1 \<and> \<not> ok s"] v
      by (auto simp: a elim!: wp_mono)
  qed
qed

end

end
