(* ===== verification/Checker.thy ===== *)
theory Checker
  imports Prelude
begin

text \<open>
  \<open>is_a_permutation\<close> of \<open>permutation.c\<close>: a bit vector of the elements seen so far, an early
  return at the first repetition, then a test that every bit below \<open>nr_elts\<close> is set. A byte of
  the vector outside its \<open>(nr_elts + 7) / 8\<close> bytes is out of bounds.
\<close>

unbundle bit_operations_syntax

primrec mark_elements :: "nat list \<Rightarrow> nat list \<Rightarrow> 8 word list \<Rightarrow> 8 word list option res" where
  "mark_elements perm [] vec = Inr (Some vec)"
| "mark_elements perm (i # idx) vec =
     rbind (arr_get perm i) (\<lambda>p.
     let vec_elt = p div 8; test_bit = push_bit (p mod 8) 1 in
     rbind (arr_get vec vec_elt) (\<lambda>b.
     if b AND test_bit \<noteq> 0 then Inr None
     else rbind (arr_set vec vec_elt (b OR test_bit)) (mark_elements perm idx)))"

definition all_marked :: "8 word list \<Rightarrow> nat \<Rightarrow> nat \<Rightarrow> bool" where
  "all_marked vec vec_len nr_elts \<longleftrightarrow>
     (\<forall>i\<in>set [0..<nr_elts div 8]. vec ! i = 0xff) \<and>
     (nr_elts mod 8 \<noteq> 0 \<longrightarrow> vec ! (vec_len - 1) = push_bit (nr_elts mod 8) 1 - 1)"

definition is_a_permutation :: "heap_env \<Rightarrow> nat list \<Rightarrow> nat \<Rightarrow> nat res" where
  "is_a_permutation h perm nr_elts =
     (let vec_len = add64 nr_elts 7 div 8 in
      if \<not> malloc_ok h vec_len \<and> 0 < vec_len then Inl OutOfBounds
      else rbind (mark_elements perm [0..<nr_elts] (replicate vec_len 0)) (\<lambda>r.
        case r of
          None \<Rightarrow> Inr 0
        | Some vec \<Rightarrow> Inr (if all_marked vec vec_len nr_elts then 1 else 0)))"

text \<open>The set a bit vector stands for.\<close>

definition marks :: "8 word list \<Rightarrow> nat set" where
  "marks vec = {p. p < 8 * length vec \<and> bit (vec ! (p div 8)) (p mod 8)}"

lemma marks_replicate [simp]: "marks (replicate n 0) = {}"
  by (auto simp: marks_def)


lemma marks_test:
  assumes "p < 8 * length vec"
  shows "vec ! (p div 8) AND push_bit (p mod 8) 1 \<noteq> 0 \<longleftrightarrow> p \<in> marks vec"
  using assms unfolding marks_def bit_iff_and_push_bit_not_eq_0 by blast

lemma marks_set:
  assumes "p < 8 * length vec"
  shows "marks (vec[p div 8 := vec ! (p div 8) OR push_bit (p mod 8) 1]) = insert p (marks vec)"
proof (rule set_eqI)
  fix q
  have p: "p div 8 < length vec" using assms by auto
  show "q \<in> marks (vec[p div 8 := vec ! (p div 8) OR push_bit (p mod 8) 1]) \<longleftrightarrow> q \<in> insert p (marks vec)"
  proof (cases "q div 8 = p div 8")
    case True
    have "q mod 8 = p mod 8 \<longleftrightarrow> q = p"
      using True by (metis div_mult_mod_eq)
    then show ?thesis
      using True p assms by (auto simp: marks_def bit_simps)
  next
    case False
    then show ?thesis by (auto simp: marks_def nth_list_update)
  qed
qed

lemma mark_elements_spec:
  assumes "\<And>i. i \<in> set idx \<Longrightarrow> i < length perm \<and> perm ! i < 8 * length vec"
  shows "\<exists>r. mark_elements perm idx vec = Inr r \<and>
    (case r of
       None \<Rightarrow> \<not> (distinct (map ((!) perm) idx) \<and> (\<forall>i\<in>set idx. perm ! i \<notin> marks vec))
     | Some vec' \<Rightarrow> distinct (map ((!) perm) idx) \<and> (\<forall>i\<in>set idx. perm ! i \<notin> marks vec) \<and>
         length vec' = length vec \<and> marks vec' = marks vec \<union> (!) perm ` set idx)"
  using assms
proof (induction idx arbitrary: vec)
  case Nil
  then show ?case by simp
next
  case (Cons i idx)
  let ?p = "perm ! i"
  have i: "i < length perm" "?p < 8 * length vec" and elt: "?p div 8 < length vec"
    using Cons.prems[of i] by auto
  show ?case
  proof (cases "?p \<in> marks vec")
    case True
    then show ?thesis
      using i elt marks_test[of ?p vec] by (simp add: Let_def)
  next
    case False
    define v where "v = vec[?p div 8 := vec ! (?p div 8) OR push_bit (?p mod 8) 1]"
    have len: "length v = length vec" and m: "marks v = insert ?p (marks vec)"
      using marks_set[OF i(2)] by (simp_all add: v_def)
    have step: "mark_elements perm (i # idx) vec = mark_elements perm idx v"
      using False i elt marks_test[of ?p vec] by (simp add: Let_def v_def)
    have "\<And>j. j \<in> set idx \<Longrightarrow> j < length perm \<and> perm ! j < 8 * length v"
      using Cons.prems by (simp add: len)
    then obtain r where r: "mark_elements perm idx v = Inr r" and
      spec: "case r of
         None \<Rightarrow> \<not> (distinct (map ((!) perm) idx) \<and> (\<forall>i\<in>set idx. perm ! i \<notin> marks v))
       | Some vec' \<Rightarrow> distinct (map ((!) perm) idx) \<and> (\<forall>i\<in>set idx. perm ! i \<notin> marks v) \<and>
           length vec' = length v \<and> marks vec' = marks v \<union> (!) perm ` set idx"
      using Cons.IH[of v] by blast
    show ?thesis
      by (rule exI[of _ r]) (use step r spec False in \<open>cases r; force simp: len m image_iff simp del: mark_elements.simps\<close>)
  qed
qed

text \<open>The final test, as a statement about the set of marks.\<close>

lemma byte_full_iff: "(b :: 8 word) = 0xff \<longleftrightarrow> (\<forall>k<8. bit b k)"
proof -
  have "(0xff :: 8 word) = mask 8" by (simp add: mask_eq_exp_minus_1)
  moreover have "b = mask 8 \<longleftrightarrow> (\<forall>k<8. bit b k)"
    by (auto simp: bit_eq_iff bit_mask_iff)
  ultimately show ?thesis by (simp only:)
qed

lemma byte_low_iff:
  assumes "r < 8"
  shows "(b :: 8 word) = push_bit r 1 - 1 \<longleftrightarrow> (\<forall>k<8. bit b k \<longleftrightarrow> k < r)"
proof -
  have "(push_bit r 1 - 1 :: 8 word) = mask r"
    by (simp add: mask_eq_exp_minus_1 push_bit_eq_mult)
  then show ?thesis using assms by (auto simp: bit_eq_iff bit_mask_iff)
qed

lemma marks_eq_iff:
  assumes "nr \<le> 8 * length vec"
  shows "marks vec = {0..<nr} \<longleftrightarrow>
    (\<forall>j<length vec. \<forall>k<8. bit (vec ! j) k \<longleftrightarrow> 8 * j + k < nr)"
proof
  assume m: "marks vec = {0..<nr}"
  show "\<forall>j<length vec. \<forall>k<8. bit (vec ! j) k \<longleftrightarrow> 8 * j + k < nr"
  proof (intro allI impI)
    fix j k :: nat assume "j < length vec" "k < 8"
    then have "8 * j + k \<in> marks vec \<longleftrightarrow> bit (vec ! j) k"
      by (simp add: marks_def)
    then show "bit (vec ! j) k \<longleftrightarrow> 8 * j + k < nr" by (simp add: m)
  qed
next
  assume b: "\<forall>j<length vec. \<forall>k<8. bit (vec ! j) k \<longleftrightarrow> 8 * j + k < nr"
  have "p \<in> marks vec \<longleftrightarrow> p < nr" for p
  proof (cases "p < 8 * length vec")
    case True
    then have "p div 8 < length vec" "p mod 8 < 8" by auto
    then have "bit (vec ! (p div 8)) (p mod 8) \<longleftrightarrow> 8 * (p div 8) + p mod 8 < nr"
      using b by blast
    then show ?thesis using True by (simp add: marks_def)
  next
    case False
    then show ?thesis using assms by (simp add: marks_def)
  qed
  then show "marks vec = {0..<nr}" by (simp add: set_eq_iff)
qed

lemma ceil_div8:
  fixes n q r :: nat
  assumes "n = 8 * q + r" and "r < 8"
  shows "(n + 7) div 8 = (if r = 0 then q else Suc q)"
  using assms by (auto intro!: div_nat_eqI)

lemma all_marked_iff:
  assumes "length vec = (nr + 7) div 8"
  shows "all_marked vec (length vec) nr \<longleftrightarrow> marks vec = {0..<nr}"
proof -
  let ?q = "nr div 8" and ?r = "nr mod 8"
  have r: "?r < 8" and nr: "8 * ?q + ?r = nr" by auto
  have full: "(\<forall>k<8. bit (vec ! j) k \<longleftrightarrow> 8 * j + k < nr) \<longleftrightarrow> vec ! j = 0xff" if "j < ?q" for j
  proof -
    have "8 * j + k < nr" if "k < 8" for k using that \<open>j < ?q\<close> nr by linarith
    then show ?thesis by (auto simp: byte_full_iff)
  qed
  have part: "(\<forall>k<8. bit (vec ! ?q) k \<longleftrightarrow> 8 * ?q + k < nr) \<longleftrightarrow> vec ! ?q = push_bit ?r 1 - 1"
  proof -
    have "8 * ?q + k < nr \<longleftrightarrow> k < ?r" for k using nr by linarith
    then show ?thesis by (simp only: byte_low_iff[OF r])
  qed
  have le: "nr \<le> 8 * length vec" unfolding assms by linarith
  show ?thesis
  proof (cases "?r = 0")
    case True
    then have "length vec = ?q"
      by (simp add: assms ceil_div8[OF nr[symmetric] r])
    then show ?thesis
      using True full by (auto simp: all_marked_def marks_eq_iff[OF le])
  next
    case False
    then have "length vec = Suc ?q"
      by (simp add: assms ceil_div8[OF nr[symmetric] r])
    then show ?thesis
      using False full part by (auto simp: all_marked_def marks_eq_iff[OF le] less_Suc_eq)
  qed
qed

subsection \<open>Properties\<close>

text \<open>Is_a_permutation returns 1 exactly when the array is a permutation of 0 .. nr_elts
  - 1 and 0 otherwise, for elements below nr_elts.\<close>
theorem is_a_permutation_correct:
  assumes "length perm = nr" and "nr + 7 < 2 ^ 64" and "set perm \<subseteq> {0..<nr}"
    and "malloc_ok h ((nr + 7) div 8)"
  shows "is_a_permutation h perm nr = Inr (if mset perm = mset [0..<nr] then 1 else 0)"
proof -
  let ?len = "(nr + 7) div 8"
  let ?vec = "replicate ?len (0 :: 8 word)"
  have len: "add64 nr 7 div 8 = ?len" using assms(2) by (simp add: c_arith W64_def)
  have le: "nr \<le> 8 * ?len" by linarith
  have "perm ! i < 8 * length ?vec" if "i < nr" for i
    using assms(1,3) that le nth_mem[of i perm] by fastforce
  then obtain r where r: "mark_elements perm [0..<nr] ?vec = Inr r"
    and spec: "case r of
       None \<Rightarrow> \<not> (distinct (map ((!) perm) [0..<nr]) \<and> (\<forall>i\<in>set [0..<nr]. perm ! i \<notin> marks ?vec))
     | Some vec' \<Rightarrow> distinct (map ((!) perm) [0..<nr]) \<and> (\<forall>i\<in>set [0..<nr]. perm ! i \<notin> marks ?vec) \<and>
         length vec' = length ?vec \<and> marks vec' = marks ?vec \<union> (!) perm ` set [0..<nr]"
    using mark_elements_spec[of "[0..<nr]" perm ?vec] assms(1) by auto
  have map: "map ((!) perm) [0..<nr] = perm" using assms(1) by (auto intro: map_nth)
  have perm_iff: "mset perm = mset [0..<nr] \<longleftrightarrow> distinct perm \<and> set perm = {0..<nr}"
    using set_eq_iff_mset_eq_distinct[of perm "[0..<nr]"]
    by (metis distinct_upt mset_eq_imp_distinct_iff set_upt)
  show ?thesis
  proof (cases r)
    case None
    then have "\<not> distinct perm" using spec by (simp add: map del: set_upt)
    then show ?thesis
      using r None assms(4) perm_iff by (simp add: is_a_permutation_def Let_def len)
  next
    case (Some vec)
    then have d: "distinct perm" and lv: "length vec = ?len" and mk: "marks vec = (!) perm ` set [0..<nr]"
      using spec by (simp_all add: map)
    have "marks vec = set perm" using mk map by (metis set_map)
    then have "all_marked vec ?len nr \<longleftrightarrow> mset perm = mset [0..<nr]"
      using all_marked_iff[OF lv] d perm_iff lv by simp
    then show ?thesis
      using r Some assms(4) by (simp add: is_a_permutation_def Let_def len)
  qed
qed

theorem is_a_permutation_correct_witness:
  "is_a_permutation \<lparr>malloc_ok = (\<lambda>_. True), junk = id\<rparr> [2, 0, 1] 3 = Inr 1 \<and>
   is_a_permutation \<lparr>malloc_ok = (\<lambda>_. True), junk = id\<rparr> [2, 0, 2] 3 = Inr 0"
proof -
  have "mset [2, 0, 1] = mset [0..<3]" by (simp add: upt_rec)
  moreover have "mset [2, 0, 2] \<noteq> mset [0..<3]"
    using mset_eq_imp_distinct_iff[of "[2, 0, 2]" "[0..<3]"] by auto
  moreover have "set [2, 0, 1] \<subseteq> {0..<3::nat}" "set [2, 0, 2] \<subseteq> {0..<3::nat}" by auto
  ultimately show ?thesis
    using is_a_permutation_correct[of "[2, 0, 1]" 3 "\<lparr>malloc_ok = (\<lambda>_. True), junk = id\<rparr>"]
      is_a_permutation_correct[of "[2, 0, 2]" 3 "\<lparr>malloc_ok = (\<lambda>_. True), junk = id\<rparr>"]
    by (simp del: mset.simps)
qed

text \<open>Is_a_permutation does not reject an element past its bit vector: it reads the
  vector out of bounds.\<close>
theorem is_a_permutation_overrun:
  assumes "length perm = nr" and "0 < nr" and "nr + 7 < 2 ^ 64"
    and "8 * ((nr + 7) div 8) \<le> perm ! 0" and "malloc_ok h ((nr + 7) div 8)"
  shows "is_a_permutation h perm nr = Inl OutOfBounds"
proof -
  have len: "add64 nr 7 div 8 = (nr + 7) div 8" using assms(3) by (simp add: c_arith W64_def)
  have "(nr + 7) div 8 \<le> perm ! 0 div 8"
    using div_le_mono[OF assms(4), of 8] by simp
  then have "mark_elements perm [0..<nr] (replicate ((nr + 7) div 8) 0) = Inl OutOfBounds"
    using assms(1,2) by (simp add: upt_conv_Cons arr_get_fault del: upt_Suc)
  then show ?thesis using assms(5) by (simp add: is_a_permutation_def Let_def len)
qed

theorem is_a_permutation_overrun_witness:
  "is_a_permutation \<lparr>malloc_ok = (\<lambda>_. True), junk = id\<rparr> [8, 0, 1] 3 = Inl OutOfBounds"
  using is_a_permutation_overrun[of "[8, 0, 1]" 3 "\<lparr>malloc_ok = (\<lambda>_. True), junk = id\<rparr>"]
  by simp

end
