(* ===== verification/Chase_Props.thy ===== *)
theory Chase_Props
  imports Chase_Long Checker
begin

text \<open>
  What a caller of \<open>permutation.c\<close> may rely on, stated of the code's own functions, and a
  concrete arena (\<open>small_chase\<close>: four elements of 16 bytes in two TLB groups, two mixer
  indices) on which every property is applied.
\<close>

subsection \<open>A concrete arena\<close>

definition counting_rng :: "nat random_r" where
  "counting_rng s = Some (of_nat s, Suc s)"

definition any_malloc :: heap_env where
  "any_malloc = \<lparr>malloc_ok = (\<lambda>_. True), junk = (\<lambda>_. 7)\<rparr>"

definition zeroed :: mem where
  "zeroed a = Some 0"

definition small_chase :: "'r gen_fn \<Rightarrow> 'r chase_args" where
  "small_chase gen = \<lparr>arena = 4096, total_memory = 64, stride = 16, tlb_locality = 32,
     nr_mixers = 2, gen_permutation = gen, nr_mixer_indices = 2, mixer = [0, 1, 1, 0]\<rparr>"

lemma counting_rng_ok [simp]: "rng_ok counting_rng s"
  by (rule rng_ok_total) (simp add: counting_rng_def)

lemma any_malloc_serves [simp]: "malloc_serves any_malloc b"
  by (simp add: malloc_serves_def any_malloc_def)

lemma zeroed_mapped [simp]: "mapped zeroed a n"
  by (simp add: mapped_def zeroed_def)

lemma zeroed_load [simp]: "load64 zeroed a = Inr 0"
proof -
  have "of_bytes (map (\<lambda>i. 0) xs) = 0" for xs :: "nat list"
    by (induction xs) auto
  then show ?thesis by (simp add: load64_def read_bytes_eq) (simp add: zeroed_def)
qed

lemma small_chase_geometry [simp]: "chase_geometry (small_chase gen)"
  by (auto simp: chase_geometry_def small_chase_def mixer_ok_def mixer_column_def W64_def
      less_2_cases_iff upt_rec intro!: exI[of _ 1])

lemma small_chase_sel [simp]:
  "gen_permutation (small_chase gen) = gen" "nr_mixer_indices (small_chase gen) = 2"
  "arena (small_chase gen) = 4096" "total_memory (small_chase gen) = 64"
  "nr_elements (small_chase gen) = 4"
  by (simp_all add: small_chase_def nr_elements_def)

subsection \<open>generate_chase\<close>

text \<open>C1: generate_chase with the random generator returns (no fault, no exit) and leaves in
  memory one cycle of pointers that starts at the returned pointer and goes through the cell of
  mixer row j in every element of the arena exactly once, keeping the elements of one TLB group
  together; nothing outside those cells is changed.\<close>
theorem generate_chase_single_cycle:
  assumes "gen_permutation args = gen_random_permutation random_r" and "rng_ok random_r s"
    and "chase_geometry args" and "j < nr_mixer_indices args"
    and "mapped m (arena args) (total_memory args)"
    and "malloc_serves h (total_memory args)"
  shows "\<exists>p m' s' perm k. generate_chase h args j m s = Inr (p, m', s') \<and>
    p = cell_addr args j 0 \<and> perm_upto (nr_elements args) perm \<and>
    tlb_grouped (tlb_locality args div stride args) perm \<and>
    chase_cycle m' p (map (cell_addr args j) (rotate k perm)) \<and>
    only_row args j m m' \<and> rng_ok random_r s'"
  using random.wp_generate_chase[OF assms(1,3-6), of s] assms(2)
  by (simp add: wp_total) (auto simp: chase_follows_def)

theorem generate_chase_single_cycle_witness:
  "\<exists>p m' s' perm k. generate_chase any_malloc (small_chase (gen_random_permutation counting_rng))
      1 zeroed 5 = Inr (p, m', s') \<and>
    p = cell_addr (small_chase (gen_random_permutation counting_rng)) 1 0 \<and> perm_upto 4 perm \<and>
    chase_cycle m' p (map (cell_addr (small_chase (gen_random_permutation counting_rng)) 1) (rotate k perm))"
  using generate_chase_single_cycle[of "small_chase (gen_random_permutation counting_rng)"
      counting_rng 5 1 zeroed any_malloc]
  by simp blast

text \<open>C19: Dereferencing from the pointer generate_chase returns never leaves the arena,
  meets every element exactly once in the first nr_elts steps, and is back at the start exactly
  after the multiples of nr_elts.\<close>
theorem generate_chase_walk:
  assumes "gen_permutation args = gen_random_permutation random_r" and "rng_ok random_r s"
    and "chase_geometry args" and "j < nr_mixer_indices args"
    and "mapped m (arena args) (total_memory args)"
    and "malloc_serves h (total_memory args)"
  shows "\<exists>p m' s'. generate_chase h args j m s = Inr (p, m', s') \<and>
    (\<forall>x<nr_elements args. \<exists>!k. k < nr_elements args \<and> deref_n m' p k = Inr (cell_addr args j x)) \<and>
    (\<forall>k. deref_n m' p k = Inr p \<longleftrightarrow> nr_elements args dvd k) \<and>
    (\<forall>k. \<exists>a. deref_n m' p k = Inr a \<and> arena args \<le> a \<and> a + 8 \<le> arena args + total_memory args)"
proof -
  let ?n = "nr_elements args" and ?f = "cell_addr args j"
  obtain p m' s' perm k0 where run: "generate_chase h args j m s = Inr (p, m', s')"
    and perm: "perm_upto ?n perm" and cyc: "chase_cycle m' p (map ?f (rotate k0 perm))"
    using random.wp_generate_chase[OF assms(1,3-6), of s] assms(2)
    by (simp add: wp_total) (auto simp: chase_follows_def)
  let ?ord = "rotate k0 perm"
  have ord: "perm_upto ?n ?ord"
    using perm_uptoD[OF perm] by (intro perm_uptoI) auto
  note O = perm_uptoD[OF ord] and n = geometryD(2)[OF assms(3)]
  have at: "deref_n m' p k = Inr (?f (?ord ! (k mod ?n)))" for k
    using chase_cycle_deref[OF cyc, of k] O(1) n by simp
  have lt: "?ord ! (k mod ?n) < ?n" for k
    by (rule perm_upto_nth[OF ord]) (use n in simp)
  have same: "deref_n m' p k = Inr (?f x) \<longleftrightarrow> ?ord ! k = x" if "k < ?n" for k x
    using at[of k] that cell_addr_inj[OF assms(3,4,4), of "?ord ! k" x] by auto
  have "\<exists>!k. k < ?n \<and> deref_n m' p k = Inr (?f x)" if x: "x < ?n" for x
    using perm_upto_ex[OF ord x] same[of _ x] nth_eq_iff_index_eq[OF O(2)] O(1) by metis
  moreover have "deref_n m' p k = Inr p \<longleftrightarrow> ?n dvd k" for k
    using chase_cycle_returns[OF cyc, of k] O(1) by simp
  moreover have "\<exists>a. deref_n m' p k = Inr a \<and> arena args \<le> a \<and> a + 8 \<le> arena args + total_memory args" for k
    using at[of k] cell_addr_lt(1)[OF assms(3,4) lt[of k]]
      cell_addr_bounds(1)[OF assms(3,4), of "?ord ! (k mod ?n)"] by (simp add: le_trans[OF le_add1])
  ultimately show ?thesis using run by blast
qed

theorem generate_chase_walk_witness:
  "\<exists>p m' s'. generate_chase any_malloc (small_chase (gen_random_permutation counting_rng))
      0 zeroed 3 = Inr (p, m', s') \<and> deref_n m' p 4 = Inr p \<and> deref_n m' p 3 \<noteq> Inr p"
  using generate_chase_walk[of "small_chase (gen_random_permutation counting_rng)"
      counting_rng 3 0 zeroed any_malloc]
  by simp force

subsection \<open>The ordered traversal\<close>

lemma fill_groups_ordered:
  assumes "length perm = G * q" and "G * q < W64"
  shows "fill_groups gen_ordered_permutation [0..<G] G q 0 perm s = Inr ([0..<G * q], s)"
proof -
  have "wp (\<lambda>_. False) (\<lambda>(p, s'). p = [0..<G * q] @ drop (G * q) perm \<and> s' = s)
    (fill_groups gen_ordered_permutation [0..<G] G q 0 perm s)"
    unfolding fill_groups_def
  proof (rule wp_for_rangeI[where I = "\<lambda>i (p, s'). p = [0..<i * q] @ drop (i * q) perm \<and> s' = s"],
      goal_cases)
    case (2 i st)
    have le: "Suc i * q \<le> G * q" using 2(1) by (intro mult_le_mono1) simp
    then have fit: "i * q + q \<le> G * q" by simp
    then have ix: "add64 0 (mul64 i q) = i * q" using assms by (simp add: c_arith)
    have "[0..<i * q + q] = [0..<i * q] @ [i * q..<i * q + q]"
      by (rule upt_add_eq_append) simp
    then show ?case
      using 2 fit assms
      by (auto simp: ix gen_ordered_eq[where off = "i * q" and base = "i * q"] add.commute
          simp del: upt_Suc)
  qed auto
  then show ?thesis using assms by (auto simp: wp_total)
qed

text \<open>With the ordered generator generate_chase builds the sequential chase: after k
  dereferences the walk is at element k mod nr_elts.\<close>
theorem generate_chase_ordered:
  assumes "gen_permutation args = gen_ordered_permutation"
    and geo: "chase_geometry args" and j: "j < nr_mixer_indices args"
    and m: "mapped m (arena args) (total_memory args)"
    and malloc: "malloc_serves h (total_memory args)"
  shows "\<exists>m'. generate_chase h args j m s = Inr (cell_addr args j 0, m', s) \<and>
    (\<forall>k. deref_n m' (cell_addr args j 0) k = Inr (cell_addr args j (k mod nr_elements args)))"
proof -
  let ?n = "nr_elements args" and ?f = "cell_addr args j"
  let ?G = "total_memory args div tlb_locality args"
  let ?q = "tlb_locality args div stride args"
  note B = chase_blocks[OF geo malloc] and C = geometry_counts[OF geo]
  have lt: "?G < W64" "?n < W64" using C by linarith+
  have "fill_groups gen_ordered_permutation [0..<?G] ?G ?q 0 (malloc_unchecked h (mul64 ?n 8)) s1 =
      Inr ([0..<?n], s1)" for s1 :: 'a
    using fill_groups_ordered[of _ ?G ?q s1] B(2) lt(2) unfolding C(1) by simp
  moreover have "gen_ordered_permutation (malloc_unchecked h (mul64 ?G 8)) 0 ?G 0 s = Inr ([0..<?G], s)"
    using B(1) lt(1) by (simp add: gen_ordered_eq)
  ultimately have "wp (\<lambda>_. False) (\<lambda>(tlb, s1). wp (\<lambda>_. False)
        (\<lambda>(perm, s2). perm_upto ?n perm \<and> (perm = [0..<?n] \<and> s2 = s))
        (fill_groups (gen_permutation args) tlb ?G ?q 0 (malloc_unchecked h (mul64 ?n 8)) s1))
      (gen_permutation args (malloc_unchecked h (mul64 ?G 8)) 0 ?G 0 s)"
    by (simp add: assms(1) perm_upto_def)
  from wp_generate_chase_of[OF geo j m refl refl refl refl refl B(2) this]
  obtain m' k0 where run: "generate_chase h args j m s = Inr (?f 0, m', s)"
    and cyc: "chase_cycle m' (?f 0) (map ?f (rotate k0 [0..<?n]))"
    by (auto simp: wp_total chase_follows_def)
  have n: "0 < ?n" by (rule geometryD(2)[OF geo])
  have at: "deref_n m' (?f 0) k = Inr (?f ((k0 + k mod ?n) mod ?n))" for k
    using chase_cycle_deref[OF cyc, of k] n by (simp add: nth_rotate)
  have "?f 0 = ?f (k0 mod ?n)" using at[of 0] by simp
  then have k0: "k0 mod ?n = 0" using cell_addr_inj[OF geo j j, of 0 "k0 mod ?n"] by simp
  have "(k0 + k mod ?n) mod ?n = k mod ?n" for k
    using mod_add_left_eq[of k0 ?n "k mod ?n"] k0 by simp
  then show ?thesis using run at by simp
qed

theorem generate_chase_ordered_witness:
  "\<exists>m'. generate_chase any_malloc (small_chase gen_ordered_permutation) 1 zeroed () =
      Inr (cell_addr (small_chase gen_ordered_permutation :: unit chase_args) 1 0, m', ()) \<and>
    deref_n m' (cell_addr (small_chase gen_ordered_permutation :: unit chase_args) 1 0) 7 =
      Inr (cell_addr (small_chase gen_ordered_permutation :: unit chase_args) 1 3)"
proof -
  let ?A = "small_chase gen_ordered_permutation :: unit chase_args"
  obtain m' where run: "generate_chase any_malloc ?A 1 zeroed () = Inr (cell_addr ?A 1 0, m', ())"
    and walk: "\<forall>k. deref_n m' (cell_addr ?A 1 0) k = Inr (cell_addr ?A 1 (k mod nr_elements ?A))"
    using generate_chase_ordered[of ?A 1 zeroed any_malloc "()"] by auto
  show ?thesis using run walk[rule_format, of 7] by auto
qed

subsection \<open>generate_chase_long\<close>

text \<open>C2: generate_chase_long with the random generator returns and leaves one cycle through
  all the cells of its nr_mixer_indices / total_par mixer rows; the cycle completes a
  permutation of all elements in one row before it enters the next row, and memory outside those
  cells is unchanged.\<close>
theorem generate_chase_long_cycle:
  assumes "gen_permutation args = gen_random_permutation random_r" and "rng_ok random_r s"
    and "chase_geometry args"
    and "idx < total_par" and "total_par \<le> nr_mixer_indices args"
    and "rows = nr_mixer_indices args div total_par"
    and "mapped m (arena args) (total_memory args)"
    and "\<And>e. e < rows * nr_elements args \<Longrightarrow> load64 m (long_cell args (idx * rows) e) = Inr 0"
    and "malloc_serves h (total_memory args)"
  shows "\<exists>p m' s' ord. generate_chase_long h args idx total_par m s = Inr (p, m', s') \<and>
    p = cell_addr args (idx * rows) 0 \<and>
    blockwise (nr_elements args) rows ord \<and>
    chase_cycle m' p (map (long_cell args (idx * rows)) ord) \<and>
    (\<forall>a. (\<forall>e<rows * nr_elements args. apart (long_cell args (idx * rows) e) a) \<longrightarrow>
      load64 m' a = load64 m a) \<and> rng_ok random_r s'"
  using random.wp_generate_chase_long[OF assms(1,3-6) refl assms(7,8,9), of s] assms(2)
  by (simp add: wp_total) blast

theorem generate_chase_long_cycle_witness:
  "\<exists>p m' s' ord. generate_chase_long any_malloc (small_chase (gen_random_permutation counting_rng))
      0 1 zeroed 9 = Inr (p, m', s') \<and>
    blockwise 4 2 ord \<and>
    chase_cycle m' p (map (long_cell (small_chase (gen_random_permutation counting_rng)) 0) ord)"
proof -
  let ?A = "small_chase (gen_random_permutation counting_rng)"
  have "\<exists>p m' s' ord. generate_chase_long any_malloc ?A 0 1 zeroed 9 = Inr (p, m', s') \<and>
      p = cell_addr ?A (0 * 2) 0 \<and> blockwise (nr_elements ?A) 2 ord \<and>
      chase_cycle m' p (map (long_cell ?A (0 * 2)) ord) \<and>
      (\<forall>a. (\<forall>e<2 * nr_elements ?A. apart (long_cell ?A (0 * 2) e) a) \<longrightarrow>
        load64 m' a = load64 zeroed a) \<and> rng_ok counting_rng s'"
    by (rule generate_chase_long_cycle) simp_all
  then show ?thesis by (rule ex_mono4) simp
qed

text \<open>Dereferencing from the pointer generate_chase_long returns is, after k steps, in
  the mixer row number k / nr_elts (mod the number of rows) of the chase, and is back at the
  start exactly after the multiples of the total number of cells.\<close>
theorem generate_chase_long_walk:
  assumes "gen_permutation args = gen_random_permutation random_r" and "rng_ok random_r s"
    and geo: "chase_geometry args"
    and par: "idx < total_par" "total_par \<le> nr_mixer_indices args"
    and rows: "rows = nr_mixer_indices args div total_par"
    and m: "mapped m (arena args) (total_memory args)"
    and zero: "\<And>e. e < rows * nr_elements args \<Longrightarrow> load64 m (long_cell args (idx * rows) e) = Inr 0"
    and malloc: "malloc_serves h (total_memory args)"
  shows "\<exists>p m' s'. generate_chase_long h args idx total_par m s = Inr (p, m', s') \<and>
    (\<forall>k. \<exists>x<nr_elements args. deref_n m' p k =
       Inr (cell_addr args (idx * rows + k div nr_elements args mod rows) x)) \<and>
    (\<forall>k. deref_n m' p k = Inr p \<longleftrightarrow> rows * nr_elements args dvd k)"
proof -
  let ?n = "nr_elements args" and ?f = "long_cell args (idx * rows)"
  obtain p m' s' ord where run: "generate_chase_long h args idx total_par m s = Inr (p, m', s')"
    and b: "blockwise ?n rows ord" and cyc: "chase_cycle m' p (map ?f ord)"
    using random.wp_generate_chase_long[OF assms(1) geo par rows refl m zero malloc, of s] assms(2)
    by (simp add: wp_total) blast
  have n: "0 < ?n" by (rule geometryD(2)[OF geo])
  have "0 < rows" using par by (simp add: rows div_greater_zero_iff)
  then have N: "0 < rows * ?n" using n by simp
  have ord: "perm_upto (rows * ?n) ord" "\<forall>a<rows * ?n. ord ! a div ?n = a div ?n"
    using b by (simp_all add: blockwise_def)
  have at: "deref_n m' p k = Inr (?f (ord ! (k mod (rows * ?n))))" for k
    using chase_cycle_deref[OF cyc, of k] perm_uptoD(1)[OF ord(1)] N by simp
  have "?f (ord ! (k mod (rows * ?n))) =
      cell_addr args (idx * rows + k div ?n mod rows) (ord ! (k mod (rows * ?n)) mod ?n)" for k
  proof -
    have "k mod (rows * ?n) < rows * ?n" using N by simp
    then have "ord ! (k mod (rows * ?n)) div ?n = k mod (rows * ?n) div ?n" using ord(2) by blast
    also have "\<dots> = k div ?n mod rows"
      using n by (simp add: mult.commute[of rows] mod_mult2_eq)
    finally show ?thesis by (simp add: long_cell_def)
  qed
  then have "\<exists>x<?n. deref_n m' p k = Inr (cell_addr args (idx * rows + k div ?n mod rows) x)" for k
    using at[of k] n by (metis mod_less_divisor)
  moreover have "deref_n m' p k = Inr p \<longleftrightarrow> rows * ?n dvd k" for k
    using chase_cycle_returns[OF cyc, of k] perm_uptoD(1)[OF ord(1)] by simp
  ultimately show ?thesis using run by blast
qed

theorem generate_chase_long_walk_witness:
  "\<exists>p m' s'. generate_chase_long any_malloc (small_chase (gen_random_permutation counting_rng))
      0 1 zeroed 2 = Inr (p, m', s') \<and> deref_n m' p 8 = Inr p \<and> deref_n m' p 4 \<noteq> Inr p"
proof -
  let ?A = "small_chase (gen_random_permutation counting_rng)"
  have "\<exists>p m' s'. generate_chase_long any_malloc ?A 0 1 zeroed 2 = Inr (p, m', s') \<and>
      (\<forall>k. \<exists>x<nr_elements ?A. deref_n m' p k =
         Inr (cell_addr ?A (0 * 2 + k div nr_elements ?A mod 2) x)) \<and>
      (\<forall>k. deref_n m' p k = Inr p \<longleftrightarrow> 2 * nr_elements ?A dvd k)"
    by (rule generate_chase_long_walk[where random_r = counting_rng]) simp_all
  then show ?thesis by (rule ex_mono3) simp
qed

subsection \<open>The mixer\<close>

text \<open>C7: generate_chase_mixer, for at least two mixers, sets nr_mixers to a power of two
  that is at least max(n, 64) and less than twice n (64 when n is smaller), and fills a table in
  which every column is a permutation of the mixer indices; no other argument changes.\<close>
theorem generate_chase_mixer_table:
  assumes "gen_permutation args = gen_random_permutation random_r" and "rng_ok random_r s"
    and k: "2 \<le> k" "k \<le> 2 ^ 30" "nr_mixer_indices args < 2 ^ 30"
    and malloc: "\<And>b. b < W64 \<Longrightarrow> malloc_ok h b"
  shows "\<exists>args' s'. generate_chase_mixer h clz0 args k s = Inr (args', s') \<and>
    mixer_ok args' \<and> max k 64 \<le> nr_mixers args' \<and> nr_mixers args' < max (2 * k) 65 \<and>
    args' = args\<lparr>nr_mixers := nr_mixers args', mixer := mixer args'\<rparr> \<and> rng_ok random_r s'"
proof -
  obtain e where e: "mixer_columns clz0 k = Inr (2 ^ e)" "max k 64 \<le> 2 ^ e" "e \<le> 30"
    and least: "\<And>j. max k 64 \<le> 2 ^ j \<Longrightarrow> e \<le> j"
    using mixer_columns_ge2[OF k(1,2)] by blast
  have "(2::nat) ^ e \<le> 2 ^ 30" using e(3) by (intro power_increasing) simp_all
  then have "nr_mixer_indices args * 2 ^ e \<le> 2 ^ 30 * 2 ^ 30"
    using k(3) by (intro mult_le_mono) simp_all
  then have size: "nr_mixer_indices args * 2 ^ e * 8 < W64" by (simp add: W64_def)
  have serves: "malloc_serves h (nr_mixer_indices args * 2 ^ e * 8)"
    using malloc size by (simp add: malloc_serves_def)
  have small: "(2::nat) ^ e < max (2 * k) 65"
  proof (rule ccontr)
    assume "\<not> ?thesis"
    then have big: "2 * k \<le> 2 ^ e" "65 \<le> (2::nat) ^ e" by simp_all
    then obtain e' where e': "e = Suc e'" by (cases e) simp_all
    have "(2::nat) ^ 6 < 2 ^ e" using big(2) by simp
    then have "6 < e" by (rule power_less_imp_less_exp[rotated]) simp
    then have "(2::nat) ^ 6 \<le> 2 ^ e'" using e' by (intro power_increasing) simp_all
    then have "max k 64 \<le> 2 ^ e'" using big(1) e' by simp
    from least[OF this] show False using e' by simp
  qed
  have wp: "wp (\<lambda>e. e = Exit 1 \<and> \<not> rng_ok random_r s)
      (\<lambda>(args', s'). mixer_ok args' \<and> (rng_ok random_r s \<longrightarrow> rng_ok random_r s') \<and>
        args' = args\<lparr>nr_mixers := 2 ^ e, mixer := mixer args'\<rparr>)
      (generate_chase_mixer h clz0 args k s)"
    by (rule random.wp_mixer[OF assms(1) e(1) refl size serves])
  then obtain args' s' where r: "generate_chase_mixer h clz0 args k s = Inr (args', s')"
      "mixer_ok args'" "rng_ok random_r s'"
      and upd: "args' = args\<lparr>nr_mixers := 2 ^ e, mixer := mixer args'\<rparr>"
    using assms(2) by (cases "generate_chase_mixer h clz0 args k s") auto
  have "nr_mixers args' = 2 ^ e" using upd by (metis chase_args.select_convs(5) chase_args.surjective
    chase_args.update_convs(5) chase_args.update_convs(8))
  then show ?thesis using r upd e small by auto
qed

text \<open>The argument block of a run with a stride of 256 bytes and no table yet.\<close>

definition fresh_args :: "nat chase_args" where
  "fresh_args = \<lparr>arena = 4096, total_memory = 65536, stride = 256, tlb_locality = 4096,
     nr_mixers = 0, gen_permutation = gen_random_permutation counting_rng,
     nr_mixer_indices = 32, mixer = []\<rparr>"

theorem generate_chase_mixer_table_witness:
  "\<exists>args' s'. generate_chase_mixer any_malloc 64 fresh_args 20 1 = Inr (args', s') \<and>
    mixer_ok args' \<and> 64 \<le> nr_mixers args' \<and> nr_mixers args' < 65"
proof -
  have "\<exists>args' s'. generate_chase_mixer any_malloc 64 fresh_args 20 1 = Inr (args', s') \<and>
    mixer_ok args' \<and> max 20 64 \<le> nr_mixers args' \<and> nr_mixers args' < max (2 * 20) 65 \<and>
    args' = fresh_args\<lparr>nr_mixers := nr_mixers args', mixer := mixer args'\<rparr> \<and>
    rng_ok counting_rng s'"
    by (rule generate_chase_mixer_table) (simp_all add: fresh_args_def any_malloc_def)
  then show ?thesis by (rule ex_mono2) simp
qed

end
