(* ===== verification/Threads.thy ===== *)
theory Threads
  imports Chase_Props
begin

text \<open>
  How the threads of \<open>multichase.c\<close> build their chases (\<open>thread_start\<close>): every thread seeds
  its own generator and calls \<open>generate_chase\<close> or \<open>generate_chase_long\<close> once per parallel
  chase, all threads in the same arena, each chase with a mixer index of its own. The theory
  shows that they do not disturb each other, whatever the order: whole threads one after the
  other (\<open>run_threads\<close>), or the single stores of all threads interleaved (\<open>run_stores\<close>).
\<close>

subsection \<open>thread_start\<close>

text \<open>\<open>parallelism * thread_num + par\<close> is computed in 32 bits.\<close>

definition chase_index :: "nat \<Rightarrow> nat \<Rightarrow> nat \<Rightarrow> nat" where
  "chase_index par thread_num p = (par * thread_num + p) mod 2 ^ 32"

definition make_chase ::
    "heap_env \<Rightarrow> 'r chase_args \<Rightarrow> bool \<Rightarrow> nat \<Rightarrow> nat \<Rightarrow> mem \<Rightarrow> 'r \<Rightarrow> (nat \<times> mem \<times> 'r) res" where
  "make_chase h args longer idx total_par m s =
     (if longer then generate_chase_long h args idx total_par m s
      else generate_chase h args idx m s)"

definition thread_cycles ::
    "heap_env \<Rightarrow> 'r chase_args \<Rightarrow> bool \<Rightarrow> nat \<Rightarrow> nat \<Rightarrow> nat \<Rightarrow> nat list \<Rightarrow> mem \<Rightarrow> 'r \<Rightarrow>
     (nat list \<times> mem \<times> 'r) res" where
  "thread_cycles h args longer par nr_threads thread_num cycle m s =
     for_range par (\<lambda>p (cycle, m, s).
       rbind (make_chase h args longer (chase_index par thread_num p) (mul64 par nr_threads) m s)
         (\<lambda>(c, m, s). rbind (arr_set cycle p c) (\<lambda>cycle. Inr (cycle, m, s)))) (cycle, m, s)"

text \<open>The threads in \<open>order\<close>, one after the other; \<open>cycles t\<close> is \<open>cycle\<close> of thread \<open>t\<close>.\<close>

definition run_threads ::
    "heap_env \<Rightarrow> (nat \<Rightarrow> 'r option) \<Rightarrow> 'r chase_args \<Rightarrow> bool \<Rightarrow> nat \<Rightarrow> nat \<Rightarrow> nat list \<Rightarrow>
     (nat \<Rightarrow> nat list) \<Rightarrow> mem \<Rightarrow> ((nat \<Rightarrow> nat list) \<times> mem) res" where
  "run_threads h initstate_r args longer par nr_threads order cycles m =
     for_each order (\<lambda>t (cycles, m).
       rbind (rng_init h initstate_r t) (\<lambda>s.
       rbind (thread_cycles h args longer par nr_threads t (cycles t) m s) (\<lambda>(c, m, _).
       Inr (cycles(t := c), m)))) (cycles, m)"

subsection \<open>Whole threads, one after the other\<close>

text \<open>The mixer rows of chase number \<open>j\<close>, and the cells of a set of rows.\<close>

definition first_row :: "'r chase_args \<Rightarrow> bool \<Rightarrow> nat \<Rightarrow> nat \<Rightarrow> nat" where
  "first_row args longer total_par j =
     (if longer then j * (nr_mixer_indices args div total_par) else j)"

definition chase_rows :: "'r chase_args \<Rightarrow> bool \<Rightarrow> nat \<Rightarrow> nat \<Rightarrow> nat set" where
  "chase_rows args longer total_par j =
     (if longer then {j * (nr_mixer_indices args div total_par)..<
        j * (nr_mixer_indices args div total_par) + nr_mixer_indices args div total_par} else {j})"

definition row_cells :: "'r chase_args \<Rightarrow> nat set \<Rightarrow> nat set" where
  "row_cells args R = {cell_addr args r x | r x. r \<in> R \<and> x < nr_elements args}"

definition chase_in_place :: "'r chase_args \<Rightarrow> bool \<Rightarrow> nat \<Rightarrow> nat \<Rightarrow> mem \<Rightarrow> bool" where
  "chase_in_place args longer total_par j m \<longleftrightarrow>
     (\<exists>as. chase_cycle m (cell_addr args (first_row args longer total_par j) 0) as \<and>
       set as = row_cells args (chase_rows args longer total_par j))"

lemma mapped_windows:
  assumes "8 \<le> n"
  shows "mapped m a n \<longleftrightarrow> (\<forall>i. i + 8 \<le> n \<longrightarrow> mapped m (a + i) 8)"
proof
  assume "mapped m a n"
  then show "\<forall>i. i + 8 \<le> n \<longrightarrow> mapped m (a + i) 8" by (auto intro: mapped_sub)
next
  assume w: "\<forall>i. i + 8 \<le> n \<longrightarrow> mapped m (a + i) 8"
  have "m (a + k) \<noteq> None" if "k < n" for k
  proof -
    let ?i = "min k (n - 8)"
    have "mapped m (a + ?i) 8" by (rule w[rule_format]) (use assms in simp)
    moreover have k: "k - ?i < 8" "a + ?i + (k - ?i) = a + k" using that assms by linarith+
    ultimately have "m (a + ?i + (k - ?i)) \<noteq> None" unfolding mapped_def by blast
    then show ?thesis by (simp only: k(2) not_False_eq_True)
  qed
  then show "mapped m a n" by (simp add: mapped_def)
qed

lemma arena_stays_mapped:
  assumes "chase_geometry args" and "mapped m (arena args) (total_memory args)"
    and "\<forall>a. mapped m' a 8 = mapped m a 8"
  shows "mapped m' (arena args) (total_memory args)"
proof -
  have "8 \<le> total_memory args"
    using geometry_counts(3)[OF assms(1)] geometryD(2)[OF assms(1)] by linarith
  then show ?thesis using assms(2,3) unfolding mapped_windows[OF \<open>8 \<le> total_memory args\<close>] by simp
qed

lemma chase_rows_bound:
  assumes "j < total_par" "total_par \<le> nr_mixer_indices args" "r \<in> chase_rows args longer total_par j"
  shows "r < nr_mixer_indices args"
proof (cases longer)
  case True
  then show ?thesis
    using assms(3) long_rows_fit[OF assms(1), of "nr_mixer_indices args"] by (simp add: chase_rows_def)
next
  case False
  then show ?thesis using assms by (simp add: chase_rows_def)
qed

lemma chase_rows_disjoint:
  assumes "j \<noteq> k" shows "chase_rows args longer total_par j \<inter> chase_rows args longer total_par k = {}"
proof (cases longer)
  case True
  let ?q = "nr_mixer_indices args div total_par"
  have "j * ?q + ?q \<le> k * ?q \<or> k * ?q + ?q \<le> j * ?q"
    using assms mult_le_mono1[of "Suc j" k ?q] mult_le_mono1[of "Suc k" j ?q] by (cases "j < k") auto
  then show ?thesis by (auto simp: chase_rows_def True)
next
  case False
  then show ?thesis using assms by (simp add: chase_rows_def)
qed

lemma row_cells_apart:
  assumes geo: "chase_geometry args"
    and "\<And>r. r \<in> R \<Longrightarrow> r < nr_mixer_indices args" and "\<And>r. r \<in> S \<Longrightarrow> r < nr_mixer_indices args"
    and "R \<inter> S = {}" and "a \<in> row_cells args R" and "b \<in> row_cells args S"
  shows "apart a b"
  using assms by (auto simp: row_cells_def intro!: cell_addr_apart[OF geo])

text \<open>What one call does, for both kinds of chase.\<close>

definition chase_call ::
    "'r chase_args \<Rightarrow> bool \<Rightarrow> nat \<Rightarrow> nat \<Rightarrow> mem \<Rightarrow> mem \<Rightarrow> bool" where
  "chase_call args longer total_par j m m' \<longleftrightarrow>
     chase_in_place args longer total_par j m' \<and>
     (\<forall>a. (\<forall>c\<in>row_cells args (chase_rows args longer total_par j). apart c a) \<longrightarrow>
        load64 m' a = load64 m a) \<and>
     (\<forall>a. mapped m' a 8 = mapped m a 8)"

lemma set_perm_cells:
  assumes "perm_upto (nr_elements args) perm"
  shows "set (map (cell_addr args j) (rotate k perm)) = row_cells args {j}"
  using perm_uptoD(3)[OF assms] by (auto simp: row_cells_def)

lemma long_cells_set:
  assumes "0 < nr_elements args"
  shows "long_cell args (j * q) ` {0..<q * nr_elements args} = row_cells args {j * q..<j * q + q}"
    (is "?L = ?R")
proof
  let ?n = "nr_elements args"
  show "?L \<subseteq> ?R"
  proof
    fix a assume "a \<in> ?L"
    then obtain e where e: "e < q * ?n" "a = long_cell args (j * q) e" by auto
    have "e div ?n < q" using e(1) by (simp add: less_mult_imp_div_less)
    moreover have "e mod ?n < ?n" using assms by simp
    ultimately show "a \<in> ?R"
      unfolding row_cells_def e(2) long_cell_def mem_Collect_eq atLeastLessThan_iff
      by (intro exI[of _ "j * q + e div ?n"] exI[of _ "e mod ?n"]) simp
  qed
  show "?R \<subseteq> ?L"
  proof
    fix a assume "a \<in> ?R"
    then obtain r x where a: "a = cell_addr args r x" "j * q \<le> r" "r < j * q + q" "x < ?n"
      by (auto simp: row_cells_def)
    let ?e = "(r - j * q) * ?n + x"
    have "?e div ?n = r - j * q" "?e mod ?n = x" using a(4) by simp_all
    moreover have "?e < q * ?n" using a by (intro table_index) auto
    ultimately show "a \<in> ?L" using a by (intro image_eqI[of _ _ ?e]) (auto simp: long_cell_def)
  qed
qed

context perm_generator
begin

lemma wp_make_chase:
  assumes gen: "gen_permutation args = gen" and geo: "chase_geometry args"
    and j: "j < total_par" "total_par \<le> nr_mixer_indices args"
    and m: "mapped m (arena args) (total_memory args)"
    and zero: "longer \<Longrightarrow> \<forall>c\<in>row_cells args (chase_rows args longer total_par j). load64 m c = Inr 0"
    and malloc: "malloc_serves h (total_memory args)"
  shows "wp (\<lambda>e. e = Exit 1 \<and> \<not> ok s)
    (\<lambda>(p, m', s'). p = cell_addr args (first_row args longer total_par j) 0 \<and>
       chase_call args longer total_par j m m' \<and> (ok s \<longrightarrow> ok s'))
    (make_chase h args longer j total_par m s)"
proof (cases longer)
  case False
  have "j < nr_mixer_indices args" using j by simp
  note call = wp_generate_chase[OF gen geo this m malloc, of s]
  have cells: "row_cells args (chase_rows args longer total_par j) = cell_addr args j ` {0..<nr_elements args}"
    using False by (auto simp: chase_rows_def row_cells_def)
  have "chase_in_place args longer total_par j m'"
    if f: "chase_follows args j perm m'" "perm_upto (nr_elements args) perm" for perm m'
  proof -
    obtain k where k: "chase_cycle m' (cell_addr args j 0) (map (cell_addr args j) (rotate k perm))"
      using f(1) by (auto simp: chase_follows_def)
    have "set (map (cell_addr args j) (rotate k perm)) = cell_addr args j ` {0..<nr_elements args}"
      using perm_uptoD(3)[OF f(2)] by simp
    then show ?thesis
      using k False unfolding chase_in_place_def first_row_def cells by auto
  qed
  note placed = this
  have "wp (\<lambda>e. e = Exit 1 \<and> \<not> ok s)
    (\<lambda>(p, m', s'). p = cell_addr args (first_row args longer total_par j) 0 \<and>
       chase_call args longer total_par j m m' \<and> (ok s \<longrightarrow> ok s')) (generate_chase h args j m s)"
  proof (rule wp_mono[OF call], goal_cases)
    case (2 v)
    then obtain p m' s' perm where v: "v = (p, m', s')" "p = cell_addr args j 0" "only_row args j m m'"
      "ok s \<longrightarrow> ok s'" "perm_upto (nr_elements args) perm" "chase_follows args j perm m'"
      by (cases v) auto
    have frame: "load64 m' a = load64 m a" if "\<forall>c\<in>cell_addr args j ` {0..<nr_elements args}. apart c a" for a
      using v(3) that by (simp add: only_row_def)
    have "\<forall>a. mapped m' a 8 = mapped m a 8" using v(3) by (simp add: only_row_def)
    then show ?case
      using v(1,2,4) placed[OF v(6,5)] frame False
      unfolding v(1) prod.case chase_call_def cells first_row_def by simp
  qed simp
  then show ?thesis using False by (simp add: make_chase_def)
next
  case True
  let ?q = "nr_mixer_indices args div total_par" and ?n = "nr_elements args"
  have cells: "long_cell args (j * ?q) ` {0..<?q * ?n} = row_cells args (chase_rows args longer total_par j)"
    using long_cells_set[OF geometryD(2)[OF geo], of j ?q] True by (simp add: chase_rows_def)
  have "wp (\<lambda>e. e = Exit 1 \<and> \<not> ok s)
    (\<lambda>(p, m', s'). p = cell_addr args (j * ?q) 0 \<and> (ok s \<longrightarrow> ok s') \<and>
      (\<exists>ord. blockwise ?n ?q ord \<and> chase_cycle m' p (map (long_cell args (j * ?q)) ord)) \<and>
      (\<forall>a. (\<forall>e<?q * ?n. apart (long_cell args (j * ?q) e) a) \<longrightarrow> load64 m' a = load64 m a) \<and>
      (\<forall>a. mapped m' a 8 = mapped m a 8))
    (generate_chase_long h args j total_par m s)"
    by (rule wp_generate_chase_long[OF gen geo j refl refl m _ malloc])
      (use zero[OF True] in \<open>simp flip: cells\<close>)
  then show ?thesis
  proof (simp add: make_chase_def True, elim wp_mono, goal_cases)
    case (2 v)
    then obtain p m' s' ord where v: "v = (p, m', s')" "p = cell_addr args (j * ?q) 0" "ok s \<longrightarrow> ok s'"
      "blockwise ?n ?q ord" "chase_cycle m' p (map (long_cell args (j * ?q)) ord)"
      "\<forall>a. (\<forall>e<?q * ?n. apart (long_cell args (j * ?q) e) a) \<longrightarrow> load64 m' a = load64 m a"
      "\<forall>a. mapped m' a 8 = mapped m a 8" by (cases v) auto
    have frame: "load64 m' a = load64 m a"
      if "\<forall>c\<in>row_cells args (chase_rows args True total_par j). apart c a" for a
    proof -
      have "row_cells args (chase_rows args True total_par j) = long_cell args (j * ?q) ` {0..<?q * ?n}"
        using cells True by simp
      then show ?thesis using v(6) that by simp
    qed
    have "set (map (long_cell args (j * ?q)) ord) = row_cells args (chase_rows args True total_par j)"
      using perm_uptoD(3)[of "?q * ?n" ord] v(4) cells True by (simp add: blockwise_def)
    then show ?case
      using v True frame unfolding v(1) prod.case first_row_def chase_call_def chase_in_place_def
      by auto
  qed auto
qed

end

text \<open>The chases \<open>D\<close> are in place; the cells of the others are as the long chase needs them.\<close>

definition chases_done :: "'r chase_args \<Rightarrow> bool \<Rightarrow> nat \<Rightarrow> nat set \<Rightarrow> mem \<Rightarrow> bool" where
  "chases_done args longer total_par D m \<longleftrightarrow>
     mapped m (arena args) (total_memory args) \<and>
     (\<forall>j\<in>D. chase_in_place args longer total_par j m) \<and>
     (longer \<longrightarrow> (\<forall>j<total_par. j \<notin> D \<longrightarrow>
        (\<forall>c\<in>row_cells args (chase_rows args longer total_par j). load64 m c = Inr 0)))"

lemma chase_call_done:
  assumes geo: "chase_geometry args" and tp: "total_par \<le> nr_mixer_indices args"
    and D: "D \<subseteq> {..<total_par}" and j: "j < total_par" "j \<notin> D"
    and inv: "chases_done args longer total_par D m"
    and call: "chase_call args longer total_par j m m'"
  shows "chases_done args longer total_par (insert j D) m'"
proof -
  let ?C = "\<lambda>i. row_cells args (chase_rows args longer total_par i)"
  have other: "load64 m' c = load64 m c" if i: "i < total_par" "i \<noteq> j" and c: "c \<in> ?C i" for i c
  proof -
    have "apart d c" if "d \<in> ?C j" for d
      by (rule row_cells_apart[OF geo _ _ chase_rows_disjoint[OF i(2)[symmetric]] that c])
        (use chase_rows_bound[OF j(1) tp] chase_rows_bound[OF i(1) tp] in blast)+
    then show ?thesis using call by (simp add: chase_call_def)
  qed
  have old: "chase_in_place args longer total_par i m'" if i: "i \<in> D" for i
  proof -
    have lt: "i < total_par" "i \<noteq> j" using i D j(2) by auto
    obtain as where as: "chase_cycle m (cell_addr args (first_row args longer total_par i) 0) as"
      "set as = ?C i"
      using inv i by (auto simp: chases_done_def chase_in_place_def)
    have "chase_cycle m' (cell_addr args (first_row args longer total_par i) 0) as"
      by (rule chase_cycle_frame[OF as(1)]) (use other[OF lt] as(2) in simp)
    then show ?thesis using as(2) by (auto simp: chase_in_place_def)
  qed
  have "mapped m' (arena args) (total_memory args)"
    by (rule arena_stays_mapped[OF geo]) (use inv call in \<open>auto simp: chases_done_def chase_call_def\<close>)
  moreover have "load64 m' c = Inr 0" if "longer" "i < total_par" "i \<notin> insert j D" "c \<in> ?C i" for i c
    using other[of i c] that inv by (simp add: chases_done_def)
  ultimately show ?thesis
    using old call by (simp add: chases_done_def chase_call_def)
qed

text \<open>A call reads and writes nothing outside the arena.\<close>

lemma chase_call_outside:
  assumes geo: "chase_geometry args" and tp: "total_par \<le> nr_mixer_indices args" and j: "j < total_par"
    and call: "chase_call args longer total_par j m m'"
    and a: "a + 8 \<le> arena args \<or> arena args + total_memory args \<le> a"
  shows "load64 m' a = load64 m a"
proof -
  have "apart c a" if c: "c \<in> row_cells args (chase_rows args longer total_par j)" for c
  proof -
    obtain r y where y: "c = cell_addr args r y" "r \<in> chase_rows args longer total_par j" "y < nr_elements args"
      using c by (auto simp: row_cells_def)
    have r: "r < nr_mixer_indices args" using chase_rows_bound[OF j tp y(2)] .
    have "arena args \<le> c" "c + 8 \<le> arena args + total_memory args"
      using cell_addr_lt(1)[OF geo r y(3)] cell_addr_bounds(1)[OF geo r, of y] unfolding y(1) by linarith+
    then show ?thesis using a unfolding apart_def by linarith
  qed
  then show ?thesis using call by (simp add: chase_call_def)
qed

text \<open>Indices of the chases of one thread.\<close>

lemma chase_index_lt:
  assumes "p < par" and "t < (n :: nat)"
  shows "par * t + p < par * n"
  using table_index[of t n p par] assms by (simp add: mult.commute)

lemma chase_index_eq:
  assumes "p < par" "t < n" "par * n < 2 ^ 32"
  shows "chase_index par t p = par * t + p"
  using chase_index_lt[OF assms(1,2)] assms(3) by (simp add: chase_index_def)

definition thread_indices :: "nat \<Rightarrow> nat \<Rightarrow> nat set" where
  "thread_indices par t = {par * t..<par * t + par}"

lemma thread_indices_disjoint:
  assumes "t \<noteq> u" shows "thread_indices par t \<inter> thread_indices par u = {}"
proof -
  have "par * t + par \<le> par * u \<or> par * u + par \<le> par * t"
    using assms mult_le_mono2[of "Suc t" u par] mult_le_mono2[of "Suc u" t par] by (cases "t < u") auto
  then show ?thesis by (auto simp: thread_indices_def)
qed

lemma thread_indices_sub:
  assumes "t < n" shows "thread_indices par t \<subseteq> {..<par * n}"
proof -
  have "par * t + par \<le> par * n" using mult_le_mono2[of "Suc t" n par] assms by simp
  then show ?thesis by (auto simp: thread_indices_def)
qed

context perm_generator
begin

lemma wp_thread_cycles:
  assumes gen: "gen_permutation args = gen" and geo: "chase_geometry args"
    and tp: "par * n \<le> nr_mixer_indices args" "par * n < 2 ^ 32" and t: "t < n"
    and D: "D \<subseteq> {..<par * n}" "thread_indices par t \<inter> D = {}"
    and inv: "chases_done args longer (par * n) D m" and cyc: "par \<le> length cycle"
    and malloc: "malloc_serves h (total_memory args)"
  shows "wp (\<lambda>e. e = Exit 1 \<and> \<not> ok s)
    (\<lambda>(cycle', m', s'). length cycle' = length cycle \<and> (ok s \<longrightarrow> ok s') \<and>
      (\<forall>p<par. cycle' ! p = cell_addr args (first_row args longer (par * n) (par * t + p)) 0) \<and>
      (\<forall>a. mapped m' a 8 = mapped m a 8) \<and>
      (\<forall>a. a + 8 \<le> arena args \<or> arena args + total_memory args \<le> a \<longrightarrow> load64 m' a = load64 m a) \<and>
      chases_done args longer (par * n) (D \<union> thread_indices par t) m')
    (thread_cycles h args longer par n t cycle m s)"
  unfolding thread_cycles_def
proof (rule wp_for_rangeI[where I = "\<lambda>k (cycle', m', s'). length cycle' = length cycle \<and>
      (ok s \<longrightarrow> ok s') \<and>
      (\<forall>p<k. cycle' ! p = cell_addr args (first_row args longer (par * n) (par * t + p)) 0) \<and>
      (\<forall>a. mapped m' a 8 = mapped m a 8) \<and>
      (\<forall>a. a + 8 \<le> arena args \<or> arena args + total_memory args \<le> a \<longrightarrow> load64 m' a = load64 m a) \<and>
      chases_done args longer (par * n) (D \<union> {par * t..<par * t + k}) m'"], goal_cases)
  case 1
  then show ?case using inv by simp
next
  case (2 k st)
  obtain c1 m1 s1 where st: "st = (c1, m1, s1)" by (cases st)
  let ?D = "D \<union> {par * t..<par * t + k}" and ?j = "par * t + k"
  have I: "length c1 = length cycle" "ok s \<longrightarrow> ok s1"
    "\<forall>p<k. c1 ! p = cell_addr args (first_row args longer (par * n) (par * t + p)) 0"
    "\<forall>a. mapped m1 a 8 = mapped m a 8" "chases_done args longer (par * n) ?D m1"
    "\<And>a. a + 8 \<le> arena args \<or> arena args + total_memory args \<le> a \<Longrightarrow> load64 m1 a = load64 m a"
    using 2(2) unfolding st prod.case by blast+
  have lt: "?j < par * n" by (rule chase_index_lt[OF 2(1) t])
  have "?j \<in> thread_indices par t" using 2(1) by (simp add: thread_indices_def)
  then have new: "?j \<notin> ?D" using D(2) by auto
  have sub: "?D \<subseteq> {..<par * n}" using D(1) lt by auto
  have "par * n < W64" using tp(2) by (simp add: W64_def)
  then have mul: "mul64 par n = par * n" by (simp add: c_arith)
  have ins: "insert ?j ?D = D \<union> {par * t..<par * t + Suc k}" by auto
  have m1: "mapped m1 (arena args) (total_memory args)"
    and zero: "longer \<Longrightarrow> \<forall>c\<in>row_cells args (chase_rows args longer (par * n) ?j). load64 m1 c = Inr 0"
    using I(5) new lt by (auto simp: chases_done_def)
  have mk: "wp (\<lambda>e. e = Exit 1 \<and> \<not> ok s)
    (\<lambda>(p, m', s'). p = cell_addr args (first_row args longer (par * n) ?j) 0 \<and>
       chase_call args longer (par * n) ?j m1 m' \<and> (ok s1 \<longrightarrow> ok s'))
    (make_chase h args longer ?j (par * n) m1 s1)"
    by (rule wp_mono[OF wp_make_chase[OF gen geo lt tp(1) m1 zero malloc, of s1]]) (use I(2) in auto)
  show ?case
    unfolding st prod.case chase_index_eq[OF 2(1) t tp(2)] mul
  proof (rule wp_bindI[OF mk], goal_cases)
    case (1 v)
    then obtain p m2 s2 where v: "v = (p, m2, s2)"
      "p = cell_addr args (first_row args longer (par * n) ?j) 0"
      "chase_call args longer (par * n) ?j m1 m2" "ok s1 \<longrightarrow> ok s2" by (cases v) auto
    have "chases_done args longer (par * n) (insert ?j ?D) m2"
      by (rule chase_call_done[OF geo tp(1) sub lt new I(5) v(3)])
    moreover have "\<forall>a. mapped m2 a 8 = mapped m a 8" using v(3) I(4) by (simp add: chase_call_def)
    moreover have "\<forall>a. a + 8 \<le> arena args \<or> arena args + total_memory args \<le> a \<longrightarrow> load64 m2 a = load64 m a"
      using chase_call_outside[OF geo tp(1) lt v(3)] I(6) by metis
    ultimately show ?case
      using v I(1-3) 2(1) cyc by (auto simp: ins less_Suc_eq nth_list_update)
  qed
next
  case (3 st)
  then show ?case by (auto simp: thread_indices_def split: prod.splits)
qed

end

text \<open>What thread \<open>t\<close> finds in its \<open>cycle\<close> array when it starts chasing.\<close>

definition cycles_ready ::
    "'r chase_args \<Rightarrow> bool \<Rightarrow> nat \<Rightarrow> nat \<Rightarrow> nat list \<Rightarrow> nat \<Rightarrow> mem \<Rightarrow> bool" where
  "cycles_ready args longer par n cycle t m \<longleftrightarrow>
     (\<forall>p<par. \<exists>as. chase_cycle m (cycle ! p) as \<and>
        set as = row_cells args (chase_rows args longer (par * n) (par * t + p)))"

lemma cycles_readyI:
  assumes "chases_done args longer (par * n) D m" and "thread_indices par t \<subseteq> D"
    and "\<forall>p<par. cycle ! p = cell_addr args (first_row args longer (par * n) (par * t + p)) 0"
  shows "cycles_ready args longer par n cycle t m"
proof -
  have "chase_in_place args longer (par * n) (par * t + p) m" if "p < par" for p
  proof -
    have "par * t + p \<in> D" using assms(2) that by (auto simp: thread_indices_def subset_iff)
    then show ?thesis using assms(1) by (simp add: chases_done_def)
  qed
  then show ?thesis using assms(3) by (simp add: cycles_ready_def chase_in_place_def)
qed

context perm_generator
begin

lemma wp_run_threads:
  assumes gen: "gen_permutation args = gen" and geo: "chase_geometry args"
    and tp: "par * n \<le> nr_mixer_indices args" "par * n < 2 ^ 32"
    and seeds: "\<And>t. \<exists>s. initstate_r t = Some s \<and> ok s"
    and malloc: "malloc_serves h b" "48 \<le> b" "total_memory args \<le> b"
    and order: "distinct order" "set order \<subseteq> {..<n}"
    and cyc: "\<And>t. par \<le> length (cycles t)"
    and inv: "chases_done args longer (par * n) {} m"
  shows "wp (\<lambda>_. False) (\<lambda>(cycles', m'). \<forall>t\<in>set order. cycles_ready args longer par n (cycles' t) t m')
    (run_threads h initstate_r args longer par n order cycles m)"
proof -
  let ?D = "\<lambda>k. \<Union>(thread_indices par ` set (take k order))"
  let ?good = "\<lambda>cycles t. \<forall>p<par. cycles t ! p =
    cell_addr args (first_row args longer (par * n) (par * t + p)) 0"
  have total: "malloc_serves h (total_memory args)"
    using malloc by (simp add: malloc_serves_def)
  have "malloc_ok h 48" "malloc_ok h RNG_BUF_SIZE"
    using malloc by (simp_all add: malloc_serves_def RNG_BUF_SIZE_def)
  then have init: "wp (\<lambda>_. False) ok (rng_init h initstate_r t)" for t
    using seeds[of t] by (auto simp: rng_init_def)
  have "wp (\<lambda>_. False) (\<lambda>(cycles', m'). (\<forall>t. par \<le> length (cycles' t)) \<and>
      (\<forall>t\<in>set (take (length order) order). ?good cycles' t) \<and>
      chases_done args longer (par * n) (?D (length order)) m')
    (run_threads h initstate_r args longer par n order cycles m)"
    unfolding run_threads_def
  proof (rule wp_for_each[where I = "\<lambda>k (cycles', m'). (\<forall>t. par \<le> length (cycles' t)) \<and>
      (\<forall>t\<in>set (take k order). ?good cycles' t) \<and> chases_done args longer (par * n) (?D k) m'"],
      goal_cases)
    case 1
    then show ?case using inv cyc by simp
  next
    case (2 k st)
    obtain c1 m1 where st: "st = (c1, m1)" by force
    let ?t = "order ! k"
    have tk: "set (take (Suc k) order) = insert ?t (set (take k order))"
      using 2(1) by (simp add: take_Suc_conv_app_nth)
    have fresh: "?t \<notin> set (take k order)"
      using order(1) 2(1) by (auto simp: in_set_conv_nth nth_eq_iff_index_eq)
    have tn: "?t < n" "set (take k order) \<subseteq> {..<n}"
      using subsetD[OF order(2) nth_mem[OF 2(1)]] subset_trans[OF set_take_subset order(2)]
      by simp_all
    have sub: "?D k \<subseteq> {..<par * n}" using tn(2) by (intro UN_least thread_indices_sub) auto
    have disj: "thread_indices par ?t \<inter> ?D k = {}" 
    proof -
      have "thread_indices par ?t \<inter> thread_indices par u = {}" if "u \<in> set (take k order)" for u
        by (rule thread_indices_disjoint) (use that fresh in auto)
      then show ?thesis by blast
    qed
    have I: "\<forall>t. par \<le> length (c1 t)" "\<forall>t\<in>set (take k order). ?good c1 t"
      "chases_done args longer (par * n) (?D k) m1" using 2(2) by (auto simp: st)
    have D: "?D k \<union> thread_indices par ?t = ?D (Suc k)" by (auto simp: tk)
    let ?R = "\<lambda>(c, m2, _). length c = length (c1 ?t) \<and>
      (\<forall>p<par. c ! p = cell_addr args (first_row args longer (par * n) (par * ?t + p)) 0) \<and>
      chases_done args longer (par * n) (?D k \<union> thread_indices par ?t) m2"
    have body: "wp (\<lambda>_. False) ?R (thread_cycles h args longer par n ?t (c1 ?t) m1 s)" if "ok s" for s
      by (rule wp_mono[OF wp_thread_cycles[OF gen geo tp tn(1) sub disj I(3)
          I(1)[rule_format, of ?t] total, of s]]) (use that in auto)
    show ?case
      unfolding st prod.case
    proof (rule wp_bindI[OF init], rule wp_bindI[OF body], assumption, goal_cases)
      case (1 s v)
      then show ?case using I fresh unfolding D tk by (auto split: prod.splits)
    qed
  qed
  then show ?thesis
  proof (rule wp_mono)
    fix v assume v: "case v of (cycles', m') \<Rightarrow> (\<forall>t. par \<le> length (cycles' t)) \<and>
      (\<forall>t\<in>set (take (length order) order). ?good cycles' t) \<and>
      chases_done args longer (par * n) (?D (length order)) m'"
    then show "case v of (cycles', m') \<Rightarrow> \<forall>t\<in>set order. cycles_ready args longer par n (cycles' t) t m'"
      by (auto intro!: cycles_readyI)
  qed
qed

end

subsection \<open>The stores of all threads, interleaved\<close>

text \<open>
  The only accesses of \<open>generate_chase\<close> to shared memory are its stores. A run of several
  threads is an interleaving of their store sequences; the theorem below holds for any list
  that has the stores of all chases as its elements, in whatever order.
\<close>

primrec run_stores :: "(nat \<times> nat) list \<Rightarrow> mem \<Rightarrow> mem res" where
  "run_stores [] m = Inr m"
| "run_stores (w # ws) m = rbind (store64 m (fst w) (snd w)) (run_stores ws)"

lemma for_range_stores:
  "for_range n (\<lambda>i m. store64 m (f i) (g i)) m = run_stores (map (\<lambda>i. (f i, g i)) [0..<n]) m"
proof -
  have "for_each xs (\<lambda>i m. store64 m (f i) (g i)) m = run_stores (map (\<lambda>i. (f i, g i)) xs) m" for xs
  proof (induction xs arbitrary: m)
    case (Cons x xs)
    then show ?case by (cases "store64 m (f x) (g x)") auto
  qed simp
  then show ?thesis by (simp add: for_range_def)
qed

lemma run_stores_all:
  assumes "distinct (map fst ws)"
    and "\<And>a b. a \<in> fst ` set ws \<Longrightarrow> b \<in> fst ` set ws \<Longrightarrow> a \<noteq> b \<Longrightarrow> apart a b"
    and "\<And>a. a \<in> fst ` set ws \<Longrightarrow> mapped m a 8" and "\<And>v. v \<in> snd ` set ws \<Longrightarrow> v < W64"
  shows "\<exists>m'. run_stores ws m = Inr m' \<and> (\<forall>w\<in>set ws. load64 m' (fst w) = Inr (snd w)) \<and>
    (\<forall>b. (\<forall>a\<in>fst ` set ws. apart a b) \<longrightarrow> load64 m' b = load64 m b)"
  using assms
proof (induction ws arbitrary: m)
  case (Cons w ws)
  obtain m1 where m1: "store64 m (fst w) (snd w) = Inr m1"
    using bytes.store_cell[of m "fst w" "snd w"] Cons.prems(3) by auto
  have "\<exists>m'. run_stores ws m1 = Inr m' \<and> (\<forall>w\<in>set ws. load64 m' (fst w) = Inr (snd w)) \<and>
    (\<forall>b. (\<forall>a\<in>fst ` set ws. apart a b) \<longrightarrow> load64 m' b = load64 m1 b)"
    by (rule Cons.IH) (use Cons.prems bytes.cell_kept[OF m1] in auto)
  then obtain m' where m': "run_stores ws m1 = Inr m'" "\<forall>w\<in>set ws. load64 m' (fst w) = Inr (snd w)"
    "\<forall>b. (\<forall>a\<in>fst ` set ws. apart a b) \<longrightarrow> load64 m' b = load64 m1 b" by blast
  have "apart a (fst w)" if "a \<in> fst ` set ws" for a
  proof -
    have "fst w \<notin> fst ` set ws" using Cons.prems(1) by simp
    then have "a \<noteq> fst w" using that by metis
    then show ?thesis using Cons.prems(2)[of a "fst w"] that by simp
  qed
  then have "load64 m' (fst w) = Inr (snd w)"
    using m'(3) bytes.load_same[OF m1] Cons.prems(4)[of "snd w"] by simp
  moreover have "load64 m' b = load64 m b" if "\<forall>a\<in>fst ` set (w # ws). apart a b" for b
    using that m'(3) bytes.load_apart[OF m1, of b] by simp
  ultimately show ?case using m1 m'(1,2) by auto
qed simp

context perm_generator
begin

lemma generate_chase_stores:
  assumes gen: "gen_permutation args = gen" and geo: "chase_geometry args"
    and j: "j < nr_mixer_indices args"
    and malloc: "malloc_serves h (total_memory args)" and ok: "ok s"
  shows "\<exists>ws s'. (\<forall>m. generate_chase h args j m s =
      rbind (run_stores ws m) (\<lambda>m'. Inr (cell_addr args j 0, m', s'))) \<and>
    map fst ws = map (cell_addr args j) [0..<nr_elements args] \<and>
    (\<forall>v\<in>snd ` set ws. v < W64) \<and>
    (\<forall>m. (\<forall>w\<in>set ws. load64 m (fst w) = Inr (snd w)) \<longrightarrow>
      (\<exists>as. chase_cycle m (cell_addr args j 0) as \<and> set as = row_cells args {j}))"
proof -
  let ?G = "total_memory args div tlb_locality args"
  let ?q = "tlb_locality args div stride args"
  let ?f = "cell_addr args j"
  define n where n: "n = nr_elements args"
  note B = chase_blocks[OF geo malloc, folded n] and C = geometry_counts[OF geo, folded n]
    and D = geometryD[OF geo, folded n]
  have n64: "n < W64" "?G < W64" using C by simp_all
  obtain tlb s1 where tlb: "gen (malloc_unchecked h (mul64 ?G 8)) 0 ?G 0 s = Inr (tlb, s1)"
    "perm_upto ?G tlb" "ok s1"
    using wp_gen_fill[OF B(1) n64(2), of s] ok
    by (cases "gen (malloc_unchecked h (mul64 ?G 8)) 0 ?G 0 s") (auto simp: perm_upto_def)
  obtain perm s2 where perm: "fill_groups gen tlb ?G ?q 0 (malloc_unchecked h (mul64 n 8)) s1 = Inr (perm, s2)"
    "perm_upto n perm"
    using wp_chase_perm[OF tlb(2) _ _, of "malloc_unchecked h (mul64 n 8)" ?q s1] B(2) n64(1) tlb(3)
    unfolding C(1)
    by (cases "fill_groups gen tlb ?G ?q 0 (malloc_unchecked h (mul64 n 8)) s1") auto
  obtain pinv where pinv: "invert_perm n perm (malloc_unchecked h (mul64 n 8)) = Inr pinv"
    "length pinv = n" "\<forall>i<n. pinv ! (perm ! i) = i"
    using wp_invert_perm[OF perm(2) B(2)]
    by (cases "invert_perm n perm (malloc_unchecked h (mul64 n 8))") auto
  let ?g = "\<lambda>i. ?f (perm ! (Suc (pinv ! i) mod n))"
  let ?ws = "map (\<lambda>i. (?f i, ?g i)) [0..<n]"
  have jn: "mul64 j (nr_mixers args) = j * nr_mixers args"
    using row_offset_lt[OF D(6) j] by (simp add: c_arith)
  have loop: "for_range n (thread_step args (j * nr_mixers args)
      (stride args div nr_mixer_indices args) n perm pinv) m = run_stores ?ws m" for m
    unfolding for_range_stores[symmetric]
    by (intro for_range_cong thread_step_eq[OF geo j n n64(1) perm(2) pinv(2,3)])
  obtain a where a: "mixed args (j * nr_mixers args) (stride args div nr_mixer_indices args) 0 = Inr a"
    "add64 (arena args) a = ?f 0"
    using mixed_cell[OF geo j, of 0] D(2)[unfolded n] by blast
  have divs: "div64 (total_memory args) (tlb_locality args) = Inr ?G"
    "div64 (tlb_locality args) (stride args) = Inr ?q"
    "div64 (total_memory args) (stride args) = Inr n"
    "div64 (stride args) (nr_mixer_indices args) = Inr (stride args div nr_mixer_indices args)"
    using C D by (simp_all add: n nr_elements_def)
  have "generate_chase h args j m s = rbind (run_stores ?ws m) (\<lambda>m'. Inr (?f 0, m', s2))" for m
    unfolding generate_chase_def Let_def gen divs rbind.simps jn tlb(1) prod.case perm(1) pinv(1) loop a
    by simp
  moreover have "map fst ?ws = map ?f [0..<nr_elements args]" by (simp add: n)
  moreover have "\<forall>v\<in>snd ` set ?ws. v < W64"
    using cell_addr_lt(2)[OF geo j] perm_upto_nth[OF perm(2)] D(2) n by auto
  moreover have "\<exists>as. chase_cycle m (?f 0) as \<and> set as = row_cells args {j}"
    if "\<forall>w\<in>set ?ws. load64 m (fst w) = Inr (snd w)" for m
  proof -
    have "chase_cycle m (?f 0) (map ?f (rotate (pinv ! 0) perm))"
      using successors_cycle[OF perm(2) pinv(3) D(2), of ?f m] cell_addr_inj[OF geo j j] that by auto
    moreover have "set (map ?f (rotate (pinv ! 0) perm)) = row_cells args {j}"
      using set_perm_cells perm(2) n by blast
    ultimately show ?thesis by blast
  qed
  ultimately show ?thesis by blast
qed

end

subsection \<open>Properties\<close>

text \<open>C5: thread_start, for all threads in any order and with or without -L: every thread
  gets its cycle array filled with the start pointers of its chases, and at the end each chase
  of each thread is a cycle through exactly the cells of its own mixer rows.\<close>
theorem run_threads_chases:
  assumes "gen_permutation args = gen_random_permutation random_r" and "chase_geometry args"
    and "par * n \<le> nr_mixer_indices args" and "par * n < 2 ^ 32"
    and "\<And>t. \<exists>s. initstate_r t = Some s \<and> rng_ok random_r s"
    and "\<And>b. b \<le> max 48 (total_memory args) \<Longrightarrow> malloc_ok h b"
    and "distinct order" and "set order = {0..<n}" and "\<And>t. par \<le> length (cycles t)"
    and "mapped m (arena args) (total_memory args)"
    and "longer \<Longrightarrow> \<forall>j<par * n. \<forall>c\<in>row_cells args (chase_rows args longer (par * n) j). load64 m c = Inr 0"
  shows "\<exists>cycles' m'. run_threads h initstate_r args longer par n order cycles m = Inr (cycles', m') \<and>
    (\<forall>t<n. cycles_ready args longer par n (cycles' t) t m')"
proof -
  have serves: "malloc_serves h (max 48 (total_memory args))"
    using assms(6) by (simp add: malloc_serves_def)
  have "chases_done args longer (par * n) {} m"
    using assms(10,11) by (auto simp: chases_done_def)
  then have "wp (\<lambda>_. False) (\<lambda>(cycles', m'). \<forall>t\<in>set order. cycles_ready args longer par n (cycles' t) t m')
      (run_threads h initstate_r args longer par n order cycles m)"
    using assms(7,8,9) by (intro random.wp_run_threads[OF assms(1-5) serves]) auto
  then show ?thesis using assms(8) by (auto simp: wp_total)
qed

theorem run_threads_chases_witness:
  "\<exists>cycles' m'. run_threads any_malloc (\<lambda>t. Some t) (small_chase (gen_random_permutation counting_rng))
      True 1 2 [1, 0] (\<lambda>_. replicate MAX_PARALLEL 0) zeroed = Inr (cycles', m') \<and>
    cycles_ready (small_chase (gen_random_permutation counting_rng)) True 1 2 (cycles' 1) 1 m'"
proof -
  let ?A = "small_chase (gen_random_permutation counting_rng)"
  have "\<exists>cycles' m'. run_threads any_malloc (\<lambda>t. Some t) ?A True 1 2 [1, 0]
      (\<lambda>_. replicate MAX_PARALLEL 0) zeroed = Inr (cycles', m') \<and>
    (\<forall>t<2. cycles_ready ?A True 1 2 (cycles' t) t m')"
    by (rule run_threads_chases) (auto simp: any_malloc_def MAX_PARALLEL_def)
  then show ?thesis by (rule ex_mono2) simp
qed

lemma mset_sum_map: "(\<Sum>j<k. mset (f j)) = mset (concat (map f [0..<k]))" for k :: nat
  by (induction k) auto

lemma distinct_cells:
  assumes geo: "chase_geometry args" and "k \<le> nr_mixer_indices args"
  shows "distinct (concat (map (\<lambda>j. map (cell_addr args j) [0..<nr_elements args]) [0..<k]))"
  using assms(2)
proof (induction k)
  case (Suc k)
  have "inj_on (cell_addr args k) {0..<nr_elements args}"
    using cell_addr_inj[OF geo, of k k] Suc.prems by (intro inj_onI) simp
  moreover have "cell_addr args j x \<noteq> cell_addr args k y" if "j < k" for j x y
    using cell_addr_inj[OF geo, of j k x y] that Suc.prems by auto
  ultimately show ?case using Suc by (auto simp: distinct_map) metis
qed simp

text \<open>The stores of the rows below \<open>K\<close>, in any order, are to distinct cells of these rows.\<close>

lemma row_stores:
  assumes geo: "chase_geometry args" and K: "K \<le> nr_mixer_indices args"
    and addrs: "\<And>j. j < K \<Longrightarrow> map fst (ws j) = map (cell_addr args j) [0..<nr_elements args]"
    and W: "mset W = (\<Sum>j<K. mset (ws j))"
  shows "distinct (map fst W)" "set W = (\<Union>j<K. set (ws j))"
    "a \<in> fst ` set W \<Longrightarrow> \<exists>j<K. \<exists>x<nr_elements args. a = cell_addr args j x"
proof -
  let ?n = "nr_elements args"
  have mW: "mset W = mset (concat (map ws [0..<K]))" using W mset_sum_map[of ws K] by simp
  then show setW: "set W = (\<Union>j<K. set (ws j))"
    using mset_eq_setD[OF mW] by (simp add: atLeast0LessThan)
  show "\<exists>j<K. \<exists>x<?n. a = cell_addr args j x" if "a \<in> fst ` set W"
  proof -
    obtain j where j: "j < K" "a \<in> fst ` set (ws j)" using \<open>a \<in> fst ` set W\<close> setW by auto
    then have "a \<in> set (map (cell_addr args j) [0..<?n])"
      using addrs[of j] by (metis set_map)
    then show ?thesis using j(1) by (force simp del: atLeastLessThan_iff simp add: atLeast0LessThan)
  qed
  have "mset (map fst W) = mset (map fst (concat (map ws [0..<K])))"
    by (simp only: mset_map mW)
  also have "map fst (concat (map ws [0..<K])) = concat (map (\<lambda>j. map fst (ws j)) [0..<K])"
    by (simp add: map_concat comp_def)
  also have "map (\<lambda>j. map fst (ws j)) [0..<K] = map (\<lambda>j. map (cell_addr args j) [0..<?n]) [0..<K]"
    using addrs by simp
  finally show "distinct (map fst W)"
    using mset_eq_imp_distinct_iff distinct_cells[OF geo K] by blast
qed

text \<open>C6: The calls of generate_chase for different mixer indices touch shared memory only
  by stores to cells of their own row, so that any interleaving of the stores of all threads
  (any list of them in any order) succeeds and leaves every chase a single cycle through its
  row.\<close>
theorem interleaved_chases:
  assumes "gen_permutation args = gen_random_permutation random_r"
    and geo: "chase_geometry args" and K: "K \<le> nr_mixer_indices args"
    and ok: "\<And>j. j < K \<Longrightarrow> rng_ok random_r (s j)"
    and m: "mapped m (arena args) (total_memory args)"
    and malloc: "malloc_serves h (total_memory args)"
  shows "\<exists>ws s'. (\<forall>j<K. \<forall>m. generate_chase h args j m (s j) =
      rbind (run_stores (ws j) m) (\<lambda>m'. Inr (cell_addr args j 0, m', s' j))) \<and>
    (\<forall>W. mset W = (\<Sum>j<K. mset (ws j)) \<longrightarrow>
      (\<exists>m'. run_stores W m = Inr m' \<and>
        (\<forall>j<K. \<exists>as. chase_cycle m' (cell_addr args j 0) as \<and> set as = row_cells args {j})))"
proof -
  let ?row = "\<lambda>j w s'. (\<forall>m. generate_chase h args j m (s j) =
      rbind (run_stores w m) (\<lambda>m'. Inr (cell_addr args j 0, m', s'))) \<and>
    map fst w = map (cell_addr args j) [0..<nr_elements args] \<and> (\<forall>v\<in>snd ` set w. v < W64) \<and>
    (\<forall>m. (\<forall>x\<in>set w. load64 m (fst x) = Inr (snd x)) \<longrightarrow>
      (\<exists>as. chase_cycle m (cell_addr args j 0) as \<and> set as = row_cells args {j}))"
  have "\<forall>j. \<exists>w. j < K \<longrightarrow> ?row j (fst w) (snd w)"
    using random.generate_chase_stores[OF assms(1) geo _ malloc ok] K by (simp add: split_paired_Ex)
  from choice[OF this] obtain g where g: "\<forall>j. j < K \<longrightarrow> ?row j (fst (g j)) (snd (g j))" by blast
  define ws s' where "ws j = fst (g j)" and "s' j = snd (g j)" for j
  have G: "?row j (ws j) (s' j)" if "j < K" for j
    using g that by (simp add: ws_def s'_def)
  have "\<exists>m'. run_stores W m = Inr m' \<and>
      (\<forall>j<K. \<exists>as. chase_cycle m' (cell_addr args j 0) as \<and> set as = row_cells args {j})"
    if W: "mset W = (\<Sum>j<K. mset (ws j))" for W
  proof -
    have addrs: "map fst (ws j) = map (cell_addr args j) [0..<nr_elements args]" if "j < K" for j
      using G[OF that] by blast
    note R = row_stores[OF geo K addrs W]
    have "apart a b" if ab: "a \<in> fst ` set W" "b \<in> fst ` set W" "a \<noteq> b" for a b
      using R(3)[OF _ ab(1)] R(3)[OF _ ab(2)] ab(3) K by (auto intro!: cell_addr_apart[OF geo])
    moreover have "mapped m a 8" if "a \<in> fst ` set W" for a
      using R(3)[OF _ that] cells_mapped[OF geo m] K by auto
    moreover have "v < W64" if "v \<in> snd ` set W" for v
      using that R(2) G by auto
    ultimately obtain m' where m': "run_stores W m = Inr m'"
      "\<forall>w\<in>set W. load64 m' (fst w) = Inr (snd w)"
      using run_stores_all[of W m] R(1) by blast
    have "\<exists>as. chase_cycle m' (cell_addr args j 0) as \<and> set as = row_cells args {j}" if j: "j < K" for j
    proof -
      have "\<forall>w\<in>set (ws j). load64 m' (fst w) = Inr (snd w)" using m'(2) R(2) j by blast
      then show ?thesis using G[OF j] by blast
    qed
    then show ?thesis using m'(1) by blast
  qed
  then show ?thesis
    by (intro exI[of _ ws] exI[of _ s'] conjI) (use G in blast)+
qed

theorem interleaved_chases_witness:
  "\<exists>ws s'. \<forall>m. generate_chase any_malloc (small_chase (gen_random_permutation counting_rng)) 1 m 1 =
      rbind (run_stores (ws (1 :: nat)) m)
        (\<lambda>m'. Inr (cell_addr (small_chase (gen_random_permutation counting_rng)) 1 0, m', s' (1 :: nat)))"
proof -
  let ?A = "small_chase (gen_random_permutation counting_rng)"
  have "\<exists>ws s'. (\<forall>j<2. \<forall>m. generate_chase any_malloc ?A j m j =
      rbind (run_stores (ws j) m) (\<lambda>m'. Inr (cell_addr ?A j 0, m', s' j))) \<and>
    (\<forall>W. mset W = (\<Sum>j<2. mset (ws j)) \<longrightarrow>
      (\<exists>m'. run_stores W zeroed = Inr m' \<and>
        (\<forall>j<2. \<exists>as. chase_cycle m' (cell_addr ?A j 0) as \<and> set as = row_cells ?A {j})))"
    by (rule interleaved_chases[where random_r = counting_rng]) simp_all
  then show ?thesis by (rule ex_mono2) simp
qed

end
