(* ===== verification/Arena.thy ===== *)
theory Arena
  imports Rng Util
begin

text \<open>
  \<open>arena.c\<close>: the memory the chases are built in. The kernel is a parameter (\<open>kernel_env\<close>): which
  calls it grants, what \<open>sysconf\<close> and the files under \<open>/sys\<close> say. The page size, the rounding of
  the size, the flags, the choice of transparent huge pages and the weighted placement of pages
  on memory nodes are the code's.
\<close>

unbundle bit_operations_syntax

subsection \<open>Page sizes\<close>

text \<open>\<open>mmap_at c len flags fd\<close> is the answer to the call of \<open>mmap\<close> number \<open>c\<close>: the same request can get
  different pages at different calls.\<close>

record kernel_env =
  page_size_conf :: int
  mmap_at :: "nat \<Rightarrow> nat \<Rightarrow> nat \<Rightarrow> int \<Rightarrow> nat option"
  madvise_ok :: bool
  mbind_ok :: "nat \<Rightarrow> nat \<Rightarrow> nat \<Rightarrow> bool"
  mprotect_ok :: "nat \<Rightarrow> nat \<Rightarrow> bool"
  sysfs :: "string \<Rightarrow> string option"
  sysfs_write_ok :: "string \<Rightarrow> bool"

definition get_native_page_size :: "kernel_env \<Rightarrow> nat res" where
  "get_native_page_size os =
     (let sz = page_size_conf os in if sz < 0 then Inl (Exit 1) else Inr (nat sz))"

definition page_size_is_huge :: "kernel_env \<Rightarrow> nat \<Rightarrow> bool res" where
  "page_size_is_huge os page_size =
     rbind (get_native_page_size os) (\<lambda>native. Inr (native < page_size))"

text \<open>\<open>while (page_size >>= 1) ++lg\<close>.\<close>

fun log_loop :: "nat \<Rightarrow> nat \<Rightarrow> nat" where
  "log_loop page_size lg =
     (if page_size div 2 = 0 then lg else log_loop (page_size div 2) (lg + 1))"

declare log_loop.simps [simp del]

definition MAP_HUGETLB :: nat where
  "MAP_HUGETLB = 0x40000"

definition MAP_HUGE_SHIFT :: nat where
  "MAP_HUGE_SHIFT = 26"

text \<open>\<open>lg << MAP_HUGE_SHIFT\<close> is an \<open>int\<close>: it must stay below \<open>2 ^ 31\<close>.\<close>

definition get_page_size_flags :: "kernel_env \<Rightarrow> nat \<Rightarrow> nat res" where
  "get_page_size_flags os page_size =
     (if page_size = 0 \<or> page_size AND (page_size - 1) \<noteq> 0 then Inl (Exit 1)
      else rbind (page_size_is_huge os page_size) (\<lambda>huge.
        if \<not> huge then Inr 0
        else let lg = log_loop page_size 0 in
          if 2 ^ 31 \<le> lg * 2 ^ MAP_HUGE_SHIFT then Inl Undefined
          else Inr (MAP_HUGETLB OR lg * 2 ^ MAP_HUGE_SHIFT)))"

lemma log_loop_pow2: "log_loop (2 ^ k) lg = lg + k"
proof (induction k arbitrary: lg)
  case 0
  then show ?case by (subst log_loop.simps) simp
next
  case (Suc k)
  then show ?case by (subst log_loop.simps) simp
qed

lemma pow2_and_pred: "(2 ^ k :: nat) AND (2 ^ k - 1) = 0"
  using and_pow2_mask[of "2 ^ k" k] by (simp only: mod_self)

lemma power_of_two_check:
  assumes "0 < n" and "n AND (n - 1) = (0 :: nat)"
  shows "\<exists>k. n = 2 ^ k"
  using assms
proof (induction n rule: less_induct)
  case (less n)
  show ?case
  proof (cases "even n")
    case True
    then obtain h where h: "n = 2 * h" by blast
    then have hp: "0 < h" using less.prems by simp
    have "2 * h - 1 = 2 * (h - 1) + 1" using hp by simp
    then have "(2 * h) AND (2 * h - 1) = 2 * (h AND (h - 1))"
      by (simp add: and_rec[of "2 * h"])
    then have "h AND (h - 1) = 0" using less.prems h by simp
    then obtain k where "h = 2 ^ k" using less.IH[of h] hp h by auto
    then have "n = 2 ^ Suc k" using h by simp
    then show ?thesis by blast
  next
    case False
    then obtain h where h: "n = 2 * h + 1" by (auto elim: oddE)
    then have "n AND (n - 1) = 2 * (h AND h)" by (simp add: and_rec[of "Suc (2 * h)"])
    then have "h = 0" using less.prems by simp
    then show ?thesis using h by (intro exI[of _ 0]) simp
  qed
qed

text \<open>A page size is native, or passes as MAP_HUGETLB with its logarithm from bit 26 on.\<close>
theorem page_size_flags:
  assumes "page_size_conf os = int native" and "page_size < 2 ^ 32"
  shows "get_page_size_flags os page_size =
    (if \<exists>k. page_size = 2 ^ k then
       Inr (if native < page_size then 0x40000 OR log_loop page_size 0 * 2 ^ 26 else 0)
     else Inl (Exit 1))"
proof -
  have "0 < page_size \<and> page_size AND (page_size - 1) = 0 \<longleftrightarrow> (\<exists>k. page_size = 2 ^ k)"
    using power_of_two_check pow2_and_pred by (metis zero_less_numeral zero_less_power)
  moreover have "log_loop page_size 0 * 2 ^ 26 < 2 ^ 31" if k: "page_size = 2 ^ k" for k
  proof -
    have "(2 :: nat) ^ k < 2 ^ 32" using k assms(2) by simp
    then have "k < 32" by (rule power_less_imp_less_exp[rotated]) simp
    then show ?thesis by (simp add: k log_loop_pow2)
  qed
  ultimately show ?thesis
    using assms(1) by (auto simp: get_page_size_flags_def page_size_is_huge_def
        get_native_page_size_def MAP_HUGETLB_def MAP_HUGE_SHIFT_def Let_def)
qed

subsection \<open>Weighted placement\<close>

text \<open>\<open>weights_cumsum\<close>: it starts one below the first weight.\<close>

fun cumsum :: "int \<Rightarrow> nat list \<Rightarrow> int list" where
  "cumsum c [] = []"
| "cumsum c (w # ws) = (c + int w) # cumsum (c + int w) ws"

definition weights_cumsum :: "nat list \<Rightarrow> int list" where
  "weights_cumsum weights = cumsum (-1) weights"

text \<open>The first node whose sum reaches \<open>r\<close>.\<close>

fun pick_node :: "int list \<Rightarrow> nat \<Rightarrow> nat" where
  "pick_node [] r = 0"
| "pick_node (c # cs) r = (if int r \<le> c then 0 else Suc (pick_node cs r))"

text \<open>
  One page: \<open>1 << 31\<close> is an \<open>int\<close> that turns into \<open>2 ^ 64 - 2 ^ 31\<close> as a \<open>perm_t\<close>; \<open>1 << node\<close> is an
  \<open>int\<close> too, and no value of it is defined from node 31 on.
\<close>

definition place_page ::
    "kernel_env \<Rightarrow> 'r random_r \<Rightarrow> int list \<Rightarrow> nat \<Rightarrow> nat \<Rightarrow> 'r \<times> (nat \<times> nat) list \<Rightarrow> ('r \<times> (nat \<times> nat) list) res" where
  "place_page os random_r cs page_size p st =
     (let (s, placed) = st in
      rbind (rng_int random_r (W64 - 2 ^ 31) s) (\<lambda>(t, s).
      rbind (mod64 t (nat (last cs + 1))) (\<lambda>r.
      let node = pick_node cs r in
      if 31 \<le> node then Inl Undefined
      else if mbind_ok os p page_size (2 ^ node) then Inr (s, placed @ [(p, node)])
      else Inl (Exit 1))))"

text \<open>\<open>*p = 0\<close> on every page that has been bound.\<close>

definition touch_pages :: "(nat \<times> nat) list \<Rightarrow> (nat \<rightharpoonup> 8 word) \<Rightarrow> (nat \<rightharpoonup> 8 word)" where
  "touch_pages binds m = foldl (\<lambda>m (p, node). m(p \<mapsto> 0)) m binds"

definition arena_weighted_mbind ::
    "kernel_env \<Rightarrow> heap_env \<Rightarrow> (nat \<Rightarrow> 'r option) \<Rightarrow> 'r random_r \<Rightarrow> nat \<Rightarrow> nat \<Rightarrow> nat \<Rightarrow> nat list \<Rightarrow>
     (nat \<times> nat) list res" where
  "arena_weighted_mbind os h initstate_r random_r page_size arena arena_size weights =
     (if \<not> malloc_ok h (length weights * 8) then Inl (Exit 1)
      else rbind (rng_init h initstate_r 1) (\<lambda>s.
        let cs = weights_cumsum weights; pages = (arena_size + page_size - 1) div page_size in
        rbind (for_range pages (\<lambda>i. place_page os random_r cs page_size (arena + i * page_size)) (s, []))
          (\<lambda>(s, placed). Inr placed)))"

lemma length_cumsum [simp]: "length (cumsum c ws) = length ws"
  by (induction c ws rule: cumsum.induct) auto

lemma cumsum_last: "ws \<noteq> [] \<Longrightarrow> last (cumsum c ws) = c + int (sum_list ws)"
proof (induction c ws rule: cumsum.induct)
  case (2 c w ws)
  then show ?case by (cases ws) auto
qed simp

lemma pick_node_cumsum:
  assumes "int r \<le> c + int (sum_list ws)" and "c < int r"
  shows "pick_node (cumsum c ws) r < length ws \<and>
    (pick_node (cumsum c ws) r = n \<longleftrightarrow>
      n < length ws \<and> c + int (sum_list (take n ws)) < int r \<and> int r \<le> c + int (sum_list (take (Suc n) ws)))"
  using assms
proof (induction c ws arbitrary: n rule: cumsum.induct)
  case (2 c w ws)
  show ?case
  proof (cases "int r \<le> c + int w")
    case True
    then have "n = 0" if "c + int (sum_list (take n (w # ws))) < int r" "n < length (w # ws)"
      using that by (cases n) auto
    then show ?thesis using True 2(3) by auto
  next
    case False
    then have IH: "pick_node (cumsum (c + int w) ws) r < length ws"
      "\<And>n. pick_node (cumsum (c + int w) ws) r = n \<longleftrightarrow> n < length ws \<and>
        c + int w + int (sum_list (take n ws)) < int r \<and> int r \<le> c + int w + int (sum_list (take (Suc n) ws))"
      using 2 by auto
    show ?thesis
    proof (cases n)
      case 0
      then show ?thesis using False IH(1) by auto
    next
      case (Suc n')
      then show ?thesis using False IH(1) IH(2)[of n'] by auto
    qed
  qed
qed simp

text \<open>Of the random numbers below the sum of the weights, exactly weight n of them
  choose node n in arena_weighted_mbind.\<close>
theorem node_gets_its_weight:
  assumes "n < length weights"
  shows "card {r. r < sum_list weights \<and> pick_node (weights_cumsum weights) r = n} = weights ! n"
proof -
  let ?lo = "sum_list (take n weights)"
  have hi: "sum_list (take (Suc n) weights) = ?lo + weights ! n"
    using assms by (simp add: take_Suc_conv_app_nth)
  have "?lo + weights ! n + sum_list (drop (Suc n) weights) = sum_list weights"
    by (metis append_take_drop_id hi sum_list_append)
  then have le: "?lo + weights ! n \<le> sum_list weights" by linarith
  have iff: "pick_node (weights_cumsum weights) r = n \<longleftrightarrow> ?lo \<le> r \<and> r < ?lo + weights ! n"
    if "r < sum_list weights" for r
    using pick_node_cumsum[of r "-1" weights n] that assms hi by (auto simp: weights_cumsum_def)
  then have "{r. r < sum_list weights \<and> pick_node (weights_cumsum weights) r = n} = {?lo..<?lo + weights ! n}"
  proof (intro set_eqI)
    fix r show "r \<in> {r. r < sum_list weights \<and> pick_node (weights_cumsum weights) r = n} \<longleftrightarrow>
        r \<in> {?lo..<?lo + weights ! n}"
      using iff[of r] le by (cases "r < sum_list weights") simp_all
  qed
  then show ?thesis by simp
qed

text \<open>Every page of the arena is bound to a node that has a weight, as long as no node from 31 on has one.\<close>
theorem weighted_mbind_places:
  assumes sum: "0 < sum_list weights" and nodes: "\<forall>n<length weights. 31 \<le> n \<longrightarrow> weights ! n = 0"
    and "malloc_serves h (length weights * 8 + 48)" and "initstate_r 1 = Some s" and "rng_ok random_r s"
    and "\<forall>p n. mbind_ok os p page_size (2 ^ n)"
  shows "\<exists>binds. arena_weighted_mbind os h initstate_r random_r page_size arena arena_size weights = Inr binds \<and>
    map fst binds = map (\<lambda>i. arena + i * page_size) [0..<(arena_size + page_size - 1) div page_size] \<and>
    (\<forall>(p, n)\<in>set binds. n < length weights \<and> 0 < weights ! n)"
proof -
  define pages where "pages = (arena_size + page_size - 1) div page_size"
  have ne: "weights \<noteq> []" using sum by auto
  let ?cs = "weights_cumsum weights"
  have cs: "nat (last ?cs + 1) = sum_list weights"
    using ne by (simp add: weights_cumsum_def cumsum_last)
  let ?I = "\<lambda>k st. rng_ok random_r (fst st) \<and> map fst (snd st) = map (\<lambda>i. arena + i * page_size) [0..<k] \<and>
    (\<forall>(p, n)\<in>set (snd st). n < length weights \<and> 0 < weights ! n)"
  have step: "wp (\<lambda>_. False) (?I (Suc k)) (place_page os random_r ?cs page_size (arena + k * page_size) st)"
    if I: "?I k st" for k st
  proof -
    obtain s placed where st: "st = (s, placed)" by force
    have lim: "W64 - 2 ^ 31 < 2 ^ 64 - 1" by (simp add: W64_def)
    obtain t s' where t: "rng_int random_r (W64 - 2 ^ 31) s = Inr (t, s')" "rng_ok random_r s'"
      using rng_int_wp[of "W64 - 2 ^ 31" random_r s] I st lim
      by (cases "rng_int random_r (W64 - 2 ^ 31) s") (auto simp: W64_def)
    define r where "r = t mod sum_list weights"
    have r: "r < sum_list weights" using sum by (simp add: r_def)
    let ?n = "pick_node ?cs r"
    have n: "?n < length weights" "sum_list (take ?n weights) \<le> r" "r < sum_list (take (Suc ?n) weights)"
      using pick_node_cumsum[of r "-1" weights ?n] r by (auto simp: weights_cumsum_def)
    then have pos: "0 < weights ! ?n" by (simp add: take_Suc_conv_app_nth)
    then have "?n < 31" using nodes n(1) by (metis not_le less_numeral_extra(3))
    then have "place_page os random_r ?cs page_size (arena + k * page_size) st =
        Inr (s', placed @ [(arena + k * page_size, ?n)])"
      using sum assms(6) t(1) by (simp add: place_page_def st cs r_def)
    then show ?thesis using I st t(2) n(1) pos by simp
  qed
  have "wp (\<lambda>_. False) (?I pages)
      (for_range pages (\<lambda>i. place_page os random_r ?cs page_size (arena + i * page_size)) (s, []))"
    by (rule wp_for_rangeI[where I = ?I]) (use assms(5) step in auto)
  then obtain s' binds where run:
    "for_range pages (\<lambda>i. place_page os random_r ?cs page_size (arena + i * page_size)) (s, []) = Inr (s', binds)"
    "?I pages (s', binds)"
    by (auto simp: wp_total)
  have "rng_init h initstate_r 1 = Inr s" "malloc_ok h (length weights * 8)"
    using assms(3,4) by (simp_all add: rng_init_def RNG_BUF_SIZE_def malloc_serves_def)
  then show ?thesis
    using run unfolding arena_weighted_mbind_def pages_def by (auto simp: Let_def)
qed

text \<open>With all weights 0 the first page ends in a remainder by 0.\<close>
theorem weighted_mbind_without_weights:
  assumes "sum_list weights = 0" and "weights \<noteq> []" and "malloc_serves h (length weights * 8 + 48)"
    and "initstate_r 1 = Some s" and "rng_ok random_r s" and "0 < page_size" and "0 < arena_size"
  shows "arena_weighted_mbind os h initstate_r random_r page_size arena arena_size weights = Inl DivByZero"
proof -
  let ?cs = "weights_cumsum weights" and ?pages = "(arena_size + page_size - 1) div page_size"
  have cs: "nat (last ?cs + 1) = 0"
    using assms(1,2) by (simp add: weights_cumsum_def cumsum_last)
  obtain t s' where t: "rng_int random_r (W64 - 2 ^ 31) s = Inr (t, s')"
    using rng_int_wp[of "W64 - 2 ^ 31" random_r s] assms(5)
    by (cases "rng_int random_r (W64 - 2 ^ 31) s") (auto simp: W64_def)
  have "0 < ?pages" using assms(6,7) by (simp add: div_greater_zero_iff)
  then obtain n where n: "?pages = Suc n" by (metis gr0_conv_Suc)
  have "for_range (Suc n) (\<lambda>i. place_page os random_r ?cs page_size (arena + i * page_size)) (s, []) = Inl DivByZero"
    unfolding for_range_def using t by (simp add: upt_conv_Cons place_page_def cs mod64_def del: upt_Suc)
  moreover have "rng_init h initstate_r 1 = Inr s" "malloc_ok h (length weights * 8)"
    using assms(3,4) by (simp_all add: rng_init_def RNG_BUF_SIZE_def malloc_serves_def)
  ultimately show ?thesis unfolding arena_weighted_mbind_def Let_def n by simp
qed

subsection \<open>Files under /sys\<close>

text \<open>\<open>fscanf("%ms")\<close>: the words between white space.\<close>

fun words_of :: "string \<Rightarrow> string \<Rightarrow> string list" where
  "words_of w [] = (if w = [] then [] else [w])"
| "words_of w (c # s) =
     (if is_space c then (if w = [] then words_of [] s else w # words_of [] s)
      else words_of (w @ [c]) s)"

text \<open>The first word that starts with a bracket; NULL when there is none.\<close>

definition read_sysfs_state_file :: "kernel_env \<Rightarrow> string \<Rightarrow> string option res" where
  "read_sysfs_state_file os path =
     (case sysfs os path of
        None \<Rightarrow> Inl (Exit 1)
      | Some content \<Rightarrow> Inr (find (\<lambda>w. hd w = CHR ''['') (words_of [] content)))"

text \<open>The result is the list of writes so far.\<close>

definition write_sysfs_file ::
    "kernel_env \<Rightarrow> string \<Rightarrow> string \<Rightarrow> (string \<times> string) list \<Rightarrow> (string \<times> string) list res" where
  "write_sysfs_file os path v writes =
     (if sysfs_write_ok os path then Inr (writes @ [(path, v)]) else Inl (Exit 1))"

definition thp_enabled :: string where
  "thp_enabled = ''/sys/kernel/mm/transparent_hugepage/enabled''"

definition thp_defrag :: string where
  "thp_defrag = ''/sys/kernel/mm/transparent_hugepage/defrag''"

text \<open>\<open>strcmp\<close> on the NULL of a file without a bracketed word is undefined.\<close>

definition check_thp_state :: "kernel_env \<Rightarrow> (string \<times> string) list res" where
  "check_thp_state os =
     rbind (read_sysfs_state_file os thp_enabled) (\<lambda>enabled.
     rbind (read_sysfs_state_file os thp_defrag) (\<lambda>defrag.
     case enabled of None \<Rightarrow> Inl Undefined | Some enabled \<Rightarrow>
     rbind (if enabled \<noteq> ''[always]'' \<and> enabled \<noteq> ''[madvise]''
            then write_sysfs_file os thp_enabled ''madvise'' [] else Inr []) (\<lambda>writes.
     case defrag of None \<Rightarrow> Inl Undefined | Some defrag \<Rightarrow>
     if defrag \<noteq> ''[always]'' \<and> defrag \<noteq> ''[defer+madvise]'' \<and> defrag \<noteq> ''[madvise]''
     then write_sysfs_file os thp_defrag ''madvise'' writes else Inr writes)))"

text \<open>What a state file holds: words separated by blanks, the current one in brackets.\<close>

definition plain_word :: "string \<Rightarrow> bool" where
  "plain_word w \<longleftrightarrow> w \<noteq> [] \<and> (\<forall>c\<in>set w. \<not> is_space c)"

fun unwords :: "string list \<Rightarrow> string" where
  "unwords [] = [CHR 0x0A]"
| "unwords (w # ws) = w @ (if ws = [] then [CHR 0x0A] else CHR '' '' # unwords ws)"

lemma words_of_word:
  assumes "\<forall>c\<in>set w. \<not> is_space c" and "is_space c" and "v @ w \<noteq> []"
  shows "words_of v (w @ c # s) = (v @ w) # words_of [] s"
  using assms
proof (induction w arbitrary: v)
  case (Cons b w)
  then show ?case using Cons.IH[of "v @ [b]"] by simp
qed auto

lemma words_of_unwords:
  assumes "\<forall>w\<in>set ws. plain_word w"
  shows "words_of [] (unwords ws) = ws"
  using assms
proof (induction ws)
  case Nil
  then show ?case by (simp add: is_space_def)
next
  case (Cons w ws)
  have "is_space CHR 0x0A" "is_space CHR '' ''" by (simp_all add: is_space_def)
  then show ?case
    using Cons words_of_word[of w _ "[]"] by (auto simp: plain_word_def)
qed

text \<open>The state word in brackets is read back from a state file, whatever words stand around it.\<close>
theorem state_file_roundtrip:
  assumes "sysfs os path = Some (unwords (ws @ (''['' @ w @ '']'') # vs))"
    and "\<forall>v\<in>set (ws @ vs). plain_word v" and "\<forall>v\<in>set ws. hd v \<noteq> CHR ''[''" and "plain_word w"
  shows "read_sysfs_state_file os path = Inr (Some (''['' @ w @ '']''))"
proof -
  let ?b = "''['' @ w @ '']''"
  have "\<not> is_space CHR ''[''" "\<not> is_space CHR '']''" by (simp_all add: is_space_def)
  then have "plain_word ?b" using assms(4) by (simp add: plain_word_def)
  then have "words_of [] (unwords (ws @ ?b # vs)) = ws @ ?b # vs"
    using assms(2) by (intro words_of_unwords) auto
  moreover have "find (\<lambda>w. hd w = CHR ''['') (us @ ?b # vs) = Some ?b"
    if "\<forall>v\<in>set us. hd v \<noteq> CHR ''[''" for us
    using that by (induction us) auto
  ultimately show ?thesis using assms(1,3) by (simp add: read_sysfs_state_file_def)
qed

subsection \<open>The arena\<close>

definition MAP_SHARED :: nat where
  "MAP_SHARED = 1"

definition MAP_PRIVATE :: nat where
  "MAP_PRIVATE = 2"

definition MAP_ANONYMOUS :: nat where
  "MAP_ANONYMOUS = 0x20"

record arena_request =
  req_page_size :: nat
  req_thp :: bool
  req_size :: nat
  req_fd :: int

text \<open>\<open>(arena_size + pagemask) & ~pagemask\<close>.\<close>

definition round_to_page :: "nat \<Rightarrow> nat \<Rightarrow> nat" where
  "round_to_page page_size n =
     (let pagemask = sub64 page_size 1 in
      unat ((of_nat (add64 n pagemask) :: 64 word) AND NOT (of_nat pagemask)))"

text \<open>
  The result is the arena, its mapped size, the writes to the THP configuration and the pages
  bound to nodes; \<open>weights\<close> is None without \<open>-W\<close>, \<open>call\<close> is the number of the call of \<open>mmap\<close>. A failing
  \<open>madvise\<close> is only reported.
\<close>

definition alloc_arena_mmap ::
    "kernel_env \<Rightarrow> nat \<Rightarrow> heap_env \<Rightarrow> (nat \<Rightarrow> 'r option) \<Rightarrow> 'r random_r \<Rightarrow> nat list option \<Rightarrow> arena_request \<Rightarrow>
     (nat \<times> nat \<times> (string \<times> string) list \<times> (nat \<times> nat) list) res" where
  "alloc_arena_mmap os call h initstate_r random_r weights rq =
     (let anon = (req_fd rq = -1) in
      rbind (if anon then rbind (get_page_size_flags os (req_page_size rq))
               (\<lambda>fl. Inr (MAP_PRIVATE OR MAP_ANONYMOUS OR fl)) else Inr MAP_SHARED) (\<lambda>flags.
      let arena_size = round_to_page (req_page_size rq) (req_size rq) in
      case mmap_at os call arena_size flags (req_fd rq) of
        None \<Rightarrow> Inl (Exit 1)
      | Some arena \<Rightarrow>
          rbind (if req_thp rq \<and> anon then check_thp_state os else Inr []) (\<lambda>writes.
          rbind (page_size_is_huge os (req_page_size rq)) (\<lambda>huge.
          rbind (if \<not> huge \<and> anon then Inr () else if req_thp rq then Inl (Exit 1) else Inr ()) (\<lambda>_.
          rbind (case weights of None \<Rightarrow> Inr []
                 | Some ws \<Rightarrow> arena_weighted_mbind os h initstate_r random_r (req_page_size rq) arena arena_size ws)
            (\<lambda>binds. Inr (arena, arena_size, writes, binds)))))))"

definition make_buffer_executable :: "kernel_env \<Rightarrow> nat \<Rightarrow> nat \<Rightarrow> unit res" where
  "make_buffer_executable os buf len = (if mprotect_ok os buf len then Inr () else Inl (Exit 1))"

lemma and_not_mask: "(w :: 64 word) AND NOT (mask k) = push_bit k (drop_bit k w)"
  by (rule bit_word_eqI) (auto simp: bit_simps)

lemma round_to_page_pow2:
  assumes "k < 64" and "n + 2 ^ k \<le> W64"
  shows "round_to_page (2 ^ k) n = (n + (2 ^ k - 1)) div 2 ^ k * 2 ^ k"
proof -
  have pow: "(2 :: nat) ^ k < W64" using assms(1) unfolding W64_def by (rule power_strict_increasing) simp
  have mask: "sub64 (2 ^ k) 1 = 2 ^ k - 1" using pow by (simp add: sub64_exact)
  let ?s = "n + (2 ^ k - 1)"
  have s: "?s < W64" using assms(2) zero_less_power[of "2 :: nat" k] by linarith
  have sum: "add64 n (2 ^ k - 1) = ?s" using s by (rule add64_exact)
  have "(of_nat (2 ^ k - 1) :: 64 word) = mask k"
    by (metis mask_eq_exp_minus_1 of_nat_mask_eq)
  then have "round_to_page (2 ^ k) n = unat (push_bit k (drop_bit k (of_nat ?s :: 64 word)))"
    unfolding round_to_page_def Let_def mask sum by (simp only: and_not_mask)
  also have "\<dots> = take_bit 64 (?s div 2 ^ k * 2 ^ k)"
    unfolding unsigned_push_bit_eq unsigned_drop_bit_eq
    using s by (simp add: push_bit_eq_mult drop_bit_eq_div unat_of_nat W64_def take_bit_nat_eq_self)
  also have "\<dots> = ?s div 2 ^ k * 2 ^ k"
  proof (rule take_bit_nat_eq_self)
    have "?s div 2 ^ k * 2 ^ k \<le> ?s" by simp
    then show "?s div 2 ^ k * 2 ^ k < 2 ^ 64" using s unfolding W64_def by (rule le_less_trans)
  qed
  finally show ?thesis .
qed

lemma alloc_arena_pages:
  assumes "req_page_size rq = 2 ^ k" and "k < 32" and "req_size rq + 2 ^ k \<le> 2 ^ 64"
    and "req_fd rq = -1" and "\<not> req_thp rq" and "page_size_conf os = int native"
    and "\<And>fl. mmap_at os call (round_to_page (2 ^ k) (req_size rq)) fl (-1) = Some a"
  shows "alloc_arena_mmap os call h initstate_r random_r None rq =
      Inr (a, round_to_page (2 ^ k) (req_size rq), [], [])"
    and "req_size rq \<le> round_to_page (2 ^ k) (req_size rq)"
    and "round_to_page (2 ^ k) (req_size rq) < req_size rq + 2 ^ k"
    and "2 ^ k dvd round_to_page (2 ^ k) (req_size rq)"
proof -
  let ?len = "round_to_page (2 ^ k) (req_size rq)"
  have len: "?len = (req_size rq + (2 ^ k - 1)) div 2 ^ k * 2 ^ k"
    using assms(2,3) by (intro round_to_page_pow2) (simp_all add: W64_def)
  have split: "req_size rq + (2 ^ k - 1) = ?len + (req_size rq + (2 ^ k - 1)) mod 2 ^ k"
    unfolding len by (rule div_mult_mod_eq[symmetric])
  have "(req_size rq + (2 ^ k - 1)) mod 2 ^ k < 2 ^ k" by simp
  then show "req_size rq \<le> ?len" "?len < req_size rq + 2 ^ k" using split by linarith+
  have "(2 :: nat) ^ k < 2 ^ 32" using assms(2) by (intro power_strict_increasing) auto
  then obtain fl where "get_page_size_flags os (2 ^ k) = Inr fl"
    using page_size_flags[OF assms(6), of "2 ^ k"] by auto
  then show "alloc_arena_mmap os call h initstate_r random_r None rq = Inr (a, ?len, [], [])"
    using assms by (simp add: alloc_arena_mmap_def Let_def page_size_is_huge_def get_native_page_size_def)
  show "2 ^ k dvd ?len" unfolding len by simp
qed

text \<open>Whatever its page size, flags and weights: an anonymous mapping that succeeds has a page size that is a power
  of two, and covers the request.\<close>

lemma alloc_arena_length:
  assumes "alloc_arena_mmap os call h initstate_r random_r weights rq = Inr (a, len, writes, binds)"
    and "req_fd rq = -1" and "0 < req_size rq" and "req_size rq + req_page_size rq \<le> 2 ^ 64"
  shows "len = round_to_page (req_page_size rq) (req_size rq)" and "req_size rq \<le> len"
    and "\<exists>k. req_page_size rq = 2 ^ k"
proof -
  obtain fl where fl: "get_page_size_flags os (req_page_size rq) = Inr fl"
    using assms(1,2) by (cases "get_page_size_flags os (req_page_size rq)") (simp_all add: alloc_arena_mmap_def)
  let ?flags = "MAP_PRIVATE OR MAP_ANONYMOUS OR fl" and ?len = "round_to_page (req_page_size rq) (req_size rq)"
  have "\<exists>a. mmap_at os call ?len ?flags (-1) = Some a"
    using assms(1,2) fl by (cases "mmap_at os call ?len ?flags (-1)") (simp_all add: alloc_arena_mmap_def Let_def)
  then have len: "len = ?len"
    using assms(1,2) fl by (auto simp: alloc_arena_mmap_def Let_def rbind_Inr)
  have "0 < req_page_size rq" "req_page_size rq AND (req_page_size rq - 1) = 0"
    using fl by (auto simp: get_page_size_flags_def split: if_splits)
  then obtain k where k: "req_page_size rq = 2 ^ k" using power_of_two_check by blast
  then have "(2 :: nat) ^ k < 2 ^ 64" using assms(3,4) by linarith
  then have k64: "k < 64" by (rule power_less_imp_less_exp[rotated]) simp
  show "len = round_to_page (req_page_size rq) (req_size rq)" by (rule len)
  have "req_size rq + (2 ^ k - 1) = (req_size rq + (2 ^ k - 1)) div 2 ^ k * 2 ^ k + (req_size rq + (2 ^ k - 1)) mod 2 ^ k"
    by (rule div_mult_mod_eq[symmetric])
  moreover have "(req_size rq + (2 ^ k - 1)) mod 2 ^ k < 2 ^ k" by simp
  ultimately have "req_size rq \<le> (req_size rq + (2 ^ k - 1)) div 2 ^ k * 2 ^ k" by linarith
  then show "req_size rq \<le> len"
    using round_to_page_pow2[OF k64, of "req_size rq"] assms(4) by (simp add: len k W64_def)
  show "\<exists>k. req_page_size rq = 2 ^ k" using k by blast
qed

text \<open>Alloc_arena_mmap with a power-of-two page size maps a multiple of the page size
  that covers the request and is less than a page longer.\<close>
theorem alloc_arena_covers:
  assumes "req_page_size rq = 2 ^ k" and "k < 32" and "req_size rq + 2 ^ k \<le> 2 ^ 64"
    and "req_fd rq = -1" and "\<not> req_thp rq" and "page_size_conf os = int native"
    and "\<forall>len fl. mmap_at os call len fl (-1) = Some a"
  shows "\<exists>len. alloc_arena_mmap os call h initstate_r random_r None rq = Inr (a, len, [], []) \<and>
    req_size rq \<le> len \<and> len < req_size rq + 2 ^ k \<and> 2 ^ k dvd len"
  using alloc_arena_pages[OF assms(1-6)] assms(7) by blast

text \<open>
  \<open>mprotect\<close> refuses an address that is no multiple of the page size, so a branch chase with such
  an offset \<open>-O\<close> ends before it starts.
\<close>

definition mprotect_wants_pages :: "kernel_env \<Rightarrow> nat \<Rightarrow> bool" where
  "mprotect_wants_pages os native \<longleftrightarrow> (\<forall>a n. mprotect_ok os a n \<longrightarrow> native dvd a)"

text \<open>\<open>mprotect\<close> refuses an arena whose offset is no multiple of the page size, and the program exits.\<close>
theorem branch_chase_needs_aligned_offset:
  assumes "mprotect_wants_pages os native" and "native dvd a" and "\<not> native dvd off"
  shows "make_buffer_executable os (a + off) len = Inl (Exit 1)"
  using assms by (auto simp: make_buffer_executable_def mprotect_wants_pages_def dvd_add_right_iff)

subsection \<open>A small system\<close>

definition linux :: kernel_env where
  "linux = \<lparr>page_size_conf = 4096, mmap_at = (\<lambda>call len fl fd. Some 65536),
     madvise_ok = True, mbind_ok = (\<lambda>a n mask. True), mprotect_ok = (\<lambda>a n. 4096 dvd a),
     sysfs = (\<lambda>path. Some (unwords [''always'', ''[madvise]'', ''never''])), sysfs_write_ok = (\<lambda>_. False)\<rparr>"


theorem page_size_flags_witness: "get_page_size_flags linux (2 ^ 21) = Inr (0x40000 OR 21 * 2 ^ 26)"
proof -
  have "\<exists>k. (2 :: nat) ^ 21 = 2 ^ k" by blast
  then show ?thesis
    using page_size_flags[of linux 4096 "2 ^ 21"] log_loop_pow2[of 21 0] by (simp add: linux_def)
qed

theorem node_gets_its_weight_witness:
  "card {r. r < 100 \<and> pick_node (weights_cumsum [10, 90]) r = 1} = 90"
  using node_gets_its_weight[of 1 "[10, 90]"] by simp

definition next_draw :: "nat random_r" where
  "next_draw s = Some (of_nat s, Suc s)"

lemma next_draw_ok: "rng_ok next_draw s"
  by (rule rng_ok_total) (simp add: next_draw_def)

definition free_heap :: heap_env where
  "free_heap = \<lparr>malloc_ok = (\<lambda>_. True), junk = (\<lambda>_. 0)\<rparr>"

lemma free_heap_serves: "malloc_serves free_heap b"
  by (simp add: malloc_serves_def free_heap_def)

theorem weighted_mbind_places_witness:
  "\<exists>binds. arena_weighted_mbind linux free_heap Some next_draw 4096 65536 8192 [10, 90] = Inr binds \<and>
    map fst binds = [65536, 65536 + 4096]"
proof -
  have "\<forall>n<length [10, 90 :: nat]. 31 \<le> n \<longrightarrow> [10, 90] ! n = 0" by auto
  from weighted_mbind_places[OF _ this free_heap_serves, of Some 1 next_draw linux 4096 65536 8192]
    next_draw_ok
  show ?thesis by (auto simp: linux_def upt_rec)
qed

theorem weighted_mbind_without_weights_witness:
  "arena_weighted_mbind linux free_heap Some next_draw 4096 65536 8192 [0, 0] = Inl DivByZero"
  using weighted_mbind_without_weights[of "[0, 0]" free_heap Some 1 next_draw 4096 8192 linux 65536]
  by (simp add: free_heap_serves next_draw_ok)

theorem state_file_roundtrip_witness:
  "read_sysfs_state_file linux thp_enabled = Inr (Some ''[madvise]'')"
  using state_file_roundtrip[of linux thp_enabled "[''always'']" "''madvise''" "[''never'']"]
  by (simp add: linux_def plain_word_def is_space_def)

theorem alloc_arena_covers_witness:
  "\<exists>len. alloc_arena_mmap linux 0 free_heap Some next_draw None
      \<lparr>req_page_size = 2 ^ 12, req_thp = False, req_size = 5000, req_fd = -1\<rparr> = Inr (65536, len, [], []) \<and>
    5000 \<le> len \<and> 2 ^ 12 dvd len"
  using alloc_arena_covers[of "\<lparr>req_page_size = 2 ^ 12, req_thp = False, req_size = 5000, req_fd = -1\<rparr>"
      12 linux 4096 0 65536 free_heap Some next_draw]
  by (auto simp: linux_def)

theorem branch_chase_needs_aligned_offset_witness:
  "make_buffer_executable linux (65536 + 64) 4096 = Inl (Exit 1)"
  using branch_chase_needs_aligned_offset[of linux 4096 65536 64 4096]
  by (simp add: linux_def mprotect_wants_pages_def)

subsection \<open>print_page_size\<close>

text \<open>
  The text on the standard output. \<open>hpage_pmd_size\<close> is the file of the kernel (None when it cannot
  be opened), of which at most 21 characters are read; the reports of \<open>perror\<close> are left out.
\<close>

definition print_page_size :: "string option \<Rightarrow> bool \<Rightarrow> nat \<Rightarrow> bool \<Rightarrow> string res" where
  "print_page_size hpage_pmd_size fclose_ok page_size use_thp =
     (if \<not> use_thp then Inr (''page_size = '' @ numeral_string 10 page_size @ '' bytes'' @ [CHR 0x0A])
      else case hpage_pmd_size of
        None \<Rightarrow> Inr []
      | Some file \<Rightarrow>
          if 21 \<le> length file \<or> \<not> fclose_ok then Inr []
          else if file = [] then Inl OutOfBounds
          else let buf = (if last file = CHR 0x0A then butlast file else file) in
            Inr (''page_size = '' @ takeWhile (\<lambda>c. c \<noteq> CHR 0x00) buf @ '' bytes (THP)'' @ [CHR 0x0A]))"

text \<open>A number that the kernel writes with a line end is printed as it is; an empty file is read before
  its start.\<close>

lemma print_page_size_of_kernel:
  assumes "n < 10 ^ 19"
  shows "print_page_size (Some (numeral_string 10 n @ [CHR 0x0A])) True p True =
    Inr (''page_size = '' @ numeral_string 10 n @ '' bytes (THP)'' @ [CHR 0x0A])"
    and "print_page_size (Some []) True p True = Inl OutOfBounds"
proof -
  have len: "length (numeral_string 10 n) \<le> k" if "n < 10 ^ k" "0 < k" for n k
    using that
  proof (induction k arbitrary: n)
    case (Suc k)
    show ?case
    proof (cases "n < 10")
      case False
      then have "0 < k" using Suc.prems(1) by (cases k) simp_all
      moreover have "n div 10 < 10 ^ k" using Suc.prems(1) by (simp add: less_mult_imp_div_less mult.commute)
      ultimately show ?thesis using Suc.IH[of "n div 10"] False by (subst numeral_string.simps) simp
    qed (subst numeral_string.simps, simp)
  qed simp
  have "c \<noteq> CHR 0x00" if c: "c \<in> set (numeral_string 10 n)" for c
  proof -
    obtain d where "d < 10" "c = digit_char d" using numeral_string_digits(2)[of 10 n] c by auto
    then have "of_char c \<noteq> (of_char CHR 0x00 :: nat)" by (simp add: digit_char_def)
    then show ?thesis by metis
  qed
  then have "takeWhile (\<lambda>c. c \<noteq> CHR 0x00) (numeral_string 10 n) = numeral_string 10 n" by simp
  then show "print_page_size (Some (numeral_string 10 n @ [CHR 0x0A])) True p True =
    Inr (''page_size = '' @ numeral_string 10 n @ '' bytes (THP)'' @ [CHR 0x0A])"
    using len[of n 19] assms by (simp add: print_page_size_def)
qed (simp add: print_page_size_def)

end
