(* ===== verification/Memload.thy ===== *)
theory Memload
  imports Memory
begin

text \<open>
  The memory loads of \<open>multiload.c\<close>. Each is an endless loop whose body moves a buffer once
  (a round); here a round is a function of the pointers the loop keeps and the memory. What follows
  the body in the loop, the hand-over of the measured bandwidth, is in \<open>Handshake\<close>. The sum of
  two doubles is a parameter, on their bit patterns.
\<close>

subsection \<open>Library calls and loops\<close>

text \<open>\<open>memcpy\<close> is undefined when the areas overlap; \<open>memset\<close> stores the low byte of its argument.\<close>

definition memcpy_bytes :: "mem \<Rightarrow> nat \<Rightarrow> nat \<Rightarrow> nat \<Rightarrow> mem res" where
  "memcpy_bytes m dst src n =
     (if dst < src + n \<and> src < dst + n then Inl Undefined
      else rbind (read_bytes m src n) (\<lambda>bs. write_bytes m dst bs))"

definition memset_bytes :: "mem \<Rightarrow> nat \<Rightarrow> nat \<Rightarrow> nat \<Rightarrow> mem res" where
  "memset_bytes m dst v n = write_bytes m dst (replicate n (of_nat v))"

text \<open>Word \<open>i\<close> of an array at \<open>p\<close>.\<close>

definition word_at :: "nat \<Rightarrow> nat \<Rightarrow> nat" where
  "word_at p i = add64 p (mul64 8 i)"

subsection \<open>memcpy and memset\<close>

definition load_memcpy_libc_start :: "nat \<Rightarrow> nat \<Rightarrow> nat \<times> nat \<times> nat \<times> nat" where
  "load_memcpy_libc_start load_arena load_total_memory =
     (let load_loop = load_total_memory div 2; load_bites = mul64 load_loop 2 in
      (load_loop, load_bites, load_arena, add64 load_arena load_loop))"

definition load_memcpy_libc :: "nat \<Rightarrow> nat \<times> nat \<times> mem \<Rightarrow> (nat \<times> nat \<times> mem) res" where
  "load_memcpy_libc load_loop s =
     (let (a, b, m) = s; tmp = a; a = b; b = tmp in
      rbind (memcpy_bytes m a b load_loop) (\<lambda>m. Inr (a, b, m)))"

definition load_memset_libc :: "nat \<Rightarrow> nat \<Rightarrow> mem \<Rightarrow> mem res" where
  "load_memset_libc load_total_memory a m = memset_bytes m a 0xdeadbeef (mul64 load_total_memory 1)"

definition load_memsetz_libc :: "nat \<Rightarrow> nat \<Rightarrow> mem \<Rightarrow> mem res" where
  "load_memsetz_libc load_total_memory a m = memset_bytes m a 0 (mul64 load_total_memory 1)"

subsection \<open>The stream loads\<close>

definition load_stream_copy_start :: "nat \<Rightarrow> nat \<Rightarrow> nat \<times> nat \<times> nat \<times> nat" where
  "load_stream_copy_start load_arena load_total_memory =
     (let load_loop = load_total_memory div 2; N = load_loop div 8; load_bites = mul64 (mul64 N 8) 2 in
      (N, load_bites, load_arena, word_at load_arena N))"

definition load_stream_copy :: "nat \<Rightarrow> nat \<times> nat \<times> mem \<Rightarrow> (nat \<times> nat \<times> mem) res" where
  "load_stream_copy N s =
     (let (a, b, m) = s; tmp = a; a = b; b = tmp in
      rbind (for_range N (\<lambda>i m. rbind (load64 m (word_at a i)) (\<lambda>v. store64 m (word_at b i) v)) m)
        (\<lambda>m. Inr (a, b, m)))"

text \<open>The state is \<open>s\<close> and \<open>use_result_dummy\<close>.\<close>

definition load_stream_sum :: "nat \<Rightarrow> nat \<Rightarrow> mem \<Rightarrow> nat \<times> nat \<Rightarrow> (nat \<times> nat) res" where
  "load_stream_sum load_total_memory a m st =
     (let (s, use_result_dummy) = st; N = load_total_memory div 8 in
      rbind (for_range N (\<lambda>i s. rbind (load64 m (word_at a i)) (\<lambda>v. Inr (add64 s v))) s) (\<lambda>s.
      Inr (s, add64 use_result_dummy s)))"

text \<open>\<open>x & ~msk\<close>\<close>

definition and_not64 :: "nat \<Rightarrow> nat \<Rightarrow> nat" where
  "and_not64 x msk = unat ((of_nat x :: 64 word) AND NOT (of_nat msk))"

definition LOOP_ALIGN :: nat where
  "LOOP_ALIGN = 16"

text \<open>The layout of both triad loads: \<open>N\<close>, \<open>load_bites\<close>, and the three arrays.\<close>

definition triad_start :: "nat \<Rightarrow> nat \<Rightarrow> nat \<times> nat \<times> nat \<times> nat \<times> nat" where
  "triad_start load_arena load_total_memory =
     (let load_loop = sub64 load_total_memory (3 * LOOP_ALIGN);
          load_loop = and_not64 (load_loop div 3) (LOOP_ALIGN - 1);
          N = load_loop div 8; load_bites = mul64 (mul64 N 8) 3;
          aa = and_not64 (add64 load_arena LOOP_ALIGN) LOOP_ALIGN;
          a = aa; b = word_at a N; c = word_at b N in
      (N, load_bites, a, b, c))"

definition triad_element :: "(nat \<Rightarrow> nat \<Rightarrow> nat) \<Rightarrow> nat \<Rightarrow> nat \<Rightarrow> nat \<Rightarrow> nat \<Rightarrow> mem \<Rightarrow> mem res" where
  "triad_element fplus a b c i m =
     rbind (load64 m (word_at b i)) (\<lambda>v.
     rbind (load64 m (word_at c i)) (\<lambda>w. store64 m (word_at a i) (fplus v w)))"

definition load_stream_triad ::
    "(nat \<Rightarrow> nat \<Rightarrow> nat) \<Rightarrow> nat \<Rightarrow> nat \<times> nat \<times> nat \<times> mem \<Rightarrow> (nat \<times> nat \<times> nat \<times> mem) res" where
  "load_stream_triad fplus N s =
     (let (a, b, c, m) = s; tmp = a; a = b; b = c; c = tmp in
      rbind (for_range N (triad_element fplus a b c) m) (\<lambda>m. Inr (a, b, c, m)))"

text \<open>The number of \<open>nop\<close> instructions that \<open>delay_until_iteration\<close> runs.\<close>

fun delay_until_iteration :: "nat \<Rightarrow> nat \<Rightarrow> nat" where
  "delay_until_iteration 0 nops = nops"
| "delay_until_iteration (Suc iteration) nops = delay_until_iteration iteration (nops + 1)"

definition NUM_ELEM_TWOCACHELINES :: nat where
  "NUM_ELEM_TWOCACHELINES = 64 div 8 * 2"

text \<open>\<open>for (i = 0; i < N; i += 2)\<close>; the state counts the \<open>nop\<close>s.\<close>

function injection_loop ::
    "nat \<Rightarrow> nat \<Rightarrow> nat \<Rightarrow> nat \<Rightarrow> nat \<Rightarrow> nat \<Rightarrow> nat \<times> mem \<Rightarrow> (nat \<times> mem) res" where
  "injection_loop delay N a b c i s =
     (if i < N then
        (let (nops, m) = s;
             nops = (if i mod NUM_ELEM_TWOCACHELINES = 0 then delay_until_iteration delay nops else nops) in
         rbind (triad_element add64 a b c i m) (\<lambda>m.
         rbind (triad_element add64 a b c (i + 1) m) (\<lambda>m.
         injection_loop delay N a b c (i + 2) (nops, m))))
      else Inr s)"
  by pat_completeness auto

termination
  by (relation "measure (\<lambda>(delay, N, a, b, c, i, s). N - i)") auto

declare injection_loop.simps [simp del]

definition load_stream_triad_nontemporal_injection_delay ::
    "nat \<Rightarrow> nat \<Rightarrow> nat \<times> nat \<times> nat \<times> nat \<times> mem \<Rightarrow> (nat \<times> nat \<times> nat \<times> nat \<times> mem) res" where
  "load_stream_triad_nontemporal_injection_delay delay N s =
     (let (nops, a, b, c, m) = s; tmp = a; a = b; b = c; c = tmp in
      rbind (injection_loop delay N a b c 0 (nops, m)) (\<lambda>(nops, m). Inr (nops, a, b, c, m)))"

subsection \<open>The layout of the triad arrays\<close>

lemma and_not64_eq:
  assumes "x < W64" and "k < W64"
  shows "and_not64 x k = x - (x AND k)"
proof -
  let ?w = "of_nat x :: 64 word" and ?m = "of_nat k :: 64 word"
  have x: "unat ?w = x" "unat ?m = k" using assms by (simp_all add: unat_of_nat W64_def)
  have "?w AND NOT ?m = ?w AND NOT (?w AND ?m)" by (rule bit_eqI) (auto simp: bit_simps)
  also have "\<dots> = ?w - (?w AND ?m)"
    by (rule disjunctive_diff[symmetric]) (simp add: bit_and_iff)
  finally have "unat (?w AND NOT ?m) = unat ?w - unat (?w AND ?m)"
    by (simp add: unat_sub word_and_le2)
  then show ?thesis by (simp only: and_not64_def x unsigned_and_eq)
qed

lemma and_not64_low: "x < W64 \<Longrightarrow> and_not64 x 15 = x - x mod 16"
  using and_not64_eq[of x 15] and_pow2_mask[of x 4] by (simp add: W64_def)

lemma and_not64_bit:
  assumes "x < W64"
  shows "and_not64 x 16 = (if even (x div 16) then x else x - 16)"
proof -
  have "x AND 16 = (if bit x 4 then 16 else 0)"
  proof (rule bit_eqI)
    have 16: "bit (16 :: nat) n \<longleftrightarrow> n = 4" for n using bit_exp_iff[of 4 n, where ?'a = nat] by simp
    show "bit (x AND 16) n = bit (if bit x 4 then 16 else 0 :: nat) n" for n
      by (auto simp: bit_and_iff 16)
  qed
  then show ?thesis
    using and_not64_eq[OF assms, of 16] by (auto simp: W64_def bit_iff_odd)
qed

lemma triad_start_eq:
  assumes "48 \<le> nbytes" and "arena + nbytes < W64"
  defines "N \<equiv> 2 * ((nbytes - 48) div 48)" and "aa \<equiv> (if even (arena div 16) then arena else arena + 16)"
  shows "triad_start arena nbytes = (N, 24 * N, aa, aa + 8 * N, aa + 16 * N)"
    and "arena \<le> aa" and "aa + 24 * N \<le> arena + nbytes" and "aa mod 16 = arena mod 16"
proof -
  let ?q = "(nbytes - 48) div 3"
  have w: "W64 = 2 ^ 64" by (simp add: W64_def)
  have N: "24 * N \<le> nbytes - 48"
    using times_div_less_eq_dividend[of 48 "nbytes - 48"] by (simp add: N_def)
  have "and_not64 ?q 15 = 16 * (?q div 16)"
    using and_not64_low[of ?q] assms(1,2) by (simp add: minus_mod_eq_mult_div)
  also have "?q div 16 = (nbytes - 48) div 48" by (simp add: div_mult2_eq[symmetric])
  finally have loop: "and_not64 ?q 15 = 8 * N" by (simp add: N_def)
  have "arena + 16 < W64" using assms by simp
  moreover have "(arena + 16) div 16 = Suc (arena div 16)" by simp
  ultimately have "and_not64 (arena + 16) 16 = aa"
    by (simp only: and_not64_bit aa_def even_Suc add_diff_cancel_right') simp
  moreover have aa: "arena \<le> aa" "aa \<le> arena + 16" by (simp_all add: aa_def)
  moreover have fit: "aa + 24 * N \<le> arena + nbytes" using N aa assms(1) by linarith
  ultimately show "triad_start arena nbytes = (N, 24 * N, aa, aa + 8 * N, aa + 16 * N)"
    using assms(1,2) loop
    by (simp add: triad_start_def LOOP_ALIGN_def word_at_def Let_def c_arith)
  show "arena \<le> aa" "aa + 24 * N \<le> arena + nbytes" by fact+
  show "aa mod 16 = arena mod 16" by (simp add: aa_def)
qed

text \<open>The three arrays of the stream-triad loads lie in the thread's buffer and have an even
  number of elements when the buffer has at least 48 bytes, and they start at the buffer's own
  alignment: the mask of LOOP_ALIGN clears a bit instead of aligning, whatever the comment says.\<close>
theorem triad_arrays_fit:
  assumes "48 \<le> nbytes" and "arena + nbytes < W64"
  shows "\<exists>N a b c. triad_start arena nbytes = (N, N * 24, a, b, c) \<and>
    even N \<and> nbytes < N * 24 + 96 \<and> arena \<le> a \<and> a + 8 * N = b \<and> b + 8 * N = c \<and>
    c + 8 * N \<le> arena + nbytes \<and> a mod 16 = arena mod 16"
proof -
  have "nbytes - 48 < 48 * ((nbytes - 48) div 48) + 48"
    using dividend_less_times_div[of 48 "nbytes - 48"] by simp
  then have "nbytes < 2 * ((nbytes - 48) div 48) * 24 + 96" using assms(1) by linarith
  then show ?thesis
    using triad_start_eq[OF assms] by (intro exI conjI) (assumption | simp)+
qed

subsection \<open>Loops over arrays\<close>

definition is_array :: "mem \<Rightarrow> nat \<Rightarrow> nat \<Rightarrow> bool" where
  "is_array m N p \<longleftrightarrow> p + 8 * N < W64 \<and> (\<forall>i<N. mapped m (word_at p i) 8)"

definition holds :: "mem \<Rightarrow> nat \<Rightarrow> nat \<Rightarrow> (nat \<Rightarrow> nat) \<Rightarrow> bool" where
  "holds m N p f \<longleftrightarrow> (\<forall>i<N. load64 m (word_at p i) = Inr (f i))"

definition arrays_apart :: "nat \<Rightarrow> nat \<Rightarrow> nat \<Rightarrow> bool" where
  "arrays_apart N p q \<longleftrightarrow> p + 8 * N \<le> q \<or> q + 8 * N \<le> p"

lemma word_at_eq: "is_array m N p \<Longrightarrow> i < N \<Longrightarrow> word_at p i = p + 8 * i"
  by (simp add: is_array_def word_at_def c_arith)

lemma words_apart:
  assumes "is_array m N p" "is_array m' N q" "arrays_apart N p q" "i < N" "j < N"
  shows "apart (word_at p i) (word_at q j)"
  using assms(3-5) by (auto simp: arrays_apart_def apart_def word_at_eq[OF assms(1)] word_at_eq[OF assms(2)])

lemma array_loop:
  assumes p: "is_array m N p" and vals: "\<And>i. i < N \<Longrightarrow> g i < W64"
    and body: "\<And>i s. i < N \<Longrightarrow> (\<And>x. (\<And>j. j < N \<Longrightarrow> apart (word_at p j) x) \<Longrightarrow> load64 s x = load64 m x) \<Longrightarrow>
      body i s = store64 s (word_at p i) (g i)"
  shows "\<exists>m'. for_range N body m = Inr m' \<and> holds m' N p g \<and>
    (\<forall>q. arrays_apart N p q \<longrightarrow> is_array m N q \<longrightarrow> (\<forall>f. holds m N q f \<longrightarrow> holds m' N q f)) \<and>
    (\<forall>q. is_array m' N q = is_array m N q)"
proof -
  let ?frame = "\<lambda>s. \<forall>x. (\<forall>j<N. apart (word_at p j) x) \<longrightarrow> load64 s x = load64 m x"
  let ?I = "\<lambda>k s. (\<forall>i<k. load64 s (word_at p i) = Inr (g i)) \<and> ?frame s \<and> (\<forall>x. mapped s x 8 = mapped m x 8)"
  have step: "wp (\<lambda>_. False) (?I (Suc k)) (body k s)" if k: "k < N" and I: "?I k s" for k s
  proof -
    have "mapped s (word_at p k) 8" using I p k by (simp add: is_array_def)
    then obtain s' where s': "store64 s (word_at p k) (g k) = Inr s'" using bytes.store_cell by blast
    have "apart (word_at p k) (word_at p i)" if "i < k" for i
      using that k by (simp add: apart_def word_at_eq[OF p])
    then have "load64 s' (word_at p i) = Inr (g i)" if "i < Suc k" for i
      using that I bytes.load_apart[OF s'] bytes.load_same[OF s' vals[OF k]] by (auto simp: less_Suc_eq)
    moreover have "?frame s'" using I bytes.load_apart[OF s'] k by simp
    moreover have "mapped s' x 8 = mapped m x 8" for x using I bytes.cell_kept[OF s'] by simp
    moreover have "body k s = Inr s'" using body[OF k, of s] I s' by simp
    ultimately show ?thesis by simp
  qed
  have "wp (\<lambda>_. False) (?I N) (for_range N body m)"
    by (rule wp_for_range) (simp, rule step)
  then obtain m' where m': "for_range N body m = Inr m'" "?I N m'"
    by (cases "for_range N body m") auto
  have kept: "is_array m' N q = is_array m N q" for q using m'(2) by (simp add: is_array_def)
  moreover have "holds m' N q f" if "arrays_apart N p q" "is_array m N q" "holds m N q f" for q f
    using m'(2) that words_apart[OF p that(2,1)] by (simp add: holds_def)
  ultimately show ?thesis using m' by (auto simp: holds_def)
qed

subsection \<open>The triad\<close>

lemma triad_round:
  assumes arr: "is_array m N a" "is_array m N b" "is_array m N c"
    and ap: "arrays_apart N b c" "arrays_apart N b a"
    and x: "holds m N c x" "holds m N a y" and plus: "\<And>v w. fplus v w < W64"
  shows "\<exists>m'. load_stream_triad fplus N (a, b, c, m) = Inr (b, c, a, m') \<and>
    holds m' N b (\<lambda>i. fplus (x i) (y i)) \<and> holds m' N c x \<and> holds m' N a y \<and>
    (\<forall>q. is_array m' N q = is_array m N q)"
proof -
  have body: "triad_element fplus b c a i s = store64 s (word_at b i) (fplus (x i) (y i))"
    if "i < N" "\<And>z. (\<And>j. j < N \<Longrightarrow> apart (word_at b j) z) \<Longrightarrow> load64 s z = load64 m z" for i s
    using that(1) that(2)[of "word_at c i"] that(2)[of "word_at a i"] x
      words_apart[OF arr(2,3) ap(1)] words_apart[OF arr(2,1) ap(2)]
    by (simp add: triad_element_def holds_def)
  obtain m' where "for_range N (triad_element fplus b c a) m = Inr m'"
    "holds m' N b (\<lambda>i. fplus (x i) (y i))" "holds m' N c x" "holds m' N a y"
    "\<forall>q. is_array m' N q = is_array m N q"
    using array_loop[of m N b "\<lambda>i. fplus (x i) (y i)" "triad_element fplus b c a", OF arr(2) plus body]
      ap arr x by blast
  then show ?thesis by (simp add: load_stream_triad_def)
qed

text \<open>The values one element takes: each is the sum of the two before it.\<close>

fun triad_value :: "(nat \<Rightarrow> nat \<Rightarrow> nat) \<Rightarrow> nat \<Rightarrow> nat \<Rightarrow> nat \<Rightarrow> nat" where
  "triad_value fplus x y 0 = x"
| "triad_value fplus x y (Suc 0) = y"
| "triad_value fplus x y (Suc (Suc n)) = fplus (triad_value fplus x y n) (triad_value fplus x y (Suc n))"

lemma triad_rounds:
  assumes arr: "is_array m N a" "is_array m N b" "is_array m N c"
    and ap: "arrays_apart N a b" "arrays_apart N b c" "arrays_apart N c a"
    and x: "holds m N c x" "holds m N a y" and plus: "\<And>v w. fplus v w < W64"
  shows "\<exists>a' b' c' m'. for_range n (\<lambda>_. load_stream_triad fplus N) (a, b, c, m) = Inr (a', b', c', m') \<and>
    {a', b', c'} = {a, b, c} \<and> arrays_apart N a' b' \<and> arrays_apart N b' c' \<and> arrays_apart N c' a' \<and>
    holds m' N c' (\<lambda>i. triad_value fplus (x i) (y i) n) \<and>
    holds m' N a' (\<lambda>i. triad_value fplus (x i) (y i) (Suc n)) \<and>
    (\<forall>q. is_array m' N q = is_array m N q)"
proof (induction n)
  case 0
  then show ?case using ap x by simp
next
  case (Suc n)
  let ?t = "\<lambda>n i. triad_value fplus (x i) (y i) n"
  obtain a' b' c' m' where IH: "for_range n (\<lambda>_. load_stream_triad fplus N) (a, b, c, m) = Inr (a', b', c', m')"
    "{a', b', c'} = {a, b, c}" "arrays_apart N a' b'" "arrays_apart N b' c'" "arrays_apart N c' a'"
    "holds m' N c' (?t n)" "holds m' N a' (?t (Suc n))" "\<forall>q. is_array m' N q = is_array m N q"
    using Suc by blast
  have arr': "is_array m' N q" if "q \<in> {a', b', c'}" for q
    using that IH(8) arr unfolding IH(2) by auto
  have sym: "arrays_apart N b' a'" using IH(3) by (auto simp: arrays_apart_def)
  obtain m'' where "load_stream_triad fplus N (a', b', c', m') = Inr (b', c', a', m'')"
    "holds m'' N b' (?t (Suc (Suc n)))" "holds m'' N c' (?t n)" "holds m'' N a' (?t (Suc n))"
    "\<forall>q. is_array m'' N q = is_array m' N q"
    using triad_round[where fplus = fplus, OF arr' arr' arr' IH(4) sym IH(6,7) plus] by auto
  then show ?case using IH by (auto simp del: triad_value.simps)
qed

lemma arrays_in_buffer:
  assumes "mapped m p (8 * N)" and "p + 8 * N < W64"
  shows "is_array m N p"
proof -
  have "mapped m (p + 8 * i) 8" if "i < N" for i
    by (rule mapped_sub[OF assms(1)]) (use that in auto)
  then show ?thesis using assms(2) by (simp add: is_array_def word_at_def c_arith)
qed

lemma triad_arrays:
  assumes "48 \<le> nbytes" and "arena + nbytes < W64" and "mapped m arena nbytes"
    and "triad_start arena nbytes = (N, bites, a, b, c)"
  shows "is_array m N a" "is_array m N b" "is_array m N c"
    "arrays_apart N a b" "arrays_apart N b c" "arrays_apart N c a"
proof -
  note L = triad_start_eq[OF assms(1,2)]
  have abc: "b = a + 8 * N" "c = a + 16 * N" "arena \<le> a" "a + 24 * N \<le> arena + nbytes"
    using L assms(4) by simp_all
  then have "mapped m p (8 * N)" if "p \<in> {a, b, c}" for p
    using that by (intro mapped_sub[OF assms(3)]) auto
  then show "is_array m N a" "is_array m N b" "is_array m N c"
    using abc assms(2) by (auto intro!: arrays_in_buffer)
  show "arrays_apart N a b" "arrays_apart N b c" "arrays_apart N c a"
    using abc by (auto simp: arrays_apart_def)
qed

text \<open>C17: The stream-triad load never leaves its buffer, and after n rounds element i of the
  array written last is the n-th value of the recurrence x(n+3) = x(n+1) + x(n+2) on the i-th
  elements the arrays held at the start.\<close>
theorem triad_recurrence:
  assumes "48 \<le> nbytes" and "arena + nbytes < W64" and "mapped m arena nbytes"
    and "triad_start arena nbytes = (N, bites, a, b, c)"
    and "holds m N c x" and "holds m N a y" and "\<And>v w. fplus v w < W64"
  shows "\<exists>a' b' c' m'. for_range n (\<lambda>_. load_stream_triad fplus N) (a, b, c, m) = Inr (a', b', c', m') \<and>
    {a', b', c'} = {a, b, c} \<and>
    holds m' N c' (\<lambda>i. triad_value fplus (x i) (y i) n) \<and>
    holds m' N a' (\<lambda>i. triad_value fplus (x i) (y i) (Suc n))"
  using triad_rounds[where fplus = fplus and n = n, OF triad_arrays[OF assms(1-4)] assms(5,6,7)] by blast

text \<open>
  The injection load is the same loop on integers, two elements at a time, with \<open>delay\<close> \<open>nop\<close>s in
  front of every two cache lines.
\<close>

lemma delay_nops [simp]: "delay_until_iteration d nops = nops + d"
  by (induction d arbitrary: nops) auto

lemma injection_loop_eq:
  assumes "i \<le> N" and "even N" and "even i"
  shows "injection_loop delay N a b c i (nops, m) =
    rbind (for_each [i..<N] (triad_element add64 a b c) m)
      (\<lambda>m. Inr (nops + delay * ((N + 15) div 16 - (i + 15) div 16), m))"
  using assms
proof (induction "N - i" arbitrary: i nops m rule: less_induct)
  case less
  show ?case
  proof (cases "i < N")
    case False
    then show ?thesis using less.prems by (simp add: injection_loop.simps)
  next
    case True
    have i: "i + 2 \<le> N" "even (i + 2)" "N - (i + 2) < N - i" using True less.prems by presburger+
    have upt: "[i..<N] = i # Suc i # [i + 2..<N]"
      using i(1) by (simp add: upt_conv_Cons)
    have nops: "(if i mod 16 = 0 then nops + delay else nops) + delay * ((N + 15) div 16 - (i + 2 + 15) div 16) =
        nops + delay * ((N + 15) div 16 - (i + 15) div 16)"
    proof (cases "i mod 16 = 0")
      case True
      then obtain q where q: "i = 16 * q" by (metis mult_div_mod_eq add_0_right)
      have "(i + 2 + 15) div 16 = Suc q" "(i + 15) div 16 = q" using q by simp_all
      moreover have "(i + 2 + 15) div 16 \<le> (N + 15) div 16" using i(1) by (intro div_le_mono) simp
      ultimately have "(i + 2 + 15) div 16 = Suc ((i + 15) div 16)" "Suc ((i + 15) div 16) \<le> (N + 15) div 16"
        by simp_all
      then have "(N + 15) div 16 - (i + 15) div 16 = Suc ((N + 15) div 16 - (i + 2 + 15) div 16)"
        by linarith
      then show ?thesis using True by simp
    next
      case False
      obtain q r where q: "i = 16 * q + r" "r < 16" by (metis mult_div_mod_eq mod_less_divisor zero_less_numeral)
      then have "r \<noteq> 0" "r \<noteq> 15" using False less.prems(3) by auto
      then have "(i + 15) div 16 = Suc q" "(i + 2 + 15) div 16 = Suc q"
        using q by (auto intro!: div_nat_eqI)
      then show ?thesis using False by simp
    qed
    have "injection_loop delay N a b c (i + 2) (nops', m') = rbind (for_each [i + 2..<N] (triad_element add64 a b c) m')
        (\<lambda>m. Inr (nops' + delay * ((N + 15) div 16 - (i + 2 + 15) div 16), m))" for nops' m'
      using less.hyps[OF i(3,1) less.prems(2) i(2)] .
    note rest = this
    have cells: "NUM_ELEM_TWOCACHELINES = 16" by (simp add: NUM_ELEM_TWOCACHELINES_def)
    show ?thesis
      unfolding upt for_each.simps rbind_assoc
      by (subst injection_loop.simps)
        (simp only: True if_True Let_def prod.case cells delay_nops rest nops Suc_eq_plus1)
  qed
qed

lemma injection_round:
  assumes "even N"
  shows "load_stream_triad_nontemporal_injection_delay delay N (nops, a, b, c, m) =
    rbind (load_stream_triad add64 N (a, b, c, m))
      (\<lambda>(a, b, c, m). Inr (nops + delay * ((N + 15) div 16), a, b, c, m))"
  using injection_loop_eq[OF le0 assms, of delay b c a nops m]
  by (simp add: load_stream_triad_nontemporal_injection_delay_def load_stream_triad_def for_range_def rbind_assoc)

text \<open>C18: A round of the injection load, unrolled by two, is a round of stream-triad on
  64-bit integers, plus the delay once in every 16 elements.\<close>
theorem injection_is_triad:
  assumes "triad_start arena nbytes = (N, bites, a0, b0, c0)"
  shows "load_stream_triad_nontemporal_injection_delay delay N (nops, a, b, c, m) =
    rbind (load_stream_triad add64 N (a, b, c, m))
      (\<lambda>(a, b, c, m). Inr (nops + delay * ((N + 15) div 16), a, b, c, m))"
proof -
  have "even (and_not64 q 15 div 8)" if "q < W64" for q
  proof -
    have "and_not64 q 15 = 8 * (2 * (q div 16))" using and_not64_low[OF that] by (simp add: minus_mod_eq_mult_div)
    then have "and_not64 q 15 div 8 = 2 * (q div 16)" by (metis nonzero_mult_div_cancel_left zero_neq_numeral)
    then show ?thesis by simp
  qed
  moreover have "sub64 nbytes 48 div 3 < W64" by (rule le_less_trans[OF div_le_dividend]) simp
  ultimately have "even N" using assms by (auto simp: triad_start_def LOOP_ALIGN_def Let_def)
  then show ?thesis by (rule injection_round)
qed

text \<open>
  A buffer below 48 bytes makes the first subtraction wrap: the arrays are then a third of the
  address space long, and the first element the loop reads is not mapped.
\<close>

text \<open>With less than 48 bytes (which -m and -s allow) the size computation of the
  stream-triad loads wraps, and the first round reads outside every user-space mapping.\<close>
theorem triad_small_buffer:
  assumes "nbytes < 48" and "arena < 2 ^ 47" and "\<forall>x. m x \<noteq> None \<longrightarrow> x < 2 ^ 47"
    and "triad_start arena nbytes = (N, bites, a, b, c)"
  shows "load_stream_triad fplus N (a, b, c, m) = Inl OutOfBounds"
proof -
  let ?q = "(W64 - (48 - nbytes)) div 3"
  have w: "W64 = 18446744073709551616" by (simp add: W64_def)
  have sub: "sub64 nbytes 48 = W64 - (48 - nbytes)" using assms(1) by (simp add: sub64_def w)
  have "and_not64 ?q 15 = ?q - ?q mod 16" by (rule and_not64_low) (simp add: w)
  moreover have "?q \<le> 6148914691236517205" "6148914691236517189 \<le> ?q" using assms(1) unfolding w by linarith+
  moreover have "?q mod 16 < 16" by simp
  ultimately have loop: "6148914691236517174 \<le> and_not64 ?q 15" "and_not64 ?q 15 \<le> 6148914691236517205" by linarith+
  have aa: "and_not64 (add64 arena 16) 16 \<le> arena + 16"
    using assms(2) and_not64_bit[of "arena + 16"] by (simp add: w add64_def split: if_splits)
  have N: "N = and_not64 ?q 15 div 8" and a: "a = and_not64 (add64 arena 16) 16"
    and b: "b = word_at a N" and c: "c = word_at b N"
    using assms(4) by (auto simp: triad_start_def LOOP_ALIGN_def Let_def sub)
  have "6148914691236517160 \<le> 8 * N" "8 * N \<le> 6148914691236517205" using loop unfolding N by linarith+
  then have "c = a + 16 * N" "2 ^ 63 \<le> c" "0 < N" "c + 8 < W64" "c \<noteq> 0"
    using aa assms(2) unfolding c b a[symmetric] word_at_def by (simp_all add: add64_def mul64_def w a[symmetric])
  then have "m (word_at c 0) = None" using assms(3) by (auto simp: word_at_def add64_def mul64_def w)
  then have "load64 m (word_at c 0) = Inl OutOfBounds"
    by (simp add: load64_def eval_nat_numeral)
  moreover obtain n where "N = Suc n" using \<open>0 < N\<close> by (cases N) auto
  then have "[0..<N] = 0 # [1..<N]" by (simp add: upt_conv_Cons)
  ultimately show ?thesis
    by (simp add: load_stream_triad_def for_range_def triad_element_def)
qed

subsection \<open>The other loads\<close>

lemma write_then_read:
  assumes "mapped m src n" and "mapped m dst n" and "src + n \<le> dst \<or> dst + n \<le> src"
  shows "memcpy_bytes m dst src n = Inr (\<lambda>x. if dst \<le> x \<and> x < dst + n then m (src + (x - dst)) else m x)"
proof -
  have some: "Some (the (m (src + i))) = m (src + i)" if "i < n" for i
    using assms(1) that by (auto simp: mapped_def)
  have "put_bytes m dst (map (\<lambda>i. the (m (src + i))) [0..<n]) =
      (\<lambda>x. if dst \<le> x \<and> x < dst + n then m (src + (x - dst)) else m x)"
    by (rule ext) (auto simp: put_bytes_def some)
  then show ?thesis
    using assms by (auto simp: memcpy_bytes_def read_bytes_eq write_bytes_eq)
qed

text \<open>After every number of rounds of the memcpy load the second half of the buffer holds
  the first half as it was in the beginning and nothing else has changed.\<close>
theorem memcpy_load_copies:
  assumes "load_memcpy_libc_start arena nbytes = (n, bites, a, b)"
    and "mapped m arena nbytes" and "arena + nbytes < W64"
  shows "\<exists>m'. for_range (Suc k) (\<lambda>_. load_memcpy_libc n) (a, b, m) =
      Inr (if even k then (b, a, m') else (a, b, m')) \<and>
    (\<forall>x. m' x = (if b \<le> x \<and> x < b + n then m (a + (x - b)) else m x)) \<and> bites \<le> nbytes"
proof -
  let ?m = "\<lambda>x. if b \<le> x \<and> x < b + n then m (a + (x - b)) else m x"
  have s: "n = nbytes div 2" "a = arena" "b = arena + n" "bites = n * 2"
    using assms(1,3) by (auto simp: load_memcpy_libc_start_def c_arith Let_def)
  have m: "mapped m a n" "mapped m b n"
    using s(1-3) by (auto intro!: mapped_sub[OF assms(2)])
  then have m1: "mapped ?m a n" "mapped ?m b n" using s(2,3) by (auto simp: mapped_def)
  have step1: "load_memcpy_libc n (a, b, m) = Inr (b, a, ?m)"
    using write_then_read[OF m] s(2,3) by (simp add: load_memcpy_libc_def)
  have again: "(\<lambda>x. if a \<le> x \<and> x < a + n then ?m (b + (x - a)) else ?m x) = ?m"
    using s(2,3) by (intro ext) auto
  have step2: "load_memcpy_libc n (b, a, ?m) = Inr (a, b, ?m)"
    using write_then_read[OF m1(2,1)] s(2,3) unfolding again by (simp add: load_memcpy_libc_def)
  have forth: "(\<lambda>x. if b \<le> x \<and> x < b + n then ?m (a + (x - b)) else ?m x) = ?m"
    using s(2,3) by (intro ext) auto
  have step3: "load_memcpy_libc n (a, b, ?m) = Inr (b, a, ?m)"
    using write_then_read[OF m1] s(2,3) unfolding forth by (simp add: load_memcpy_libc_def)
  have "for_range (Suc k) (\<lambda>_. load_memcpy_libc n) (a, b, m) = Inr (if even k then (b, a, ?m) else (a, b, ?m))"
  proof (induction k)
    case 0
    show ?case by (simp add: step1)
  next
    case (Suc k)
    then show ?case by (subst for_range_Suc) (simp add: step2 step3)
  qed
  then show ?thesis using s(1,4) by auto
qed

text \<open>The stream copy moves words, from the second half to the first; the stream sum adds up the array and \<open>memset\<close> fills it.\<close>

lemma stream_copy_round:
  assumes "is_array m N a" "is_array m N b" "arrays_apart N a b" and "holds m N b x" and "\<And>i. x i < W64"
  shows "\<exists>m'. load_stream_copy N (a, b, m) = Inr (b, a, m') \<and> holds m' N a x \<and> holds m' N b x"
proof -
  have "rbind (load64 s (word_at b i)) (\<lambda>v. store64 s (word_at a i) v) = store64 s (word_at a i) (x i)"
    if "i < N" "\<And>z. (\<And>j. j < N \<Longrightarrow> apart (word_at a j) z) \<Longrightarrow> load64 s z = load64 m z" for i s
    using that(1) that(2)[of "word_at b i"] assms(4) words_apart[OF assms(1-3)] by (simp add: holds_def)
  from array_loop[OF assms(1) assms(5), where body = "\<lambda>i s. rbind (load64 s (word_at b i)) (store64 s (word_at a i))", OF this]
  obtain m' where "for_range N (\<lambda>i s. rbind (load64 s (word_at b i)) (store64 s (word_at a i))) m = Inr m'"
    "holds m' N a x" "holds m' N b x"
    using assms(2,3,4) by blast
  then show ?thesis by (simp add: load_stream_copy_def)
qed

lemma stream_sum_round:
  assumes "is_array m N a" and "holds m N a x" and "N = nbytes div 8"
  shows "load_stream_sum nbytes a m (s, d) =
    Inr (foldl (\<lambda>s i. add64 s (x i)) s [0..<N], add64 d (foldl (\<lambda>s i. add64 s (x i)) s [0..<N]))"
proof -
  have "for_range n (\<lambda>i s. rbind (load64 m (word_at a i)) (\<lambda>v. Inr (add64 s v))) s =
      Inr (foldl (\<lambda>s i. add64 s (x i)) s [0..<n])" if "n \<le> N" for n
    using that assms(2) by (induction n) (auto simp: holds_def)
  from this[of N] show ?thesis using assms(3) by (simp add: load_stream_sum_def)
qed

lemma memset_round:
  assumes "mapped m a nbytes" and "nbytes < W64"
  shows "load_memset_libc nbytes a m = Inr (\<lambda>x. if a \<le> x \<and> x < a + nbytes then Some 0xef else m x)"
    and "load_memsetz_libc nbytes a m = Inr (\<lambda>x. if a \<le> x \<and> x < a + nbytes then Some 0 else m x)"
proof -
  have "(of_nat 0xdeadbeef :: 8 word) = 0xef" by simp
  then show "load_memset_libc nbytes a m = Inr (\<lambda>x. if a \<le> x \<and> x < a + nbytes then Some 0xef else m x)"
    using assms by (auto simp: load_memset_libc_def memset_bytes_def write_bytes_eq c_arith put_bytes_def fun_eq_iff)
  show "load_memsetz_libc nbytes a m = Inr (\<lambda>x. if a \<le> x \<and> x < a + nbytes then Some 0 else m x)"
    using assms by (auto simp: load_memsetz_libc_def memset_bytes_def write_bytes_eq c_arith put_bytes_def fun_eq_iff)
qed

subsection \<open>A buffer of 96 bytes\<close>

definition ones :: mem where
  "ones x = (if 64 \<le> x \<and> x < 160 then Some 1 else None)"

lemma ones_facts:
  "mapped ones 64 96" "triad_start 64 96 = (2, 48, 64, 80, 96)"
  "holds ones 2 64 (\<lambda>_. 0x0101010101010101)" "holds ones 2 96 (\<lambda>_. 0x0101010101010101)"
proof -
  show "mapped ones 64 96" by (simp add: mapped_def ones_def)
  show "triad_start 64 96 = (2, 48, 64, 80, 96)"
    using triad_start_eq(1)[of 96 64] by (simp add: W64_def)
  have "load64 ones x = Inr 0x0101010101010101" if "64 \<le> x" "x + 8 \<le> 160" for x
    using that by (simp add: load64_def read_bytes_eq mapped_def ones_def upt_conv_Cons)
  then show "holds ones 2 64 (\<lambda>_. 0x0101010101010101)" "holds ones 2 96 (\<lambda>_. 0x0101010101010101)"
    by (simp_all add: holds_def word_at_def add64_def mul64_def W64_def)
qed

theorem triad_arrays_fit_witness:
  "\<exists>N a b c. triad_start 72 100 = (N, N * 24, a, b, c) \<and> even N \<and> 100 < N * 24 + 96 \<and> 72 \<le> a \<and>
    a + 8 * N = b \<and> b + 8 * N = c \<and> c + 8 * N \<le> 72 + 100 \<and> a mod 16 = 72 mod 16"
  by (rule triad_arrays_fit) (simp_all add: W64_def)

theorem triad_recurrence_witness:
  "\<exists>a' b' c' m'. for_range 2 (\<lambda>_. load_stream_triad add64 2) (64, 80, 96, ones) = Inr (a', b', c', m') \<and>
    {a', b', c'} = {64, 80, 96} \<and>
    holds m' 2 c' (\<lambda>i. triad_value add64 0x0101010101010101 0x0101010101010101 2) \<and>
    holds m' 2 a' (\<lambda>i. triad_value add64 0x0101010101010101 0x0101010101010101 (Suc 2))"
  using triad_recurrence[where fplus = add64 and n = 2, OF _ _ ones_facts(1,2,4,3) add64_lt] by (simp add: W64_def)

theorem injection_is_triad_witness:
  "load_stream_triad_nontemporal_injection_delay 5 2 (0, 64, 80, 96, ones) =
    rbind (load_stream_triad add64 2 (64, 80, 96, ones)) (\<lambda>(a, b, c, m). Inr (0 + 5 * ((2 + 15) div 16), a, b, c, m))"
  by (rule injection_is_triad[OF ones_facts(2)])

theorem triad_small_buffer_witness:
  "\<exists>N bites a b c. triad_start 64 32 = (N, bites, a, b, c) \<and>
    load_stream_triad add64 N (a, b, c, \<lambda>x. if 64 \<le> x \<and> x < 96 then Some 1 else None) = Inl OutOfBounds"
proof -
  obtain N bites a b c where "triad_start 64 32 = (N, bites, a, b, c)" using prod_cases5 by blast
  with triad_small_buffer[OF _ _ _ this] show ?thesis by (auto split: if_splits)
qed

theorem memcpy_load_copies_witness:
  "\<exists>m'. for_range (Suc 1) (\<lambda>_. load_memcpy_libc 48) (64, 112, ones) = Inr (64, 112, m') \<and>
    (\<forall>x. m' x = (if 112 \<le> x \<and> x < 112 + 48 then ones (64 + (x - 112)) else ones x)) \<and> (96 :: nat) \<le> 96"
  using memcpy_load_copies[of 64 96 48 96 64 112 ones 1] ones_facts(1)
  by (simp add: load_memcpy_libc_start_def W64_def add64_def mul64_def)

end
