(* ===== verification/Multi_Options.thy ===== *)
theory Multi_Options
  imports Options
begin

text \<open>
  The command line of \<open>multiload.c\<close>: its tables of chases and memory loads, the selection of the
  test (latency, bandwidth or loaded latency) by the options \<open>-c\<close> and \<open>-l\<close>, and the size checks.
  The settings are those of multichase with the test, the load and the delay.
\<close>

subsection \<open>The tables\<close>

definition ml_chases :: "arch \<Rightarrow> chase_t list" where
  "ml_chases arch =
     [chase_row Simple 8 ''simple    '' False 1,
      chase_row Simple 8 ''chaseload'' False 1,
      chase_row Work 8 ''work     '' True 1,
      chase_row Incr 16 ''incr     '' False 1] @
     (if arch = X86_64 then
       [chase_row (Prefetch ''t0'') 8 ''t0'' False 1,
        chase_row (Prefetch ''t1'') 8 ''t1'' False 1,
        chase_row (Prefetch ''t2'') 8 ''t2'' False 1,
        chase_row (Prefetch ''nta'') 8 ''nta'' False 1,
        chase_row Movdqa 64 ''movdqa'' False 1,
        chase_row Movntdqa 64 ''movntdqa'' False 1] else []) @
     [chase_row (Parallel 2) 8 ''parallel2'' False 2,
      chase_row (Parallel 3) 8 ''parallel3'' False 3,
      chase_row (Parallel 4) 8 ''parallel4'' False 4,
      chase_row (Parallel 5) 8 ''parallel5'' False 5,
      chase_row (Parallel 6) 8 ''parallel6'' False 6,
      chase_row (Parallel 7) 8 ''parallel7'' False 7,
      chase_row (Parallel 8) 8 ''parallel8'' False 8,
      chase_row (Parallel 9) 8 ''parallel9'' False 9,
      chase_row (Parallel 10) 8 ''parallel10'' False 10] @
     (if arch = X86_64 then [chase_row Critword2 64 ''critword2'' True 1] else []) @
     [chase_row Simple 64 ''critword'' True 1]"

datatype memload_fn = Memcpy_Libc | Memset_Libc | Memsetz_Libc | Stream_Copy | Stream_Sum |
  Stream_Triad | Triad_Injection_Delay

record memload_t =
  load_fn :: memload_fn
  load_name :: string
  load_requires_arg :: bool

definition memloads :: "memload_t list" where
  "memloads =
     [\<lparr>load_fn = Memcpy_Libc, load_name = ''memcpy-libc'', load_requires_arg = False\<rparr>,
      \<lparr>load_fn = Memset_Libc, load_name = ''memset-libc'', load_requires_arg = False\<rparr>,
      \<lparr>load_fn = Memsetz_Libc, load_name = ''memsetz-libc'', load_requires_arg = False\<rparr>,
      \<lparr>load_fn = Stream_Copy, load_name = ''stream-copy'', load_requires_arg = False\<rparr>,
      \<lparr>load_fn = Stream_Sum, load_name = ''stream-sum'', load_requires_arg = False\<rparr>,
      \<lparr>load_fn = Stream_Triad, load_name = ''stream-triad'', load_requires_arg = False\<rparr>,
      \<lparr>load_fn = Triad_Injection_Delay, load_name = ''stream-triad-nontemporal-injection-delay'',
        load_requires_arg = False\<rparr>]"

datatype test_type = RUN_CHASE | RUN_BANDWIDTH | RUN_CHASE_LOADED

subsection \<open>The options\<close>

record ml_settings = settings +
  run_test_type :: test_type
  memload :: memload_t
  delay :: nat

definition ml_default_settings :: "arch \<Rightarrow> nat \<Rightarrow> ml_settings" where
  "ml_default_settings arch native_page_size =
     \<lparr>print_average = False, chase = hd (ml_chases arch), extra_args = None, fd = -1,
      cache_flush_size = 64 * 1024 * 1024, page_size = native_page_size, use_thp = False,
      use_malloc = False, use_longer_chase = False, mem_size = 256 * 1024 * 1024,
      elt_stride = 256, tlb_size = mul64 64 native_page_size, ordered_chase = False,
      duration_nsecs = W64 - 1, nr_samples = 5, offset = 0, nr_threads = 1, verbosity = 0,
      is_weighted_mbind = False, mbind_weights = replicate MAX_MEM_NODES 0,
      set_thread_affinity = True, print_timestamp = False,
      run_test_type = RUN_CHASE, memload = hd memloads, delay = 1\<rparr>"

text \<open>The key before the colon and the rest from the colon on.\<close>

definition arg_key :: "string \<Rightarrow> string" where
  "arg_key optarg = takeWhile (\<lambda>c. c \<noteq> CHR '':'') optarg"

definition arg_rest :: "string \<Rightarrow> string" where
  "arg_rest optarg = drop (length (arg_key optarg)) optarg"

definition ml_find_chase :: "arch \<Rightarrow> string \<Rightarrow> chase_t option" where
  "ml_find_chase arch optarg =
     find (\<lambda>e. strncmp_eq optarg (name e) (length (arg_key optarg))) (ml_chases arch)"

definition find_memload :: "string \<Rightarrow> memload_t option" where
  "find_memload optarg =
     find (\<lambda>e. strncmp_eq optarg (load_name e) (length (arg_key optarg))) memloads"

text \<open>\<open>case 'c'\<close>; \<open>chaseload\<close> leaves before its argument is looked at.\<close>

definition option_c :: "arch \<Rightarrow> string \<Rightarrow> ml_settings \<Rightarrow> ml_settings res" where
  "option_c arch optarg s =
     (case ml_find_chase arch optarg of
        None \<Rightarrow> Inl (Exit 1)
      | Some e \<Rightarrow>
          let s = s\<lparr>chase := e\<rparr>; p = arg_rest optarg in
          if strncmp_eq ''chaseload'' (name e) 12 then Inr (s\<lparr>run_test_type := RUN_CHASE_LOADED\<rparr>)
          else if run_test_type s = RUN_BANDWIDTH then Inl (Exit 1)
          else if requires_arg e then
            (if p = [] \<or> tl p = [] then Inl (Exit 1) else Inr (s\<lparr>extra_args := Some (tl p)\<rparr>))
          else if p \<noteq> [] then Inl (Exit 1) else Inr s)"

definition option_l :: "string \<Rightarrow> ml_settings \<Rightarrow> ml_settings res" where
  "option_l optarg s =
     (case find_memload optarg of
        None \<Rightarrow> Inl (Exit 1)
      | Some e \<Rightarrow>
          let s = s\<lparr>memload := e\<rparr>; p = arg_rest optarg;
              s = (if run_test_type s \<noteq> RUN_CHASE_LOADED then s\<lparr>run_test_type := RUN_BANDWIDTH\<rparr> else s) in
          if load_requires_arg e then
            (if p = [] \<or> tl p = [] then Inl (Exit 1) else Inr (s\<lparr>extra_args := Some (tl p)\<rparr>))
          else if p \<noteq> [] then Inl (Exit 1) else Inr s)"

definition option_W :: "string \<Rightarrow> ml_settings \<Rightarrow> ml_settings res" where
  "option_W optarg s =
     rbind (set_weights (tokens CHR '','' optarg) (mbind_weights s))
       (\<lambda>ws. Inr (s\<lparr>is_weighted_mbind := True, mbind_weights := ws\<rparr>))"

definition ml_set_option :: "arch \<Rightarrow> char \<times> string \<Rightarrow> ml_settings \<Rightarrow> ml_settings res" where
  "ml_set_option arch opt s =
     (let (c, optarg) = opt in
      if c = CHR ''a'' then Inr (s\<lparr>print_average := True\<rparr>)
      else if c = CHR ''c'' then option_c arch optarg s
      else if c = CHR ''d'' then rbind (number_arg optarg) (\<lambda>n. Inr (s\<lparr>delay := n\<rparr>))
      else if c = CHR ''F'' then rbind (size_arg optarg) (\<lambda>n. Inr (s\<lparr>cache_flush_size := n\<rparr>))
      else if c = CHR ''p'' then rbind (size_arg optarg) (\<lambda>n. Inr (s\<lparr>page_size := n\<rparr>))
      else if c = CHR ''H'' then Inr (s\<lparr>use_thp := True\<rparr>)
      else if c = CHR ''l'' then option_l optarg s
      else if c = CHR ''L'' then Inr (s\<lparr>use_longer_chase := True\<rparr>)
      else if c = CHR ''m'' then
        rbind (size_arg optarg) (\<lambda>n. if n = 0 then Inl (Exit 1) else Inr (s\<lparr>mem_size := n\<rparr>))
      else if c = CHR ''n'' then rbind (number_arg optarg) (\<lambda>n. Inr (s\<lparr>nr_samples := n\<rparr>))
      else if c = CHR ''O'' then rbind (size_arg optarg) (\<lambda>n. Inr (s\<lparr>offset := n\<rparr>))
      else if c = CHR ''o'' then Inr (s\<lparr>ordered_chase := True\<rparr>)
      else if c = CHR ''s'' then rbind (size_arg optarg) (\<lambda>n. Inr (s\<lparr>elt_stride := n\<rparr>))
      else if c = CHR ''T'' then rbind (size_arg optarg) (\<lambda>n. Inr (s\<lparr>tlb_size := n\<rparr>))
      else if c = CHR ''t'' then
        rbind (number_arg optarg) (\<lambda>n. if n = 0 then Inl (Exit 1) else Inr (s\<lparr>nr_threads := n\<rparr>))
      else if c = CHR ''v'' then Inr (s\<lparr>verbosity := Suc (verbosity s)\<rparr>)
      else if c = CHR ''W'' then option_W optarg s
      else if c = CHR ''X'' then Inr (s\<lparr>set_thread_affinity := False\<rparr>)
      else if c = CHR ''y'' then Inr (s\<lparr>print_timestamp := True\<rparr>)
      else Inl (Exit 1))"

definition ml_read_options :: "arch \<Rightarrow> nat \<Rightarrow> (char \<times> string) list \<Rightarrow> nat \<Rightarrow> ml_settings res" where
  "ml_read_options arch native_page_size opts operands =
     rbind (for_each opts (ml_set_option arch) (ml_default_settings arch native_page_size)) (\<lambda>s.
     if operands \<noteq> 0 then Inl (Exit 1) else Inr s)"

text \<open>The size checks; the room for the chases is checked for a latency test only.\<close>

definition ml_settle_geometry :: "ml_settings \<Rightarrow> (ml_settings \<times> nat) res" where
  "ml_settle_geometry s =
     (if elt_stride s < 8 then Inl (Exit 1)
      else let tlb = round_tlb (elt_stride s) (tlb_size s);
               (mem, tlb) = round_memory (elt_stride s) tlb (mem_size s);
               nr_mixer_indices = elt_stride s div base_object_size (chase s) in
           if run_test_type s = RUN_CHASE \<and> nr_mixer_indices < mul64 (nr_threads s) (parallelism (chase s))
           then Inl (Exit 1)
           else Inr (s\<lparr>tlb_size := tlb, mem_size := mem\<rparr>, nr_mixer_indices))"

subsection \<open>The test that is run\<close>

text \<open>\<open>-c\<close> options that select \<open>chaseload\<close>.\<close>

definition selects_chaseload :: "arch \<Rightarrow> char \<times> string \<Rightarrow> bool" where
  "selects_chaseload arch opt \<longleftrightarrow>
     fst opt = CHR ''c'' \<and> (\<exists>e. ml_find_chase arch (snd opt) = Some e \<and> name e = ''chaseload'')"

lemma chaseload_name:
  assumes "e \<in> set (ml_chases arch)"
  shows "strncmp_eq ''chaseload'' (name e) 12 \<longleftrightarrow> name e = ''chaseload''"
proof -
  have "list_all (\<lambda>e. strncmp_eq ''chaseload'' (name e) 12 \<longleftrightarrow> name e = ''chaseload'') (ml_chases arch)"
    by (cases arch; hypsubst) code_simp+
  then show ?thesis using assms by (auto simp only: list_all_iff)
qed

lemma ml_find_in: "ml_find_chase arch x = Some e \<Longrightarrow> e \<in> set (ml_chases arch)"
  by (auto simp: ml_find_chase_def find_Some_iff)

text \<open>One option and the test: chaseload wins, then any load.\<close>

lemma option_c_type:
  assumes "option_c arch x s = Inr s'"
  shows "run_test_type s' =
    (if selects_chaseload arch (CHR ''c'', x) then RUN_CHASE_LOADED else run_test_type s)"
    "\<not> selects_chaseload arch (CHR ''c'', x) \<Longrightarrow> run_test_type s \<noteq> RUN_BANDWIDTH"
proof -
  obtain e where e: "ml_find_chase arch x = Some e" using assms by (auto simp: option_c_def split: option.splits)
  note E = chaseload_name[OF ml_find_in[OF e]]
  show "run_test_type s' =
    (if selects_chaseload arch (CHR ''c'', x) then RUN_CHASE_LOADED else run_test_type s)"
    using assms E by (auto simp: option_c_def selects_chaseload_def e Let_def split: if_splits)
  show "\<not> selects_chaseload arch (CHR ''c'', x) \<Longrightarrow> run_test_type s \<noteq> RUN_BANDWIDTH"
    using assms E by (auto simp: option_c_def selects_chaseload_def e Let_def split: if_splits)
qed

lemma option_l_type:
  assumes "option_l x s = Inr s'"
  shows "run_test_type s' = (if run_test_type s = RUN_CHASE_LOADED then RUN_CHASE_LOADED else RUN_BANDWIDTH)"
  using assms by (auto simp: option_l_def Let_def split: option.splits if_splits)

lemma other_option_type:
  assumes "ml_set_option arch (c, x) s = Inr s'" and "c \<noteq> CHR ''c''" and "c \<noteq> CHR ''l''"
  shows "run_test_type s' = run_test_type s"
  using assms by (auto simp: ml_set_option_def option_W_def res_simps split: if_splits)

lemma set_option_type:
  assumes "ml_set_option arch opt s = Inr s'"
  shows "run_test_type s' =
    (if run_test_type s = RUN_CHASE_LOADED \<or> selects_chaseload arch opt then RUN_CHASE_LOADED
     else if run_test_type s = RUN_BANDWIDTH \<or> fst opt = CHR ''l'' then RUN_BANDWIDTH else RUN_CHASE)"
proof -
  obtain c x where opt: "opt = (c, x)" by force
  have rt: "run_test_type s = RUN_CHASE_LOADED \<or> run_test_type s = RUN_BANDWIDTH \<or> run_test_type s = RUN_CHASE"
    by (cases "run_test_type s") auto
  consider "c = CHR ''c''" | "c = CHR ''l''" | "c \<noteq> CHR ''c''" "c \<noteq> CHR ''l''" by blast
  then show ?thesis
  proof cases
    case 1
    then have "option_c arch x s = Inr s'" using assms opt by (simp add: ml_set_option_def)
    from option_c_type[OF this] show ?thesis using rt 1 opt by auto
  next
    case 2
    then have "option_l x s = Inr s'" using assms opt by (simp add: ml_set_option_def)
    from option_l_type[OF this] show ?thesis using rt 2 opt by (auto simp: selects_chaseload_def)
  next
    case 3
    from other_option_type[OF assms[unfolded opt] this] show ?thesis
      using rt 3 opt by (auto simp: selects_chaseload_def)
  qed
qed

text \<open>The test multiload runs depends only on which options occur: a loaded latency test
  when some -c selects chaseload, otherwise a bandwidth test when -l occurs, otherwise a latency
  test.\<close>
theorem test_type_of_options:
  assumes "ml_read_options arch native_page_size opts operands = Inr s"
  shows "run_test_type s =
    (if \<exists>opt\<in>set opts. selects_chaseload arch opt then RUN_CHASE_LOADED
     else if \<exists>opt\<in>set opts. fst opt = CHR ''l'' then RUN_BANDWIDTH else RUN_CHASE)"
proof -
  have "run_test_type s' =
      (if run_test_type s = RUN_CHASE_LOADED \<or> (\<exists>opt\<in>set opts. selects_chaseload arch opt) then RUN_CHASE_LOADED
       else if run_test_type s = RUN_BANDWIDTH \<or> (\<exists>opt\<in>set opts. fst opt = CHR ''l'') then RUN_BANDWIDTH
       else RUN_CHASE)"
    if "for_each opts (ml_set_option arch) s = Inr s'" for s s'
    using that
  proof (induction opts arbitrary: s)
    case Nil
    then show ?case by (cases "run_test_type s") auto
  next
    case (Cons opt opts)
    then obtain s1 where s1: "ml_set_option arch opt s = Inr s1" "for_each opts (ml_set_option arch) s1 = Inr s'"
      by (auto simp: res_simps)
    show ?case using Cons.IH[OF s1(2)] set_option_type[OF s1(1)] by auto
  qed
  note types = this
  obtain s' where "for_each opts (ml_set_option arch) (ml_default_settings arch native_page_size) = Inr s'" "s' = s"
    using assms by (auto simp: ml_read_options_def res_simps split: if_splits)
  moreover have "run_test_type (ml_default_settings arch native_page_size) = RUN_CHASE"
    by (simp add: ml_default_settings_def)
  ultimately show ?thesis using types by simp
qed

text \<open>
  The usage text forbids \<open>-c\<close> in a bandwidth test. Given before \<open>-l\<close> it is accepted (and has no
  effect on the test), given after \<open>-l\<close> it ends the program.
\<close>

text \<open>A latency chase (other than chaseload) after \<open>-l\<close> is refused, but before \<open>-l\<close> it is accepted and dropped.\<close>
theorem chase_and_load_depend_on_order:
  assumes "option_c arch x s = Inr s1" and "\<not> selects_chaseload arch (CHR ''c'', x)"
    and "option_l y s = Inr s2" and "run_test_type s = RUN_CHASE"
  shows "(\<exists>s12. for_each [(CHR ''c'', x), (CHR ''l'', y)] (ml_set_option arch) s = Inr s12 \<and>
      run_test_type s12 = RUN_BANDWIDTH) \<and>
    for_each [(CHR ''l'', y), (CHR ''c'', x)] (ml_set_option arch) s = Inl (Exit 1)"
proof -
  have c: "ml_set_option arch (CHR ''c'', x) t = option_c arch x t" for t
    by (simp add: ml_set_option_def)
  have l: "ml_set_option arch (CHR ''l'', y) t = option_l y t" for t
    by (simp add: ml_set_option_def)
  obtain e where e: "ml_find_chase arch x = Some e" using assms(1) by (auto simp: option_c_def split: option.splits)
  have t1: "run_test_type s1 = RUN_CHASE" using option_c_type(1)[OF assms(1)] assms(2,4) by simp
  have t2: "run_test_type s2 = RUN_BANDWIDTH" using option_l_type[OF assms(3)] assms(4) by simp
  obtain s12 where "option_l y s1 = Inr s12"
    using assms(3) by (auto simp: option_l_def Let_def split: option.splits if_splits)
  moreover have "run_test_type s12 = RUN_BANDWIDTH" using option_l_type[OF calculation] t1 by simp
  moreover have "option_c arch x s2 = Inl (Exit 1)"
    using chaseload_name[OF ml_find_in[OF e]] assms(2) t2
    by (auto simp: option_c_def e selects_chaseload_def Let_def)
  ultimately show ?thesis using assms(1,3) by (simp add: c l)
qed

text \<open>
  A loaded latency test skips the room check: after \<open>-c chaseload -c movdqa -s 32\<close> the chase has
  objects of 64 bytes, the stride is 32, and the mixer table gets no index at all.
\<close>

lemma option_c_found:
  assumes "ml_find_chase arch x = Some e"
  shows "strncmp_eq ''chaseload'' (name e) 12 \<Longrightarrow>
      option_c arch x s = Inr (s\<lparr>chase := e\<rparr>\<lparr>run_test_type := RUN_CHASE_LOADED\<rparr>)"
    and "\<not> strncmp_eq ''chaseload'' (name e) 12 \<Longrightarrow> run_test_type s \<noteq> RUN_BANDWIDTH \<Longrightarrow>
      \<not> requires_arg e \<Longrightarrow> arg_rest x = [] \<Longrightarrow> option_c arch x s = Inr (s\<lparr>chase := e\<rparr>)"
  unfolding option_c_def Let_def assms by simp_all

lemma ml_set_option_select:
  shows "ml_set_option arch (CHR ''c'', x) s = option_c arch x s"
    and "ml_set_option arch (CHR ''l'', x) s = option_l x s"
    and "ml_set_option arch (CHR ''s'', x) s = rbind (size_arg x) (\<lambda>n. Inr (s\<lparr>elt_stride := n\<rparr>))"
  by (simp_all add: ml_set_option_def)

lemma loaded_no_indices:
  assumes "run_test_type s = RUN_CHASE_LOADED" and "elt_stride s = 32" and "base_object_size (chase s) = 64"
  shows "\<exists>s'. ml_settle_geometry s = Inr (s', 0)"
proof -
  obtain mem tlb where "round_memory 32 (round_tlb 32 (tlb_size s)) (mem_size s) = (mem, tlb)" by force
  then show ?thesis by (simp add: ml_settle_geometry_def Let_def assms)
qed

lemma loaded_settings:
  "\<exists>s s'. ml_read_options X86_64 4096
       [(CHR ''c'', ''chaseload''), (CHR ''c'', ''movdqa''), (CHR ''s'', ''32'')] 0 = Inr s \<and>
     run_test_type s = RUN_CHASE_LOADED \<and> fn (chase s) = Movdqa \<and> ml_settle_geometry s = Inr (s', 0)"
proof -
  define e where "e = chase_row Simple 8 ''chaseload'' False 1"
  define m where "m = chase_row Movdqa 64 ''movdqa'' False 1"
  obtain s0 where s0: "s0 = ml_default_settings X86_64 4096" by blast
  obtain s1 where s1: "s1 = s0\<lparr>chase := e\<rparr>\<lparr>run_test_type := RUN_CHASE_LOADED\<rparr>" by blast
  obtain s2 where s2: "s2 = s1\<lparr>chase := m\<rparr>" by blast
  obtain s where s: "s = s2\<lparr>elt_stride := 32\<rparr>" by blast
  have f: "ml_find_chase X86_64 ''chaseload'' = Some e" "ml_find_chase X86_64 ''movdqa'' = Some m"
    unfolding e_def m_def by code_simp+
  have r: "arg_rest ''movdqa'' = []" by code_simp
  have n: "size_arg ''32'' = Inr 32"
    by (simp add: size_arg_def parse_mem_arg_def strtoull_def is_space_def is_digit_def digit_val_def
        digits_value_def mul64_def W64_def)
  have m: "name e = ''chaseload''" "name m = ''movdqa''" "\<not> requires_arg m" "fn m = Movdqa"
    "base_object_size m = 64"
    unfolding e_def m_def by (simp_all add: chase_row_def)
  have x: "strncmp_eq ''chaseload'' (name e) 12" "\<not> strncmp_eq ''chaseload'' (name m) 12"
    unfolding m by code_simp+
  note c = f r n x m(3,4,5)
  have "option_c X86_64 ''chaseload'' s0 = Inr s1"
    unfolding s1 by (rule option_c_found(1)[OF c(1,5)])
  moreover have "option_c X86_64 ''movdqa'' s1 = Inr s2"
    unfolding s2 by (rule option_c_found(2)[OF c(2,6)]) (simp_all add: s1 c)
  moreover have "rbind (size_arg ''32'') (\<lambda>n. Inr (s2\<lparr>elt_stride := n\<rparr>)) = Inr s"
    by (simp add: c s res_simps)
  ultimately have "ml_read_options X86_64 4096
      [(CHR ''c'', ''chaseload''), (CHR ''c'', ''movdqa''), (CHR ''s'', ''32'')] 0 = Inr s"
    by (simp only: ml_read_options_def for_each.simps ml_set_option_select s0[symmetric] simp_thms if_False
        rbind.simps)
  moreover have "run_test_type s = RUN_CHASE_LOADED" "chase s = m" "elt_stride s = 32"
    by (simp_all add: s s2 s1)
  ultimately show ?thesis using loaded_no_indices[of s] c(8,9) by auto
qed

subsection \<open>Examples\<close>

theorem test_type_of_options_witness:
  "\<exists>s. ml_read_options X86_64 4096 [(CHR ''l'', ''memset-libc'')] 0 = Inr s \<and> run_test_type s = RUN_BANDWIDTH"
proof -
  have "find_memload ''memset-libc'' = Some \<lparr>load_fn = Memset_Libc, load_name = ''memset-libc'', load_requires_arg = False\<rparr>"
    "arg_rest ''memset-libc'' = []" by code_simp+
  then have "\<exists>s. ml_read_options X86_64 4096 [(CHR ''l'', ''memset-libc'')] 0 = Inr s"
    by (simp add: ml_read_options_def ml_set_option_def option_l_def Let_def)
  then obtain s where "ml_read_options X86_64 4096 [(CHR ''l'', ''memset-libc'')] 0 = Inr s" by blast
  from this test_type_of_options[OF this] show ?thesis by (simp add: selects_chaseload_def)
qed

theorem chase_and_load_depend_on_order_witness:
  "for_each [(CHR ''l'', ''memset-libc''), (CHR ''c'', ''parallel2'')] (ml_set_option X86_64)
     (ml_default_settings X86_64 4096) = Inl (Exit 1)"
proof -
  let ?s = "ml_default_settings X86_64 4096"
  have f: "find_memload ''memset-libc'' = Some \<lparr>load_fn = Memset_Libc, load_name = ''memset-libc'', load_requires_arg = False\<rparr>"
    "arg_rest ''memset-libc'' = []" "arg_rest ''parallel2'' = []"
    "ml_find_chase X86_64 ''parallel2'' = Some (chase_row (Parallel 2) 8 ''parallel2'' False 2)"
    by code_simp+
  have t: "run_test_type ?s = RUN_CHASE" by (simp add: ml_default_settings_def)
  have "\<exists>s1. option_c X86_64 ''parallel2'' ?s = Inr s1"
    using t by (simp add: option_c_def f Let_def chase_row_def)
  moreover have "\<exists>s2. option_l ''memset-libc'' ?s = Inr s2"
    by (simp add: option_l_def f Let_def)
  moreover have "\<not> selects_chaseload X86_64 (CHR ''c'', ''parallel2'')"
    by (simp add: selects_chaseload_def f chase_row_def)
  ultimately show ?thesis using chase_and_load_depend_on_order t by blast
qed

end
