(* ===== verification/Load_Loops.thy ===== *)
theory Load_Loops
  imports Memload Multi_Options
begin

text \<open>
  The seven memory loads of \<open>multiload.c\<close> behind the function pointer \<open>memload->fn\<close>: one record for
  what any of them keeps between two rounds, the start and the round of each, and the proof that
  none of them leaves the buffer of its thread. The contract is the locale \<open>buffer_load\<close>.
\<close>

subsection \<open>args->x.memload->fn\<close>

record load_loop =
  elements :: nat
  load_bites :: nat
  ptr_a :: nat
  ptr_b :: nat
  ptr_c :: nat
  acc_s :: nat
  result_dummy :: nat
  nops_run :: nat

definition load_begin :: "memload_fn \<Rightarrow> nat \<Rightarrow> nat \<Rightarrow> load_loop" where
  "load_begin f load_arena load_total_memory =
     (let (n, bites, a, b, c) =
        (case f of
           Memcpy_Libc \<Rightarrow>
             (let (n, bites, a, b) = load_memcpy_libc_start load_arena load_total_memory in (n, bites, a, b, 0))
         | Memset_Libc \<Rightarrow> (0, mul64 load_total_memory 1, load_arena, 0, 0)
         | Memsetz_Libc \<Rightarrow> (0, mul64 load_total_memory 1, load_arena, 0, 0)
         | Stream_Copy \<Rightarrow>
             (let (n, bites, a, b) = load_stream_copy_start load_arena load_total_memory in (n, bites, a, b, 0))
         | Stream_Sum \<Rightarrow>
             (load_total_memory div 8, mul64 (mul64 (load_total_memory div 8) 8) 1, load_arena, 0, 0)
         | Stream_Triad \<Rightarrow> triad_start load_arena load_total_memory
         | Triad_Injection_Delay \<Rightarrow> triad_start load_arena load_total_memory) in
      \<lparr>elements = n, load_bites = bites, ptr_a = a, ptr_b = b, ptr_c = c, acc_s = 0,
       result_dummy = 0x0123456789abcdef, nops_run = 0\<rparr>)"

definition load_round ::
    "(nat \<Rightarrow> nat \<Rightarrow> nat) \<Rightarrow> nat \<Rightarrow> memload_fn \<Rightarrow> nat \<Rightarrow> load_loop \<times> mem \<Rightarrow> (load_loop \<times> mem) res" where
  "load_round fplus d f load_total_memory st =
     (let (l, m) = st in
      case f of
        Memcpy_Libc \<Rightarrow>
          rbind (load_memcpy_libc (elements l) (ptr_a l, ptr_b l, m)) (\<lambda>(a, b, m).
          Inr (l\<lparr>ptr_a := a, ptr_b := b\<rparr>, m))
      | Memset_Libc \<Rightarrow> rbind (load_memset_libc load_total_memory (ptr_a l) m) (\<lambda>m. Inr (l, m))
      | Memsetz_Libc \<Rightarrow> rbind (load_memsetz_libc load_total_memory (ptr_a l) m) (\<lambda>m. Inr (l, m))
      | Stream_Copy \<Rightarrow>
          rbind (load_stream_copy (elements l) (ptr_a l, ptr_b l, m)) (\<lambda>(a, b, m).
          Inr (l\<lparr>ptr_a := a, ptr_b := b\<rparr>, m))
      | Stream_Sum \<Rightarrow>
          rbind (load_stream_sum load_total_memory (ptr_a l) m (acc_s l, result_dummy l)) (\<lambda>(s, d).
          Inr (l\<lparr>acc_s := s, result_dummy := d\<rparr>, m))
      | Stream_Triad \<Rightarrow>
          rbind (load_stream_triad fplus (elements l) (ptr_a l, ptr_b l, ptr_c l, m)) (\<lambda>(a, b, c, m).
          Inr (l\<lparr>ptr_a := a, ptr_b := b, ptr_c := c\<rparr>, m))
      | Triad_Injection_Delay \<Rightarrow>
          rbind (load_stream_triad_nontemporal_injection_delay d (elements l)
                   (nops_run l, ptr_a l, ptr_b l, ptr_c l, m)) (\<lambda>(nops, a, b, c, m).
          Inr (l\<lparr>nops_run := nops, ptr_a := a, ptr_b := b, ptr_c := c\<rparr>, m)))"

subsection \<open>Staying in the buffer\<close>

text \<open>\<open>m'\<close> is \<open>m\<close> with other contents in the buffer.\<close>

definition buffer_only :: "nat \<Rightarrow> nat \<Rightarrow> mem \<Rightarrow> mem \<Rightarrow> bool" where
  "buffer_only lo n m m' \<longleftrightarrow>
     mapped m' lo n \<and> (\<forall>x. x < lo \<or> lo + n \<le> x \<longrightarrow> m' x = m x)"

lemma buffer_only_refl: "mapped m lo n \<Longrightarrow> buffer_only lo n m m"
  by (simp add: buffer_only_def)

lemma buffer_only_trans: "buffer_only lo n m m' \<Longrightarrow> buffer_only lo n m' m'' \<Longrightarrow> buffer_only lo n m m''"
  by (simp add: buffer_only_def)

locale buffer_load =
  fixes lo n :: nat and inv :: "'s \<Rightarrow> bool" and round :: "'s \<times> mem \<Rightarrow> ('s \<times> mem) res"
  assumes round_ok: "inv l \<Longrightarrow> mapped m lo n \<Longrightarrow>
    \<exists>l' m'. round (l, m) = Inr (l', m') \<and> inv l' \<and> buffer_only lo n m m'"
begin

lemma rounds_ok:
  assumes "inv l" and "mapped m lo n"
  shows "\<exists>l' m'. for_range k (\<lambda>_. round) (l, m) = Inr (l', m') \<and> inv l' \<and> buffer_only lo n m m'"
proof (induction k)
  case 0
  then show ?case using assms by (simp add: buffer_only_refl)
next
  case (Suc k)
  then obtain l' m' where IH: "for_range k (\<lambda>_. round) (l, m) = Inr (l', m')" "inv l'" "buffer_only lo n m m'"
    by blast
  then obtain l'' m'' where "round (l', m') = Inr (l'', m'')" "inv l''" "buffer_only lo n m' m''"
    using round_ok by (metis buffer_only_def)
  then show ?case using IH buffer_only_trans by auto
qed

end

lemma store_in_buffer:
  assumes "lo \<le> a" "a + 8 \<le> lo + n" "mapped m lo n"
  shows "\<exists>m'. store64 m a v = Inr m' \<and> buffer_only lo n m m'"
proof -
  have "mapped m a 8" by (rule mapped_sub[OF assms(3)]) (use assms in auto)
  then have "store64 m a v = Inr (put_bytes m a (bytes_of 8 v))"
    by (simp add: store64_def write_bytes_eq)
  moreover have "put_bytes m a (bytes_of 8 v) x = m x" if "x < lo \<or> lo + n \<le> x" for x
    using that assms(1,2) by (auto simp: put_bytes_def)
  ultimately show ?thesis
    using mapped_put_bytes[OF assms(3)] by (auto simp: buffer_only_def)
qed

lemma load_in_buffer:
  assumes "lo \<le> a" "a + 8 \<le> lo + n" "mapped m lo n"
  shows "\<exists>v. load64 m a = Inr v"
proof -
  have "mapped m a 8" by (rule mapped_sub[OF assms(3)]) (use assms in auto)
  then show ?thesis by (simp add: load64_def read_bytes_eq)
qed

text \<open>A loop over words of the buffer.\<close>

lemma loop_in_buffer:
  assumes "\<And>i s. i < N \<Longrightarrow> mapped s lo n \<Longrightarrow> \<exists>s'. body i s = Inr s' \<and> buffer_only lo n s s'"
    and "mapped m lo n"
  shows "\<exists>m'. for_range N body m = Inr m' \<and> buffer_only lo n m m'"
proof -
  have "wp (\<lambda>_. False) (buffer_only lo n m) (for_range N body m)"
  proof (rule wp_for_range)
    show "buffer_only lo n m m" using assms(2) by (rule buffer_only_refl)
    fix k s assume "k < N" "buffer_only lo n m s"
    moreover have "mapped s lo n" using \<open>buffer_only lo n m s\<close> by (simp add: buffer_only_def)
    ultimately show "wp (\<lambda>_. False) (buffer_only lo n m) (body k s)"
      using assms(1)[of k s] buffer_only_trans by auto
  qed
  then show ?thesis by (cases "for_range N body m") auto
qed

text \<open>An array of \<open>N\<close> words at \<open>p\<close> inside the buffer.\<close>

definition in_buffer :: "nat \<Rightarrow> nat \<Rightarrow> nat \<Rightarrow> nat \<Rightarrow> bool" where
  "in_buffer lo n N p \<longleftrightarrow> lo \<le> p \<and> p + 8 * N \<le> lo + n \<and> lo + n < W64"

lemma in_buffer_word:
  assumes "in_buffer lo n N p" and "i < N"
  shows "lo \<le> word_at p i" "word_at p i + 8 \<le> lo + n"
  using assms by (auto simp: in_buffer_def word_at_def c_arith)

lemma word_store:
  assumes "in_buffer lo n N p" "i < N" "mapped m lo n"
  shows "\<exists>m'. store64 m (word_at p i) v = Inr m' \<and> buffer_only lo n m m'"
  using in_buffer_word[OF assms(1,2)] assms(3) by (rule store_in_buffer)

lemma word_load:
  assumes "in_buffer lo n N p" "i < N" "mapped m lo n"
  shows "\<exists>v. load64 m (word_at p i) = Inr v"
  using in_buffer_word[OF assms(1,2)] assms(3) by (rule load_in_buffer)

lemma triad_in_buffer:
  assumes "in_buffer lo n N a" "in_buffer lo n N b" "in_buffer lo n N c" "mapped m lo n"
  shows "\<exists>m'. load_stream_triad fplus N (a, b, c, m) = Inr (b, c, a, m') \<and> buffer_only lo n m m'"
proof -
  have "\<exists>s'. triad_element fplus b c a i s = Inr s' \<and> buffer_only lo n s s'"
    if "i < N" "mapped s lo n" for i s
    using word_load[OF assms(3) that] word_load[OF assms(1) that] word_store[OF assms(2) that]
    by (auto simp: triad_element_def)
  from loop_in_buffer[where N = N and body = "triad_element fplus b c a", OF this assms(4)] show ?thesis
    by (auto simp: load_stream_triad_def)
qed

lemma copy_in_buffer:
  assumes "in_buffer lo n N a" "in_buffer lo n N b" "mapped m lo n"
  shows "\<exists>m'. load_stream_copy N (a, b, m) = Inr (b, a, m') \<and> buffer_only lo n m m'"
proof -
  have "\<exists>s'. rbind (load64 s (word_at b i)) (store64 s (word_at a i)) = Inr s' \<and> buffer_only lo n s s'"
    if "i < N" "mapped s lo n" for i s
    using word_load[OF assms(2) that] word_store[OF assms(1) that] by auto
  from loop_in_buffer[where N = N and body = "\<lambda>i s. rbind (load64 s (word_at b i)) (store64 s (word_at a i))", OF this assms(3)]
  show ?thesis by (auto simp: load_stream_copy_def)
qed

lemma sum_in_buffer:
  assumes "in_buffer lo n (n div 8) a" "mapped m lo n"
  shows "\<exists>s' d'. load_stream_sum n a m (s, d) = Inr (s', d')"
proof -
  have "wp (\<lambda>_. False) (\<lambda>_. True)
      (for_range (n div 8) (\<lambda>i s. rbind (load64 m (word_at a i)) (\<lambda>v. Inr (add64 s v))) s)"
  proof (rule wp_for_range[where I = "\<lambda>_ _. True"])
    fix k s assume "k < n div 8"
    then obtain v where "load64 m (word_at a k) = Inr v" using word_load[OF assms(1) _ assms(2)] by blast
    then show "wp (\<lambda>_. False) (\<lambda>_. True) (rbind (load64 m (word_at a k)) (\<lambda>v. Inr (add64 s v)))" by simp
  qed simp
  then show ?thesis by (auto simp: load_stream_sum_def wp_total)
qed

lemma memcpy_in_buffer:
  assumes "lo \<le> a" "a + N \<le> lo + n" "lo \<le> b" "b + N \<le> lo + n" "a + N \<le> b \<or> b + N \<le> a"
    and "mapped m lo n"
  shows "\<exists>m'. load_memcpy_libc N (a, b, m) = Inr (b, a, m') \<and> buffer_only lo n m m'"
proof -
  have ab: "mapped m a N" "mapped m b N" using assms by (auto intro!: mapped_sub[OF assms(6)])
  have "memcpy_bytes m b a N = Inr (\<lambda>x. if b \<le> x \<and> x < b + N then m (a + (x - b)) else m x)"
    using ab assms(5) by (intro write_then_read) auto
  moreover have "m (a + (x - b)) \<noteq> None" if "b \<le> x" "x < b + N" for x
  proof -
    have "x - b < N" using that by linarith
    then show ?thesis using ab(1) unfolding mapped_def by blast
  qed
  ultimately show ?thesis
    using assms by (auto simp: load_memcpy_libc_def buffer_only_def mapped_def)
qed

lemma memset_in_buffer:
  assumes "mapped m lo n" "n < W64"
  shows "\<exists>m'. load_memset_libc n lo m = Inr m' \<and> buffer_only lo n m m'"
    "\<exists>m'. load_memsetz_libc n lo m = Inr m' \<and> buffer_only lo n m m'"
  using memset_round[OF assms] by (auto simp: buffer_only_def mapped_def)


subsection \<open>The seven loads\<close>

text \<open>What every load keeps of its pointers.\<close>

definition keeps_memcpy :: "nat \<Rightarrow> nat \<Rightarrow> load_loop \<Rightarrow> bool" where
  "keeps_memcpy lo n l \<longleftrightarrow>
     elements l = n div 2 \<and> {ptr_a l, ptr_b l} = {lo, lo + n div 2} \<and> ptr_a l \<noteq> ptr_b l"

definition keeps_arrays :: "nat \<Rightarrow> nat \<Rightarrow> load_loop \<Rightarrow> bool" where
  "keeps_arrays lo n l \<longleftrightarrow> in_buffer lo n (elements l) (ptr_a l) \<and> in_buffer lo n (elements l) (ptr_b l)"

definition keeps_triad :: "nat \<Rightarrow> nat \<Rightarrow> load_loop \<Rightarrow> bool" where
  "keeps_triad lo n l \<longleftrightarrow> keeps_arrays lo n l \<and> in_buffer lo n (elements l) (ptr_c l) \<and> even (elements l)"

fun keeps :: "memload_fn \<Rightarrow> nat \<Rightarrow> nat \<Rightarrow> load_loop \<Rightarrow> bool" where
  "keeps Memcpy_Libc lo n l = keeps_memcpy lo n l"
| "keeps Memset_Libc lo n l = (ptr_a l = lo)"
| "keeps Memsetz_Libc lo n l = (ptr_a l = lo)"
| "keeps Stream_Copy lo n l = keeps_arrays lo n l"
| "keeps Stream_Sum lo n l = (ptr_a l = lo)"
| "keeps Stream_Triad lo n l = keeps_triad lo n l"
| "keeps Triad_Injection_Delay lo n l = keeps_triad lo n l"

lemma keeps_begin:
  assumes "48 \<le> n" and "lo + n < W64"
  shows "keeps f lo n (load_begin f lo n)"
proof -
  have triad: "keeps_triad lo n l" if "triad_start lo n = (elements l, bites, ptr_a l, ptr_b l, ptr_c l)"
    for l :: load_loop and bites
    using triad_start_eq[OF assms] that assms(2)
    by (auto simp: keeps_triad_def keeps_arrays_def in_buffer_def)
  obtain N bites a b c where T: "triad_start lo n = (N, bites, a, b, c)" using prod_cases5 by blast
  have half: "n div 2 < W64" "8 * (n div 2 div 8) \<le> n div 2" using assms by simp_all
  show ?thesis
    using assms half triad[where bites = bites] T
    by (cases f) (auto simp: load_begin_def load_memcpy_libc_start_def load_stream_copy_start_def
        keeps_memcpy_def keeps_arrays_def in_buffer_def word_at_def c_arith Let_def)
qed

lemma keeps_round:
  assumes "keeps f lo n l" and "mapped m lo n" and "lo + n < W64"
  shows "\<exists>l' m'. load_round fplus d f n (l, m) = Inr (l', m') \<and> keeps f lo n l' \<and> buffer_only lo n m m'"
proof (cases f)
  case Memcpy_Libc
  have "\<exists>m'. load_memcpy_libc (elements l) (ptr_a l, ptr_b l, m) = Inr (ptr_b l, ptr_a l, m') \<and> buffer_only lo n m m'"
    using assms(1,2) Memcpy_Libc by (intro memcpy_in_buffer) (auto simp: keeps_memcpy_def doubleton_eq_iff)
  then show ?thesis
    using assms(1) Memcpy_Libc by (auto simp: load_round_def keeps_memcpy_def doubleton_eq_iff)
next
  case Stream_Copy
  then show ?thesis
    using copy_in_buffer[of lo n "elements l" "ptr_a l" "ptr_b l" m] assms(1,2)
    by (auto simp: load_round_def keeps_arrays_def)
next
  case Stream_Sum
  have "in_buffer lo n (n div 8) lo" using assms(3) by (simp add: in_buffer_def)
  then obtain s' d' where "load_stream_sum n lo m (acc_s l, result_dummy l) = Inr (s', d')"
    using sum_in_buffer assms(2) by blast
  then show ?thesis
    using Stream_Sum assms(1) buffer_only_refl[OF assms(2)] by (simp add: load_round_def)
next
  case Stream_Triad
  then show ?thesis
    using triad_in_buffer[of lo n "elements l" "ptr_a l" "ptr_b l" "ptr_c l" m fplus] assms(1,2)
    by (auto simp: load_round_def keeps_triad_def keeps_arrays_def)
next
  case Triad_Injection_Delay
  then have "even (elements l)" using assms(1) by (simp add: keeps_triad_def)
  then show ?thesis
    using triad_in_buffer[of lo n "elements l" "ptr_a l" "ptr_b l" "ptr_c l" m add64] assms(1,2)
      injection_round[of "elements l" d] Triad_Injection_Delay
    by (auto simp: load_round_def keeps_triad_def keeps_arrays_def)
qed (use assms memset_in_buffer[of m lo n] in \<open>auto simp: load_round_def\<close>)

interpretation loads: buffer_load lo n "\<lambda>l. keeps f lo n l \<and> lo + n < W64" "load_round fplus d f n"
  for lo n f fplus d
  by unfold_locales (use keeps_round in blast)

text \<open>C16: With a buffer of at least 48 bytes each of the seven memory loads runs any number
  of rounds without a fault and changes nothing outside the buffer of its thread.\<close>
theorem memload_stays_in_buffer:
  assumes "48 \<le> n" and "lo + n < W64" and "mapped m lo n"
  shows "\<exists>l m'. for_range k (\<lambda>_. load_round fplus d f n) (load_begin f lo n, m) = Inr (l, m') \<and>
    (\<forall>x. x < lo \<or> lo + n \<le> x \<longrightarrow> m' x = m x)"
  using loads.rounds_ok[of f lo n "load_begin f lo n" m k fplus d] keeps_begin[OF assms(1,2)] assms(2,3)
  by (auto simp: buffer_only_def)

theorem memload_stays_in_buffer_witness:
  "\<exists>l m'. for_range 3 (\<lambda>_. load_round add64 1 Triad_Injection_Delay 96) (load_begin Triad_Injection_Delay 64 96, ones) =
      Inr (l, m') \<and> (\<forall>x. x < 64 \<or> 64 + 96 \<le> x \<longrightarrow> m' x = ones x)"
  using memload_stays_in_buffer[of 96 64 ones 3 add64 1 Triad_Injection_Delay] ones_facts(1)
  by (simp add: W64_def)

end
