(* ===== verification/Handshake.thy ===== *)
theory Handshake
  imports Prelude
begin

text \<open>
  How \<open>main\<close> of \<open>multiload.c\<close> gets its samples. It writes the number of the sample to
  \<open>x.sample_no\<close> of every thread and then, thread by thread, exchanges \<open>x.count\<close> with 0 until it
  finds a value. A load thread looks at \<open>sample_no\<close> after every round of its load
  (\<open>LOAD_MEMORY_SAMPLE_MIBPS\<close>) and adds its bandwidth to \<open>count\<close> when the number is new and \<open>count\<close>
  is 0; a chase thread adds to \<open>count\<close> all the time. The accesses to the shared fields are single
  steps, in any order. \<open>posts\<close> and \<open>takes\<close> record what has been handed over.
\<close>

subsection \<open>The code\<close>

text \<open>
  A load thread is in its load, has read \<open>nxt_sample\<close>, or is about to post the bandwidth it has
  computed. \<open>main\<close> requests sample \<open>k\<close> from thread \<open>i\<close>, polls thread \<open>i\<close>, or has left the loop; \<open>k\<close> counts
  on where \<open>sample_no\<close>, a \<open>size_t\<close>, wraps.
\<close>

datatype load_pc = Load | Look nat | Post nat nat

datatype main_pc = Request nat nat | Poll nat nat | Sampled

record handshake =
  main_at :: main_pc
  load_at :: "nat \<Rightarrow> load_pc"
  sample_no :: "nat \<Rightarrow> nat"
  counts :: "nat \<Rightarrow> nat"
  cur_sample :: "nat \<Rightarrow> nat"
  posts :: "nat \<Rightarrow> (nat \<times> nat) list"
  takes :: "nat \<Rightarrow> (nat \<times> nat) list"

text \<open>A step of load thread \<open>i\<close>; \<open>mibps\<close> is the bandwidth, cast to \<open>uint64_t\<close>.\<close>

definition load_do :: "nat \<Rightarrow> nat \<Rightarrow> handshake \<Rightarrow> handshake" where
  "load_do i mibps s =
     (case load_at s i of
        Load \<Rightarrow> s\<lparr>load_at := (load_at s)(i := Look (sample_no s i))\<rparr>
      | Look nxt_sample \<Rightarrow>
          if cur_sample s i \<noteq> nxt_sample \<and> counts s i = 0
          then s\<lparr>load_at := (load_at s)(i := Post nxt_sample mibps)\<rparr>
          else s\<lparr>load_at := (load_at s)(i := Load)\<rparr>
      | Post nxt_sample v \<Rightarrow>
          s\<lparr>load_at := (load_at s)(i := Load),
            counts := (counts s)(i := add64 (counts s i) v),
            cur_sample := (cur_sample s)(i := nxt_sample),
            posts := (posts s)(i := posts s i @ [(nxt_sample, v)])\<rparr>)"

definition chase_do :: "nat \<Rightarrow> nat \<Rightarrow> handshake \<Rightarrow> handshake" where
  "chase_do i steps s = s\<lparr>counts := (counts s)(i := add64 (counts s i) steps)\<rparr>"

text \<open>The head of the loop over the samples; \<open>nr = 1\<close> samples for ever.\<close>

definition start_sample :: "nat \<Rightarrow> nat \<Rightarrow> main_pc" where
  "start_sample nr k = (if nr = 1 \<or> k mod W64 < nr then Request k 0 else Sampled)"

definition main_do :: "nat \<Rightarrow> nat \<Rightarrow> handshake \<Rightarrow> handshake" where
  "main_do nr_threads nr s =
     (case main_at s of
        Request k i \<Rightarrow>
          if i < nr_threads
          then s\<lparr>sample_no := (sample_no s)(i := k mod W64), main_at := Request k (i + 1)\<rparr>
          else s\<lparr>main_at := Poll k 0\<rparr>
      | Poll k i \<Rightarrow>
          if i < nr_threads
          then
            (let cur = counts s i; s = s\<lparr>counts := (counts s)(i := 0)\<rparr> in
             if cur \<noteq> 0
             then s\<lparr>takes := (takes s)(i := takes s i @ [(k, cur)]), main_at := Poll k (i + 1)\<rparr>
             else s)
          else s\<lparr>main_at := start_sample nr (k + 1)\<rparr>
      | Sampled \<Rightarrow> s)"

definition handshake_init :: "nat \<Rightarrow> handshake" where
  "handshake_init nr =
     \<lparr>main_at = start_sample nr 0, load_at = (\<lambda>_. Load), sample_no = (\<lambda>_. 0), counts = (\<lambda>_. 0),
      cur_sample = (\<lambda>_. sub64 0 1), posts = (\<lambda>_. []), takes = (\<lambda>_. [])\<rparr>"

inductive handshake_step :: "(nat \<Rightarrow> bool) \<Rightarrow> nat \<Rightarrow> nat \<Rightarrow> handshake \<Rightarrow> handshake \<Rightarrow> bool"
  for is_load n nr where
  main: "handshake_step is_load n nr s (main_do n nr s)"
| load: "is_load i \<Longrightarrow> v < W64 \<Longrightarrow> handshake_step is_load n nr s (load_do i v s)"
| chase: "\<not> is_load i \<Longrightarrow> 0 < steps \<Longrightarrow> handshake_step is_load n nr s (chase_do i steps s)"

inductive_cases handshake_stepE: "handshake_step is_load n nr s s'"

abbreviation handshake_run :: "(nat \<Rightarrow> bool) \<Rightarrow> nat \<Rightarrow> nat \<Rightarrow> handshake \<Rightarrow> handshake \<Rightarrow> bool" where
  "handshake_run is_load n nr \<equiv> (handshake_step is_load n nr)\<^sup>*\<^sup>*"

subsection \<open>The invariant\<close>

text \<open>The samples requested from and taken from thread \<open>i\<close>; \<open>K\<close> stands for all when main is done.\<close>

fun requested :: "main_pc \<Rightarrow> nat \<Rightarrow> nat \<Rightarrow> nat" where
  "requested (Request k j) K i = (if i < j then Suc k else k)"
| "requested (Poll k j) K i = Suc k"
| "requested Sampled K i = K"

fun finished :: "main_pc \<Rightarrow> nat \<Rightarrow> nat \<Rightarrow> nat" where
  "finished (Request k j) K i = k"
| "finished (Poll k j) K i = (if i < j then Suc k else k)"
| "finished Sampled K i = K"

text \<open>
  \<open>ok_load p t r x c cur pc\<close>: a load thread that has posted \<open>p\<close> values of which \<open>t\<close> are taken, with
  \<open>r\<close> samples requested; \<open>x\<close> is its \<open>sample_no\<close>, \<open>c\<close> its \<open>count\<close> and \<open>w\<close> the last value posted.
\<close>

definition ok_load :: "nat \<Rightarrow> nat \<Rightarrow> nat \<Rightarrow> nat \<Rightarrow> nat \<Rightarrow> nat \<Rightarrow> nat \<Rightarrow> load_pc \<Rightarrow> bool" where
  "ok_load p t r x c w cur pc \<longleftrightarrow>
     r - 1 \<le> t \<and> t \<le> r \<and> t \<le> p \<and> p \<le> Suc (r - 1) \<and> p \<le> Suc t \<and> x = (r - 1) mod W64 \<and>
     c = (if p = t then 0 else w) \<and> cur = (p + (W64 - 1)) mod W64 \<and>
     (case pc of
        Load \<Rightarrow> True
      | Look y \<Rightarrow> \<exists>q. y = q mod W64 \<and> q \<le> p \<and> p \<le> Suc q \<and> q \<le> r - 1
      | Post y v \<Rightarrow> y = p mod W64 \<and> p = t \<and> p \<le> r - 1 \<and> v < W64)"

definition sampled_ok :: "nat \<Rightarrow> handshake \<Rightarrow> nat \<Rightarrow> bool" where
  "sampled_ok K s i \<longleftrightarrow>
     length (takes s i) = finished (main_at s) K i \<and>
     ok_load (length (posts s i)) (finished (main_at s) K i) (requested (main_at s) K i)
       (sample_no s i) (counts s i) (snd (last (posts s i))) (cur_sample s i) (load_at s i) \<and>
     (\<forall>j<length (takes s i). takes s i ! j = (j, snd (posts s i ! j)) \<and> snd (posts s i ! j) \<noteq> 0) \<and>
     (\<forall>j<length (posts s i). fst (posts s i ! j) = j mod W64)"

definition handshake_inv :: "(nat \<Rightarrow> bool) \<Rightarrow> nat \<Rightarrow> nat \<Rightarrow> handshake \<Rightarrow> bool" where
  "handshake_inv is_load n K s \<longleftrightarrow> (\<forall>i<n. is_load i \<longrightarrow> sampled_ok K s i)"

subsection \<open>Each step keeps it\<close>

lemma prev_mod: "(Suc p + (W64 - 1)) mod W64 = p mod W64"
proof -
  have "Suc p + (W64 - 1) = p + W64" by (simp add: W64_def)
  then show ?thesis by (simp only: mod_add_self2)
qed

lemma ok_load_request: "ok_load p k k x c w cur pc \<Longrightarrow> ok_load p k (Suc k) (k mod W64) c w cur pc"
  by (auto simp: ok_load_def split: load_pc.splits)

lemma ok_load_take: "ok_load p k (Suc k) x c w cur pc \<Longrightarrow> c \<noteq> 0 \<Longrightarrow> p = Suc k \<and> c = w \<and> ok_load p (Suc k) (Suc k) x 0 w cur pc"
  by (auto simp: ok_load_def split: load_pc.splits if_splits)

lemma ok_load_look: "ok_load p t r x c w cur Load \<Longrightarrow> ok_load p t r x c w cur (Look x)"
  by (auto simp: ok_load_def)

lemma ok_load_again: "ok_load p t r x c w cur (Look y) \<Longrightarrow> ok_load p t r x c w cur Load"
  by (auto simp: ok_load_def)

lemma ok_load_new:
  assumes "ok_load p t r x c w cur (Look y)" and "cur \<noteq> y" and "v < W64"
  shows "ok_load p t r x c w cur (Post y v)"
proof -
  obtain q where q: "y = q mod W64" "q \<le> p" "p \<le> Suc q" "q \<le> r - 1"
    using assms(1) by (auto simp: ok_load_def)
  have "p \<noteq> Suc q" using assms(1,2) q(1) prev_mod[of q] by (auto simp: ok_load_def)
  then have "q = p" using q(2,3) by linarith
  then show ?thesis using assms(1,3) q(1,4) by (simp add: ok_load_def)
qed

lemma ok_load_post:
  assumes "ok_load p t r x c w cur (Post y v)"
  shows "ok_load (Suc p) t r x (add64 c v) v y Load" "y = p mod W64" "p = t"
  using assms prev_mod[of p] by (auto simp: ok_load_def add64_def)

lemma sampled_ok_cong:
  assumes "takes s' i = takes s i" "posts s' i = posts s i" "sample_no s' i = sample_no s i"
    "counts s' i = counts s i" "cur_sample s' i = cur_sample s i" "load_at s' i = load_at s i"
    and "finished (main_at s') K' i = finished (main_at s) K i" "requested (main_at s') K' i = requested (main_at s) K i"
  shows "sampled_ok K' s' i = sampled_ok K s i"
  using assms by (simp add: sampled_ok_def)

lemma inv_load:
  assumes "sampled_ok K s l" and "v < W64"
  shows "sampled_ok K (load_do i v s) l"
proof (cases "i = l")
  case False
  show ?thesis
    using assms(1) False
    by (subst sampled_ok_cong[of _ _ s _ K]) (auto simp: load_do_def split: load_pc.split)
next
  case True
  note I = assms(1)[unfolded sampled_ok_def]
  have ok: "ok_load (length (posts s l)) (finished (main_at s) K l) (requested (main_at s) K l) (sample_no s l)
      (counts s l) (snd (last (posts s l))) (cur_sample s l) (load_at s l)" using I by blast
  show ?thesis
  proof (cases "load_at s l")
    case Load
    then show ?thesis using I ok_load_look[OF ok[unfolded Load]] True by (simp add: load_do_def sampled_ok_def)
  next
    case (Look y)
    then show ?thesis
      using I ok_load_again[OF ok[unfolded Look]] ok_load_new[OF ok[unfolded Look] _ assms(2)] True Look
      by (cases "cur_sample s l \<noteq> y \<and> counts s l = 0") (auto simp: load_do_def sampled_ok_def)
  next
    case (Post y u)
    note P = ok_load_post[OF ok[unfolded Post]]
    then show ?thesis
      using I True Post by (auto simp: load_do_def sampled_ok_def nth_append less_Suc_eq)
  qed
qed

lemma inv_chase: "i \<noteq> l \<Longrightarrow> sampled_ok K s l \<Longrightarrow> sampled_ok K (chase_do i steps s) l"
  by (simp add: sampled_ok_def chase_do_def)

lemma inv_main:
  assumes inv: "\<And>l. L l \<Longrightarrow> sampled_ok K s l" and n: "\<And>l. L l \<Longrightarrow> l < n"
  shows "\<exists>K. \<forall>l. L l \<longrightarrow> sampled_ok K (main_do n nr s) l"
proof (cases "main_at s")
  case Sampled
  then show ?thesis using inv by (auto simp: main_do_def)
next
  case (Request k j)
  have "sampled_ok K (main_do n nr s) l" if l: "L l" for l
  proof (cases "l = j")
    case True
    then show ?thesis
      using inv[OF l] n[OF l] Request by (auto simp: sampled_ok_def main_do_def intro: ok_load_request)
  next
    case False
    then show ?thesis
      using inv[OF l] n[OF l] Request by (auto simp: sampled_ok_def main_do_def less_Suc_eq)
  qed
  then show ?thesis by blast
next
  case (Poll k j)
  show ?thesis
  proof (cases "j < n")
    case False
    have "sampled_ok (Suc k) (s\<lparr>main_at := start_sample nr (k + 1)\<rparr>) l" if l: "L l" for l
      using inv[OF l] n[OF l] Poll False by (simp add: sampled_ok_def start_sample_def)
    then show ?thesis using Poll False by (auto simp: main_do_def)
  next
    case True
    have "sampled_ok K (main_do n nr s) l" if l: "L l" for l
    proof (cases "l = j")
      case other: False
      then show ?thesis
        using inv[OF l] Poll True by (auto simp: sampled_ok_def main_do_def Let_def less_Suc_eq)
    next
      case same: True
      show ?thesis
      proof (cases "counts s j = 0")
        case zero: True
        then have "(counts s)(j := 0) = counts s" by auto
        then have "main_do n nr s = s" using Poll True zero by (simp add: main_do_def)
        then show ?thesis using inv[OF l] by simp
      next
        case False
        note I = inv[OF l, unfolded sampled_ok_def Poll same]
        then have ok: "ok_load (length (posts s j)) k (Suc k) (sample_no s j) (counts s j)
            (snd (last (posts s j))) (cur_sample s j) (load_at s j)" by simp
        note T = ok_load_take[OF ok False]
        have len: "length (takes s j) = k" using I by simp
        have "posts s j \<noteq> []" using T by auto
        then have "posts s j ! k = last (posts s j)" using T by (simp add: last_conv_nth)
        then show ?thesis
          using I Poll True False T same len
          by (auto simp: sampled_ok_def main_do_def Let_def nth_append less_Suc_eq)
      qed
    qed
    then show ?thesis by blast
  qed
qed

lemma inv_init: "sampled_ok 0 (handshake_init nr) i"
  by (simp add: sampled_ok_def handshake_init_def start_sample_def ok_load_def sub64_def)

lemma handshake_reachable:
  assumes "handshake_run is_load n nr (handshake_init nr) s"
  shows "\<exists>K. handshake_inv is_load n K s"
  using assms
proof (induction rule: rtranclp_induct)
  case base
  then show ?case using inv_init by (auto simp: handshake_inv_def)
next
  case (step s s')
  then obtain K where K: "\<And>l. l < n \<and> is_load l \<Longrightarrow> sampled_ok K s l" by (auto simp: handshake_inv_def)
  from step(2) show ?case
  proof (cases rule: handshake_step.cases)
    case main
    then show ?thesis
      using inv_main[where L = "\<lambda>l. l < n \<and> is_load l" and n = n, OF K] unfolding handshake_inv_def by blast
  next
    case (load i v)
    then have "sampled_ok K s' l" if "l < n" "is_load l" for l using inv_load K that by simp
    then show ?thesis by (auto simp: handshake_inv_def)
  next
    case (chase i steps)
    have "sampled_ok K s' l" if "l < n" "is_load l" for l
      using inv_chase[of i l K s steps] K that chase by auto
    then show ?thesis by (auto simp: handshake_inv_def)
  qed
qed

subsection \<open>What main gets\<close>

text \<open>C14: The sampling protocol of multiload, under every schedule of main, the load threads
  and the chase threads: every sample main takes from a load thread is the value that thread has
  posted for exactly this sample; none is lost, repeated or taken for another sample.\<close>
theorem samples_match_requests:
  assumes "handshake_run is_load n nr (handshake_init nr) s" and "i < n" and "is_load i"
    and "j < length (takes s i)"
  shows "takes s i ! j = (j, snd (posts s i ! j)) \<and> fst (posts s i ! j) = j mod W64 \<and>
    snd (posts s i ! j) \<noteq> 0 \<and> length (takes s i) \<le> length (posts s i) \<and>
    length (posts s i) \<le> Suc (length (takes s i))"
proof -
  obtain K where "sampled_ok K s i"
    using handshake_reachable[OF assms(1)] assms(2,3) by (auto simp: handshake_inv_def)
  then show ?thesis using assms(4) by (auto simp: sampled_ok_def ok_load_def)
qed

lemma step_posts: "handshake_step is_load n nr s s' \<Longrightarrow> \<exists>zs. posts s' i = posts s i @ zs"
  by (erule handshake_step.cases)
    (auto simp: main_do_def load_do_def chase_do_def Let_def split: main_pc.splits load_pc.splits)

lemma run_posts:
  assumes "handshake_run is_load n nr s s'"
  shows "\<exists>zs. posts s' i = posts s i @ zs"
  using assms
proof (induction rule: rtranclp_induct)
  case (step s' s'')
  then show ?case using step_posts[OF step(2), of i] by auto
qed simp

lemma sampled_some:
  assumes "handshake_run is_load n nr (handshake_init nr) s" and "nr \<noteq> 0" and "main_at s = Sampled"
    and "i < n" and "is_load i"
  shows "takes s i \<noteq> []"
  using assms(1,3)
proof (induction rule: rtranclp_induct)
  case base
  then show ?case using assms(2) by (simp add: handshake_init_def start_sample_def split: if_splits)
next
  case (step s s')
  obtain K where K: "sampled_ok K s i"
    using handshake_reachable[OF step(1)] assms(4,5) by (auto simp: handshake_inv_def)
  from step(2) show ?case
  proof (cases rule: handshake_step.cases)
    case main
    show ?thesis
    proof (cases "main_at s")
      case (Poll k l)
      then have "length (takes s i) = (if i < l then Suc k else k)" using K by (simp add: sampled_ok_def)
      moreover have "n \<le> l" "takes s' = takes s"
        using main Poll step.prems by (auto simp: main_do_def Let_def split: if_splits)
      ultimately show ?thesis using assms(4) by auto
    qed (use main step in \<open>auto simp: main_do_def split: if_splits\<close>)
  next
    case (load l v)
    then have "main_at s' = main_at s" "takes s' = takes s" by (auto simp: load_do_def split: load_pc.splits)
    then show ?thesis using step by simp
  next
    case (chase l steps)
    then show ?thesis using step by (simp add: chase_do_def)
  qed
qed

text \<open>
  A bandwidth below 1 MiB/s is cast to 0. The thread then takes the request for answered, while main
  waits for a value.
\<close>

text \<open>C27: When a load thread posts the value 0 for a sample (a bandwidth below 1 MiB/s),
  main polls it for ever: the thread posts nothing more for this sample and main accepts no 0.\<close>
theorem zero_bandwidth_hangs:
  assumes "handshake_run is_load n nr (handshake_init nr) s" and "handshake_run is_load n nr s s'"
    and "i < n" and "is_load i" and "nr \<noteq> 0"
    and "j < length (posts s i)" and "snd (posts s i ! j) = 0"
  shows "\<exists>k l. (main_at s' = Request k l \<or> main_at s' = Poll k l) \<and> k \<le> j"
proof -
  have run: "handshake_run is_load n nr (handshake_init nr) s'" using assms(1,2) by (rule rtranclp_trans)
  obtain K where K: "sampled_ok K s' i"
    using handshake_reachable[OF run] assms(3,4) by (auto simp: handshake_inv_def)
  have P: "j < length (posts s' i)" "snd (posts s' i ! j) = 0"
    using run_posts[OF assms(2), of i] assms(6,7) by (auto simp: nth_append)
  then have few: "length (takes s' i) \<le> j" using K unfolding sampled_ok_def by (meson not_le)
  show ?thesis
  proof (cases "main_at s'")
    case Sampled
    then have "length (takes s' i) = K" "length (posts s' i) \<le> Suc (K - 1)" "takes s' i \<noteq> []"
      using K sampled_some[OF run assms(5) Sampled assms(3,4)] by (auto simp: sampled_ok_def ok_load_def)
    then show ?thesis using few P by (cases K) auto
  qed (use K few in \<open>auto simp: sampled_ok_def split: if_splits\<close>)
qed

text \<open>C26: A load thread that main is polling posts its value for the sample within four of
  its own steps.\<close>
theorem load_thread_answers:
  assumes "handshake_run is_load n nr (handshake_init nr) s" and "i < n" and "is_load i"
    and "main_at s = Poll k i" and "length (posts s i) = k" and "v < W64"
  shows "\<exists>m\<le>4. \<exists>w. posts ((load_do i v ^^ m) s) i = posts s i @ [(k mod W64, w)] \<and>
    counts ((load_do i v ^^ m) s) i = w \<and> (w = v \<or> load_at s i = Post (k mod W64) w)"
proof -
  obtain K where K: "sampled_ok K s i"
    using handshake_reachable[OF assms(1)] assms(2,3) by (auto simp: handshake_inv_def)
  then have ok: "ok_load k k (Suc k) (sample_no s i) (counts s i) (snd (last (posts s i))) (cur_sample s i) (load_at s i)"
    using assms(4,5) by (simp add: sampled_ok_def)
  have x: "sample_no s i = k mod W64" "counts s i = 0" "cur_sample s i = (k + (W64 - 1)) mod W64"
    using ok by (auto simp: ok_load_def)
  have ne: "cur_sample s i \<noteq> k mod W64"
  proof (cases k)
    case 0
    then show ?thesis using x(3) by (simp add: W64_def)
  next
    case (Suc q)
    then have "cur_sample s i = q mod W64" using x(3) prev_mod[of q] by simp
    moreover have "q mod W64 \<noteq> Suc q mod W64" using W64_gt_1 unfolding mod_Suc by (auto split: if_splits simp del: W64_gt_1)
    ultimately show ?thesis using Suc by simp
  qed
  let ?Q = "\<lambda>m. \<exists>w. posts ((load_do i v ^^ m) s) i = posts s i @ [(k mod W64, w)] \<and>
    counts ((load_do i v ^^ m) s) i = w \<and> (w = v \<or> load_at s i = Post (k mod W64) w)"
  show ?thesis
  proof (cases "load_at s i")
    case Load
    then have "?Q 3" using x ne assms(6) by (simp add: load_do_def numeral_3_eq_3 add64_exact)
    then show ?thesis by (intro exI[of _ 3]) simp
  next
    case (Look y)
    show ?thesis
    proof (cases "y = k mod W64")
      case True
      then have "?Q 2" using Look x ne assms(6) by (simp add: load_do_def numeral_2_eq_2 add64_exact)
      then show ?thesis by (intro exI[of _ 2]) simp
    next
      case False
      then obtain q where q: "y = q mod W64" "k = Suc q"
        using ok Look by (auto simp: ok_load_def le_Suc_eq)
      then have "cur_sample s i = y" using x(3) prev_mod[of q] by simp
      then have "?Q 4" using Look x ne assms(6) by (simp add: load_do_def eval_nat_numeral add64_exact)
      then show ?thesis by (intro exI[of _ 4]) simp
    qed
  next
    case (Post y w)
    then have "y = k mod W64" "w < W64" using ok by (auto simp: ok_load_def)
    then have "?Q 1" using Post x by (simp add: load_do_def add64_exact)
    then show ?thesis by (intro exI[of _ 1]) simp
  qed
qed

subsection \<open>Two runs\<close>

lemma run_main: "handshake_run L n nr s0 s \<Longrightarrow> handshake_run L n nr s0 (main_do n nr s)"
  by (erule rtranclp.rtrancl_into_rtrancl) (rule main)

lemma run_load: "handshake_run L n nr s0 s \<Longrightarrow> L i \<Longrightarrow> v < W64 \<Longrightarrow> handshake_run L n nr s0 (load_do i v s)"
  by (erule rtranclp.rtrancl_into_rtrancl) (rule load)

text \<open>One load thread that posts \<open>v\<close> for sample 0, before main polls it.\<close>

definition posted :: "nat \<Rightarrow> handshake" where
  "posted v = main_do 1 2 (main_do 1 2 (load_do 0 v (load_do 0 v (load_do 0 v (handshake_init 2)))))"

lemma posted_run: "v < W64 \<Longrightarrow> handshake_run (\<lambda>_. True) 1 2 (handshake_init 2) (posted v)"
  unfolding posted_def by (intro run_load run_main rtranclp.rtrancl_refl) simp_all

lemma posted_eq:
  assumes "v < W64"
  shows "main_at (posted v) = Poll 0 0" "posts (posted v) 0 = [(0, v)]" "counts (posted v) 0 = v"
    "takes (posted v) 0 = []"
  using assms
  using W64_gt_1
  by (simp_all add: posted_def handshake_init_def start_sample_def load_do_def main_do_def sub64_def add64_def
      del: W64_gt_1)

theorem samples_match_requests_witness:
  "takes (main_do 1 2 (posted 7)) 0 ! 0 = (0, snd (posts (main_do 1 2 (posted 7)) 0 ! 0)) \<and>
    fst (posts (main_do 1 2 (posted 7)) 0 ! 0) = 0 mod W64 \<and>
    snd (posts (main_do 1 2 (posted 7)) 0 ! 0) \<noteq> 0 \<and>
    length (takes (main_do 1 2 (posted 7)) 0) \<le> length (posts (main_do 1 2 (posted 7)) 0) \<and>
    length (posts (main_do 1 2 (posted 7)) 0) \<le> Suc (length (takes (main_do 1 2 (posted 7)) 0))"
proof (rule samples_match_requests)
  have 7: "(7 :: nat) < W64" by (simp add: W64_def)
  show "handshake_run (\<lambda>_. True) 1 2 (handshake_init 2) (main_do 1 2 (posted 7))"
    by (rule run_main[OF posted_run[OF 7]])
  show "0 < length (takes (main_do 1 2 (posted 7)) 0)"
    using posted_eq[OF 7] by (simp add: main_do_def)
qed simp_all

theorem zero_bandwidth_hangs_witness:
  "\<exists>k l. (main_at (main_do 1 2 (posted 0)) = Request k l \<or> main_at (main_do 1 2 (posted 0)) = Poll k l) \<and> k \<le> 0"
proof (rule zero_bandwidth_hangs[where i = 0])
  show "handshake_run (\<lambda>_. True) 1 2 (handshake_init 2) (posted 0)" by (rule posted_run) simp
  show "handshake_run (\<lambda>_. True) 1 2 (posted 0) (main_do 1 2 (posted 0))" by (intro run_main rtranclp.rtrancl_refl)
  show "0 < length (posts (posted 0) 0)" "snd (posts (posted 0) 0 ! 0) = 0"
    unfolding posted_eq(2)[OF W64_pos] by simp_all
qed simp_all

text \<open>The thread has not started when main polls it.\<close>

definition polled :: handshake where
  "polled = main_do 1 2 (main_do 1 2 (handshake_init 2))"

theorem load_thread_answers_witness:
  "\<exists>m\<le>4. \<exists>w. posts ((load_do 0 7 ^^ m) polled) 0 = posts polled 0 @ [(0 mod W64, w)] \<and>
    counts ((load_do 0 7 ^^ m) polled) 0 = w \<and> (w = 7 \<or> load_at polled 0 = Post (0 mod W64) w)"
proof (rule load_thread_answers)
  show "handshake_run (\<lambda>_. True) 1 2 (handshake_init 2) polled"
    unfolding polled_def by (intro run_main rtranclp.rtrancl_refl)
qed (simp_all add: polled_def main_do_def handshake_init_def start_sample_def W64_def)

end
