(* ===== verification/Multi_Threads.thy ===== *)
theory Multi_Threads
  imports Worker Threads Arena Load_Loops Handshake
begin

text \<open>
  The threads of \<open>multiload.c\<close>: the part each gets (chase or load), \<open>thread_start\<close> up to the barrier,
  and what runs after it. The chase kernels are those of multichase with a counter of 64 bits.
\<close>

subsection \<open>The kernels\<close>

definition ml_chase_simple :: "mem \<Rightarrow> (nat \<Rightarrow> bool) \<Rightarrow> per_thread \<Rightarrow> (per_thread \<times> nat) res option" where
  "ml_chase_simple = chase_simple 64"

definition ml_chase_parallel ::
    "nat \<Rightarrow> mem \<Rightarrow> (nat \<Rightarrow> bool) \<Rightarrow> per_thread \<Rightarrow> (per_thread \<times> nat list) res option" where
  "ml_chase_parallel = chase_parallel 64"

definition ml_chase_work :: "mem \<Rightarrow> (nat \<Rightarrow> bool) \<Rightarrow> per_thread \<Rightarrow> (per_thread \<times> nat \<times> nat) res option" where
  "ml_chase_work = chase_work 64"

definition ml_chase_incr :: "mem \<Rightarrow> (nat \<Rightarrow> bool) \<Rightarrow> per_thread \<Rightarrow> (per_thread \<times> nat \<times> mem) res option" where
  "ml_chase_incr = chase_incr 64"

definition ml_chase_prefetch :: "mem \<Rightarrow> (nat \<Rightarrow> bool) \<Rightarrow> per_thread \<Rightarrow> (per_thread \<times> nat) res option" where
  "ml_chase_prefetch = chase_prefetch 64"

definition ml_chase_movdqa :: "mem \<Rightarrow> (nat \<Rightarrow> bool) \<Rightarrow> per_thread \<Rightarrow> (per_thread \<times> nat) res option" where
  "ml_chase_movdqa = chase_movdqa 64"

definition ml_chase_movntdqa :: "mem \<Rightarrow> (nat \<Rightarrow> bool) \<Rightarrow> per_thread \<Rightarrow> (per_thread \<times> nat) res option" where
  "ml_chase_movntdqa = chase_movntdqa 64"

definition ml_chase_critword2 ::
    "mem \<Rightarrow> (nat \<Rightarrow> bool) \<Rightarrow> per_thread \<Rightarrow> (per_thread \<times> nat \<times> nat) res option" where
  "ml_chase_critword2 = chase_critword2 64"

text \<open>\<open>args->x.chase->fn(data)\<close>; the table of multiload has no branch chase and no GPU chase.\<close>

definition ml_run_chase ::
    "chase_fn \<Rightarrow> (nat \<Rightarrow> bool) \<Rightarrow> mem \<Rightarrow> per_thread \<Rightarrow> (per_thread \<times> mem) res option" where
  "ml_run_chase f sampled m t =
     (case f of
        Simple \<Rightarrow> obind (ml_chase_simple m sampled t) (\<lambda>(t, _). Some (Inr (t, m)))
      | Work \<Rightarrow> obind (ml_chase_work m sampled t) (\<lambda>(t, _). Some (Inr (t, m)))
      | Incr \<Rightarrow> obind (ml_chase_incr m sampled t) (\<lambda>(t, _, m). Some (Inr (t, m)))
      | Prefetch _ \<Rightarrow> obind (ml_chase_prefetch m sampled t) (\<lambda>(t, _). Some (Inr (t, m)))
      | Movdqa \<Rightarrow> obind (ml_chase_movdqa m sampled t) (\<lambda>(t, _). Some (Inr (t, m)))
      | Movntdqa \<Rightarrow> obind (ml_chase_movntdqa m sampled t) (\<lambda>(t, _). Some (Inr (t, m)))
      | Parallel n \<Rightarrow> obind (ml_chase_parallel n m sampled t) (\<lambda>(t, _). Some (Inr (t, m)))
      | Critword2 \<Rightarrow> obind (ml_chase_critword2 m sampled t) (\<lambda>(t, _). Some (Inr (t, m)))
      | Gpu \<Rightarrow> Some (Inl Undefined)
      | Branch \<Rightarrow> Some (Inl Undefined))"

subsection \<open>The parts of the threads\<close>

record ml_per_thread = per_thread +
  thread_num :: nat
  thread_test :: test_type
  thread_chase :: chase_t
  thread_memload :: memload_t
  thread_longer :: bool
  flush_arena :: nat
  flush_bytes :: nat
  load_arena :: nat
  load_total_memory :: nat
  load_offset :: nat
  load_delay :: nat

text \<open>\<open>thread_data[i]\<close> as \<open>main\<close> fills it; the block is fresh from \<open>mmap\<close>, so the rest is 0.\<close>

definition thread_role :: "test_type \<Rightarrow> nat \<Rightarrow> test_type" where
  "thread_role t i =
     (case t of
        RUN_CHASE_LOADED \<Rightarrow> if i = 0 then RUN_CHASE else RUN_BANDWIDTH
      | RUN_CHASE \<Rightarrow> RUN_CHASE
      | RUN_BANDWIDTH \<Rightarrow> RUN_BANDWIDTH)"

definition thread_data :: "ml_settings \<Rightarrow> nat \<Rightarrow> nat \<Rightarrow> ml_per_thread" where
  "thread_data s flush i =
     \<lparr>thread_count = 0, cycle = replicate MAX_PARALLEL 0,
      extra_arg = (case extra_args s of None \<Rightarrow> [] | Some x \<Rightarrow> x), dummy = 0, branch_chunk_size = 0,
      thread_num = i, thread_test = thread_role (run_test_type s) i, thread_chase = chase s,
      thread_memload = memload s, thread_longer = use_longer_chase s, flush_arena = flush,
      flush_bytes = cache_flush_size s, load_arena = 0, load_total_memory = mem_size s,
      load_offset = offset s, load_delay = delay s\<rparr>"

definition start_threads :: "ml_settings \<Rightarrow> nat \<Rightarrow> (ml_per_thread list \<times> nat \<times> nat) res" where
  "start_threads s flush =
     for_range (nr_threads s) (\<lambda>i (ts, nr_chase_threads, nr_load_threads).
       let t = thread_data s flush i in
       if thread_test t = RUN_CHASE then Inr (ts @ [t], nr_chase_threads + 1, nr_load_threads)
       else Inr (ts @ [t], nr_chase_threads, nr_load_threads + 1)) ([], 0, 0)"

subsection \<open>thread_start\<close>

text \<open>\<open>generate_chase_long\<close> is given the parallelism of one thread, not that of all threads.\<close>

definition ml_thread_cycles ::
    "heap_env \<Rightarrow> 'r chase_args \<Rightarrow> ml_per_thread \<Rightarrow> mem \<Rightarrow> 'r \<Rightarrow> (nat list \<times> mem \<times> 'r) res" where
  "ml_thread_cycles h args t m s =
     (let par = parallelism (thread_chase t) in
      for_range par (\<lambda>p (cycle, m, s).
        rbind (make_chase h args (thread_longer t) (chase_index par (thread_num t) p) par m s)
          (\<lambda>(c, m, s). rbind (arr_set cycle p c) (\<lambda>cycle. Inr (cycle, m, s)))) (cycle t, m, s))"

definition ml_adapt_chase :: "ml_per_thread \<Rightarrow> mem \<Rightarrow> mem res option" where
  "ml_adapt_chase t m =
     (let off = fst (strtoull (extra_arg t)); p = cycle t ! 0; c = name (thread_chase t) in
      obind (if c = ''critword2'' then do_cells (critword2_cell off) p p m else Some (Inr m)) (\<lambda>m.
      if c = ''critword'' then do_cells (critword_cell off) p p m else Some (Inr m)))"

definition ml_flush_caches :: "mem \<Rightarrow> ml_per_thread \<Rightarrow> ml_per_thread res" where
  "ml_flush_caches m t =
     (if flush_bytes t = 0 then Inr t
      else rbind (for_range (flush_bytes t div 8)
               (\<lambda>i sum. rbind (load64 m (flush_arena t + 8 * i)) (\<lambda>v. Inr (add64 sum v))) 0)
        (\<lambda>sum. Inr (t\<lparr>dummy := dummy t + of_nat sum\<rparr>)))"

text \<open>The fresh buffer of a load thread, filled with ones.\<close>

definition load_buffer ::
    "(nat \<Rightarrow> (nat \<times> nat) res) \<Rightarrow> ml_per_thread \<Rightarrow> mem \<Rightarrow> (ml_per_thread \<times> mem) res" where
  "load_buffer alloc t m =
     rbind (alloc (add64 (load_total_memory t) (load_offset t))) (\<lambda>(a, len).
     let t = t\<lparr>load_arena := add64 a (load_offset t)\<rparr> in
     rbind (memset_bytes (map_pages m a len) (load_arena t) 1 (load_total_memory t)) (\<lambda>m. Inr (t, m)))"

text \<open>
  \<open>thread_start\<close> up to the barrier. \<open>affinity\<close> is None without thread affinity, otherwise the answers
  of \<open>sched_getaffinity\<close> and \<open>sched_setaffinity\<close>; \<open>alloc\<close> is \<open>alloc_arena_mmap\<close> for the page size of
  the run.
\<close>

definition ml_thread_start ::
    "heap_env \<Rightarrow> (nat \<Rightarrow> 'r option) \<Rightarrow> ((nat \<Rightarrow> bool) option \<times> (nat \<Rightarrow> bool)) option \<Rightarrow>
     (nat \<Rightarrow> (nat \<times> nat) res) \<Rightarrow> 'r chase_args \<Rightarrow> ml_per_thread \<Rightarrow> mem \<Rightarrow> (ml_per_thread \<times> mem) res option" where
  "ml_thread_start h initstate_r affinity alloc args t m =
     obind (Some (rng_init h initstate_r (thread_num t))) (\<lambda>s.
     obind (Some (case affinity of None \<Rightarrow> Inr 0
                  | Some (cpus, setaffinity) \<Rightarrow> set_affinity cpus setaffinity (thread_num t))) (\<lambda>_.
     if thread_test t = RUN_CHASE then
       obind (Some (ml_thread_cycles h args t m s)) (\<lambda>(c, m, s).
       let t = t\<lparr>cycle := c\<rparr> in
       obind (ml_adapt_chase t m) (\<lambda>m.
       obind (Some (ml_flush_caches m t)) (\<lambda>t. Some (Inr (t, m)))))
     else Some (load_buffer alloc t m)))"

text \<open>After the barrier: the kernel, or so many rounds of the load.\<close>

definition ml_thread_run ::
    "(nat \<Rightarrow> nat \<Rightarrow> nat) \<Rightarrow> (nat \<Rightarrow> bool) \<Rightarrow> nat \<Rightarrow> ml_per_thread \<Rightarrow> mem \<Rightarrow> mem res option" where
  "ml_thread_run fplus sampled rounds t m =
     (if thread_test t = RUN_CHASE
      then obind (ml_run_chase (fn (thread_chase t)) sampled m
             \<lparr>thread_count = thread_count t, cycle = cycle t, extra_arg = extra_arg t, dummy = dummy t,
              branch_chunk_size = branch_chunk_size t\<rparr>) (\<lambda>(_, m). Some (Inr m))
      else Some (rbind (for_range rounds
               (\<lambda>_. load_round fplus (load_delay t) (load_fn (thread_memload t)) (load_total_memory t))
               (load_begin (load_fn (thread_memload t)) (load_arena t) (load_total_memory t), m))
             (\<lambda>(l, m). Inr m)))"

subsection \<open>The number of chases and loads\<close>

text \<open>A latency test starts chases only, a bandwidth test loads only, and a loaded test one
  chase, in thread 0, and loads in all other threads; with the default of one thread a loaded test
  therefore runs without any load.\<close>
theorem start_threads_roles:
  "start_threads s flush =
    Inr (map (thread_data s flush) [0..<nr_threads s],
      (case run_test_type s of RUN_CHASE \<Rightarrow> nr_threads s | RUN_BANDWIDTH \<Rightarrow> 0 | RUN_CHASE_LOADED \<Rightarrow> min 1 (nr_threads s)),
      (case run_test_type s of RUN_CHASE \<Rightarrow> 0 | RUN_BANDWIDTH \<Rightarrow> nr_threads s | RUN_CHASE_LOADED \<Rightarrow> nr_threads s - 1))"
proof -
  let ?body = "\<lambda>i (ts, nr_chase_threads, nr_load_threads).
       let t = thread_data s flush i in
       if thread_test t = RUN_CHASE then Inr (ts @ [t], nr_chase_threads + 1, nr_load_threads)
       else Inr (ts @ [t], nr_chase_threads, nr_load_threads + 1)"
  have "for_range n ?body ([], 0, 0) = Inr (map (thread_data s flush) [0..<n],
      (case run_test_type s of RUN_CHASE \<Rightarrow> n | RUN_BANDWIDTH \<Rightarrow> 0 | RUN_CHASE_LOADED \<Rightarrow> min 1 n),
      (case run_test_type s of RUN_CHASE \<Rightarrow> 0 | RUN_BANDWIDTH \<Rightarrow> n | RUN_CHASE_LOADED \<Rightarrow> n - 1))" for n
  proof (induction n)
    case (Suc n)
    have "thread_test (thread_data s flush n) = thread_role (run_test_type s) n"
      by (simp add: thread_data_def)
    then show ?case
      using Suc by (cases "run_test_type s"; cases n) (simp_all add: thread_role_def Let_def)
  qed (simp split: test_type.split)
  then show ?thesis by (simp add: start_threads_def)
qed

subsection \<open>Longer chases\<close>

context perm_generator
begin

text \<open>Chase number \<open>idx\<close> beyond the chases that \<open>total_par\<close> accounts for has no rows in the mixer.\<close>

lemma long_past_mixer:
  assumes gen: "gen_permutation args = gen" and geo: "chase_geometry args"
    and par: "0 < total_par" "total_par dvd nr_mixer_indices args" "total_par \<le> idx"
    and wide: "idx * nr_mixer_indices args * nr_mixers args < W64"
    and malloc: "malloc_serves h (total_memory args)" and s: "ok s"
  shows "generate_chase_long h args idx total_par m s = Inl OutOfBounds"
proof -
  let ?G = "total_memory args div tlb_locality args"
  let ?q = "tlb_locality args div stride args"
  define n where "n = nr_elements args"
  define rows where "rows = nr_mixer_indices args div total_par"
  define N where "N = rows * n"
  note C = geometry_counts[OF geo, folded n_def] and D = geometryD[OF geo, folded n_def]
  have split: "rows * total_par = nr_mixer_indices args" using par(2) by (simp add: rows_def)
  have rows: "rows \<le> nr_mixer_indices args" "0 < rows"
    using split D(5) by (auto simp: rows_def intro: Nat.gr0I)
  note S = long_size[OF geo rows(1), folded n_def, folded N_def]
  have past: "nr_mixer_indices args \<le> idx * rows"
    using mult_le_mono1[OF par(3), of rows] split by (simp add: mult.commute)
  have "idx * rows \<le> idx * nr_mixer_indices args" using rows(1) by simp
  then have small: "idx * rows * nr_mixers args < W64"
    using wide by (meson le_less_trans mult_le_mono1)
  then have row: "mul64 (mul64 idx rows) (nr_mixers args) = idx * rows * nr_mixers args"
    using D(3) by (simp add: c_arith less_le_trans[of "idx * rows * 1"] order.strict_trans1[rotated])
  have cnt: "mul64 rows n = N" "mul64 n rows = N" "mul64 N 8 = N * 8"
    using S C by (simp_all add: c_arith N_def mult.commute)
  obtain pb where pb: "malloc_words h (N * 8) = Some pb" "length pb = N"
    using malloc_servesD[OF malloc, of "N * 8"] S by (auto simp: malloc_words_def)
  obtain perm s' where perm: "long_perms h gen rows n ?G ?q pb s = Inr (perm, s')" "blockwise n rows perm"
    using wp_long_perms[of pb rows ?G ?q h s] pb S C malloc_serves_def[of h] malloc s
    by (cases "long_perms h gen rows n ?G ?q pb s") (auto simp: N_def)
  have "perm_upto N perm" using perm(2) by (simp add: blockwise_def N_def)
  from wp_invert_perm[OF this pb(2)] obtain pinv where pinv: "invert_perm N perm pb = Inr pinv"
    by (cases "invert_perm N perm pb") auto
  have N: "0 < N" using rows(2) D(2) by (simp add: N_def)
  have "length (mixer args) \<le> idx * rows * nr_mixers args"
    using D(6) past by (simp add: mixer_ok_def)
  then have "mixed args (idx * rows * nr_mixers args) sc 0 = Inl OutOfBounds" for sc
    using small by (simp add: mixed_def add64_exact arr_get_fault)
  then have "thread_long_step args (idx * rows * nr_mixers args) sc rows n perm pinv 0 m = Inl OutOfBounds" for sc
    using small D(2) by (simp add: thread_long_step_def Let_def mul64_def add64_exact)
  moreover obtain k where "N = Suc k" using N by (cases N) auto
  then have "[0..<N] = 0 # [1..<N]" by (simp add: upt_conv_Cons)
  ultimately have "for_range N (thread_long_step args (idx * rows * nr_mixers args) sc rows n perm pinv) m = Inl OutOfBounds" for sc
    by (simp add: for_range_def)
  moreover have divs: "div64 (nr_mixer_indices args) total_par = Inr rows"
    "div64 (total_memory args) (tlb_locality args) = Inr ?G"
    "div64 (tlb_locality args) (stride args) = Inr ?q"
    "div64 (total_memory args) (stride args) = Inr n"
    "div64 (stride args) (nr_mixer_indices args) = Inr (stride args div nr_mixer_indices args)"
    using C D par by (simp_all add: n_def nr_elements_def rows_def)
  ultimately show ?thesis
    unfolding generate_chase_long_def Let_def gen divs rbind.simps row cnt pb(1) option.case perm(1) prod.case pinv
    by simp
qed

end

text \<open>C25: multiload -L with several threads: the chase of thread 1 (and of every later one)
  is built from mixer rows behind the end of the table, because generate_chase_long is told the
  number of chases of one thread instead of all.\<close>
theorem multiload_long_chase_overrun:
  assumes "gen_permutation args = gen_random_permutation random_r" and "chase_geometry args"
    and "thread_test t = RUN_CHASE" and "thread_longer t" and "0 < thread_num t"
    and "0 < parallelism (thread_chase t)" and "parallelism (thread_chase t) dvd nr_mixer_indices args"
    and "parallelism (thread_chase t) * thread_num t < 2 ^ 32"
    and "parallelism (thread_chase t) * thread_num t * nr_mixer_indices args * nr_mixers args < W64"
    and "malloc_serves h (total_memory args)" and "malloc_ok h 48" and "malloc_ok h RNG_BUF_SIZE"
    and "initstate_r (thread_num t) = Some s" and "rng_ok random_r s"
  shows "ml_thread_start h initstate_r None alloc args t m = Some (Inl OutOfBounds)"
proof -
  let ?par = "parallelism (thread_chase t)"
  have "chase_index ?par (thread_num t) 0 = ?par * thread_num t"
    using assms(8) by (simp add: chase_index_def)
  moreover have "?par \<le> ?par * thread_num t" using assms(5) by simp
  moreover have "generate_chase_long h args (?par * thread_num t) ?par m s = Inl OutOfBounds"
    using random.long_past_mixer[OF assms(1,2,6,7) calculation(2) assms(9,10,14)] .
  ultimately have "make_chase h args (thread_longer t) (chase_index ?par (thread_num t) 0) ?par m s = Inl OutOfBounds"
    using assms(4) by (simp add: make_chase_def)
  moreover obtain k where "?par = Suc k" using assms(6) by (cases ?par) auto
  then have "[0..<?par] = 0 # [1..<?par]" by (simp add: upt_conv_Cons)
  ultimately have "ml_thread_cycles h args t m s = Inl OutOfBounds"
    by (simp add: ml_thread_cycles_def Let_def for_range_def)
  then show ?thesis
    using assms(3,11,12,13) by (simp add: ml_thread_start_def rng_init_def)
qed

subsection \<open>Threads that chase and threads that load\<close>

text \<open>Without -L the chases a thread of multiload builds are those of multichase, for
  every number of threads, so run_threads and its theorem apply to multiload.\<close>
theorem multiload_chases_as_multichase:
  assumes "\<not> thread_longer t"
  shows "ml_thread_cycles h args t m s =
    thread_cycles h args False (parallelism (thread_chase t)) n (thread_num t) (cycle t) m s"
  using assms by (simp add: ml_thread_cycles_def thread_cycles_def make_chase_def Let_def)

text \<open>A load thread of multiload that has got its buffer runs its load for any number of
  rounds, whichever load it is, and touches no memory but its own buffer.\<close>
theorem load_thread_runs:
  assumes "thread_test t = RUN_BANDWIDTH" and "alloc (add64 (load_total_memory t) (load_offset t)) = Inr (a, len)"
    and "48 \<le> load_total_memory t" and "load_offset t + load_total_memory t \<le> len" and "a + len < W64"
    and "malloc_ok h 48" and "malloc_ok h RNG_BUF_SIZE" and "initstate_r (thread_num t) = Some s"
  shows "\<exists>t' m' m''. ml_thread_start h initstate_r None alloc args t m = Some (Inr (t', m')) \<and>
    ml_thread_run fplus sampled k t' m' = Some (Inr m'') \<and>
    (\<forall>x. x < a \<or> a + len \<le> x \<longrightarrow> m'' x = m x)"
proof -
  let ?p = "a + load_offset t" and ?n = "load_total_memory t"
  define t' where "t' = t\<lparr>load_arena := ?p\<rparr>"
  define m1 where "m1 = put_bytes (map_pages m a len) ?p (replicate ?n 1)"
  have p: "add64 a (load_offset t) = ?p" using assms(4,5) by (intro add64_exact) linarith
  have fresh: "mapped (map_pages m a len) ?p ?n" using assms(4) by (simp add: mapped_def map_pages_def)
  have "memset_bytes (map_pages m a len) ?p 1 ?n = Inr m1"
    using fresh by (simp add: memset_bytes_def write_bytes_eq m1_def)
  then have start: "ml_thread_start h initstate_r None alloc args t m = Some (Inr (t', m1))"
    using assms(1,2,6-8) p by (simp add: ml_thread_start_def rng_init_def load_buffer_def t'_def Let_def)
  have m1: "mapped m1 ?p ?n" unfolding m1_def by (rule mapped_put_bytes[OF fresh])
  have frame: "m1 x = m x" if "x < a \<or> a + len \<le> x" for x
    using that assms(4) by (auto simp: m1_def put_bytes_def map_pages_def)
  let ?f = "load_fn (thread_memload t)"
  have inv: "keeps ?f ?p ?n (load_begin ?f ?p ?n) \<and> ?p + ?n < W64"
    using keeps_begin[OF assms(3), of ?p ?f] assms(4,5) by linarith
  obtain l m2 where run: "for_range k (\<lambda>_. load_round fplus (load_delay t) ?f ?n) (load_begin ?f ?p ?n, m1) = Inr (l, m2)"
    "buffer_only ?p ?n m1 m2"
    using loads.rounds_ok[OF inv m1, of k fplus "load_delay t"] by blast
  have "ml_thread_run fplus sampled k t' m1 = Some (Inr m2)"
    using run(1) assms(1) by (simp add: ml_thread_run_def t'_def)
  moreover have "m2 x = m x" if "x < a \<or> a + len \<le> x" for x
  proof -
    have "x < ?p \<or> ?p + ?n \<le> x" using that assms(4) by linarith
    then have "m2 x = m1 x" using run(2) unfolding buffer_only_def by blast
    then show ?thesis using frame[OF that] by simp
  qed
  ultimately show ?thesis using start by blast
qed

text \<open>
  A loaded test with a chase of larger elements than the stride (\<open>loaded_test_skips_room_check\<close>)
  gets a mixer without indices; the first thing \<open>generate_chase\<close> does is to divide by their number.
\<close>

text \<open>A loaded test whose chase has larger elements than the stride passes the checks of
  multiload (-c chaseload -c movdqa -s 32) with no mixer index, and then ends in a division by
  zero when thread 0 builds its chase.\<close>
theorem loaded_test_divides_by_zero:
  assumes "0 < tlb_locality args" and "0 < stride args" and "nr_mixer_indices args = 0"
  shows "(\<exists>s s'. ml_read_options X86_64 4096
       [(CHR ''c'', ''chaseload''), (CHR ''c'', ''movdqa''), (CHR ''s'', ''32'')] 0 = Inr s \<and>
     run_test_type s = RUN_CHASE_LOADED \<and> ml_settle_geometry s = Inr (s', nr_mixer_indices args)) \<and>
    generate_chase h args idx m r = Inl DivByZero"
  using loaded_settings assms by (auto simp: generate_chase_def Let_def div64_def)

subsection \<open>Examples\<close>

definition sample_thread :: "nat \<Rightarrow> ml_per_thread" where
  "sample_thread i =
     (thread_data ((ml_default_settings X86_64 4096)\<lparr>use_longer_chase := (i = 1), mem_size := 96,
        run_test_type := (if i = 2 then RUN_BANDWIDTH else RUN_CHASE)\<rparr>) 0 i)"

lemma sample_thread_fields:
  "thread_test (sample_thread 1) = RUN_CHASE" "thread_longer (sample_thread 1)" "thread_num (sample_thread i) = i"
  "parallelism (thread_chase (sample_thread i)) = 1" "\<not> thread_longer (sample_thread 0)"
  "thread_test (sample_thread 2) = RUN_BANDWIDTH" "load_total_memory (sample_thread 2) = 96"
  "load_offset (sample_thread 2) = 0"
  by (simp_all add: sample_thread_def thread_data_def thread_role_def ml_default_settings_def ml_chases_def
      chase_row_def)

lemma nr_mixers_small: "nr_mixers (small_chase gen) = 2" by (simp add: small_chase_def)

lemma malloc_any: "malloc_ok any_malloc b" by (simp add: any_malloc_def)

theorem multiload_long_chase_overrun_witness:
  "ml_thread_start any_malloc (\<lambda>t. Some t) None (\<lambda>_. Inl Undefined)
     (small_chase (gen_random_permutation counting_rng)) (sample_thread 1) zeroed = Some (Inl OutOfBounds)"
  by (rule multiload_long_chase_overrun[where random_r = counting_rng and s = 1])
    (simp_all add: sample_thread_fields(1,2)[unfolded One_nat_def] sample_thread_fields(3,4) malloc_any
      nr_mixers_small W64_def)

theorem multiload_chases_as_multichase_witness:
  "ml_thread_cycles any_malloc (small_chase (gen_random_permutation counting_rng)) (sample_thread 0) zeroed 5 =
    thread_cycles any_malloc (small_chase (gen_random_permutation counting_rng)) False
      (parallelism (thread_chase (sample_thread 0))) 3 (thread_num (sample_thread 0)) (cycle (sample_thread 0)) zeroed 5"
  by (rule multiload_chases_as_multichase) (simp add: sample_thread_fields)

theorem load_thread_runs_witness:
  "\<exists>t' m' m''. ml_thread_start any_malloc (\<lambda>t. Some t) None (\<lambda>n. Inr (4096, 4096))
      (small_chase (gen_random_permutation counting_rng)) (sample_thread 2) zeroed = Some (Inr (t', m')) \<and>
    ml_thread_run add64 (\<lambda>_. False) 7 t' m' = Some (Inr m'') \<and>
    (\<forall>x. x < 4096 \<or> 4096 + 4096 \<le> x \<longrightarrow> m'' x = zeroed x)"
  by (rule load_thread_runs[where s = 2])
    (simp_all add: sample_thread_fields any_malloc_def W64_def)

theorem loaded_test_divides_by_zero_witness:
  "generate_chase any_malloc ((small_chase (gen_random_permutation counting_rng))\<lparr>nr_mixer_indices := 0\<rparr>) 0 zeroed 1 =
    Inl DivByZero"
proof -
  let ?a = "(small_chase (gen_random_permutation counting_rng))\<lparr>nr_mixer_indices := 0\<rparr>"
  have "0 < tlb_locality ?a" "0 < stride ?a" "nr_mixer_indices ?a = 0" by (simp_all add: small_chase_def)
  from loaded_test_divides_by_zero[OF this, of any_malloc 0 zeroed 1] show ?thesis by blast
qed

end
