(* ===== verification/Floats.thy ===== *)
theory Floats
  imports Prelude
begin

text \<open>
  The operations on \<open>double\<close> the programs use, as a parameter: the proofs say which operations are
  done on which values and in which order, and what is needed of rounding is a hypothesis.
\<close>

record 'd fp_ops =
  fp_nat :: "nat \<Rightarrow> 'd"
  fp_inf :: 'd
  fp_add :: "'d \<Rightarrow> 'd \<Rightarrow> 'd"
  fp_sub :: "'d \<Rightarrow> 'd \<Rightarrow> 'd"
  fp_mul :: "'d \<Rightarrow> 'd \<Rightarrow> 'd"
  fp_div :: "'d \<Rightarrow> 'd \<Rightarrow> 'd"
  fp_less :: "'d \<Rightarrow> 'd \<Rightarrow> bool"
  fp_log :: "'d \<Rightarrow> 'd"
  fp_exp :: "'d \<Rightarrow> 'd"

text \<open>The operations on natural numbers, for examples.\<close>

definition nat_ops :: "nat fp_ops" where
  "nat_ops = \<lparr>fp_nat = (\<lambda>n. n), fp_inf = 10 ^ 12, fp_add = (+), fp_sub = (-), fp_mul = (*), fp_div = (div),
     fp_less = (<), fp_log = (\<lambda>x. x), fp_exp = (\<lambda>x. x)\<rparr>"

end
