(* ===== verification/Multi_Sampling.thy ===== *)
theory Multi_Sampling
  imports Multi_Options Floats
begin

text \<open>
  What \<open>main\<close> of \<open>multiload.c\<close> makes of its samples: sums over the chase threads and over the load
  threads, the running minimum, maximum, sum and sum of logarithms, and the numbers of the final
  line. How a sample is obtained is in \<open>Handshake\<close>. Doubles are a parameter (\<open>fp_ops\<close>); a round is the
  list of counts taken and the time read after the last chase thread.
\<close>

record 'd ml_tally =
  last_time :: nat
  time_delta :: nat
  chase_min :: 'd
  chase_max :: 'd
  chase_running_sum :: 'd
  chase_running_geosum :: 'd
  load_running_sum :: 'd
  load_max_mibps :: 'd
  load_min_mibps :: 'd

definition ml_first_tally :: "'d fp_ops \<Rightarrow> nat \<Rightarrow> 'd ml_tally" where
  "ml_first_tally fp start =
     \<lparr>last_time = start, time_delta = 0, chase_min = fp_inf fp, chase_max = fp_nat fp 0,
      chase_running_sum = fp_nat fp 0, chase_running_geosum = fp_nat fp 0,
      load_running_sum = fp_nat fp 0, load_max_mibps = fp_nat fp 0, load_min_mibps = fp_inf fp\<rparr>"

text \<open>\<open>chase_thd_sum\<close> and \<open>load_thd_sum\<close>, in the order of the threads.\<close>

definition thd_sum :: "'d fp_ops \<Rightarrow> test_type \<Rightarrow> test_type list \<Rightarrow> nat list \<Rightarrow> 'd" where
  "thd_sum fp role roles cs =
     foldl (\<lambda>a (r, c). if r = role then fp_add fp a (fp_nat fp c) else a) (fp_nat fp 0) (zip roles cs)"

text \<open>The time is read when the count of thread \<open>nr_chase_threads - 1\<close> has been taken.\<close>

definition take_time :: "nat \<Rightarrow> nat \<Rightarrow> nat \<Rightarrow> 'd ml_tally \<Rightarrow> 'd ml_tally" where
  "take_time n nr_chase_threads now s =
     (if 0 < nr_chase_threads \<and> nr_chase_threads \<le> n
      then s\<lparr>time_delta := sub64 now (last_time s), last_time := now\<rparr> else s)"

definition ml_take_sample :: "'d fp_ops \<Rightarrow> 'd \<Rightarrow> 'd \<Rightarrow> 'd ml_tally \<Rightarrow> 'd ml_tally" where
  "ml_take_sample fp chase_thd_sum load_thd_sum s =
     (let s = (if chase_thd_sum \<noteq> fp_nat fp 0 then
                 (let t = fp_div fp (fp_nat fp (time_delta s)) chase_thd_sum in
                  s\<lparr>chase_running_sum := fp_add fp (chase_running_sum s) t,
                    chase_running_geosum := fp_add fp (chase_running_geosum s) (fp_log fp t),
                    chase_min := (if fp_less fp t (chase_min s) then t else chase_min s),
                    chase_max := (if fp_less fp (chase_max s) t then t else chase_max s)\<rparr>)
               else s) in
      if load_thd_sum \<noteq> fp_nat fp 0 then
        s\<lparr>load_max_mibps := (if fp_less fp (load_max_mibps s) load_thd_sum then load_thd_sum else load_max_mibps s),
          load_min_mibps := (if fp_less fp load_thd_sum (load_min_mibps s) then load_thd_sum else load_min_mibps s),
          load_running_sum := fp_add fp (load_running_sum s) load_thd_sum\<rparr>
      else s)"

text \<open>\<open>nr\<close> is \<open>nr_samples\<close> after the increment. The value is None when the rounds given are not enough.\<close>

fun ml_sample_loop ::
    "'d fp_ops \<Rightarrow> test_type list \<Rightarrow> nat \<Rightarrow> nat \<Rightarrow> nat \<Rightarrow> 'd ml_tally \<Rightarrow> (nat list \<times> nat) list \<Rightarrow>
     'd ml_tally option" where
  "ml_sample_loop fp roles nr_chase nr k s rounds =
     (if nr \<noteq> 1 \<and> nr \<le> k then Some s
      else case rounds of
        [] \<Rightarrow> None
      | (cs, now) # rest \<Rightarrow>
          let s = take_time (length roles) nr_chase now s in
          if k = 0 then ml_sample_loop fp roles nr_chase nr (k + 1) s rest
          else ml_sample_loop fp roles nr_chase nr (k + 1)
                 (ml_take_sample fp (thd_sum fp RUN_CHASE roles cs) (thd_sum fp RUN_BANDWIDTH roles cs) s) rest)"

declare ml_sample_loop.simps [simp del]

text \<open>The numbers of the last line.\<close>

record 'd ml_report =
  chas_ns :: 'd
  chas_mibs :: 'd
  chas_dev :: 'd
  ld_max_mibs :: 'd
  ld_avg_mibs :: 'd
  ld_mibs_dev :: 'd

definition ml_report_of ::
    "'d fp_ops \<Rightarrow> bool \<Rightarrow> nat \<Rightarrow> nat \<Rightarrow> nat \<Rightarrow> 'd ml_tally \<Rightarrow> 'd ml_report" where
  "ml_report_of fp average nr nr_chase nr_load s =
     (let zero = fp_nat fp 0; n = fp_nat fp nr_chase; billion = fp_nat fp 1000000000;
          r = \<lparr>chas_ns = zero, chas_mibs = zero, chas_dev = zero, ld_max_mibs = load_max_mibps s,
               ld_avg_mibs = zero, ld_mibs_dev = zero\<rparr>;
          r = (if nr_chase \<noteq> 0 then
                 (let avg = fp_div fp (fp_mul fp (chase_running_sum s) n) (fp_nat fp (sub64 nr 1));
                      geo = fp_mul fp n (fp_exp fp (fp_div fp (chase_running_geosum s)
                              (fp_sub fp (fp_nat fp nr) (fp_nat fp 1))));
                      bst = fp_mul fp (chase_min s) n; worst = fp_mul fp (chase_max s) n;
                      ns = (if average then geo else bst) in
                  r\<lparr>chas_ns := ns, chas_dev := fp_div fp (fp_sub fp worst bst) avg,
                    chas_mibs := fp_mul fp n (fp_div fp (fp_div fp (fp_nat fp 8) (fp_div fp ns billion))
                                   (fp_nat fp (1024 * 1024)))\<rparr>)
               else r) in
      if nr_load \<noteq> 0 then
        (let avg = fp_div fp (load_running_sum s) (fp_nat fp (sub64 nr 1)) in
         r\<lparr>ld_avg_mibs := avg, ld_mibs_dev := fp_div fp (fp_sub fp (load_max_mibps s) (load_min_mibps s)) avg\<rparr>)
      else r)"

definition ml_sample_phase ::
    "'d fp_ops \<Rightarrow> bool \<Rightarrow> test_type list \<Rightarrow> nat \<Rightarrow> nat \<Rightarrow> nat \<Rightarrow> nat \<Rightarrow> (nat list \<times> nat) list \<Rightarrow> 'd ml_report option" where
  "ml_sample_phase fp average roles nr_chase nr_load samples start rounds =
     (let nr = add64 samples 1 in
      map_option (ml_report_of fp average nr nr_chase nr_load)
        (ml_sample_loop fp roles nr_chase nr 0 (ml_first_tally fp start) rounds))"

subsection \<open>What is reported\<close>

text \<open>The latency of one sample of the chase threads, and the list for the samples after the first.\<close>

fun chase_times :: "'d fp_ops \<Rightarrow> test_type list \<Rightarrow> nat \<Rightarrow> (nat list \<times> nat) list \<Rightarrow> 'd list" where
  "chase_times fp roles prev [] = []"
| "chase_times fp roles prev ((cs, now) # rest) =
     fp_div fp (fp_nat fp (sub64 now prev)) (thd_sum fp RUN_CHASE roles cs) # chase_times fp roles now rest"

definition lowest :: "'d fp_ops \<Rightarrow> 'd \<Rightarrow> 'd list \<Rightarrow> 'd" where
  "lowest fp = foldl (\<lambda>b t. if fp_less fp t b then t else b)"

lemma ml_loop_times:
  assumes "0 < k" and "nr = k + length rs" and "1 < nr" and c: "0 < nr_chase" "nr_chase \<le> length roles"
    and "\<forall>r\<in>set rs. thd_sum fp RUN_CHASE roles (fst r) \<noteq> fp_nat fp 0"
  shows "\<exists>s'. ml_sample_loop fp roles nr_chase nr k s (rs @ rest) = Some s' \<and>
    chase_min s' = lowest fp (chase_min s) (chase_times fp roles (last_time s) rs) \<and>
    chase_running_geosum s' =
      foldl (\<lambda>a t. fp_add fp a (fp_log fp t)) (chase_running_geosum s) (chase_times fp roles (last_time s) rs)"
  using assms(1,2,6)
proof (induction rs arbitrary: k s)
  case Nil
  then show ?case using assms(3) by (subst ml_sample_loop.simps) (simp add: lowest_def)
next
  case (Cons r rs)
  obtain cs now where r: "r = (cs, now)" by force
  let ?c = "thd_sum fp RUN_CHASE roles cs" and ?l = "thd_sum fp RUN_BANDWIDTH roles cs"
  let ?s = "ml_take_sample fp ?c ?l (take_time (length roles) nr_chase now s)"
  have "?c \<noteq> fp_nat fp 0" using Cons.prems(3) r by auto
  then have s: "last_time ?s = now"
    "chase_min ?s = lowest fp (chase_min s) [fp_div fp (fp_nat fp (sub64 now (last_time s))) ?c]"
    "chase_running_geosum ?s = fp_add fp (chase_running_geosum s) (fp_log fp (fp_div fp (fp_nat fp (sub64 now (last_time s))) ?c))"
    using c by (simp_all add: ml_take_sample_def take_time_def Let_def lowest_def)
  have "ml_sample_loop fp roles nr_chase nr k s ((r # rs) @ rest) =
      ml_sample_loop fp roles nr_chase nr (Suc k) ?s (rs @ rest)"
    using Cons.prems(1,2) r by (subst ml_sample_loop.simps) (simp add: Let_def)
  then show ?case
    using Cons.IH[of "Suc k" ?s] Cons.prems s r by (auto simp: lowest_def)
qed

text \<open>C28: multiload drops the first sample and reports as latency the number of chase
  threads times the least latency of the following samples, or, with -a, times their geometric
  mean.\<close>
theorem multiload_latency:
  assumes "0 < samples" and "samples + 1 < W64" and "length rs = samples"
    and "0 < nr_chase" and "nr_chase \<le> length roles"
    and "\<forall>r\<in>set rs. thd_sum fp RUN_CHASE roles (fst r) \<noteq> fp_nat fp 0"
  shows "\<exists>r. ml_sample_phase fp avg roles nr_chase nr_load samples start ((cs0, t0) # rs @ rest) = Some r \<and>
    chas_ns r = (if avg
      then fp_mul fp (fp_nat fp nr_chase) (fp_exp fp (fp_div fp
        (foldl (\<lambda>a t. fp_add fp a (fp_log fp t)) (fp_nat fp 0) (chase_times fp roles t0 rs))
        (fp_sub fp (fp_nat fp (samples + 1)) (fp_nat fp 1))))
      else fp_mul fp (lowest fp (fp_inf fp) (chase_times fp roles t0 rs)) (fp_nat fp nr_chase))"
proof -
  let ?s = "take_time (length roles) nr_chase t0 (ml_first_tally fp start)" and ?nr = "samples + 1"
  have nr: "add64 samples 1 = ?nr" using assms(2) by (simp add: add64_exact)
  have s: "last_time ?s = t0" "chase_min ?s = fp_inf fp" "chase_running_geosum ?s = fp_nat fp 0"
    using assms(4,5) by (simp_all add: take_time_def ml_first_tally_def)
  have "?nr = 1 + length rs" "1 < ?nr" using assms(1,3) by simp_all
  from ml_loop_times[OF zero_less_one this assms(4,5,6), of ?s rest]
  obtain s' where s': "ml_sample_loop fp roles nr_chase ?nr 1 ?s (rs @ rest) = Some s'"
    "chase_min s' = lowest fp (fp_inf fp) (chase_times fp roles t0 rs)"
    "chase_running_geosum s' = foldl (\<lambda>a t. fp_add fp a (fp_log fp t)) (fp_nat fp 0) (chase_times fp roles t0 rs)"
    unfolding s by blast
  have "ml_sample_loop fp roles nr_chase ?nr 0 (ml_first_tally fp start) ((cs0, t0) # rs @ rest) = Some s'"
    using s'(1) by (subst ml_sample_loop.simps) (simp add: Let_def)
  then have "ml_sample_phase fp avg roles nr_chase nr_load samples start ((cs0, t0) # rs @ rest) =
      Some (ml_report_of fp avg ?nr nr_chase nr_load s')"
    unfolding ml_sample_phase_def Let_def nr by simp
  moreover have "chas_ns (ml_report_of fp avg ?nr nr_chase nr_load s') =
      (if avg then fp_mul fp (fp_nat fp nr_chase) (fp_exp fp (fp_div fp (chase_running_geosum s')
         (fp_sub fp (fp_nat fp ?nr) (fp_nat fp 1)))) else fp_mul fp (chase_min s') (fp_nat fp nr_chase))"
    using assms(4) by (simp add: ml_report_of_def Let_def)
  ultimately show ?thesis using s'(2,3) by auto
qed

subsection \<open>A run on integers\<close>

theorem multiload_latency_witness:
  "\<exists>r. ml_sample_phase nat_ops False [RUN_CHASE, RUN_BANDWIDTH] 1 1 2 0 [([7, 3], 10), ([2, 3], 30), ([5, 3], 70)] = Some r \<and>
    chas_ns r = 8"
  using multiload_latency[of 2 "[([2, 3], 30), ([5, 3], 70)]" 1 "[RUN_CHASE, RUN_BANDWIDTH]" nat_ops False 1 0 "[7, 3]" 10 "[]"]
  by (simp add: nat_ops_def thd_sum_def lowest_def W64_def sub64_def)

end
