(* ===== verification/Pingpong.thy ===== *)
theory Pingpong
  imports Options Barrier
begin

text \<open>
  \<open>pingpong.c\<close>: two threads hand a word back and forth. The loops are modelled turn by turn:
  \<open>pp_turn\<close> is what the thread does between two accesses to shared memory, a run is a list of
  events (turns of the two threads, the samples and the stop flag of \<open>main\<close>) in any order. The
  compare-and-swap is one access, the unlocked exchange a load and a store, each increment of
  the communication array a load and a store.
\<close>

subsection \<open>The exchange loops\<close>

datatype loop_kind = Locked | Unlocked

datatype pp_pc = Testing | Storing | Dirtying nat | Dirty_store nat nat | Stopped

record pingpong =
  pingpong_mutex :: nat
  nr_pingpongs :: nat
  communication_array :: "nat list"
  stop_loops :: bool
  pc_of :: "nat \<Rightarrow> pp_pc"
  nr_of :: "nat \<Rightarrow> nat"

datatype pp_event = Turn nat | Sample | Stop

text \<open>What an observer sees: a successful exchange of a thread, a value \<open>main\<close> sampled.\<close>

datatype pp_out = Won nat | Sampled nat

definition goto_pc :: "nat \<Rightarrow> pp_pc \<Rightarrow> pingpong \<Rightarrow> pingpong" where
  "goto_pc w pc st = st\<lparr>pc_of := (pc_of st)(w := pc)\<rparr>"

text \<open>The batched count: \<open>++nr\<close>, handed over by the even thread every 10000 exchanges.\<close>

definition pp_count :: "nat \<Rightarrow> pingpong \<Rightarrow> pingpong" where
  "pp_count me st =
     (let nr = (nr_of st me + 1) mod 2 ^ 32 in
      if nr = 10000 \<and> me = 0
      then st\<lparr>nr_pingpongs := (nr_pingpongs st + 2 * nr) mod 2 ^ 32, nr_of := (nr_of st)(me := 0)\<rparr>
      else st\<lparr>nr_of := (nr_of st)(me := nr)\<rparr>)"

definition pp_turn :: "loop_kind \<Rightarrow> nat \<Rightarrow> pingpong \<Rightarrow> pingpong \<times> pp_out list" where
  "pp_turn kind me st =
     (let buddy = 1 - me in
      case pc_of st me of
        Testing \<Rightarrow>
          if stop_loops st then (goto_pc me Stopped st, [])
          else if pingpong_mutex st \<noteq> me then (st, [])
          else if kind = Locked then (goto_pc me (Dirtying 0) (st\<lparr>pingpong_mutex := buddy\<rparr>), [Won me])
          else (goto_pc me Storing st, [])
      | Storing \<Rightarrow> (goto_pc me (Dirtying 0) (st\<lparr>pingpong_mutex := buddy\<rparr>), [Won me])
      | Dirtying x \<Rightarrow>
          if x < length (communication_array st)
          then (goto_pc me (Dirty_store x (communication_array st ! x)) st, [])
          else (goto_pc me Testing (pp_count me st), [])
      | Dirty_store x v \<Rightarrow>
          (goto_pc me (Dirtying (Suc x))
             (st\<lparr>communication_array := (communication_array st)[x := add64 v 1]\<rparr>), [])
      | Stopped \<Rightarrow> (st, []))"

fun pp_do :: "loop_kind \<Rightarrow> pp_event \<Rightarrow> pingpong \<Rightarrow> pingpong \<times> pp_out list" where
  "pp_do kind (Turn w) st = pp_turn kind w st"
| "pp_do kind Sample st = (st\<lparr>nr_pingpongs := 0\<rparr>, [Sampled (nr_pingpongs st)])"
| "pp_do kind Stop st = (st\<lparr>stop_loops := True\<rparr>, [])"

primrec pp_run :: "loop_kind \<Rightarrow> pp_event list \<Rightarrow> pingpong \<Rightarrow> pingpong \<times> pp_out list" where
  "pp_run kind [] st = (st, [])"
| "pp_run kind (e # es) st =
     (let (st, out) = pp_do kind e st; (st, out') = pp_run kind es st in (st, out @ out'))"

definition pp_init :: "nat list \<Rightarrow> pingpong" where
  "pp_init array = \<lparr>pingpong_mutex = 0, nr_pingpongs = 0, communication_array = array,
     stop_loops = False, pc_of = (\<lambda>_. Testing), nr_of = (\<lambda>_. 0)\<rparr>"

lemma pp_run_snoc:
  "pp_run kind (es @ [e]) st =
    (let (st, out) = pp_run kind es st; (st, out') = pp_do kind e st in (st, out @ out'))"
  by (induction es arbitrary: st) (auto simp: Let_def split: prod.splits)

definition winners :: "pp_out list \<Rightarrow> nat list" where
  "winners out = concat (map (\<lambda>x. case x of Won w \<Rightarrow> [w] | Sampled n \<Rightarrow> []) out)"

definition samples :: "pp_out list \<Rightarrow> nat list" where
  "samples out = concat (map (\<lambda>x. case x of Won w \<Rightarrow> [] | Sampled n \<Rightarrow> [n]) out)"

text \<open>The word names the next winner; a thread about to store still owns it; the exchanges
  alternate.\<close>

definition pp_inv :: "pingpong \<Rightarrow> nat list \<Rightarrow> bool" where
  "pp_inv st ws \<longleftrightarrow>
     pingpong_mutex st = length ws mod 2 \<and>
     (\<forall>w. pc_of st w = Storing \<longrightarrow> pingpong_mutex st = w) \<and>
     (\<forall>i<length ws. ws ! i = i mod 2)"

lemma pp_inv_won:
  assumes "pp_inv st ws" and "pingpong_mutex st = w" and "pc \<noteq> Storing"
  shows "pp_inv (goto_pc w pc (st\<lparr>pingpong_mutex := 1 - w\<rparr>)) (ws @ [w])"
  using assms by (auto simp: pp_inv_def goto_pc_def nth_append less_Suc_eq mod_Suc split: if_splits)

lemma pp_inv_do:
  assumes "pp_inv st ws" and "pp_do kind e st = (st', out)"
  shows "pp_inv st' (ws @ winners out)"
proof (cases e)
  case (Turn w)
  show ?thesis
  proof (cases "pc_of st w = Storing \<or>
      pc_of st w = Testing \<and> \<not> stop_loops st \<and> pingpong_mutex st = w \<and> kind = Locked")
    case True
    then have "pingpong_mutex st = w" using assms(1) by (auto simp: pp_inv_def)
    then show ?thesis
      using pp_inv_won[OF assms(1)] assms(2) True
      by (auto simp: Turn pp_turn_def winners_def)
  next
    case False
    then show ?thesis
      using assms by (auto simp: Turn pp_turn_def pp_inv_def winners_def goto_pc_def pp_count_def Let_def
          split: pp_pc.splits if_splits)
  qed
qed (use assms in \<open>auto simp: pp_inv_def winners_def\<close>)

lemma winners_append [simp]: "winners (a @ b) = winners a @ winners b"
  by (simp add: winners_def)

lemma samples_append [simp]: "samples (a @ b) = samples a @ samples b"
  by (simp add: samples_def)

lemma pp_inv_run:
  assumes "pp_run kind es (pp_init array) = (st, out)"
  shows "pp_inv st (winners out)"
  using assms
proof (induction es arbitrary: st out rule: rev_induct)
  case Nil
  then show ?case by (auto simp: pp_inv_def pp_init_def winners_def)
next
  case (snoc e es)
  obtain st1 o1 where 1: "pp_run kind es (pp_init array) = (st1, o1)" by force
  obtain st2 o2 where 2: "pp_do kind e st1 = (st2, o2)" by force
  show ?case
    using pp_inv_do[OF snoc.IH[OF 1] 2] snoc.prems by (auto simp: pp_run_snoc 1 2)
qed

text \<open>
  The count: exchanges of the even thread, less the one it may not have counted yet, are what
  \<open>main\<close> has sampled and can still sample, halved. No exchange is lost or counted twice.
\<close>

definition uncounted :: "pingpong \<Rightarrow> nat" where
  "uncounted st = (case pc_of st 0 of Dirtying _ \<Rightarrow> 1 | Dirty_store _ _ \<Rightarrow> 1 | _ \<Rightarrow> 0)"

definition count_inv :: "pingpong \<Rightarrow> pp_out list \<Rightarrow> bool" where
  "count_inv st out \<longleftrightarrow>
     nr_of st 0 < 10000 \<and>
     (\<exists>c. count_list (winners out) 0 = c + uncounted st \<and>
        (sum_list (samples out) + nr_pingpongs st + 2 * nr_of st 0) mod 2 ^ 32 = 2 * c mod 2 ^ 32)"

lemma count_step:
  assumes "(a + t + 2 * n) mod m = 2 * c mod m"
  shows "(a + t + 2 * Suc n) mod m = 2 * Suc c mod (m :: nat)"
    "(a + (t + 2 * Suc n) mod m) mod m = 2 * Suc c mod m"
proof -
  have "a + t + 2 * Suc n = (a + t + 2 * n) + 2" "2 * Suc c = 2 * c + 2" by simp_all
  then show 1: "(a + t + 2 * Suc n) mod m = 2 * Suc c mod m"
    using assms by (metis mod_add_left_eq)
  have "(a + (t + 2 * Suc n) mod m) mod m = (a + t + 2 * Suc n) mod m"
    by (simp add: mod_add_right_eq add.assoc)
  then show "(a + (t + 2 * Suc n) mod m) mod m = 2 * Suc c mod m" using 1 by simp
qed

lemma count_inv_do:
  assumes "count_inv st out" and "pp_do kind e st = (st', out')"
  shows "count_inv st' (out @ out')"
proof (cases "e = Turn 0 \<and> (\<exists>x. pc_of st 0 = Dirtying x \<and> \<not> x < length (communication_array st))")
  case True
  then obtain x where e: "e = Turn 0" "pc_of st 0 = Dirtying x" "\<not> x < length (communication_array st)"
    by blast
  obtain c where c: "count_list (winners out) 0 = Suc c" "nr_of st 0 < 10000"
    "(sum_list (samples out) + nr_pingpongs st + 2 * nr_of st 0) mod 2 ^ 32 = 2 * c mod 2 ^ 32"
    using assms(1) e by (auto simp: count_inv_def uncounted_def)
  note C = count_step[OF c(3)]
  have st': "st' = goto_pc 0 Testing (pp_count 0 st)" "out' = []"
    using assms(2) e by (simp_all add: pp_turn_def)
  have nr: "(nr_of st 0 + 1) mod 2 ^ 32 = Suc (nr_of st 0)" using c(2) by simp
  show ?thesis
    unfolding count_inv_def
    using C c(1,2) by (auto simp: st' uncounted_def goto_pc_def pp_count_def nr Let_def add.commute)
next
  case False
  have "nr_of st' 0 = nr_of st 0 \<and> count_list (winners out') 0 + uncounted st = uncounted st' \<and>
    sum_list (samples out') + nr_pingpongs st' = nr_pingpongs st"
  proof (cases e)
    case (Turn w)
    show ?thesis
    proof (cases "w = 0")
      case True
      then show ?thesis
        using assms(2) False unfolding Turn True
        by (cases "pc_of st 0")
          (auto simp: uncounted_def pp_turn_def goto_pc_def winners_def samples_def split: if_splits)
    next
      case other: False
      then show ?thesis
        using assms(2) unfolding Turn
        by (cases "pc_of st w")
          (auto simp: uncounted_def pp_turn_def goto_pc_def pp_count_def Let_def winners_def
            samples_def split: if_splits)
    qed
  qed (use assms(2) in \<open>auto simp: uncounted_def winners_def samples_def\<close>)
  then have "nr_of st' 0 = nr_of st 0" "count_list (winners out') 0 + uncounted st = uncounted st'"
    "sum_list (samples (out @ out')) + nr_pingpongs st' = sum_list (samples out) + nr_pingpongs st"
    by simp_all
  moreover obtain c where "count_list (winners out) 0 = c + uncounted st"
    "(sum_list (samples out) + nr_pingpongs st + 2 * nr_of st 0) mod 2 ^ 32 = 2 * c mod 2 ^ 32"
    "nr_of st 0 < 10000"
    using assms(1) by (auto simp: count_inv_def)
  ultimately show ?thesis
    by (auto simp: count_inv_def simp del: samples_append intro!: exI[of _ c])
qed

lemma count_inv_run:
  assumes "pp_run kind es (pp_init array) = (st, out)"
  shows "count_inv st out"
  using assms
proof (induction es arbitrary: st out rule: rev_induct)
  case Nil
  then show ?case by (auto simp: count_inv_def pp_init_def uncounted_def winners_def samples_def)
next
  case (snoc e es)
  obtain st1 o1 where 1: "pp_run kind es (pp_init array) = (st1, o1)" by force
  obtain st2 o2 where 2: "pp_do kind e st1 = (st2, o2)" by force
  show ?case
    using count_inv_do[OF snoc.IH[OF 1] 2] snoc.prems by (simp add: pp_run_snoc 1 2)
qed

text \<open>C13: In both exchange loops, under every schedule, the successful exchanges alternate
  strictly between the two threads, starting with the even one, and the word always names the
  next winner.\<close>
theorem pingpong_alternates:
  assumes "pp_run kind es (pp_init array) = (st, out)"
  shows "(\<forall>i<length (winners out). winners out ! i = i mod 2) \<and>
    pingpong_mutex st = length (winners out) mod 2"
  using pp_inv_run[OF assms] by (simp add: pp_inv_def)

theorem pingpong_alternates_witness:
  "\<exists>st. pp_run Unlocked [Turn 1, Turn 0, Turn 1, Turn 0, Turn 0, Turn 1, Turn 1] (pp_init []) = (st, [Won 0, Won 1]) \<and>
     pingpong_mutex st = 0"
proof -
  obtain st where st: "pp_run Unlocked [Turn 1, Turn 0, Turn 1, Turn 0, Turn 0, Turn 1, Turn 1] (pp_init []) =
      (st, [Won 0, Won 1])"
    by (simp add: pp_turn_def pp_init_def goto_pc_def pp_count_def Let_def)
  then show ?thesis using pingpong_alternates[OF st] by (simp add: winners_def)
qed

text \<open>In the unlocked loop at most one thread is between its test of the word and its
  store to it, and the word still names that thread.\<close>
theorem unlocked_store_exclusive:
  assumes "pp_run kind es (pp_init array) = (st, out)"
    and "pc_of st v = Storing" and "pc_of st w = Storing"
  shows "v = w \<and> pingpong_mutex st = v"
  using pp_inv_run[OF assms(1)] assms(2,3) by (auto simp: pp_inv_def)

theorem unlocked_store_exclusive_witness:
  "\<exists>st. pp_run Unlocked [Turn 0, Turn 1] (pp_init []) = (st, []) \<and> pingpong_mutex st = 0"
proof -
  obtain st where st: "pp_run Unlocked [Turn 0, Turn 1] (pp_init []) = (st, [])" "pc_of st 0 = Storing"
    by (simp add: pp_turn_def pp_init_def goto_pc_def Let_def)
  then show ?thesis using unlocked_store_exclusive[OF st(1) st(2) st(2)] by simp
qed

text \<open>Nr_pingpongs counts exactly: what main has sampled plus what is still in the
  counter plus twice the uncounted batch is twice the number of finished exchanges of the even
  thread, modulo 2^32.\<close>
theorem pingpong_count:
  assumes "pp_run kind es (pp_init array) = (st, out)"
  shows "(sum_list (samples out) + nr_pingpongs st + 2 * nr_of st 0) mod 2 ^ 32 =
      2 * (count_list (winners out) 0 - uncounted st) mod 2 ^ 32 \<and> nr_of st 0 < 10000"
  using count_inv_run[OF assms] by (auto simp: count_inv_def)

theorem pingpong_count_witness:
  "\<exists>st. pp_run Locked [Turn 0, Turn 0, Sample] (pp_init []) = (st, [Won 0, Sampled 0]) \<and>
     (nr_pingpongs st + 2 * nr_of st 0) mod 2 ^ 32 = 2"
proof -
  obtain st where st: "pp_run Locked [Turn 0, Turn 0, Sample] (pp_init []) = (st, [Won 0, Sampled 0])"
    "uncounted st = 0"
    by (simp add: pp_turn_def pp_init_def goto_pc_def pp_count_def uncounted_def Let_def)
  then show ?thesis using pingpong_count[OF st(1)] by (simp add: winners_def samples_def)
qed

text \<open>The communication array is modified after the word has been handed over: both
  threads can finish one exchange each and leave an element incremented once.\<close>
theorem communication_array_race:
  "\<exists>es st out. pp_run Locked es (pp_init [0]) = (st, out) \<and> winners out = [0, 1] \<and>
     pc_of st 0 = Testing \<and> pc_of st 1 = Testing \<and> communication_array st = [1]"
proof -
  let ?es = "[Turn 0, Turn 1, Turn 0, Turn 1, Turn 0, Turn 1, Turn 0, Turn 1]"
  obtain st where "pp_run Locked ?es (pp_init [0]) = (st, [Won 0, Won 1])" "pc_of st 0 = Testing"
    "pc_of st 1 = Testing" "communication_array st = [1]"
    by (simp add: pp_turn_def pp_init_def goto_pc_def pp_count_def add64_def W64_def Let_def)
  then show ?thesis by (intro exI[of _ ?es]) (auto simp: winners_def)
qed

subsection \<open>The exchange-and-add loop\<close>

text \<open>One turn of \<open>xadd_loop\<close>; \<open>last_lo\<close> and \<open>xadd_nr\<close> are locals of the odd thread.\<close>

record xadd =
  xadder :: nat
  last_lo :: nat
  xadd_nr :: nat
  xadd_pingpongs :: nat

definition xadd_turn :: "nat \<Rightarrow> xadd \<Rightarrow> xadd" where
  "xadd_turn me st =
     (let swap = xadder st;
          st = st\<lparr>xadder := (swap + (if me = 0 then 1 else 2 ^ 32)) mod 2 ^ 64\<rparr> in
      if me = 1 \<and> last_lo st \<noteq> swap mod 2 ^ 32 then
        (let nr = (xadd_nr st + 1) mod 2 ^ 32; st = st\<lparr>last_lo := swap mod 2 ^ 32\<rparr> in
         if nr = 10000
         then st\<lparr>xadd_pingpongs := (xadd_pingpongs st + 2 * nr) mod 2 ^ 32, xadd_nr := 0\<rparr>
         else st\<lparr>xadd_nr := nr\<rparr>)
      else st)"

definition xadd_init :: xadd where
  "xadd_init = \<lparr>xadder = 0, last_lo = 0, xadd_nr = 0, xadd_pingpongs = 0\<rparr>"

definition xadd_run :: "nat list \<Rightarrow> xadd" where
  "xadd_run ws = foldl (\<lambda>st w. xadd_turn w st) xadd_init ws"

definition xadd_inv :: "nat list \<Rightarrow> xadd \<Rightarrow> bool" where
  "xadd_inv ws st \<longleftrightarrow>
     xadder st = (count_list ws 0 + count_list ws 1 * 2 ^ 32) mod 2 ^ 64 \<and> xadd_nr st < 10000 \<and>
     (\<exists>c seen. (xadd_pingpongs st + 2 * xadd_nr st) mod 2 ^ 32 = 2 * c mod 2 ^ 32 \<and>
        c \<le> seen \<and> seen \<le> count_list ws 0 \<and> c \<le> count_list ws 1 \<and> last_lo st = seen mod 2 ^ 32)"

lemma xadd_invI:
  assumes "xadder st = (count_list ws 0 + count_list ws 1 * 2 ^ 32) mod 2 ^ 64" "xadd_nr st < 10000"
    and "(xadd_pingpongs st + 2 * xadd_nr st) mod 2 ^ 32 = 2 * c mod 2 ^ 32"
    and "c \<le> seen" "seen \<le> count_list ws 0" "c \<le> count_list ws 1" "last_lo st = seen mod 2 ^ 32"
  shows "xadd_inv ws st"
  using assms unfolding xadd_inv_def by blast

lemma low_half: "((e + k * 2 ^ 32) mod 2 ^ 64) mod 2 ^ 32 = e mod (2 ^ 32 :: nat)"
proof -
  have "(2 ^ 32 :: nat) dvd 2 ^ 64" by (rule le_imp_power_dvd) simp
  then show ?thesis by (simp add: mod_mod_cancel)
qed

lemma xadd_inv_turn:
  assumes inv: "xadd_inv ws st" and w: "w < 2"
  shows "xadd_inv (ws @ [w]) (xadd_turn w st)"
proof -
  let ?E = "count_list ws 0" and ?O = "count_list ws 1"
  obtain c seen where I: "xadder st = (?E + ?O * 2 ^ 32) mod 2 ^ 64" "xadd_nr st < 10000"
    "(xadd_pingpongs st + 2 * xadd_nr st) mod 2 ^ 32 = 2 * c mod 2 ^ 32"
    "c \<le> seen" "seen \<le> ?E" "c \<le> ?O" "last_lo st = seen mod 2 ^ 32"
    using inv by (auto simp: xadd_inv_def)
  have lo: "xadder st mod 2 ^ 32 = ?E mod 2 ^ 32" unfolding I(1) by (rule low_half)
  consider "w = 0" | "w = 1" "seen mod 2 ^ 32 = ?E mod 2 ^ 32" | "w = 1" "seen mod 2 ^ 32 \<noteq> ?E mod 2 ^ 32"
    using w by linarith
  then show ?thesis
  proof cases
    case 1
    have "((?E + ?O * 2 ^ 32) mod 2 ^ 64 + 1) mod 2 ^ 64 = (?E + 1 + ?O * 2 ^ 32) mod 2 ^ 64"
      unfolding mod_add_left_eq by (simp only: ac_simps)
    then have turn: "xadd_turn w st = st\<lparr>xadder := (?E + 1 + ?O * 2 ^ 32) mod 2 ^ 64\<rparr>"
      using 1 I(1) by (simp add: xadd_turn_def Let_def)
    show ?thesis
      unfolding turn by (rule xadd_invI[of _ _ c seen]) (use 1 I(2-7) in simp_all)
  next
    case 2
    have add: "((?E + ?O * 2 ^ 32) mod 2 ^ 64 + 2 ^ 32) mod 2 ^ 64 = (?E + (?O + 1) * 2 ^ 32) mod 2 ^ 64"
      unfolding mod_add_left_eq by (simp only: ac_simps distrib_right mult_1_left)
    have "last_lo st = xadder st mod 2 ^ 32" using 2(2) lo I(7) by simp
    then have turn: "xadd_turn w st = st\<lparr>xadder := (?E + (?O + 1) * 2 ^ 32) mod 2 ^ 64\<rparr>"
      unfolding add[symmetric] I(1)[symmetric] using 2(1) by (simp add: xadd_turn_def Let_def)
    show ?thesis
      unfolding turn by (rule xadd_invI[of _ _ c seen]) (use 2(1) I(2-7) in simp_all)
  next
    case 3
    have add: "((?E + ?O * 2 ^ 32) mod 2 ^ 64 + 2 ^ 32) mod 2 ^ 64 = (?E + (?O + 1) * 2 ^ 32) mod 2 ^ 64"
      unfolding mod_add_left_eq by (simp only: ac_simps distrib_right mult_1_left)
    have "seen \<noteq> ?E" using 3 by auto
    then have c: "Suc c \<le> ?E" "Suc c \<le> Suc ?O" using I(4-6) by linarith+
    have nr: "(xadd_nr st + 1) mod 2 ^ 32 = Suc (xadd_nr st)" using I(2) by simp
    note C = count_step[of 0 "xadd_pingpongs st" "xadd_nr st" "2 ^ 32" c]
    have w1: "w = 1" "last_lo st \<noteq> xadder st mod 2 ^ 32" using 3 lo I(7) by simp_all
    define x where "x = (?E + (?O + 1) * 2 ^ 32) mod 2 ^ 64"
    have x: "(xadder st + 2 ^ 32) mod 2 ^ 64 = x" unfolding I(1) x_def by (rule add)
    have turn: "xadder (xadd_turn w st) = x" "last_lo (xadd_turn w st) = ?E mod 2 ^ 32"
      "xadd_nr (xadd_turn w st) = (if Suc (xadd_nr st) = 10000 then 0 else Suc (xadd_nr st))"
      "xadd_pingpongs (xadd_turn w st) = (if Suc (xadd_nr st) = 10000
         then (xadd_pingpongs st + 2 * Suc (xadd_nr st)) mod 2 ^ 32 else xadd_pingpongs st)"
      using w1 lo x nr by (simp_all add: xadd_turn_def Let_def)
    have P: "(0 + xadd_pingpongs st + 2 * xadd_nr st) mod 2 ^ 32 = 2 * c mod 2 ^ 32"
      using I(3) by (simp only: add_0_left)
    have "(xadd_pingpongs (xadd_turn w st) + 2 * xadd_nr (xadd_turn w st)) mod 2 ^ 32 = 2 * Suc c mod 2 ^ 32"
    proof (cases "Suc (xadd_nr st) = 10000")
      case True
      then have "xadd_nr (xadd_turn w st) = 0"
        "xadd_pingpongs (xadd_turn w st) = (xadd_pingpongs st + 2 * Suc (xadd_nr st)) mod 2 ^ 32"
        unfolding turn by simp_all
      then show ?thesis using C(2)[OF P] by (simp only: mult_0_right add_0_right add_0_left)
    next
      case False
      then have "xadd_nr (xadd_turn w st) = Suc (xadd_nr st)"
        "xadd_pingpongs (xadd_turn w st) = xadd_pingpongs st"
        unfolding turn by simp_all
      then show ?thesis using C(1)[OF P] by (simp only: add_0_left)
    qed
    moreover have "xadd_nr (xadd_turn w st) < 10000" using I(2) turn(3) by (simp split: if_splits)
    ultimately show ?thesis
      using c turn(1,2) w1(1) by (intro xadd_invI[of _ _ "Suc c" ?E]) (simp_all add: x_def)
  qed
qed

text \<open>In xadd_loop the shared word holds the number of turns of the even thread in its
  low half and of the odd thread in its high half (with the carry), and the odd thread never
  counts more changes than either thread has made turns.\<close>
theorem xadd_counts:
  assumes "set ws \<subseteq> {0, 1}"
  shows "xadder (xadd_run ws) = (count_list ws 0 + count_list ws 1 * 2 ^ 32) mod 2 ^ 64 \<and>
    (\<exists>c. (xadd_pingpongs (xadd_run ws) + 2 * xadd_nr (xadd_run ws)) mod 2 ^ 32 = 2 * c mod 2 ^ 32 \<and>
      c \<le> min (count_list ws 0) (count_list ws 1))"
proof -
  have "xadd_inv ws (xadd_run ws)"
    using assms
  proof (induction ws rule: rev_induct)
    case Nil
    then show ?case by (auto simp: xadd_inv_def xadd_run_def xadd_init_def)
  next
    case (snoc w ws)
    have "w < 2" using snoc.prems by auto
    then show ?case using xadd_inv_turn[OF snoc.IH] snoc.prems by (simp add: xadd_run_def)
  qed
  then show ?thesis by (auto simp: xadd_inv_def) 
qed

theorem xadd_counts_witness: "xadder (xadd_run [0, 1, 0, 0, 1]) = 3 + 2 * 2 ^ 32"
  using xadd_counts[of "[0, 1, 0, 0, 1]"] by simp

end
