(* ===== verification/Sampling.thy ===== *)
theory Sampling
  imports Prelude
begin

text \<open>
  The sampling loop of \<open>multichase.c\<close>: every half second the main thread takes the counts of all
  threads, drops the first sample, and keeps the sum of the latencies and the best one. The
  double operations are a parameter (\<open>float_ops\<close>), so nothing here depends on rounding. A round
  is the list of counts the exchange returns and the time read after it.
\<close>

subsection \<open>Double arithmetic\<close>

record 'd float_ops =
  quot :: "nat \<Rightarrow> nat \<Rightarrow> 'd"
  fzero :: 'd
  finf :: 'd
  fadd :: "'d \<Rightarrow> 'd \<Rightarrow> 'd"
  fless :: "'d \<Rightarrow> 'd \<Rightarrow> bool"
  fscale :: "'d \<Rightarrow> nat \<Rightarrow> 'd"
  fdivide :: "'d \<Rightarrow> nat \<Rightarrow> 'd"

subsection \<open>The loop\<close>

record 'd tally =
  last_sample_time :: nat
  total_count :: nat
  stalls :: nat
  best :: 'd
  running_sum :: 'd

definition sum_counts :: "nat list \<Rightarrow> nat" where
  "sum_counts cs = foldl add64 0 cs"

text \<open>One sample after the first: \<open>cs\<close> the counts, \<open>now\<close> the time.\<close>

definition take_sample :: "'d float_ops \<Rightarrow> nat list \<Rightarrow> nat \<Rightarrow> 'd tally \<Rightarrow> 'd tally" where
  "take_sample fl cs now s =
     (let sum = sum_counts cs; time_delta = sub64 now (last_sample_time s); t = quot fl time_delta sum in
      s\<lparr>last_sample_time := now,
        total_count := add64 (total_count s) sum,
        stalls := (if sum = 0 then stalls s + 1 else stalls s),
        running_sum := fadd fl (running_sum s) t,
        best := (if fless fl t (best s) then t else best s)\<rparr>)"

text \<open>
  \<open>nr\<close> is \<open>nr_samples\<close> after the increment, \<open>k\<close> is \<open>sample_no\<close>. The result is the number of the sample
  the loop ended at, the tally, and whether the loop timed out; None when the rounds given are
  not enough. The message of a time-out divides by \<open>duration_nsecs\<close>.
\<close>

fun sample_loop ::
    "'d float_ops \<Rightarrow> nat \<Rightarrow> nat \<Rightarrow> nat \<Rightarrow> nat \<Rightarrow> 'd tally \<Rightarrow> (nat list \<times> nat) list \<Rightarrow>
     (nat \<times> 'd tally \<times> bool) res option" where
  "sample_loop fl nr duration start k s rounds =
     (if nr \<noteq> 1 \<and> nr \<le> k then Some (Inr (k, s, False))
      else case rounds of
        [] \<Rightarrow> None
      | (cs, now) # rest \<Rightarrow>
          if k = 0 then sample_loop fl nr duration start (k + 1) (s\<lparr>last_sample_time := now\<rparr>) rest
          else
            (let s = take_sample fl cs now s in
             if duration < sub64 now start
             then if duration = 0 then Some (Inl DivByZero) else Some (Inr (k, s, True))
             else sample_loop fl nr duration start (k + 1) s rest))"

declare sample_loop.simps [simp del]

definition first_tally :: "'d float_ops \<Rightarrow> nat \<Rightarrow> 'd tally" where
  "first_tally fl start =
     \<lparr>last_sample_time = start, total_count = 0, stalls = 0, best = finf fl, running_sum = fzero fl\<rparr>"

text \<open>The sampling phase of \<open>main\<close>, up to the number it prints.\<close>

definition effective_duration :: "nat \<Rightarrow> nat \<Rightarrow> nat" where
  "effective_duration duration_nsecs nr_samples =
     (if duration_nsecs = 0 then mul64 (mul64 nr_samples 500000) 1000 else duration_nsecs)"

definition sample_phase ::
    "'d float_ops \<Rightarrow> bool \<Rightarrow> nat \<Rightarrow> nat \<Rightarrow> nat \<Rightarrow> nat \<Rightarrow> (nat list \<times> nat) list \<Rightarrow> 'd res option" where
  "sample_phase fl print_average nr_threads duration_nsecs nr_samples start rounds =
     (let duration = effective_duration duration_nsecs nr_samples; nr = add64 nr_samples 1 in
      map_option (\<lambda>r. rbind r (\<lambda>(k, s, timed_out).
        Inr (if print_average then fdivide fl (fscale fl (running_sum s) nr_threads) (sub64 nr 1)
             else fscale fl (best s) nr_threads)))
        (sample_loop fl nr duration start 0 (first_tally fl start) rounds))"

subsection \<open>What the loop computes\<close>

text \<open>The latencies of the samples after the first: interval over counts.\<close>

fun latencies :: "'d float_ops \<Rightarrow> nat \<Rightarrow> (nat list \<times> nat) list \<Rightarrow> 'd list" where
  "latencies fl prev [] = []"
| "latencies fl prev ((cs, now) # rest) = quot fl (sub64 now prev) (sum_counts cs) # latencies fl now rest"

definition best_of :: "'d float_ops \<Rightarrow> 'd \<Rightarrow> 'd list \<Rightarrow> 'd" where
  "best_of fl = foldl (\<lambda>b t. if fless fl t b then t else b)"

lemma length_latencies [simp]: "length (latencies fl prev rs) = length rs"
  by (induction fl prev rs rule: latencies.induct) auto

text \<open>The samples \<open>rs\<close> taken one after the other, none of them past the time limit.\<close>

lemma sample_loop_take:
  assumes "\<forall>r\<in>set rs. sub64 (snd r) start \<le> duration" and "0 < k" and "nr = 1 \<or> k + length rs \<le> nr"
  shows "\<exists>s'. sample_loop fl nr duration start k s (rs @ rest) =
      sample_loop fl nr duration start (k + length rs) s' rest \<and>
    running_sum s' = foldl (fadd fl) (running_sum s) (latencies fl (last_sample_time s) rs) \<and>
    best s' = best_of fl (best s) (latencies fl (last_sample_time s) rs) \<and>
    total_count s' = foldl add64 (total_count s) (map (sum_counts \<circ> fst) rs) \<and>
    last_sample_time s' = (if rs = [] then last_sample_time s else snd (last rs))"
  using assms
proof (induction rs arbitrary: k s)
  case Nil
  then show ?case by (auto simp: best_of_def)
next
  case (Cons r rs)
  obtain cs now where r: "r = (cs, now)" by force
  let ?s = "take_sample fl cs now s"
  have "sample_loop fl nr duration start k s ((r # rs) @ rest) =
      sample_loop fl nr duration start (Suc k) ?s (rs @ rest)"
    using Cons.prems r by (subst sample_loop.simps) (auto simp: Let_def)
  moreover have P: "\<forall>r\<in>set rs. sub64 (snd r) start \<le> duration" "0 < Suc k"
    "nr = 1 \<or> Suc k + length rs \<le> nr"
    using Cons.prems by auto
  obtain s' where "sample_loop fl nr duration start (Suc k) ?s (rs @ rest) =
      sample_loop fl nr duration start (Suc k + length rs) s' rest"
    "running_sum s' = foldl (fadd fl) (running_sum ?s) (latencies fl (last_sample_time ?s) rs)"
    "best s' = best_of fl (best ?s) (latencies fl (last_sample_time ?s) rs)"
    "total_count s' = foldl add64 (total_count ?s) (map (sum_counts \<circ> fst) rs)"
    "last_sample_time s' = (if rs = [] then last_sample_time ?s else snd (last rs))"
    using Cons.IH[OF P, of ?s] by blast
  ultimately show ?case
    using r by (intro exI[of _ s']) (auto simp: take_sample_def Let_def best_of_def comp_def)
qed

text \<open>The sampling of multichase drops the first sample and reports the threads times
  the mean, or the least, of interval over summed counts of the following nr_samples samples.\<close>
theorem sample_phase_untimed:
  assumes "0 < nr_samples" and "nr_samples + 1 < W64" and "length rs = nr_samples"
    and "0 < duration" and "\<forall>r\<in>set rs. sub64 (snd r) start \<le> duration"
  shows "sample_phase fl avg nr_threads duration nr_samples start ((cs0, t0) # rs @ rest) =
    Some (Inr (if avg then fdivide fl (fscale fl (foldl (fadd fl) (fzero fl) (latencies fl t0 rs)) nr_threads) nr_samples
               else fscale fl (best_of fl (finf fl) (latencies fl t0 rs)) nr_threads))"
proof -
  let ?nr = "Suc nr_samples" and ?s = "(first_tally fl start)\<lparr>last_sample_time := t0\<rparr>"
  have nr: "add64 nr_samples 1 = ?nr" "sub64 ?nr 1 = nr_samples"
    using assms(2) by (simp_all add: add64_exact sub64_exact)
  have "sample_loop fl ?nr duration start 0 (first_tally fl start) ((cs0, t0) # rs @ rest) =
      sample_loop fl ?nr duration start 1 ?s (rs @ rest)"
    by (subst sample_loop.simps) simp
  moreover obtain s' where "sample_loop fl ?nr duration start 1 ?s (rs @ rest) =
      sample_loop fl ?nr duration start (1 + length rs) s' rest"
    and s': "running_sum s' = foldl (fadd fl) (fzero fl) (latencies fl t0 rs)"
    "best s' = best_of fl (finf fl) (latencies fl t0 rs)"
    using sample_loop_take[OF assms(5), of 1 ?nr fl ?s rest] assms(3) by (auto simp: first_tally_def)
  moreover have "sample_loop fl ?nr duration start (1 + length rs) s' rest = Some (Inr (?nr, s', False))"
    using assms(1,3) by (subst sample_loop.simps) simp
  ultimately show ?thesis
    using assms(4) unfolding sample_phase_def Let_def nr effective_duration_def by (simp add: s')
qed

text \<open>
  With \<open>-N\<close> the limit is the nominal time of \<open>nr_samples\<close> samples, and every sample takes longer
  than its nominal time, the dropped one included: the loop ends before it has them all.
\<close>

text \<open>With -N and -a the loop stops before it has nr_samples latencies, because the
  dropped sample uses up time too, but the sum is still divided by nr_samples.\<close>
theorem timed_average_divides_too_much:
  assumes N: "2 \<le> nr_samples" "nr_samples * 500000000 < W64" and len: "nr_samples \<le> length rounds"
    and late: "\<forall>k<length rounds. start + (k + 1) * 500000000 < snd (rounds ! k) \<and> snd (rounds ! k) < W64"
  shows "\<exists>k. 0 < k \<and> k < nr_samples \<and>
    sample_phase fl True nr_threads 0 nr_samples start rounds =
      Some (Inr (fdivide fl (fscale fl (foldl (fadd fl) (fzero fl)
        (latencies fl (snd (rounds ! 0)) (take k (tl rounds)))) nr_threads) nr_samples))"
proof -
  let ?nr = "Suc nr_samples" and ?d = "nr_samples * 500000000"
  have nr: "add64 nr_samples 1 = ?nr" "sub64 ?nr 1 = nr_samples"
    using N by (simp_all add: add64_exact sub64_exact)
  have d: "effective_duration 0 nr_samples = ?d"
    using N(2) by (simp add: effective_duration_def mul64_exact)
  have elapsed: "sub64 (snd (rounds ! k)) start = snd (rounds ! k) - start" if "k < length rounds" for k
    using late that by (intro sub64_exact) (auto intro: less_imp_le less_trans add_lessD1)
  let ?over = "\<lambda>k. 0 < k \<and> ?d < sub64 (snd (rounds ! k)) start"
  define k where "k = (LEAST k. ?over k)"
  have lateN: "start + nr_samples * 500000000 < snd (rounds ! (nr_samples - 1))"
    using late[rule_format, of "nr_samples - 1"] N len by simp
  have "?over (nr_samples - 1)"
    using lateN elapsed[of "nr_samples - 1"] N len by auto
  then have k: "?over k" "k \<le> nr_samples - 1"
    unfolding k_def by (rule LeastI[of ?over], rule Least_le[of ?over])
  have before: "\<not> ?over j" if "j < k" for j
    using not_less_Least[of j ?over] that unfolding k_def by blast
  obtain r0 rs where rounds: "rounds = r0 # rs" using len N by (cases rounds) auto
  have kl: "k - 1 < length rs" using k len N rounds by simp
  obtain cs now rest where drop: "drop (k - 1) rs = (cs, now) # rest"
    using Cons_nth_drop_Suc[OF kl] by (metis prod.exhaust)
  have nth: "rounds ! k = (cs, now)" using k drop rounds kl by (metis Cons_nth_drop_Suc gr0_conv_Suc diff_Suc_1 list.inject nth_Cons_Suc)
  let ?s0 = "(first_tally fl start)\<lparr>last_sample_time := snd r0\<rparr>" and ?rs = "take (k - 1) rs"
  have "\<forall>r\<in>set ?rs. sub64 (snd r) start \<le> ?d"
  proof
    fix r assume "r \<in> set ?rs"
    then obtain j where j: "j < k - 1" "j < length rs" "r = rs ! j" by (auto simp: in_set_conv_nth)
    then have "Suc j < k" by linarith
    then show "sub64 (snd r) start \<le> ?d" using before[of "Suc j"] rounds j(3) by simp
  qed
  moreover have "?nr = 1 \<or> 1 + length ?rs \<le> ?nr" using k N kl by simp
  ultimately obtain s' where s': "sample_loop fl ?nr ?d start 1 ?s0 (?rs @ (cs, now) # rest) =
      sample_loop fl ?nr ?d start (1 + length ?rs) s' ((cs, now) # rest)"
    "running_sum s' = foldl (fadd fl) (running_sum ?s0) (latencies fl (last_sample_time ?s0) ?rs)"
    "last_sample_time s' = (if ?rs = [] then last_sample_time ?s0 else snd (last ?rs))"
    using sample_loop_take[OF _ zero_less_one, of ?rs start ?d ?nr fl ?s0 "(cs, now) # rest"] by blast
  have lk: "1 + length ?rs = k" using k kl by simp
  have split: "rs = ?rs @ (cs, now) # rest" using drop by (metis append_take_drop_id)
  have lat: "latencies fl p (xs @ [(c, t)]) = latencies fl p xs @
      [quot fl (sub64 t (if xs = [] then p else snd (last xs))) (sum_counts c)]" for p xs c t
    by (induction fl p xs rule: latencies.induct) auto
  have "take k rs = ?rs @ [(cs, now)]" using k split lk by (metis Suc_diff_1 append_take_drop_id drop kl list.inject take_Suc_conv_app_nth Cons_nth_drop_Suc)
  then have sum: "running_sum (take_sample fl cs now s') =
      foldl (fadd fl) (fzero fl) (latencies fl (snd r0) (take k rs))"
    using s'(2,3) by (simp add: take_sample_def Let_def lat first_tally_def)
  have "sample_loop fl ?nr ?d start 0 (first_tally fl start) rounds =
      sample_loop fl ?nr ?d start 1 ?s0 rs"
    using rounds by (subst sample_loop.simps) (simp split: prod.split)
  also have "\<dots> = sample_loop fl ?nr ?d start k s' ((cs, now) # rest)"
    using s'(1) split lk by metis
  also have "\<dots> = Some (Inr (k, take_sample fl cs now s', True))"
    using k nth N by (subst sample_loop.simps) (simp add: Let_def)
  finally show ?thesis
    using k N rounds unfolding sample_phase_def Let_def d nr
    by (intro exI[of _ k]) (simp add: sum)
qed

text \<open>With -N and -n 0 the message of the time-out divides by a duration of 0.\<close>
theorem timed_run_without_samples:
  assumes "start < t1" and "t1 < W64"
  shows "sample_phase fl avg nr_threads 0 0 start ((cs0, t0) # (cs1, t1) # rest) = Some (Inl DivByZero)"
proof -
  have "add64 0 1 = 1" "0 < sub64 t1 start" using assms by (simp_all add: add64_exact sub64_exact)
  then show ?thesis
    unfolding sample_phase_def effective_duration_def Let_def
    by (simp add: sample_loop.simps mul64_def Let_def)
qed

subsection \<open>Two runs on integers\<close>

definition int_ops :: "nat float_ops" where
  "int_ops = \<lparr>quot = (div), fzero = 0, finf = 10 ^ 12, fadd = (+), fless = (<), fscale = (*), fdivide = (div)\<rparr>"

theorem sample_phase_untimed_witness:
  "sample_phase int_ops False 1 (W64 - 1) 2 0 [([7], 10), ([2], 30), ([5], 70)] = Some (Inr 8)"
  using sample_phase_untimed[of 2 "[([2], 30), ([5], 70)]" "W64 - 1" 0 int_ops False 1 "[7]" 10 "[]"]
  by (simp add: int_ops_def best_of_def sum_counts_def W64_def add64_def sub64_def flip: numeral_2_eq_2)

theorem timed_average_divides_too_much_witness:
  "\<exists>k. 0 < k \<and> k < 3 \<and>
    sample_phase int_ops True 1 0 3 0 [([7], 600000000), ([6], 1200000000), ([6], 1800000000)] =
      Some (Inr ((foldl (+) 0 (latencies int_ops 600000000
        (take k [([6], 1200000000), ([6], 1800000000)])) * 1) div 3))"
proof -
  let ?rounds = "[([7], 600000000), ([6], 1200000000), ([6], 1800000000)] :: (nat list \<times> nat) list"
  have "\<forall>k<length ?rounds. 0 + (k + 1) * 500000000 < snd (?rounds ! k) \<and> snd (?rounds ! k) < W64"
    by (auto simp: less_Suc_eq W64_def)
  from timed_average_divides_too_much[OF _ _ _ this, of 3 int_ops 1] show ?thesis
    by (simp add: int_ops_def W64_def)
qed

theorem timed_run_without_samples_witness:
  "sample_phase int_ops True 1 0 0 0 [([7], 600000000), ([6], 1200000000)] = Some (Inl DivByZero)"
  using timed_run_without_samples[of 0 1200000000 int_ops True 1 "[7]" 600000000 "[6]" "[]"]
  by (simp add: W64_def)

end
