(* ===== verification/Pingpong_Main.thy ===== *)
theory Pingpong_Main
  imports Pingpong Sampling
begin

text \<open>
  The rest of \<open>pingpong.c\<close>: the options, \<open>common_setup\<close> (who maps the shared word, and the two
  threads waiting for each other), the table of pairs of cpus, and the samples of one pair.
\<close>

subsection \<open>Options\<close>

datatype pp_loop = Exchange loop_kind | Xadd_loop

record pp_settings =
  thread_fn :: "pp_loop option"
  nr_relax :: nat
  nr_tested_cores :: nat
  nr_array_elts :: nat
  array_bytes :: nat

definition pp_default :: pp_settings where
  "pp_default =
     \<lparr>thread_fn = None, nr_relax = 10, nr_tested_cores = sub64 0 1, nr_array_elts = 0, array_bytes = 0\<rparr>"

text \<open>\<open>goto thread_fn_error\<close> ends the program; \<open>memalign\<close> tells whether \<open>posix_memalign\<close> succeeds.\<close>

definition set_loop :: "pp_loop \<Rightarrow> pp_settings \<Rightarrow> pp_settings res" where
  "set_loop f s = (if thread_fn s \<noteq> None then Inl (Exit 1) else Inr (s\<lparr>thread_fn := Some f\<rparr>))"

definition pp_set_option :: "(nat \<Rightarrow> bool) \<Rightarrow> char \<times> string \<Rightarrow> pp_settings \<Rightarrow> pp_settings res" where
  "pp_set_option memalign opt s =
     (let (c, optarg) = opt in
      if c = CHR ''l'' then set_loop (Exchange Locked) s
      else if c = CHR ''u'' then set_loop (Exchange Unlocked) s
      else if c = CHR ''x'' then set_loop Xadd_loop s
      else if c = CHR ''r'' then rbind (number_arg optarg) (\<lambda>n. Inr (s\<lparr>nr_relax := n\<rparr>))
      else if c = CHR ''c'' then rbind (number_arg optarg) (\<lambda>n. Inr (s\<lparr>nr_tested_cores := n\<rparr>))
      else if c = CHR ''s'' then
        rbind (number_arg optarg) (\<lambda>n.
          if memalign (mul64 n 8) then Inr (s\<lparr>nr_array_elts := n, array_bytes := mul64 n 8\<rparr>) else Inl (Exit 1))
      else Inl (Exit 1))"

definition pp_read_options :: "(nat \<Rightarrow> bool) \<Rightarrow> (char \<times> string) list \<Rightarrow> pp_settings res" where
  "pp_read_options memalign opts =
     rbind (for_each opts (pp_set_option memalign) pp_default) (\<lambda>s.
     if thread_fn s = None then Inl (Exit 1) else Inr s)"

text \<open>The options that choose a loop.\<close>

definition chooses_loop :: "char \<times> string \<Rightarrow> bool" where
  "chooses_loop opt \<longleftrightarrow> fst opt \<in> {CHR ''l'', CHR ''u'', CHR ''x''}"

lemma pp_set_option_loop:
  assumes "pp_set_option memalign opt s = Inr s'"
  shows "(thread_fn s' \<noteq> None \<longleftrightarrow> thread_fn s \<noteq> None \<or> chooses_loop opt) \<and>
    (chooses_loop opt \<longrightarrow> thread_fn s = None) \<and>
    (array_bytes s = mul64 (nr_array_elts s) 8 \<longrightarrow> array_bytes s' = mul64 (nr_array_elts s') 8)"
proof -
  obtain c x where "opt = (c, x)" by force
  then show ?thesis
    using assms by (auto simp: pp_set_option_def set_loop_def chooses_loop_def res_simps split: if_splits)
qed

text \<open>Pingpong accepts its options only when exactly one of -l, -u and -x is among them,
  and then the communication array has been allocated for nr_array_elts elements of 8 bytes, as far
  as 64 bits hold that number.\<close>
theorem pp_exactly_one_loop:
  assumes "pp_read_options memalign opts = Inr s"
  shows "length (filter chooses_loop opts) = 1 \<and> thread_fn s \<noteq> None \<and>
    array_bytes s = mul64 (nr_array_elts s) 8"
proof -
  have "length (filter chooses_loop opts) = (if thread_fn s0 = None \<and> thread_fn s' \<noteq> None then 1 else 0) \<and>
      (thread_fn s0 \<noteq> None \<longrightarrow> thread_fn s' \<noteq> None) \<and>
      (array_bytes s0 = mul64 (nr_array_elts s0) 8 \<longrightarrow> array_bytes s' = mul64 (nr_array_elts s') 8)"
    if "for_each opts (pp_set_option memalign) s0 = Inr s'" for s0 s'
    using that
  proof (induction opts arbitrary: s0)
    case (Cons opt opts)
    then obtain s1 where s1: "pp_set_option memalign opt s0 = Inr s1" "for_each opts (pp_set_option memalign) s1 = Inr s'"
      by (auto simp: res_simps)
    show ?case
      using Cons.IH[OF s1(2)] pp_set_option_loop[OF s1(1)] by (auto split: if_splits)
  qed auto
  note loop = this
  from assms obtain s' where "for_each opts (pp_set_option memalign) pp_default = Inr s'" "s' = s" "thread_fn s \<noteq> None"
    by (auto simp: pp_read_options_def res_simps split: if_splits)
  with loop[OF this(1)] show ?thesis by (simp add: pp_default_def mul64_def)
qed

subsection \<open>The table of pairs\<close>

text \<open>The header: the first and the last cpu of the set, and the columns printed.\<close>

definition header_step :: "(nat \<Rightarrow> bool) \<Rightarrow> nat \<times> nat \<times> nat list \<Rightarrow> nat \<Rightarrow> nat \<times> nat \<times> nat list" where
  "header_step isset s j =
     (let (first_cpu, last_cpu, cols) = s in
      if isset j then
        (let (first_cpu, cols) = (if j < first_cpu then (j, cols) else (first_cpu, cols @ [j])) in
         (first_cpu, if last_cpu < j then j else last_cpu, cols))
      else s)"

definition pp_header :: "(nat \<Rightarrow> bool) \<Rightarrow> nat \<times> nat \<times> nat list" where
  "pp_header isset = foldl (header_step isset) (sub64 0 1, 0, []) [0..<CPU_SETSIZE]"

text \<open>A row: the even cpu, the number of empty columns, and the odd cpus of the pairs tested.\<close>

function pp_rows ::
    "(nat \<Rightarrow> bool) \<Rightarrow> nat \<Rightarrow> nat \<Rightarrow> nat \<Rightarrow> nat \<Rightarrow> nat \<Rightarrow> (nat \<times> nat \<times> nat list) list" where
  "pp_rows isset tested first_cpu last_cpu i core =
     (if i < last_cpu \<and> core < tested then
        if \<not> isset i then pp_rows isset tested first_cpu last_cpu (i + 1) core
        else (i, length (filter isset [first_cpu + 1..<i + 1]), filter isset [i + 1..<last_cpu + 1]) #
          pp_rows isset tested first_cpu last_cpu (i + 1) (core + 1)
      else [])"
  by pat_completeness auto

termination
  by (relation "measure (\<lambda>(isset, tested, first_cpu, last_cpu, i, core). last_cpu - i)") auto

declare pp_rows.simps [simp del]

definition pp_table :: "(nat \<Rightarrow> bool) \<Rightarrow> nat \<Rightarrow> nat list \<times> (nat \<times> nat \<times> nat list) list" where
  "pp_table isset tested =
     (let (first_cpu, last_cpu, cols) = pp_header isset in
      (cols, pp_rows isset tested first_cpu last_cpu 0 0))"

lemma header_eq:
  assumes "n \<le> CPU_SETSIZE"
  shows "foldl (header_step isset) (sub64 0 1, 0, []) [0..<n] =
    (let cs = filter isset [0..<n] in
     (if cs = [] then W64 - 1 else hd cs, if cs = [] then 0 else last cs, tl cs))"
  using assms
proof (induction n)
  case 0
  then show ?case by (simp add: sub64_def)
next
  case (Suc n)
  let ?cs = "filter isset [0..<n]"
  have n: "n < W64 - 1" using Suc.prems by (simp add: CPU_SETSIZE_def W64_def)
  have mem: "x < n" if "x \<in> set ?cs" for x using that by auto
  show ?case
  proof (cases "?cs = []")
    case True
    then show ?thesis using Suc n by (simp add: header_step_def Let_def)
  next
    case False
    then have "hd ?cs < n" "last ?cs < n" using mem hd_in_set last_in_set by blast+
    then show ?thesis using Suc False by (simp add: header_step_def Let_def)
  qed
qed

text \<open>The members of a sorted list of cpus after an element of it.\<close>

lemma filter_split:
  assumes "cs = filter isset [0..<CPU_SETSIZE]" and "r < length cs"
  shows "filter isset [cs ! r + 1..<last cs + 1] = drop (Suc r) cs"
    and "filter isset [hd cs + 1..<cs ! r + 1] = take r (tl cs)"
proof -
  have sorted: "sorted_wrt (<) cs" unfolding assms(1) by (intro sorted_wrt_filter) simp
  have ne: "cs \<noteq> []" using assms(2) by auto
  have less: "cs ! a < cs ! b \<longleftrightarrow> a < b" if "a < length cs" "b < length cs" for a b
    using sorted that sorted_wrt_nth_less[OF sorted] by (metis linorder_neqE_nat order_less_asym less_irrefl_nat)
  have lt: "cs ! a < CPU_SETSIZE" if "a < length cs" for a
    using nth_mem[OF that] assms(1) by simp
  have last: "last cs = cs ! (length cs - 1)" and hd: "hd cs = cs ! 0"
    using ne by (simp_all add: last_conv_nth hd_conv_nth)
  have seg: "filter isset [cs ! a + 1..<cs ! b + 1] = map (nth cs) [a + 1..<b + 1]"
    if "a \<le> b" "b < length cs" for a b
  proof (rule sorted_distinct_set_unique)
    show "sorted (filter isset [cs ! a + 1..<cs ! b + 1])" "distinct (filter isset [cs ! a + 1..<cs ! b + 1])"
      by (simp_all add: sorted_wrt_filter del: upt_Suc)
    have "sorted_wrt (<) (map (nth cs) [a + 1..<b + 1])"
      using less that by (auto simp: sorted_wrt_map sorted_wrt_iff_nth_less simp del: upt_Suc)
    then show "sorted (map (nth cs) [a + 1..<b + 1])" "distinct (map (nth cs) [a + 1..<b + 1])"
      unfolding strict_sorted_iff by blast+
    show "set (filter isset [cs ! a + 1..<cs ! b + 1]) = set (map (nth cs) [a + 1..<b + 1])"
    proof (intro set_eqI iffI)
      fix x assume x: "x \<in> set (filter isset [cs ! a + 1..<cs ! b + 1])"
      then have "x \<in> set cs" using lt[OF that(2)] unfolding assms(1) by auto
      then obtain k where k: "k < length cs" "x = cs ! k" by (auto simp: in_set_conv_nth)
      have "a < k" "k \<le> b" using x k less[of a k] less[of b k] that by auto
      then show "x \<in> set (map (nth cs) [a + 1..<b + 1])" using k by (auto simp del: upt_Suc)
    next
      fix x assume "x \<in> set (map (nth cs) [a + 1..<b + 1])"
      then obtain k where k: "k \<in> {a + 1..<b + 1}" "x = cs ! k" unfolding set_map set_upt by blast
      then have k: "a < k" "k \<le> b" "x = cs ! k" by simp_all
      have "cs ! a < x" "x \<le> cs ! b"
        using k less[of a k] less[of k b] that by (cases "k = b"; auto)+
      moreover have "x \<in> set cs" using k that by simp
      then have "isset x" unfolding assms(1) by simp
      ultimately show "x \<in> set (filter isset [cs ! a + 1..<cs ! b + 1])" by (auto simp del: upt_Suc)
    qed
  qed
  have "filter isset [cs ! r + 1..<last cs + 1] = map (nth cs) [r + 1..<length cs]"
    using seg[of r "length cs - 1"] assms(2) last by (cases "length cs") (simp_all del: upt_Suc)
  also have "\<dots> = drop (Suc r) cs" by (rule nth_equalityI) auto
  finally show "filter isset [cs ! r + 1..<last cs + 1] = drop (Suc r) cs" .
  have "filter isset [hd cs + 1..<cs ! r + 1] = map (nth cs) [1..<r + 1]"
    using seg[of 0 r] assms(2) hd by (simp del: upt_Suc)
  also have "\<dots> = take r (tl cs)" by (rule nth_equalityI) (use assms(2) in \<open>auto simp: nth_tl simp del: upt_Suc\<close>)
  finally show "filter isset [hd cs + 1..<cs ! r + 1] = take r (tl cs)" .
qed


lemma rows_eq:
  assumes cs: "cs = filter isset [0..<CPU_SETSIZE]"
    and "filter isset [0..<i] = take core cs" and "core < length cs" and "i \<le> last cs"
  shows "pp_rows isset tested (hd cs) (last cs) i core =
    map (\<lambda>r. (cs ! r, r, drop (Suc r) cs)) [core..<min tested (length cs - 1)]"
  using assms(2-)
proof (induction "last cs - i" arbitrary: i core rule: less_induct)
  case less
  have ne: "cs \<noteq> []" using less.prems by auto
  have last: "last cs = cs ! (length cs - 1)" using ne by (simp add: last_conv_nth)
  have "last cs \<in> set cs" using ne by simp
  then have "i < CPU_SETSIZE" using less.prems(3) unfolding cs by auto
  then have "[0..<CPU_SETSIZE] = [0..<i] @ [i..<CPU_SETSIZE]"
    by (metis less_imp_le upt_add_eq_append le_add_diff_inverse zero_le)
  then have split: "cs = take core cs @ filter isset [i..<CPU_SETSIZE]"
    using less.prems(1) cs by (metis filter_append)
  have len: "length (take core cs) = core" using less.prems(2) by simp
  show ?case
  proof (cases "i < last cs \<and> core < tested")
    case False
    have "min tested (length cs - 1) \<le> core"
    proof (rule ccontr)
      assume short: "\<not> min tested (length cs - 1) \<le> core"
      then have i: "i = last cs" "core < length cs - 1" using False less.prems(3) by auto
      have "cs ! core \<in> set (filter isset [i..<CPU_SETSIZE])"
        using split len less.prems(2) by (metis append_eq_conv_conj nth_mem nth_append_length_plus add_0_right
            length_append nat_add_left_cancel_less length_drop zero_less_diff nth_drop le_refl)
      then have "last cs \<le> cs ! core" using i by simp
      moreover have "sorted_wrt (<) cs" unfolding cs by (intro sorted_wrt_filter) simp
      then have "cs ! core < cs ! (length cs - 1)" using i(2) sorted_wrt_nth_less[of "(<)" cs core "length cs - 1"] by simp
      ultimately show False using last by simp
    qed
    then show ?thesis using False by (subst pp_rows.simps) auto
  next
    case True
    then have lt: "last cs - (i + 1) < last cs - i" "i + 1 \<le> last cs" by auto
    show ?thesis
    proof (cases "isset i")
      case False
      then have "filter isset [0..<i + 1] = take core cs" using less.prems(1) by simp
      from less.hyps[OF lt(1) this less.prems(2) lt(2)] show ?thesis
        using True False by (subst pp_rows.simps) simp
    next
      case member: True
      have "[i..<CPU_SETSIZE] = i # [Suc i..<CPU_SETSIZE]" using \<open>i < CPU_SETSIZE\<close> by (rule upt_conv_Cons)
      then have "cs = take core cs @ i # filter isset [Suc i..<CPU_SETSIZE]" using split member by simp
      then have i: "cs ! core = i" using len by (metis nth_append_length)
      have taken: "filter isset [0..<i + 1] = take (Suc core) cs"
        using less.prems(1,2) member i by (simp add: take_Suc_conv_app_nth)
      have "core \<noteq> length cs - 1" using True i last by auto
      then have more: "Suc core < length cs" using less.prems(2) by linarith
      have row: "length (filter isset [hd cs + 1..<i + 1]) = core" "filter isset [i + 1..<last cs + 1] = drop (Suc core) cs"
        using filter_split[OF cs less.prems(2)] i less.prems(2) by simp_all
      have "core < min tested (length cs - 1)" using True more by auto
      then have upt: "[core..<min tested (length cs - 1)] = core # [Suc core..<min tested (length cs - 1)]"
        by (rule upt_conv_Cons)
      show ?thesis
        unfolding upt list.map i
        using less.hyps[OF lt(1) taken more lt(2)] True member row
        by (subst pp_rows.simps) (simp del: upt_Suc)
    qed
  qed
qed

text \<open>Pingpong tests every pair of cpus i < j of its set once, with i among the first
  nr_tested_cores of them, and prints each result under the header of cpu j: row r leaves r
  columns empty and fills the others.\<close>
theorem pp_table_pairs:
  "pp_table isset tested =
    (let cs = filter isset [0..<CPU_SETSIZE] in
     (tl cs, map (\<lambda>r. (cs ! r, r, drop r (tl cs))) [0..<min tested (length cs - 1)]))"
proof -
  define cs where "cs = filter isset [0..<CPU_SETSIZE]"
  have "pp_header isset = (if cs = [] then W64 - 1 else hd cs, if cs = [] then 0 else last cs, tl cs)"
    unfolding pp_header_def header_eq[OF le_refl] cs_def by (simp add: Let_def)
  moreover have "pp_rows isset tested (hd cs) (last cs) 0 0 =
      map (\<lambda>r. (cs ! r, r, drop r (tl cs))) [0..<min tested (length cs - 1)]" if "cs \<noteq> []"
    using rows_eq[OF cs_def, of 0 0 tested] that by (simp add: drop_Suc)
  ultimately show ?thesis
    unfolding pp_table_def Let_def cs_def[symmetric]
    by (cases "cs = []") (auto simp: pp_rows.simps)
qed

subsection \<open>The samples of a pair\<close>

text \<open>\<open>rounds\<close> holds the count taken and the time read after it for each of the five samples.\<close>

definition NR_SAMPLES :: nat where
  "NR_SAMPLES = 5"

definition pp_sample :: "'d float_ops \<Rightarrow> (nat \<Rightarrow> nat \<times> nat) \<Rightarrow> nat \<Rightarrow> 'd res" where
  "pp_sample fl rounds start =
     rbind (for_range NR_SAMPLES (\<lambda>k (last_stamp, best_sample).
        let (s, time_stamp) = rounds k; sample = quot fl (sub64 time_stamp last_stamp) s in
        Inr (time_stamp, if fless fl sample best_sample then sample else best_sample)) (start, finf fl))
       (\<lambda>(last_stamp, best_sample). Inr best_sample)"

text \<open>The value printed is the least of the five quotients; unlike multichase the first is not dropped.\<close>

lemma pp_sample_eq:
  "pp_sample fl rounds start = Inr (best_of fl (finf fl)
     (map (\<lambda>k. quot fl (sub64 (snd (rounds k)) (if k = 0 then start else snd (rounds (k - 1)))) (fst (rounds k)))
        [0..<NR_SAMPLES]))"
proof -
  have "for_range n (\<lambda>k (last_stamp, best_sample).
        let (s, time_stamp) = rounds k; sample = quot fl (sub64 time_stamp last_stamp) s in
        Inr (time_stamp, if fless fl sample best_sample then sample else best_sample)) (start, finf fl) =
      Inr (if n = 0 then start else snd (rounds (n - 1)), best_of fl (finf fl)
     (map (\<lambda>k. quot fl (sub64 (snd (rounds k)) (if k = 0 then start else snd (rounds (k - 1)))) (fst (rounds k)))
        [0..<n]))" for n
    by (induction n) (auto simp: best_of_def Let_def split: prod.split)
  then show ?thesis by (simp add: pp_sample_def)
qed

subsection \<open>common_setup\<close>

text \<open>
  The even thread maps the page of the shared word and stores its number; then the first of the two
  threads waits for the second. \<open>None\<close> is the null pointer. As in the startup barriers the wait is
  guarded by \<open>if\<close>, and \<open>spurious\<close> lets it end on its own.
\<close>

datatype buddy_pc = Mapping_page | Locking | Sleeping | Awake | Looping

record buddies =
  shared_word :: "nat option"
  wait_for_buddy :: bool
  buddy_pc_of :: "nat \<Rightarrow> buddy_pc"

definition setup_page :: "nat \<Rightarrow> buddies \<Rightarrow> buddies" where
  "setup_page me st =
     (if me = 0 then st\<lparr>shared_word := Some me\<rparr> else st)\<lparr>buddy_pc_of := (buddy_pc_of st)(me := Locking)\<rparr>"

definition setup_wait :: "nat \<Rightarrow> buddies \<Rightarrow> buddies" where
  "setup_wait me st =
     (if wait_for_buddy st
      then st\<lparr>wait_for_buddy := False, buddy_pc_of := (buddy_pc_of st)(me := Sleeping)\<rparr>
      else st\<lparr>wait_for_buddy := True,
             buddy_pc_of := (\<lambda>w. if w = me then Looping
                                 else if buddy_pc_of st w = Sleeping then Awake else buddy_pc_of st w)\<rparr>)"

definition buddies_init :: buddies where
  "buddies_init = \<lparr>shared_word = None, wait_for_buddy = True, buddy_pc_of = (\<lambda>_. Mapping_page)\<rparr>"

inductive buddy_step :: "bool \<Rightarrow> buddies \<Rightarrow> buddies \<Rightarrow> bool" for spurious where
  page: "w < 2 \<Longrightarrow> buddy_pc_of st w = Mapping_page \<Longrightarrow> buddy_step spurious st (setup_page w st)"
| wait: "w < 2 \<Longrightarrow> buddy_pc_of st w = Locking \<Longrightarrow> buddy_step spurious st (setup_wait w st)"
| leave: "w < 2 \<Longrightarrow> buddy_pc_of st w = Awake \<Longrightarrow>
    buddy_step spurious st (st\<lparr>buddy_pc_of := (buddy_pc_of st)(w := Looping)\<rparr>)"
| wakeup: "spurious \<Longrightarrow> w < 2 \<Longrightarrow> buddy_pc_of st w = Sleeping \<Longrightarrow>
    buddy_step spurious st (st\<lparr>buddy_pc_of := (buddy_pc_of st)(w := Awake)\<rparr>)"

inductive_simps buddy_step_iff: "buddy_step spurious st st'"

abbreviation buddy_run :: "bool \<Rightarrow> buddies \<Rightarrow> buddies \<Rightarrow> bool" where
  "buddy_run spurious \<equiv> (buddy_step spurious)\<^sup>*\<^sup>*"

definition early :: "buddy_pc \<Rightarrow> bool" where
  "early p \<longleftrightarrow> p = Mapping_page \<or> p = Locking"

definition late :: "buddy_pc \<Rightarrow> bool" where
  "late p \<longleftrightarrow> p = Awake \<or> p = Looping"

definition buddy_inv :: "buddies \<Rightarrow> bool" where
  "buddy_inv st \<longleftrightarrow>
     (let p = buddy_pc_of st 0; q = buddy_pc_of st 1 in
      (if wait_for_buddy st then early p \<and> early q \<or> late p \<and> late q
       else p = Sleeping \<and> early q \<or> q = Sleeping \<and> early p) \<and>
      (p \<noteq> Mapping_page \<longrightarrow> shared_word st = Some 0))"

lemma buddy_inv_step: "buddy_step False st st' \<Longrightarrow> buddy_inv st \<Longrightarrow> buddy_inv st'"
  by (erule buddy_step.cases)
    (auto simp: buddy_inv_def setup_page_def setup_wait_def early_def late_def Let_def less_2_cases_iff
      split: if_splits)

lemma buddy_inv_run:
  assumes "buddy_run False buddies_init st"
  shows "buddy_inv st"
  using assms
proof (induction rule: rtranclp_induct)
  case base
  then show ?case by (simp add: buddies_init_def buddy_inv_def early_def)
next
  case (step st st')
  then show ?case using buddy_inv_step by blast
qed

text \<open>Without spurious wakeups a thread of pingpong enters its loop only when the shared
  word is mapped and holds 0, and the flag is then set again for the next pair.\<close>
theorem common_setup_safe:
  assumes "buddy_run False buddies_init st" and "w < 2" and "buddy_pc_of st w = Looping"
  shows "shared_word st = Some 0 \<and> wait_for_buddy st"
  using buddy_inv_run[OF assms(1)] assms(2,3)
  by (auto simp: buddy_inv_def early_def late_def Let_def less_2_cases_iff split: if_splits)

text \<open>No wakeup of common_setup is lost: in a state without a next step both threads of
  pingpong have entered their loop.\<close>
theorem common_setup_progress:
  assumes "buddy_run False buddies_init st" and "w < 2" and "\<nexists>st'. buddy_step False st st'"
  shows "buddy_pc_of st w = Looping"
proof (rule ccontr)
  assume "buddy_pc_of st w \<noteq> Looping"
  then have "\<exists>v<2. buddy_pc_of st v \<in> {Mapping_page, Locking, Awake}"
    using buddy_inv_run[OF assms(1)] assms(2)
    by (cases "buddy_pc_of st 0"; cases "buddy_pc_of st 1")
      (auto simp: buddy_inv_def early_def late_def Let_def less_2_cases_iff split: if_splits)
  then show False using assms(3) by (auto intro: page wait leave)
qed

text \<open>With a spurious wakeup the odd thread can enter its loop while pingpong_mutex is
  still a null pointer.\<close>
theorem common_setup_spurious:
  "\<exists>st. buddy_run True buddies_init st \<and> buddy_pc_of st 1 = Looping \<and> shared_word st = None"
proof -
  let ?s1 = "setup_page 1 buddies_init"
  let ?s2 = "setup_wait 1 ?s1"
  let ?s3 = "?s2\<lparr>buddy_pc_of := (buddy_pc_of ?s2)(1 := Awake)\<rparr>"
  let ?s4 = "?s3\<lparr>buddy_pc_of := (buddy_pc_of ?s3)(1 := Looping)\<rparr>"
  have "buddy_run True buddies_init ?s1"
    by (rule r_into_rtranclp, rule page) (simp_all add: buddies_init_def)
  then have "buddy_run True buddies_init ?s2"
    by (rule rtranclp.rtrancl_into_rtrancl, intro wait) (simp_all add: setup_page_def)
  then have "buddy_run True buddies_init ?s3"
    by (rule rtranclp.rtrancl_into_rtrancl, intro wakeup) (simp_all add: setup_wait_def setup_page_def buddies_init_def)
  then have "buddy_run True buddies_init ?s4"
    by (rule rtranclp.rtrancl_into_rtrancl, intro leave) simp_all
  moreover have "buddy_pc_of ?s4 1 = Looping \<and> shared_word ?s4 = None"
    by (simp add: setup_wait_def setup_page_def buddies_init_def)
  ultimately show ?thesis by blast
qed

subsection \<open>Examples\<close>

theorem pp_exactly_one_loop_witness:
  "\<exists>s. pp_read_options (\<lambda>_. True) [(CHR ''u'', [])] = Inr s \<and>
    length (filter chooses_loop [(CHR ''u'', [])]) = 1 \<and> thread_fn s \<noteq> None \<and> array_bytes s = mul64 (nr_array_elts s) 8"
proof -
  have "\<exists>s. pp_read_options (\<lambda>_. True) [(CHR ''u'', [])] = Inr s"
    by (simp add: pp_read_options_def pp_set_option_def set_loop_def pp_default_def)
  then show ?thesis using pp_exactly_one_loop by blast
qed

definition both_looping :: buddies where
  "both_looping = \<lparr>shared_word = Some 0, wait_for_buddy = True, buddy_pc_of = (\<lambda>w. if w < 2 then Looping else Mapping_page)\<rparr>"

lemma both_looping_run: "buddy_run False buddies_init both_looping"
proof -
  let ?s1 = "setup_page 0 buddies_init"
  let ?s2 = "setup_page 1 ?s1"
  let ?s3 = "setup_wait 1 ?s2"
  let ?s4 = "setup_wait 0 ?s3"
  let ?s5 = "?s4\<lparr>buddy_pc_of := (buddy_pc_of ?s4)(1 := Looping)\<rparr>"
  have "buddy_run False buddies_init ?s1"
    by (rule r_into_rtranclp, rule page) (simp_all add: buddies_init_def)
  then have "buddy_run False buddies_init ?s2"
    by (rule rtranclp.rtrancl_into_rtrancl, intro page) (simp_all add: buddies_init_def setup_page_def)
  then have "buddy_run False buddies_init ?s3"
    by (rule rtranclp.rtrancl_into_rtrancl, intro wait) (simp_all add: setup_page_def)
  then have "buddy_run False buddies_init ?s4"
    by (rule rtranclp.rtrancl_into_rtrancl, intro wait) (simp_all add: setup_wait_def setup_page_def)
  then have "buddy_run False buddies_init ?s5"
    by (rule rtranclp.rtrancl_into_rtrancl, intro leave) (simp_all add: setup_wait_def setup_page_def buddies_init_def)
  moreover have "?s5 = both_looping"
    by (auto simp: both_looping_def setup_wait_def setup_page_def buddies_init_def less_2_cases_iff fun_eq_iff)
  ultimately show ?thesis by simp
qed

theorem common_setup_safe_witness: "shared_word both_looping = Some 0 \<and> wait_for_buddy both_looping"
  by (rule common_setup_safe[OF both_looping_run, of 1]) (simp_all add: both_looping_def)

theorem common_setup_progress_witness: "buddy_pc_of both_looping 1 = Looping"
  by (rule common_setup_progress[OF both_looping_run]) (auto simp: buddy_step_iff both_looping_def)

end
