(* ===== verification/Fairness.thy ===== *)
theory Fairness
  imports Options Multi_Sampling Barrier
begin

text \<open>
  \<open>fairness.c\<close>: all threads increment one of the words of \<open>global_counter\<close>, chosen by \<open>sweep_id\<close>,
  first without and then with a pause instruction, and count their increments; \<open>main\<close> takes the
  counts. The worker is modelled access by access, a run is a list of events in any order. The
  options, the assignment of cpus and the statistics of \<open>main\<close> follow. The barrier they share is
  \<open>wait_for_startup\<close> in \<open>Barrier\<close>.
\<close>

subsection \<open>The worker\<close>

definition SWEEP_MAX :: nat where
  "SWEEP_MAX = 256"

text \<open>
  A worker is at the test of the first or of the second loop, in the block of 50 increments of a loop
  with a target, or has returned.
\<close>

datatype worker_pc = Unrelaxed | Relaxed | Adding bool nat nat | Returned

record fairness =
  global_counter :: "nat list"
  sweep_id :: nat
  relaxed :: nat
  count_of :: "nat \<Rightarrow> nat"
  worker_at :: "nat \<Rightarrow> worker_pc"

datatype fair_event = Turn nat | Take nat | Set_sweep nat | Set_relaxed nat

datatype fair_out = Added nat nat | Took nat nat

definition go :: "nat \<Rightarrow> worker_pc \<Rightarrow> fairness \<Rightarrow> fairness" where
  "go w p st = st\<lparr>worker_at := (worker_at st)(w := p)\<rparr>"

definition worker_turn :: "nat \<Rightarrow> fairness \<Rightarrow> (fairness \<times> fair_out list) res" where
  "worker_turn w st =
     (case worker_at st w of
        Unrelaxed \<Rightarrow> Inr (go w (if relaxed st = 0 then Adding False (sweep_id st) 0 else Relaxed) st, [])
      | Relaxed \<Rightarrow> Inr (go w (if relaxed st \<noteq> 0 then Adding True (sweep_id st) 0 else Returned) st, [])
      | Adding r target k \<Rightarrow>
          if k < 50 then
            rbind (arr_get (global_counter st) target) (\<lambda>v.
            rbind (arr_set (global_counter st) target ((v + 1) mod 2 ^ 32)) (\<lambda>g.
            Inr (go w (Adding r target (k + 1)) (st\<lparr>global_counter := g\<rparr>), [Added w target])))
          else
            Inr (go w (if r then Relaxed else Unrelaxed)
                   (st\<lparr>count_of := (count_of st)(w := (count_of st w + 50) mod 2 ^ 32)\<rparr>), [])
      | Returned \<Rightarrow> Inr (st, []))"

fun fair_do :: "fair_event \<Rightarrow> fairness \<Rightarrow> (fairness \<times> fair_out list) res" where
  "fair_do (Turn w) st = worker_turn w st"
| "fair_do (Take w) st = Inr (st\<lparr>count_of := (count_of st)(w := 0)\<rparr>, [Took w (count_of st w)])"
| "fair_do (Set_sweep s) st = Inr (st\<lparr>sweep_id := s\<rparr>, [])"
| "fair_do (Set_relaxed r) st = Inr (st\<lparr>relaxed := r\<rparr>, [])"

definition fair_run :: "fair_event list \<Rightarrow> fairness \<Rightarrow> (fairness \<times> fair_out list) res" where
  "fair_run es st =
     for_each es (\<lambda>e (st, out). rbind (fair_do e st) (\<lambda>(st, out'). Inr (st, out @ out'))) (st, [])"

definition fair_init :: fairness where
  "fair_init = \<lparr>global_counter = replicate SWEEP_MAX 0, sweep_id = 0, relaxed = 0, count_of = (\<lambda>_. 0),
     worker_at = (\<lambda>_. Unrelaxed)\<rparr>"

subsection \<open>What is counted\<close>

text \<open>Increments of thread \<open>w\<close>, increments of word \<open>t\<close>, counts taken from thread \<open>w\<close>.\<close>

definition added_by :: "nat \<Rightarrow> fair_out list \<Rightarrow> nat" where
  "added_by w out = length (filter (\<lambda>x. case x of Added v t \<Rightarrow> v = w | Took v n \<Rightarrow> False) out)"

definition added_to :: "nat \<Rightarrow> fair_out list \<Rightarrow> nat" where
  "added_to t out = length (filter (\<lambda>x. case x of Added v u \<Rightarrow> u = t | Took v n \<Rightarrow> False) out)"

definition taken_from :: "nat \<Rightarrow> fair_out list \<Rightarrow> nat" where
  "taken_from w out = sum_list (map (\<lambda>x. case x of Added v u \<Rightarrow> 0 | Took v n \<Rightarrow> if v = w then n else 0) out)"

lemma counts_append [simp]:
  "added_by w (a @ b) = added_by w a + added_by w b" "added_to t (a @ b) = added_to t a + added_to t b"
  "taken_from w (a @ b) = taken_from w a + taken_from w b"
  by (simp_all add: added_by_def added_to_def taken_from_def)

lemma counts_one [simp]:
  "added_by w [] = 0" "added_to t [] = 0" "taken_from w [] = 0"
  "added_by w [Added v u] = (if v = w then 1 else 0)" "added_to t [Added v u] = (if u = t then 1 else 0)"
  "taken_from w [Added v u] = 0" "added_by w [Took v n] = 0" "added_to t [Took v n] = 0"
  "taken_from w [Took v n] = (if v = w then n else 0)"
  by (simp_all add: added_by_def added_to_def taken_from_def)

fun in_block :: "worker_pc \<Rightarrow> nat" where
  "in_block (Adding r t k) = k"
| "in_block _ = 0"

definition fair_inv :: "fairness \<Rightarrow> fair_out list \<Rightarrow> bool" where
  "fair_inv st out \<longleftrightarrow>
     length (global_counter st) = SWEEP_MAX \<and> sweep_id st < SWEEP_MAX \<and>
     (\<forall>t<SWEEP_MAX. global_counter st ! t = added_to t out mod 2 ^ 32) \<and>
     (\<forall>w. (taken_from w out + count_of st w + in_block (worker_at st w)) mod 2 ^ 32 = added_by w out mod 2 ^ 32) \<and>
     (\<forall>w r t k. worker_at st w = Adding r t k \<longrightarrow> t < SWEEP_MAX \<and> k \<le> 50)"

lemma block_done:
  assumes "(a + c + 50) mod m = b mod (m :: nat)"
  shows "(a + (c + 50) mod m) mod m = b mod m"
proof -
  have "(a + (c + 50) mod m) mod m = (a + (c + 50)) mod m" by (rule mod_add_right_eq)
  then show ?thesis using assms by (simp add: add.assoc)
qed

lemma fair_inv_go:
  assumes "fair_inv st out" and "in_block p = in_block (worker_at st w)"
    and "\<And>r t k. p = Adding r t k \<Longrightarrow> t < SWEEP_MAX \<and> k \<le> 50"
  shows "fair_inv (go w p st) out"
  using assms by (auto simp: fair_inv_def go_def split: if_splits)

lemma fair_inv_turn:
  assumes inv: "fair_inv st out"
  shows "\<exists>st' out'. worker_turn w st = Inr (st', out') \<and> fair_inv st' (out @ out')"
proof (cases "worker_at st w")
  case (Adding r t k)
  have t: "t < SWEEP_MAX" "k \<le> 50" "length (global_counter st) = SWEEP_MAX"
    using inv Adding by (auto simp: fair_inv_def)
  note I = inv[unfolded fair_inv_def]
  show ?thesis
  proof (cases "k < 50")
    case True
    define st' where "st' = go w (Adding r t (k + 1))
      (st\<lparr>global_counter := (global_counter st)[t := (global_counter st ! t + 1) mod 2 ^ 32]\<rparr>)"
    have "worker_turn w st = Inr (st', [Added w t])"
      using Adding True t by (simp add: worker_turn_def st'_def)
    moreover have "fair_inv st' (out @ [Added w t])"
      unfolding fair_inv_def
    proof (intro conjI allI impI)
      fix u assume u: "u < SWEEP_MAX"
      have old: "global_counter st ! u = added_to u out mod 2 ^ 32" using I u by blast
      show "global_counter st' ! u = added_to u (out @ [Added w t]) mod 2 ^ 32"
      proof (cases "u = t")
        case True
        have "(added_to t out mod 2 ^ 32 + 1) mod 2 ^ 32 = (added_to t out + 1) mod 2 ^ 32"
          by (rule mod_add_left_eq)
        then show ?thesis using True t old by (simp add: st'_def go_def)
      next
        case False
        then show ?thesis using old t by (simp add: st'_def go_def)
      qed
    next
      fix v
      have old: "(taken_from v out + count_of st v + in_block (worker_at st v)) mod 2 ^ 32 = added_by v out mod 2 ^ 32"
        using I by blast
      show "(taken_from v (out @ [Added w t]) + count_of st' v + in_block (worker_at st' v)) mod 2 ^ 32 =
          added_by v (out @ [Added w t]) mod 2 ^ 32"
      proof (cases "v = w")
        case True
        then have "(taken_from w out + count_of st w + k) mod 2 ^ 32 = added_by w out mod 2 ^ 32"
          using old Adding by simp
        then have "Suc (taken_from w out + count_of st w + k) mod 2 ^ 32 = Suc (added_by w out) mod 2 ^ 32"
          by (metis mod_Suc_eq)
        then show ?thesis using True by (simp add: st'_def go_def)
      next
        case False
        then show ?thesis using old by (simp add: st'_def go_def)
      qed
    qed (use I t True in \<open>auto simp: st'_def go_def split: if_splits\<close>)
    ultimately show ?thesis by blast
  next
    case False
    then have k: "k = 50" using t(2) by simp
    define st' where "st' = go w (if r then Relaxed else Unrelaxed)
      (st\<lparr>count_of := (count_of st)(w := (count_of st w + 50) mod 2 ^ 32)\<rparr>)"
    have "worker_turn w st = Inr (st', [])"
      using Adding k by (simp add: worker_turn_def st'_def)
    moreover have "fair_inv st' (out @ [])"
      unfolding fair_inv_def
    proof (intro conjI allI impI)
      fix v
      have old: "(taken_from v out + count_of st v + in_block (worker_at st v)) mod 2 ^ 32 = added_by v out mod 2 ^ 32"
        using I by blast
      show "(taken_from v (out @ []) + count_of st' v + in_block (worker_at st' v)) mod 2 ^ 32 =
          added_by v (out @ []) mod 2 ^ 32"
      proof (cases "v = w")
        case True
        then have "(taken_from w out + count_of st w + 50) mod 2 ^ 32 = added_by w out mod 2 ^ 32"
          using old Adding k by simp
        from block_done[OF this] show ?thesis using True by (simp add: st'_def go_def)
      next
        case False
        then show ?thesis using old by (simp add: st'_def go_def)
      qed
    qed (use I in \<open>auto simp: st'_def go_def split: if_splits\<close>)
    ultimately show ?thesis by auto
  qed
next
  case Unrelaxed
  moreover have "sweep_id st < SWEEP_MAX" using inv by (simp add: fair_inv_def)
  ultimately show ?thesis by (auto simp: worker_turn_def intro!: fair_inv_go[OF inv])
next
  case Relaxed
  moreover have "sweep_id st < SWEEP_MAX" using inv by (simp add: fair_inv_def)
  ultimately show ?thesis by (auto simp: worker_turn_def intro!: fair_inv_go[OF inv])
next
  case Returned
  then show ?thesis using inv by (simp add: worker_turn_def)
qed

lemma fair_inv_do:
  assumes "fair_inv st out" and "\<And>s. e = Set_sweep s \<Longrightarrow> s < SWEEP_MAX"
  shows "\<exists>st' out'. fair_do e st = Inr (st', out') \<and> fair_inv st' (out @ out')"
proof (cases e)
  case (Turn w)
  then show ?thesis using fair_inv_turn[OF assms(1)] by simp
next
  case (Take w)
  then show ?thesis using assms(1) by (auto simp: fair_inv_def)
qed (use assms in \<open>auto simp: fair_inv_def\<close>)

text \<open>C15: With every sweep number below SWEEP_MAX the fairness test never faults, under
  every schedule; each word of global_counter holds the number of increments of it, and the
  counts main has taken from a thread, plus the count it can still take and the increments of
  the block it is in, are the increments the thread has made, modulo 2^32: none is lost or
  counted twice.\<close>
theorem fairness_counts:
  assumes "\<forall>s. Set_sweep s \<in> set es \<longrightarrow> s < SWEEP_MAX"
  shows "\<exists>st out. fair_run es fair_init = Inr (st, out) \<and>
    (\<forall>t<SWEEP_MAX. global_counter st ! t = added_to t out mod 2 ^ 32) \<and>
    (\<forall>w. (taken_from w out + count_of st w + in_block (worker_at st w)) mod 2 ^ 32 = added_by w out mod 2 ^ 32)"
proof -
  let ?body = "\<lambda>e (st, out). rbind (fair_do e st) (\<lambda>(st, out'). Inr (st, out @ out'))"
  have "\<exists>st' out'. for_each es ?body (st, out) = Inr (st', out') \<and> fair_inv st' out'"
    if "fair_inv st out" "\<forall>s. Set_sweep s \<in> set es \<longrightarrow> s < SWEEP_MAX" for st out
    using that
  proof (induction es arbitrary: st out)
    case (Cons e es)
    then obtain st1 o1 where "fair_do e st = Inr (st1, o1)" "fair_inv st1 (out @ o1)"
      using fair_inv_do[of st out e] by auto
    then show ?case using Cons.IH[of st1 "out @ o1"] Cons.prems(2) by simp
  qed simp
  moreover have "fair_inv fair_init []"
    by (simp add: fair_inv_def fair_init_def SWEEP_MAX_def)
  ultimately have "\<exists>st' out'. fair_run es fair_init = Inr (st', out') \<and> fair_inv st' out'"
    using assms unfolding fair_run_def by blast
  then show ?thesis unfolding fair_inv_def by blast
qed

text \<open>-s is not compared with SWEEP_MAX: when main sets a sweep number that is too large
  the next block of any thread writes outside global_counter.\<close>
theorem sweep_out_of_bounds:
  assumes "fair_run es fair_init = Inr (st, out)" and "\<forall>s. Set_sweep s \<in> set es \<longrightarrow> s < SWEEP_MAX"
    and "SWEEP_MAX \<le> s" and "worker_at st w = Unrelaxed" and "relaxed st = 0"
  shows "fair_run (es @ [Set_sweep s, Turn w, Turn w]) fair_init = Inl OutOfBounds"
proof -
  let ?body = "\<lambda>e (st, out). rbind (fair_do e st) (\<lambda>(st, out'). Inr (st, out @ out'))"
  have len: "length (global_counter st) = SWEEP_MAX"
  proof -
    have step: "length (global_counter st') = length (global_counter st)"
      if "fair_do e st = Inr (st', out')" for e st st' out'
      using that by (cases e)
        (auto simp: worker_turn_def go_def res_simps arr_set_def split: worker_pc.splits if_splits)
    have "length (global_counter st') = length (global_counter st)"
      if "for_each es ?body (st, out) = Inr (st', out')" for es st out st' out'
      using that
    proof (induction es arbitrary: st out)
      case (Cons e es)
      then obtain st1 o1 where "fair_do e st = Inr (st1, o1)" "for_each es ?body (st1, out @ o1) = Inr (st', out')"
        by (auto simp: res_simps)
      then show ?case using Cons.IH[of st1 "out @ o1"] step[of e st st1 o1] by simp
    qed simp
    from this[OF assms(1)[unfolded fair_run_def]] show ?thesis by (simp add: fair_init_def)
  qed
  have "for_each [Set_sweep s, Turn w, Turn w] ?body (st, out) = Inl OutOfBounds"
    using assms(3-5) len by (simp add: worker_turn_def go_def arr_get_fault)
  then show ?thesis
    using assms(1) by (simp only: fair_run_def for_each_append rbind.simps)
qed

subsection \<open>The start of a worker\<close>

text \<open>\<open>delay_mask & (1u << cpu)\<close>; the shift is undefined from 32 on. The value tells whether it sleeps.\<close>

definition delayed :: "nat \<Rightarrow> nat \<Rightarrow> bool res" where
  "delayed delay_mask cpu =
     (if 32 \<le> cpu then Inl Undefined else Inr (bit delay_mask cpu))"

definition worker_start :: "(nat \<Rightarrow> bool) \<Rightarrow> nat \<Rightarrow> nat \<Rightarrow> bool res" where
  "worker_start setaffinity delay_mask cpu =
     (if \<not> setaffinity cpu then Inl (Exit 1) else delayed delay_mask cpu)"

subsection \<open>Options and threads\<close>

record fair_settings =
  delay_mask :: nat
  sample_size :: nat
  sweep_max :: int
  time_slice :: nat
  sep :: char

text \<open>
  \<open>strtof\<close> and the conversions of its result to \<open>size_t\<close>, as it is and in microseconds, are a
  parameter. \<open>sweep_max\<close> is an \<open>int\<close>; none of the numbers is checked.
\<close>

definition fair_set_option ::
    "(string \<Rightarrow> nat) \<Rightarrow> (string \<Rightarrow> nat) \<Rightarrow> char \<times> string \<Rightarrow> fair_settings \<Rightarrow> fair_settings res" where
  "fair_set_option strtof strtof_us opt s =
     (let (c, optarg) = opt in
      if c = CHR ''d'' then Inr (s\<lparr>delay_mask := fst (strtoull optarg)\<rparr>)
      else if c = CHR ''n'' then Inr (s\<lparr>sample_size := strtof optarg\<rparr>)
      else if c = CHR ''s'' then Inr (s\<lparr>sweep_max := sint (of_nat (fst (strtoull optarg)) :: 32 word)\<rparr>)
      else if c = CHR ''t'' then Inr (s\<lparr>time_slice := strtof_us optarg\<rparr>)
      else if c = CHR ''S'' then Inr (s\<lparr>sep := (case optarg of [] \<Rightarrow> CHR 0x00 | x # _ \<Rightarrow> x)\<rparr>)
      else Inl (Exit 1))"

definition fair_read_options ::
    "(string \<Rightarrow> nat) \<Rightarrow> (string \<Rightarrow> nat) \<Rightarrow> (char \<times> string) list \<Rightarrow> nat \<Rightarrow> fair_settings res" where
  "fair_read_options strtof strtof_us opts operands =
     rbind (for_each opts (fair_set_option strtof strtof_us)
       \<lparr>delay_mask = 0, sample_size = 6, sweep_max = 1, time_slice = 500000, sep = CHR '' ''\<rparr>) (\<lambda>s.
     if operands \<noteq> 0 then Inl (Exit 1) else Inr s)"

definition count_cpus :: "(nat \<Rightarrow> bool) \<Rightarrow> nat" where
  "count_cpus isset = foldl (\<lambda>n i. if isset i then n + 1 else n) 0 [0..<CPU_SETSIZE]"

text \<open>\<open>while (!CPU_ISSET(i, &cpus)) ++i;\<close>, with \<open>k\<close> cpus left to look at; \<open>CPU_ISSET\<close> is false past the set.\<close>

fun next_cpu :: "(nat \<Rightarrow> bool) \<Rightarrow> nat \<Rightarrow> nat \<Rightarrow> nat option" where
  "next_cpu isset 0 i = None"
| "next_cpu isset (Suc k) i = (if isset i then Some i else next_cpu isset k (i + 1))"

text \<open>None when the search for a cpu would run on.\<close>

definition assign_cpus :: "(nat \<Rightarrow> bool) \<Rightarrow> (nat list \<times> nat) option" where
  "assign_cpus isset =
     foldl (\<lambda>st u. case st of None \<Rightarrow> None | Some (cpus, i) \<Rightarrow>
         (case next_cpu isset (CPU_SETSIZE - i) i of None \<Rightarrow> None | Some c \<Rightarrow> Some (cpus @ [c], c + 1)))
       (Some ([], 0)) [0..<count_cpus isset]"

lemma count_cpus_eq: "count_cpus isset = length (filter isset [0..<CPU_SETSIZE])"
proof -
  have "foldl (\<lambda>n i. if isset i then n + 1 else n) a xs = a + length (filter isset xs)" for a xs
    by (induction xs arbitrary: a) auto
  then show ?thesis by (simp add: count_cpus_def)
qed

lemma next_cpu_eq:
  "next_cpu isset k i = (case filter isset [i..<i + k] of [] \<Rightarrow> None | c # _ \<Rightarrow> Some c)"
proof (induction k arbitrary: i)
  case (Suc k)
  have "[i..<i + Suc k] = i # [Suc i..<Suc i + k]" by (simp add: upt_conv_Cons)
  then show ?case using Suc[of "Suc i"] by simp
qed simp

text \<open>Fairness starts one thread on each cpu of its set, in ascending order, and the search
  for the next cpu always ends at one.\<close>
theorem assign_cpus_all:
  "map_option fst (assign_cpus isset) = Some (filter isset [0..<CPU_SETSIZE])"
proof -
  let ?cs = "filter isset [0..<CPU_SETSIZE]"
  let ?f = "\<lambda>st u. case st of None \<Rightarrow> None | Some (cpus, i) \<Rightarrow>
         (case next_cpu isset (CPU_SETSIZE - i) i of None \<Rightarrow> None | Some c \<Rightarrow> Some (cpus @ [c], c + 1))"
  have "\<exists>i\<le>CPU_SETSIZE. foldl ?f (Some ([], 0)) [0..<n] = Some (take n ?cs, i) \<and>
      filter isset [i..<CPU_SETSIZE] = drop n ?cs" if "n \<le> length ?cs" for n
    using that
  proof (induction n)
    case (Suc n)
    then obtain i where i: "i \<le> CPU_SETSIZE" "foldl ?f (Some ([], 0)) [0..<n] = Some (take n ?cs, i)"
      "filter isset [i..<CPU_SETSIZE] = drop n ?cs" by auto
    have n: "n < length ?cs" using Suc.prems by simp
    then have d0: "drop n ?cs = ?cs ! n # drop (Suc n) ?cs" by (rule Cons_nth_drop_Suc[symmetric])
    define c where "c = ?cs ! n"
    have d: "drop n ?cs = c # drop (Suc n) ?cs" using d0 by (simp only: c_def)
    have C: "i \<le> c" "c < CPU_SETSIZE" "isset c"
    proof -
      have "c \<in> set (filter isset [i..<CPU_SETSIZE])" unfolding i(3) d by simp
      then show "i \<le> c" "c < CPU_SETSIZE" "isset c" by auto
    qed
    have nxt: "next_cpu isset (CPU_SETSIZE - i) i = Some c"
      using i(1,3) d by (simp add: next_cpu_eq)
    have split: "[i..<CPU_SETSIZE] = [i..<c] @ c # [Suc c..<CPU_SETSIZE]"
      using C upt_add_eq_append[of i c "CPU_SETSIZE - c"] by (simp add: upt_conv_Cons)
    have "filter isset [i..<c] @ c # filter isset [Suc c..<CPU_SETSIZE] = c # drop (Suc n) ?cs"
      using i(3) d C(3) by (simp add: split)
    moreover have "filter isset [i..<c] = []"
    proof (rule ccontr)
      assume "filter isset [i..<c] \<noteq> []"
      then obtain x xs where x: "filter isset [i..<c] = x # xs" by (cases "filter isset [i..<c]") auto
      then have "x \<in> set (filter isset [i..<c])" by simp
      then have "x < c" by auto
      then show False using x calculation by simp
    qed
    ultimately have "filter isset [Suc c..<CPU_SETSIZE] = drop (Suc n) ?cs" by simp
    moreover have "foldl ?f (Some ([], 0)) [0..<Suc n] = Some (take (Suc n) ?cs, Suc c)"
      using i(2) nxt n by (simp add: take_Suc_conv_app_nth c_def)
    moreover have "Suc c \<le> CPU_SETSIZE" using C(2) by simp
    ultimately show ?case by blast
  qed auto
  from this[of "length ?cs"] show ?thesis by (auto simp: assign_cpus_def count_cpus_eq)
qed

subsection \<open>The samples of main\<close>

record 'd fair_line =
  line_relaxed :: nat
  line_sweep :: nat
  line_values :: "'d list"
  line_avg :: 'd
  line_sdev :: 'd
  line_min :: 'd
  line_max :: 'd

text \<open>\<open>sqrt\<close> is a parameter beside the operations on doubles; the clock is monotonic.\<close>

definition fair_stats ::
    "'d fp_ops \<Rightarrow> ('d \<Rightarrow> 'd) \<Rightarrow> nat \<Rightarrow> nat \<Rightarrow> nat \<Rightarrow> nat list \<Rightarrow> 'd fair_line" where
  "fair_stats fp fsqrt r sweep delta cs =
     (let zero = fp_nat fp 0; n = fp_nat fp (length cs);
          vals = map (\<lambda>c. fp_div fp (fp_nat fp delta) (fp_nat fp c)) cs;
          (mn, mx, sum, sum_squared) =
            foldl (\<lambda>(mn, mx, sum, sum_squared) s.
                (if fp_less fp mn s then mn else s, if fp_less fp s mx then mx else s,
                 fp_add fp sum s, fp_add fp sum_squared (fp_mul fp s s)))
              (fp_inf fp, zero, zero, zero) vals in
      \<lparr>line_relaxed = r, line_sweep = sweep, line_values = vals, line_avg = fp_div fp sum n,
       line_sdev = fsqrt (fp_div fp (fp_sub fp sum_squared (fp_div fp (fp_mul fp sum sum) n))
                     (fp_nat fp (sub64 (length cs) 1))),
       line_min = mn, line_max = mx\<rparr>)"

text \<open>\<open>rounds k\<close> holds the counts taken and the time read in sample \<open>k\<close>.\<close>

definition fair_samples ::
    "'d fp_ops \<Rightarrow> ('d \<Rightarrow> 'd) \<Rightarrow> nat \<Rightarrow> nat \<Rightarrow> nat \<Rightarrow> nat \<Rightarrow> (nat \<Rightarrow> nat list \<times> nat) \<Rightarrow> 'd fair_line list" where
  "fair_samples fp fsqrt n r sweep start rounds =
     snd (foldl (\<lambda>(last_stamp, ls) k.
         let (cs, stamp) = rounds k in
         (stamp, if k = 0 then ls else ls @ [fair_stats fp fsqrt r sweep (sub64 stamp last_stamp) cs]))
       (start, []) [0..<add64 n 1])"

definition fair_main ::
    "'d fp_ops \<Rightarrow> ('d \<Rightarrow> 'd) \<Rightarrow> fair_settings \<Rightarrow> (nat \<Rightarrow> nat \<Rightarrow> nat) \<Rightarrow>
     (nat \<Rightarrow> nat \<Rightarrow> nat \<Rightarrow> nat list \<times> nat) \<Rightarrow> 'd fair_line list" where
  "fair_main fp fsqrt s start rounds =
     concat (map (\<lambda>r. concat (map (\<lambda>sweep.
         fair_samples fp fsqrt (sample_size s) r sweep (start r sweep) (rounds r sweep))
       [0..<nat (sweep_max s)])) [0, 1])"

text \<open>Fairness drops the first sample of every test point and prints sample_size lines
  for each word of the sweep, without and then with the pause instruction; line k reports the
  interval from sample k - 1 to sample k.\<close>
theorem fairness_lines:
  assumes "sample_size s + 1 < W64"
  shows "fair_main fp fsqrt s start rounds =
    concat (map (\<lambda>r. concat (map (\<lambda>sweep.
        map (\<lambda>k. fair_stats fp fsqrt r sweep (sub64 (snd (rounds r sweep k)) (snd (rounds r sweep (k - 1))))
            (fst (rounds r sweep k))) [1..<sample_size s + 1])
      [0..<nat (sweep_max s)])) [0, 1])"
proof -
  have "fair_samples fp fsqrt (sample_size s) r sweep t0 rs =
      map (\<lambda>k. fair_stats fp fsqrt r sweep (sub64 (snd (rs k)) (snd (rs (k - 1)))) (fst (rs k))) [1..<sample_size s + 1]"
    for r sweep t0 rs
  proof -
    let ?f = "\<lambda>(last_stamp, ls) k. let (cs, stamp) = rs k in
         (stamp, if k = 0 then ls else ls @ [fair_stats fp fsqrt r sweep (sub64 stamp last_stamp) cs])"
    have "foldl ?f (t0, []) [0..<Suc n] = (snd (rs n),
        map (\<lambda>k. fair_stats fp fsqrt r sweep (sub64 (snd (rs k)) (snd (rs (k - 1)))) (fst (rs k))) [1..<Suc n])" for n
    proof (induction n)
      case 0
      then show ?case by (simp split: prod.split)
    next
      case (Suc n)
      have "[0..<Suc (Suc n)] = [0..<Suc n] @ [Suc n]" "[1..<Suc (Suc n)] = [1..<Suc n] @ [Suc n]" by simp_all
      then show ?case using Suc by (simp del: upt_Suc split: prod.split)
    qed
    from this[of "sample_size s"] show ?thesis
      using assms by (simp add: fair_samples_def add64_exact del: upt_Suc)
  qed
  then show ?thesis by (simp only: fair_main_def)
qed

subsection \<open>Examples\<close>

theorem fairness_counts_witness:
  "\<exists>st out. fair_run [Turn 3, Turn 3, Set_sweep 7, Take 3] fair_init = Inr (st, out) \<and>
    global_counter st ! 0 = added_to 0 out mod 2 ^ 32 \<and>
    (taken_from 3 out + count_of st 3 + in_block (worker_at st 3)) mod 2 ^ 32 = added_by 3 out mod 2 ^ 32"
proof -
  have "\<forall>s. Set_sweep s \<in> set [Turn 3, Turn 3, Set_sweep 7, Take 3] \<longrightarrow> s < SWEEP_MAX"
    by (simp add: SWEEP_MAX_def)
  from fairness_counts[OF this] show ?thesis by (auto simp: SWEEP_MAX_def)
qed

theorem sweep_out_of_bounds_witness:
  "fair_run ([] @ [Set_sweep 256, Turn 0, Turn 0]) fair_init = Inl OutOfBounds"
  by (rule sweep_out_of_bounds[where st = fair_init and out = "[]"])
    (simp_all add: fair_run_def fair_init_def SWEEP_MAX_def)

theorem fairness_lines_witness:
  "fair_main nat_ops (\<lambda>x. x) \<lparr>delay_mask = 0, sample_size = 1, sweep_max = 1, time_slice = 1, sep = CHR '' ''\<rparr>
      (\<lambda>r w. 0) (\<lambda>r w k. ([2], 10 * k)) =
    concat (map (\<lambda>r. concat (map (\<lambda>sweep.
        map (\<lambda>k. fair_stats nat_ops (\<lambda>x. x) r sweep (sub64 (10 * k) (10 * (k - 1))) [2]) [1..<1 + 1])
      [0..<1])) [0, 1])"
  using fairness_lines[of "\<lparr>delay_mask = 0, sample_size = 1, sweep_max = 1, time_slice = 1, sep = CHR '' ''\<rparr>"
      nat_ops "\<lambda>x. x" "\<lambda>r w. 0" "\<lambda>r w k. ([2], 10 * k)"] by (simp add: W64_def)

end
