(* ===== verification/Multichase_Main.thy ===== *)
theory Multichase_Main
  imports Threads Arena Worker
begin

text \<open>
  \<open>multichase.c\<close> from the accepted options to the start of the measurement, put together as \<open>main\<close>
  does it: the geometry, the mixer, the arena (from \<open>mmap\<close>, \<open>malloc\<close>, libnuma or HIP), the pages of the
  threads and of the cache flush, and every \<open>thread_start\<close> up to the barrier. The last theorem says of
  the whole run what the theories of the parts say of each: every thread finds its chases complete.
\<close>

subsection \<open>The surroundings of the program\<close>

text \<open>
  The kernel, the C library, libnuma and HIP. \<open>malloc_at\<close> and \<open>numa_at\<close> are 0 when they fail, \<open>content\<close>
  is what memory holds that is not a fresh anonymous page.
\<close>

record 'r surroundings =
  os :: kernel_env
  heap :: heap_env
  seed_rng :: "nat \<Rightarrow> 'r option"
  draw :: "'r random_r"
  clz_of_0 :: nat
  getenv :: "string \<Rightarrow> string option"
  malloc_at :: "nat \<Rightarrow> nat"
  numa_at :: "nat \<Rightarrow> int \<Rightarrow> nat"
  hip_alloc :: "nat \<Rightarrow> string \<Rightarrow> nat \<Rightarrow> nat option"
  hip_peer_ok :: bool
  hip_register_ok :: "nat \<Rightarrow> nat \<Rightarrow> bool"
  content :: "nat \<Rightarrow> 8 word"
  affinity_cpus :: "(nat \<Rightarrow> bool) option"
  affinity_set :: "nat \<Rightarrow> bool"

subsection \<open>The arena\<close>

text \<open>\<open>CHECK_HIP\<close> and \<open>CHECK\<close> abort; the result of \<open>malloc\<close> is not looked at.\<close>

definition alloc_gpu :: "'r surroundings \<Rightarrow> string \<Rightarrow> nat \<Rightarrow> nat res" where
  "alloc_gpu e s n =
     (let hip = (\<lambda>device f. case hip_alloc e device f n of None \<Rightarrow> Inl AssertFail | Some p \<Rightarrow> Inr p) in
      if s = ''malloc'' then Inr (malloc_at e n)
      else if s = ''hipMalloc'' then hip 0 ''hipMalloc''
      else if s = ''remote'' then (if hip_peer_ok e then hip 1 ''hipMalloc'' else Inl AssertFail)
      else if s = ''hipHostMalloc'' then hip 0 ''hipHostMalloc''
      else if s = ''hipMallocManaged'' then hip 0 ''hipMallocManaged''
      else if s = ''malloc+register'' then
        (let p = malloc_at e n in if hip_register_ok e p n then Inr p else Inl AssertFail)
      else Inl AssertFail)"

text \<open>The block a successful allocation adds to the memory.\<close>

definition map_block :: "(nat \<Rightarrow> 8 word) \<Rightarrow> mem \<Rightarrow> nat \<Rightarrow> nat \<Rightarrow> mem" where
  "map_block c m a len = (if a = 0 then m else (\<lambda>x. if a \<le> x \<and> x < a + len then Some (c x) else m x))"

text \<open>The mappings of a run are numbered: 0 is the arena, 1 the structures of the threads, 2 the flush pages, and from 3
  on the buffers of the load threads of multiload.\<close>

definition arena_mapping ::
    "'r surroundings \<Rightarrow> settings \<Rightarrow> nat \<Rightarrow> arena_request \<Rightarrow> (nat \<times> nat \<times> (nat \<times> nat) list) res" where
  "arena_mapping e s call rq =
     rbind (alloc_arena_mmap (os e) call (heap e) (seed_rng e) (draw e)
             (if is_weighted_mbind s then Some (mbind_weights s) else None) rq)
       (\<lambda>(a, len, _, binds). Inr (a, len, binds))"

text \<open>Fresh anonymous pages are zero, so that touching them changes nothing.\<close>

definition arena_pages ::
    "'r surroundings \<Rightarrow> settings \<Rightarrow> nat \<Rightarrow> arena_request \<Rightarrow> (nat \<times> nat) res" where
  "arena_pages e s call rq = rbind (arena_mapping e s call rq) (\<lambda>(a, len, _). Inr (a, len))"

definition place_arena :: "'r surroundings \<Rightarrow> settings \<Rightarrow> mem \<Rightarrow> (nat \<times> mem) res" where
  "place_arena e s m =
     (let n = add64 (mem_size s) (offset s) in
      case getenv e ''ALLOC'' of
        Some alloc_string \<Rightarrow>
          rbind (alloc_gpu e alloc_string n) (\<lambda>p. Inr (add64 p (offset s), map_block (content e) m p n))
      | None \<Rightarrow>
      (case getenv e ''NUMA_ALLOC'' of
        Some numa_string \<Rightarrow>
          (let p = numa_at e n (atoi numa_string) in
           Inr (add64 p (offset s), map_block (content e) m p n))
      | None \<Rightarrow>
        if use_malloc s then
          (let p = malloc_at e n; a = add64 p (offset s) in
           if a = 0 then Inl (Exit 1) else Inr (a, map_block (content e) m p n))
        else
          rbind (arena_mapping e s 0
                   \<lparr>req_page_size = page_size s, req_thp = use_thp s, req_size = n, req_fd = fd s\<rparr>)
            (\<lambda>(p, len, binds). Inr (add64 p (offset s),
               if fd s = -1 then map_pages m p len else touch_pages binds (map_block (content e) m p len)))))"

subsection \<open>Pages of the threads and of the cache flush\<close>

definition AVOID_FALSE_SHARING :: nat where
  "AVOID_FALSE_SHARING = 1024"

definition default_pages :: "'r surroundings \<Rightarrow> settings \<Rightarrow> nat \<Rightarrow> nat \<Rightarrow> (nat \<times> nat) res" where
  "default_pages e s call n =
     rbind (get_native_page_size (os e)) (\<lambda>native.
     arena_pages e s call \<lparr>req_page_size = native, req_thp = False, req_size = n, req_fd = -1\<rparr>)"

definition place_flush :: "'r surroundings \<Rightarrow> settings \<Rightarrow> mem \<Rightarrow> (nat \<times> mem) res" where
  "place_flush e s m =
     (if cache_flush_size s = 0 then Inr (0, m)
      else rbind (default_pages e s 2 (cache_flush_size s)) (\<lambda>(a, len).
        rbind (write_bytes (map_pages m a len) a (replicate (cache_flush_size s) 1)) (\<lambda>m. Inr (a, m))))"

subsection \<open>The threads up to the barrier\<close>

definition fresh_thread :: "settings \<Rightarrow> per_thread" where
  "fresh_thread s =
     \<lparr>thread_count = 0, cycle = replicate MAX_PARALLEL 0,
      extra_arg = (case extra_args s of None \<Rightarrow> [] | Some x \<Rightarrow> x), dummy = 0, branch_chunk_size = 0\<rparr>"

definition thread_start ::
    "arch \<Rightarrow> (nat \<Rightarrow> nat \<Rightarrow> nat) \<Rightarrow> 'r surroundings \<Rightarrow> settings \<Rightarrow> 'r chase_args \<Rightarrow> nat \<Rightarrow> nat \<Rightarrow>
     per_thread \<Rightarrow> mem \<Rightarrow> (per_thread \<times> mem) res option" where
  "thread_start a lround_log2 e s args flush thread_num t m =
     obind (Some (rng_init (heap e) (seed_rng e) thread_num)) (\<lambda>r.
     obind (Some (if set_thread_affinity s then set_affinity (affinity_cpus e) (affinity_set e) thread_num
                  else Inr 0)) (\<lambda>_.
     obind (Some (thread_cycles (heap e) args (use_longer_chase s) (parallelism (chase s)) (nr_threads s)
              thread_num (cycle t) m r)) (\<lambda>(c, m, _).
     obind (adapt_chase a lround_log2 (chase s) (t\<lparr>cycle := c\<rparr>) m) (\<lambda>(t, m).
     obind (Some (flush_caches (cache_flush_size s) flush m t)) (\<lambda>t. Some (Inr (t, m)))))))"

text \<open>The threads run up to the barrier one after the other, in the order of the list.\<close>

primrec start_all ::
    "(nat \<Rightarrow> 't \<Rightarrow> mem \<Rightarrow> ('t \<times> mem) res option) \<Rightarrow> nat list \<Rightarrow> (nat \<Rightarrow> 't) \<Rightarrow> mem \<Rightarrow>
     ((nat \<Rightarrow> 't) \<times> mem) res option" where
  "start_all start [] ts m = Some (Inr (ts, m))"
| "start_all start (i # is) ts m =
     obind (start i (ts i) m) (\<lambda>(t, m). start_all start is (ts(i := t)) m)"

subsection \<open>main\<close>

definition args_of :: "'r surroundings \<Rightarrow> settings \<Rightarrow> nat \<Rightarrow> 'r chase_args" where
  "args_of e s nmi =
     \<lparr>arena = 0, total_memory = mem_size s, stride = elt_stride s, tlb_locality = tlb_size s, nr_mixers = 0,
      gen_permutation = (if ordered_chase s then gen_ordered_permutation else gen_random_permutation (draw e)),
      nr_mixer_indices = nmi, mixer = []\<rparr>"

definition multichase_setup ::
    "arch \<Rightarrow> (nat \<Rightarrow> nat \<Rightarrow> nat) \<Rightarrow> 'r surroundings \<Rightarrow> nat list \<Rightarrow> settings \<Rightarrow> mem \<Rightarrow>
     ('r chase_args \<times> (nat \<Rightarrow> per_thread) \<times> mem) res option" where
  "multichase_setup a lround_log2 e order s m =
     obind (Some (settle_geometry s)) (\<lambda>(s, nmi).
     obind (Some (rng_init (heap e) (seed_rng e) 1)) (\<lambda>r.
     obind (Some (generate_chase_mixer (heap e) (clz_of_0 e) (args_of e s nmi)
              (mul64 (nr_threads s) (parallelism (chase s))) r)) (\<lambda>(args, _).
     obind (Some (place_arena e s m)) (\<lambda>(p, m).
     obind (Some (default_pages e s 1 (mul64 (nr_threads s) AVOID_FALSE_SHARING))) (\<lambda>_.
     obind (Some (place_flush e s m)) (\<lambda>(flush, m).
     let args = args\<lparr>arena := p\<rparr> in
     obind (start_all (thread_start a lround_log2 e s args flush) order (\<lambda>_. fresh_thread s) m) (\<lambda>(ts, m).
     obind (Some (if name (chase s) = ''branch''
                  then make_buffer_executable (os e) (arena args) (total_memory args) else Inr ())) (\<lambda>_.
     Some (Inr (args, ts, m))))))))))"

subsection \<open>One thread\<close>

text \<open>The chases that \<open>adapt_chase\<close> leaves as they are.\<close>

definition plain_chase :: "chase_t \<Rightarrow> bool" where
  "plain_chase ch \<longleftrightarrow> name ch \<notin> {''critword2'', ''critword'', ''branch''}"

lemma adapt_plain: "plain_chase ch \<Longrightarrow> adapt_chase a lround ch t m = Some (Inr (t, m))"
  by (simp add: adapt_chase_def plain_chase_def Let_def)

definition flushable :: "nat \<Rightarrow> nat \<Rightarrow> mem \<Rightarrow> bool" where
  "flushable bytes base m \<longleftrightarrow> (\<forall>i. i + 8 \<le> bytes \<longrightarrow> mapped m (base + i) 8)"

lemma flush_sums:
  assumes "flushable bytes base m"
  shows "\<exists>d. flush_caches bytes base m t = Inr (t\<lparr>dummy := d\<rparr>)"
proof -
  have "\<exists>v. load64 m (base + 8 * i) = Inr v" if "i < bytes div 8" for i
  proof -
    have "8 * i + 8 \<le> bytes" using that by linarith
    then have "mapped m (base + 8 * i) 8" using assms by (simp add: flushable_def)
    then show ?thesis using mapped_load by blast
  qed
  then have "wp (\<lambda>_. False) (\<lambda>_. True)
      (for_range (bytes div 8) (\<lambda>i sum. rbind (load64 m (base + 8 * i)) (\<lambda>v. Inr (add64 sum v))) 0)"
    by (intro wp_for_rangeI[where I = "\<lambda>_ _. True"]) (fastforce simp: wp_total)+
  then show ?thesis by (auto simp: flush_caches_def wp_total intro: exI[of _ "dummy t"])
qed

definition affinity_ok :: "'r surroundings \<Rightarrow> settings \<Rightarrow> bool" where
  "affinity_ok e s \<longleftrightarrow> (set_thread_affinity s \<longrightarrow>
     (\<exists>cpus. affinity_cpus e = Some cpus \<and> nr_threads s \<le> length (filter cpus [0..<CPU_SETSIZE])) \<and>
     (\<forall>c. affinity_set e c))"

lemma affinity_found:
  assumes "affinity_ok e s" and "t < nr_threads s"
  shows "\<exists>c. (if set_thread_affinity s then set_affinity (affinity_cpus e) (affinity_set e) t else Inr 0) = Inr c"
proof (cases "set_thread_affinity s")
  case True
  then obtain cpus where cpus: "affinity_cpus e = Some cpus" "nr_threads s \<le> length (filter cpus [0..<CPU_SETSIZE])"
    "\<And>c. affinity_set e c"
    using assms(1) by (auto simp: affinity_ok_def)
  have "t < length (filter cpus [0..<CPU_SETSIZE])" using cpus(2) assms(2) by linarith
  moreover from nth_mem[OF this] have "filter cpus [0..<CPU_SETSIZE] ! t < CPU_SETSIZE" by simp
  ultimately show ?thesis using cpus True by (simp add: set_affinity_def cpu_loop_nth Let_def)
qed simp

context perm_generator
begin

lemma thread_start_ready:
  assumes gen: "gen_permutation args = gen" and geo: "chase_geometry args"
    and par: "parallelism (chase s) = par" "nr_threads s = n"
    and tp: "par * n \<le> nr_mixer_indices args" "par * n < 2 ^ 32" and t: "t < n"
    and D: "D \<subseteq> {..<par * n}" "thread_indices par t \<inter> D = {}"
    and inv: "chases_done args (use_longer_chase s) (par * n) D m" and cyc: "par \<le> length (cycle th)"
    and malloc: "malloc_serves (heap e) (max 48 (total_memory args))"
    and seed: "\<exists>r. seed_rng e t = Some r \<and> ok r"
    and rest: "affinity_ok e s" "plain_chase (chase s)" "flushable (cache_flush_size s) flush m"
  shows "\<exists>th' m'. thread_start a lround e s args flush t th m = Some (Inr (th', m')) \<and>
    (\<forall>p<par. cycle th' ! p = cell_addr args (first_row args (use_longer_chase s) (par * n) (par * t + p)) 0) \<and>
    (\<forall>a. mapped m' a 8 = mapped m a 8) \<and>
    chases_done args (use_longer_chase s) (par * n) (D \<union> thread_indices par t) m'"
proof -
  obtain r where r: "seed_rng e t = Some r" "ok r" using seed by blast
  have serves: "malloc_serves (heap e) (total_memory args)"
    and heap: "malloc_ok (heap e) 48" "malloc_ok (heap e) RNG_BUF_SIZE"
    using malloc by (simp_all add: malloc_serves_def RNG_BUF_SIZE_def)
  obtain c where c: "(if set_thread_affinity s then set_affinity (affinity_cpus e) (affinity_set e) t else Inr 0) = Inr c"
    using affinity_found[OF rest(1)] t par(2) by blast
  obtain cy m' r' where cy: "thread_cycles (heap e) args (use_longer_chase s) par n t (cycle th) m r = Inr (cy, m', r')"
    "\<forall>p<par. cy ! p = cell_addr args (first_row args (use_longer_chase s) (par * n) (par * t + p)) 0"
    "\<forall>a. mapped m' a 8 = mapped m a 8"
    "chases_done args (use_longer_chase s) (par * n) (D \<union> thread_indices par t) m'"
    using wp_thread_cycles[OF gen geo tp t D inv cyc serves, of r] r(2)
    by (cases "thread_cycles (heap e) args (use_longer_chase s) par n t (cycle th) m r") auto
  have "flushable (cache_flush_size s) flush m'" using rest(3) cy(3) by (simp add: flushable_def)
  from flush_sums[OF this] obtain d where
    "flush_caches (cache_flush_size s) flush m' (th\<lparr>cycle := cy\<rparr>) = Inr (th\<lparr>cycle := cy, dummy := d\<rparr>)" by auto
  then have "thread_start a lround e s args flush t th m = Some (Inr (th\<lparr>cycle := cy, dummy := d\<rparr>, m'))"
    using r heap c cy(1) par adapt_plain[OF rest(2)] by (simp add: thread_start_def rng_init_def)
  then show ?thesis using cy by auto
qed

lemma start_all_ready:
  assumes gen: "gen_permutation args = gen" and geo: "chase_geometry args"
    and par: "parallelism (chase s) = par" "nr_threads s = n"
    and tp: "par * n \<le> nr_mixer_indices args" "par * n < 2 ^ 32"
    and malloc: "malloc_serves (heap e) (max 48 (total_memory args))"
    and seed: "\<And>t. \<exists>r. seed_rng e t = Some r \<and> ok r"
    and rest: "affinity_ok e s" "plain_chase (chase s)"
    and order: "distinct order" "set order \<subseteq> {..<n}"
    and D: "D \<subseteq> {..<par * n}" "\<forall>t\<in>set order. thread_indices par t \<inter> D = {}"
    and inv: "chases_done args (use_longer_chase s) (par * n) D m"
    and cyc: "\<forall>t\<in>set order. par \<le> length (cycle (ts t))"
    and flush: "flushable (cache_flush_size s) flush m"
  shows "\<exists>ts' m'. start_all (thread_start a lround e s args flush) order ts m = Some (Inr (ts', m')) \<and>
    (\<forall>t. t \<notin> set order \<longrightarrow> ts' t = ts t) \<and>
    (\<forall>t\<in>set order. \<forall>p<par.
       cycle (ts' t) ! p = cell_addr args (first_row args (use_longer_chase s) (par * n) (par * t + p)) 0) \<and>
    chases_done args (use_longer_chase s) (par * n) (D \<union> \<Union>(thread_indices par ` set order)) m'"
  using order D inv cyc flush
proof (induction order arbitrary: D ts m)
  case (Cons t order)
  have t: "t < n" and fresh: "t \<notin> set order" using Cons.prems(1,2) by auto
  obtain th' m1 where th: "thread_start a lround e s args flush t (ts t) m = Some (Inr (th', m1))"
    "\<forall>p<par. cycle th' ! p = cell_addr args (first_row args (use_longer_chase s) (par * n) (par * t + p)) 0"
    "\<forall>a. mapped m1 a 8 = mapped m a 8"
    "chases_done args (use_longer_chase s) (par * n) (D \<union> thread_indices par t) m1"
    using thread_start_ready[OF gen geo par tp t Cons.prems(3) _ Cons.prems(5) _ malloc seed rest Cons.prems(7),
        where th = "ts t" and a = a and lround = lround] Cons.prems(4,6) by auto
  have disj: "\<forall>u\<in>set order. thread_indices par u \<inter> (D \<union> thread_indices par t) = {}"
  proof
    fix u assume u: "u \<in> set order"
    then have "u \<noteq> t" using fresh by blast
    then show "thread_indices par u \<inter> (D \<union> thread_indices par t) = {}"
      using thread_indices_disjoint[of u t par] u Cons.prems(4) by (simp add: Int_Un_distrib)
  qed
  have sub: "D \<union> thread_indices par t \<subseteq> {..<par * n}"
    using Cons.prems(3) thread_indices_sub[OF t] by auto
  have fl: "flushable (cache_flush_size s) flush m1" using Cons.prems(7) th(3) by (simp add: flushable_def)
  have cy: "\<forall>u\<in>set order. par \<le> length (cycle ((ts(t := th')) u))" using Cons.prems(6) fresh by auto
  have "distinct order" "set order \<subseteq> {..<n}" using Cons.prems(1,2) by auto
  from Cons.IH[OF this sub disj th(4) cy fl] obtain ts' m' where T:
    "start_all (thread_start a lround e s args flush) order (ts(t := th')) m1 = Some (Inr (ts', m'))"
    "\<forall>u. u \<notin> set order \<longrightarrow> ts' u = (ts(t := th')) u"
    "\<forall>u\<in>set order. \<forall>p<par.
       cycle (ts' u) ! p = cell_addr args (first_row args (use_longer_chase s) (par * n) (par * u + p)) 0"
    "chases_done args (use_longer_chase s) (par * n)
       (D \<union> thread_indices par t \<union> \<Union>(thread_indices par ` set order)) m'"
    by blast
  have "ts' t = th'" using T(2) fresh by simp
  then show ?case using T th(1,2) by (auto simp: Un_assoc)
qed simp

end

subsection \<open>The whole set-up\<close>

text \<open>The arena is anonymous memory: neither the environment variables nor -M or -f ask for another one.\<close>

definition anonymous_arena :: "'r surroundings \<Rightarrow> settings \<Rightarrow> bool" where
  "anonymous_arena e s \<longleftrightarrow>
     getenv e ''ALLOC'' = None \<and> getenv e ''NUMA_ALLOC'' = None \<and> \<not> use_malloc s \<and> fd s = -1"

text \<open>Enough memory and processors: the heap serves the mixer, and every thread has a generator and a cpu.\<close>

definition resources :: "'r surroundings \<Rightarrow> nat \<Rightarrow> settings \<Rightarrow> bool" where
  "resources e total_par s \<longleftrightarrow>
     malloc_serves (heap e) (max (mem_size s) (elt_stride s * (2 * max total_par 64))) \<and>
     (\<forall>t. \<exists>r. seed_rng e t = Some r \<and> rng_ok (draw e) r) \<and>
     58 \<le> clz_of_0 e \<and> clz_of_0 e \<le> 64 \<and> affinity_ok e s"

text \<open>
  The calls of \<open>alloc_arena_mmap\<close> that succeed (otherwise the program exits): the arena is at \<open>a\<close> and the flush
  pages at \<open>f\<close>. Live mappings do not overlap, and a size that wraps when it is rounded to pages is left out.
\<close>

definition arena_granted :: "'r surroundings \<Rightarrow> settings \<Rightarrow> nat \<Rightarrow> nat \<Rightarrow> bool" where
  "arena_granted e s a len \<longleftrightarrow>
     arena_pages e s 0 \<lparr>req_page_size = page_size s, req_thp = use_thp s, req_size = mem_size s + offset s, req_fd = -1\<rparr>
       = Inr (a, len) \<and>
     0 < mem_size s \<and> mem_size s + offset s + page_size s \<le> 2 ^ 64 \<and> a + len < W64"

definition flush_granted :: "'r surroundings \<Rightarrow> settings \<Rightarrow> nat \<Rightarrow> nat \<Rightarrow> bool" where
  "flush_granted e s f flen \<longleftrightarrow>
     (\<exists>pages. default_pages e s 1 (nr_threads s * AVOID_FALSE_SHARING) = Inr pages) \<and>
     (0 < cache_flush_size s \<longrightarrow>
        default_pages e s 2 (cache_flush_size s) = Inr (f, flen) \<and>
        int (cache_flush_size s) + page_size_conf (os e) \<le> 2 ^ 64)"

definition beside :: "nat \<Rightarrow> nat \<Rightarrow> nat \<Rightarrow> nat \<Rightarrow> bool" where
  "beside a m b n \<longleftrightarrow> a + m \<le> b \<or> b + n \<le> a"

definition pages_granted :: "'r surroundings \<Rightarrow> settings \<Rightarrow> nat \<Rightarrow> nat \<Rightarrow> nat \<Rightarrow> nat \<Rightarrow> bool" where
  "pages_granted e s a len f flen \<longleftrightarrow>
     arena_granted e s a len \<and> flush_granted e s f flen \<and> (0 < cache_flush_size s \<longrightarrow> beside f flen a len)"

lemma arena_pages_cover:
  assumes "arena_pages e s call rq = Inr (a, len)" and "req_fd rq = -1" and "0 < req_size rq"
    and "req_size rq + req_page_size rq \<le> 2 ^ 64"
  shows "req_size rq \<le> len" and "len = round_to_page (req_page_size rq) (req_size rq)"
proof -
  obtain writes binds where "alloc_arena_mmap (os e) call (heap e) (seed_rng e) (draw e)
      (if is_weighted_mbind s then Some (mbind_weights s) else None) rq = Inr (a, len, writes, binds)"
    using assms(1) by (auto simp: arena_pages_def arena_mapping_def rbind_Inr)
  from alloc_arena_length[OF this assms(2-4)]
  show "req_size rq \<le> len" "len = round_to_page (req_page_size rq) (req_size rq)" by auto
qed

lemma arena_granted_cover:
  assumes "arena_granted e s a len"
  shows "mem_size s + offset s \<le> len" and "add64 (mem_size s) (offset s) = mem_size s + offset s"
    and "add64 a (offset s) = a + offset s"
proof -
  let ?rq = "\<lparr>req_page_size = page_size s, req_thp = use_thp s, req_size = mem_size s + offset s, req_fd = -1\<rparr>"
  have G: "arena_pages e s 0 ?rq = Inr (a, len)" "0 < mem_size s" "mem_size s + offset s + page_size s \<le> 2 ^ 64" "a + len < W64"
    using assms by (simp_all add: arena_granted_def)
  from arena_pages_cover(1)[OF G(1)] G(2,3) show fits: "mem_size s + offset s \<le> len" by simp
  then show "add64 (mem_size s) (offset s) = mem_size s + offset s" "add64 a (offset s) = a + offset s"
    using G(4) by (intro add64_exact; linarith)+
qed

lemma place_arena_mmap:
  assumes "anonymous_arena e s" and "arena_granted e s a len"
  shows "place_arena e s m = Inr (a + offset s, map_pages m a len)"
proof -
  obtain binds where "arena_mapping e s 0
      \<lparr>req_page_size = page_size s, req_thp = use_thp s, req_size = mem_size s + offset s, req_fd = -1\<rparr> = Inr (a, len, binds)"
    using assms(2) by (auto simp: arena_granted_def arena_pages_def rbind_Inr)
  then show ?thesis
    using assms(1) arena_granted_cover(2,3)[OF assms(2)] by (simp add: place_arena_def anonymous_arena_def Let_def)
qed


text \<open>The flush pages: outside them memory is as before, and a thread can read all of them.\<close>

lemma place_flush_mmap:
  assumes "flush_granted e s f flen"
  defines "flush \<equiv> (if cache_flush_size s = 0 then 0 else f)"
  shows "\<exists>m'. place_flush e s m = Inr (flush, m') \<and> flushable (cache_flush_size s) flush m' \<and>
    (\<forall>x. cache_flush_size s = 0 \<or> x < f \<or> f + flen \<le> x \<longrightarrow> m' x = m x)"
    and "0 < cache_flush_size s \<Longrightarrow> cache_flush_size s \<le> flen"
proof -
  let ?n = "cache_flush_size s"
  show fits: "?n \<le> flen" if "0 < ?n"
  proof -
    have G: "default_pages e s 2 ?n = Inr (f, flen)" "int ?n + page_size_conf (os e) \<le> 2 ^ 64"
      using assms(1) that by (simp_all add: flush_granted_def)
    then obtain native where "get_native_page_size (os e) = Inr native" and pages: "arena_pages e s 2
        \<lparr>req_page_size = native, req_thp = False, req_size = ?n, req_fd = -1\<rparr> = Inr (f, flen)"
      by (auto simp: default_pages_def rbind_Inr)
    then have "?n + native \<le> 2 ^ 64" using G(2) by (auto simp: get_native_page_size_def Let_def split: if_splits)
    then show ?thesis using arena_pages_cover(1)[OF pages] that by simp
  qed
  show "\<exists>m'. place_flush e s m = Inr (flush, m') \<and> flushable ?n flush m' \<and>
    (\<forall>x. ?n = 0 \<or> x < f \<or> f + flen \<le> x \<longrightarrow> m' x = m x)"
  proof (cases "?n = 0")
    case True
    then show ?thesis by (auto simp: place_flush_def flushable_def flush_def)
  next
    case False
    have P: "default_pages e s 2 ?n = Inr (f, flen)" "?n \<le> flen" using assms(1) False fits by (simp_all add: flush_granted_def)
    let ?m1 = "map_pages m f flen" and ?ones = "replicate ?n (1 :: 8 word)"
    have mapped: "mapped ?m1 f ?n" using P(2) by (intro mapped_map_pages) auto
    then have "place_flush e s m = Inr (f, put_bytes ?m1 f ?ones)"
      using False P(1) by (simp add: place_flush_def write_bytes_eq)
    moreover have "mapped (put_bytes ?m1 f ?ones) f ?n"
      using mapped by (rule mapped_put_bytes)
    then have "flushable ?n f (put_bytes ?m1 f ?ones)"
      by (auto simp: flushable_def intro: mapped_sub)
    ultimately show ?thesis using P(2) False by (auto simp: put_bytes_def map_pages_def flush_def)
  qed
qed

text \<open>The flush pages leave the fresh pages of the arena as they are.\<close>

lemma flush_beside_arena:
  assumes "pages_granted e s a len f flen"
  defines "flush \<equiv> (if cache_flush_size s = 0 then 0 else f)"
  shows "\<exists>m2. place_flush e s (map_pages m a len) = Inr (flush, m2) \<and>
    flushable (cache_flush_size s) flush m2 \<and> a + offset s + mem_size s < W64 \<and>
    (\<forall>x. a + offset s \<le> x \<and> x < a + offset s + mem_size s \<longrightarrow> m2 x = Some 0)"
proof -
  let ?m1 = "map_pages m a len"
  have G: "arena_granted e s a len" "flush_granted e s f flen" "cache_flush_size s = 0 \<or> beside f flen a len"
    using assms(1) by (auto simp: pages_granted_def)
  note fits = arena_granted_cover(1)[OF G(1)]
  obtain m2 where flush: "place_flush e s ?m1 = Inr (flush, m2)" "flushable (cache_flush_size s) flush m2"
    "\<And>x. cache_flush_size s = 0 \<or> x < f \<or> f + flen \<le> x \<Longrightarrow> m2 x = ?m1 x"
    using place_flush_mmap(1)[OF G(2), of ?m1] unfolding flush_def by blast
  have "m2 x = Some 0" if x: "a + offset s \<le> x" "x < a + offset s + mem_size s" for x
  proof -
    have "a \<le> x" "x < a + len" using x fits by linarith+
    moreover from this have "m2 x = ?m1 x"
      using G(3) by (intro flush(3)) (auto simp: beside_def)
    ultimately show ?thesis by (simp add: map_pages_def)
  qed
  moreover have "a + offset s + mem_size s < W64"
    using G(1) fits by (simp add: arena_granted_def)
  ultimately show ?thesis using flush(1,2) by blast
qed

lemma load_zero_page:
  assumes "\<forall>x. a \<le> x \<and> x < a + 8 \<longrightarrow> m x = Some 0"
  shows "load64 m a = Inr 0"
proof -
  have z: "m (a + i) = Some 0" if "i < 8" for i using assms that by simp
  then have "mapped m a 8" by (simp add: mapped_def)
  moreover have "map (\<lambda>i. the (m (a + i))) [0..<8] = replicate 8 0"
    by (rule nth_equalityI) (use z in \<open>simp_all del: upt_Suc\<close>)
  ultimately show ?thesis by (simp add: load64_def read_bytes_eq numeral_eq_Suc)
qed

lemma arena_ready:
  assumes anon: "anonymous_arena e s" and granted: "pages_granted e s a len f flen"
  shows "\<exists>p m1 flush m2. place_arena e s m = Inr (p, m1) \<and> place_flush e s m1 = Inr (flush, m2) \<and>
    p + mem_size s < W64 \<and> flushable (cache_flush_size s) flush m2 \<and>
    (\<forall>x. p \<le> x \<and> x < p + mem_size s \<longrightarrow> m2 x = Some 0)"
proof -
  have "arena_granted e s a len" using granted by (simp add: pages_granted_def)
  from place_arena_mmap[OF anon this] show ?thesis using flush_beside_arena[OF granted, of m] by blast
qed

lemma args_of_fields:
  "nr_mixer_indices (args_of e s nmi) = nmi" "total_memory (args_of e s nmi) = mem_size s"
  "stride (args_of e s nmi) = elt_stride s" "tlb_locality (args_of e s nmi) = tlb_size s"
  by (simp_all add: args_of_def)

text \<open>A zeroed arena is a state without any chase.\<close>

lemma zeroed_arena:
  assumes geo: "chase_geometry args" and tp: "total_par \<le> nr_mixer_indices args"
    and fresh: "\<forall>x. arena args \<le> x \<and> x < arena args + total_memory args \<longrightarrow> m x = Some 0"
  shows "chases_done args longer total_par {} m"
proof -
  have "mapped m (arena args) (total_memory args)" using fresh by (simp add: mapped_def)
  moreover have "load64 m x = Inr 0"
    if i: "i < total_par" "x \<in> row_cells args (chase_rows args longer total_par i)" for i x
  proof -
    obtain r y where y: "x = cell_addr args r y" "r \<in> chase_rows args longer total_par i" "y < nr_elements args"
      using i(2) by (auto simp: row_cells_def)
    have "r < nr_mixer_indices args" using chase_rows_bound[OF i(1) tp y(2)] .
    from cell_addr_lt(1)[OF geo this y(3)] cell_addr_bounds(1)[OF geo this, of y]
    have "arena args \<le> x" "x + 8 \<le> arena args + total_memory args" unfolding y(1) by linarith+
    then show ?thesis using fresh by (intro load_zero_page) auto
  qed
  ultimately show ?thesis by (auto simp: chases_done_def)
qed

definition geometry_settled :: "settings \<Rightarrow> nat \<Rightarrow> bool" where
  "geometry_settled s nmi \<longleftrightarrow>
     0 < elt_stride s \<and> elt_stride s dvd tlb_size s \<and> tlb_size s dvd mem_size s \<and> 0 < mem_size s \<and>
     8 \<le> elt_stride s div nmi"

lemma table_size:
  assumes "geometry_settled s nmi" and "c < 2 * max total_par 64"
  shows "nmi * c * 8 \<le> elt_stride s * (2 * max total_par 64)"
    and "128 \<le> elt_stride s * (2 * max total_par 64)"
proof -
  have "nmi * 8 \<le> nmi * (elt_stride s div nmi)"
    using assms(1) by (intro mult_le_mono2) (simp add: geometry_settled_def)
  also have "\<dots> \<le> elt_stride s" by simp
  finally have "nmi * 8 * c \<le> elt_stride s * (2 * max total_par 64)"
    using assms(2) by (intro mult_le_mono) auto
  then show "nmi * c * 8 \<le> elt_stride s * (2 * max total_par 64)" by (simp add: mult_ac)
  have "1 * (2 * 64) \<le> elt_stride s * (2 * max total_par 64)"
    using assms(1) by (intro mult_le_mono) (auto simp: geometry_settled_def)
  then show "128 \<le> elt_stride s * (2 * max total_par 64)" by simp
qed

text \<open>Pages for the structures of the threads.\<close>

lemma thread_pages_ready:
  assumes "flush_granted e s f flen" and "nr_threads s \<le> 2 ^ 30"
  shows "\<exists>pages. default_pages e s 1 (mul64 (nr_threads s) AVOID_FALSE_SHARING) = Inr pages"
proof -
  have "mul64 (nr_threads s) AVOID_FALSE_SHARING = nr_threads s * AVOID_FALSE_SHARING"
    using assms(2) by (intro mul64_exact) (simp add: W64_def AVOID_FALSE_SHARING_def)
  then show ?thesis using assms(1) by (auto simp: flush_granted_def)
qed

context perm_generator
begin

lemma mixer_ready:
  assumes gen: "gen_permutation (args_of e s nmi) = gen" and geo: "geometry_settled s nmi"
    and tp: "0 < total_par" "total_par \<le> 2 ^ 30" and size: "elt_stride s * (2 * max total_par 64) < W64"
    and res: "resources e total_par s" and ok: "\<And>r. rng_ok (draw e) r \<Longrightarrow> ok r"
  shows "\<exists>r args r' c. rng_init (heap e) (seed_rng e) 1 = Inr r \<and>
    generate_chase_mixer (heap e) (clz_of_0 e) (args_of e s nmi) total_par r = Inr (args, r') \<and>
    mixer_ok args \<and> args = (args_of e s nmi)\<lparr>nr_mixers := c, mixer := mixer args\<rparr>"
proof -
  obtain r where r: "seed_rng e 1 = Some r" "ok r" using res ok unfolding resources_def by blast
  obtain c where c: "mixer_columns (clz_of_0 e) total_par = Inr (2 ^ c)" "(2 :: nat) ^ c < 2 * max total_par 64"
    using mixer_columns_bound[of total_par "clz_of_0 e"] tp res by (auto simp: resources_def)
  note T = table_size[OF geo c(2)]
  have "malloc_serves (heap e) (nmi * 2 ^ c * 8)" "malloc_ok (heap e) 48" "malloc_ok (heap e) RNG_BUF_SIZE"
    using res T by (auto simp: resources_def malloc_serves_def RNG_BUF_SIZE_def)
  moreover have "nmi * 2 ^ c * 8 < W64" using T(1) size by linarith
  ultimately show ?thesis
    using wp_mixer[OF gen c(1) refl, of "heap e" r] r
    by (cases "generate_chase_mixer (heap e) (clz_of_0 e) (args_of e s nmi) total_par r")
      (auto simp: args_of_def rng_init_def simp del: chase_args.update_convs)
qed

text \<open>\<open>main\<close> behind the geometry, for either generator.\<close>

lemma setup_ready:
  assumes gen: "gen_permutation (args_of e s nmi) = gen"
    and geo: "geometry_settled s nmi" and par: "total_par = nr_threads s * parallelism (chase s)"
    and tp: "0 < total_par" "total_par \<le> nmi" "total_par \<le> 2 ^ 30"
    and chase: "parallelism (chase s) \<le> MAX_PARALLEL" "plain_chase (chase s)"
    and size: "elt_stride s * (2 * max total_par 64) < W64"
    and res: "resources e total_par s" and ok: "\<And>r. rng_ok (draw e) r \<Longrightarrow> ok r"
    and anon: "anonymous_arena e s" and granted: "pages_granted e s a len f flen"
    and order: "distinct order" "set order = {0..<nr_threads s}"
    and settled: "settle_geometry s0 = Inr (s, nmi)"
  shows "\<exists>args ts m'. multichase_setup ar lround e order s0 m = Some (Inr (args, ts, m')) \<and>
    chase_geometry args \<and> nr_mixer_indices args = nmi \<and> total_memory args = mem_size s \<and>
    stride args = elt_stride s \<and>
    (\<forall>t<nr_threads s. cycles_ready args (use_longer_chase s) (parallelism (chase s)) (nr_threads s) (cycle (ts t)) t m')"
proof -
  let ?par = "parallelism (chase s)" and ?n = "nr_threads s"
  have "?n * 1 \<le> ?n * ?par" using tp(1) par by (intro mult_le_mono2) (auto intro: Nat.gr0I)
  then have "?n \<le> 2 ^ 30" using tp(3) unfolding par by linarith
  moreover have "mul64 ?n ?par = total_par" using tp(3) par mul64_exact[of ?n ?par] by (simp add: W64_def)
  ultimately have n: "?n \<le> 2 ^ 30" "mul64 ?n ?par = total_par" .
  obtain r mixed r' c where mix: "rng_init (heap e) (seed_rng e) 1 = Inr r"
    "generate_chase_mixer (heap e) (clz_of_0 e) (args_of e s nmi) total_par r = Inr (mixed, r')"
    "mixer_ok mixed" "mixed = (args_of e s nmi)\<lparr>nr_mixers := c, mixer := mixer mixed\<rparr>"
    using mixer_ready[OF gen geo tp(1,3) size res ok] by blast
  obtain p m1 flush m2 where P: "place_arena e s m = Inr (p, m1)" "place_flush e s m1 = Inr (flush, m2)"
    "p + mem_size s < W64" "flushable (cache_flush_size s) flush m2"
    "\<forall>x. p \<le> x \<and> x < p + mem_size s \<longrightarrow> m2 x = Some 0"
    using arena_ready[OF anon granted, of m] by blast
  obtain pages where pages: "default_pages e s 1 (mul64 ?n AVOID_FALSE_SHARING) = Inr pages"
    using thread_pages_ready[of e s f flen, OF _ n(1)] granted unfolding pages_granted_def by blast
  define args where "args = mixed\<lparr>arena := p\<rparr>"
  have M: "gen_permutation mixed = gen" "nr_mixer_indices mixed = nmi" "total_memory mixed = mem_size s"
    "stride mixed = elt_stride s" "tlb_locality mixed = tlb_size s"
    using arg_cong[OF mix(4), of gen_permutation] arg_cong[OF mix(4), of nr_mixer_indices]
      arg_cong[OF mix(4), of total_memory] arg_cong[OF mix(4), of stride]
      arg_cong[OF mix(4), of tlb_locality] gen
    by (simp_all add: args_of_fields)
  have F: "gen_permutation args = gen" "nr_mixer_indices args = nmi" "total_memory args = mem_size s"
    "stride args = elt_stride s" "tlb_locality args = tlb_size s" "arena args = p"
    using M by (simp_all add: args_def)
  have "mixer_ok args" using mix(3) by (simp add: mixer_ok_def mixer_column_def args_def)
  then have geo': "chase_geometry args"
    using geo P(3) by (simp add: chase_geometry_def geometry_settled_def F)
  have tp': "?par * ?n \<le> nr_mixer_indices args" "?par * ?n < 2 ^ 32"
    using tp par F(2) by (simp_all add: mult.commute)
  have inv: "chases_done args (use_longer_chase s) (?par * ?n) {} m2"
    using P(5) by (intro zeroed_arena[OF geo' tp'(1)]) (simp add: F)
  have malloc: "malloc_serves (heap e) (max 48 (total_memory args))"
  proof -
    have "128 \<le> elt_stride s * (2 * max total_par 64)" by (rule table_size(2)[OF geo, of 0]) simp
    then have "max 48 (mem_size s) \<le> max (mem_size s) (elt_stride s * (2 * max total_par 64))" by linarith
    then show ?thesis using res unfolding resources_def malloc_serves_def F by (meson le_trans)
  qed
  have seeds: "\<exists>r. seed_rng e t = Some r \<and> ok r" for t using res ok unfolding resources_def by blast
  have aff: "affinity_ok e s" using res by (simp add: resources_def)
  have sub: "set order \<subseteq> {..<?n}" using order(2) by auto
  have cyc: "\<forall>t\<in>set order. ?par \<le> length (cycle (fresh_thread s))"
    using chase(1) by (simp add: fresh_thread_def)
  obtain ts m' where run:
    "start_all (thread_start ar lround e s args flush) order (\<lambda>_. fresh_thread s) m2 = Some (Inr (ts, m'))"
    "\<forall>t\<in>set order. \<forall>q<?par.
       cycle (ts t) ! q = cell_addr args (first_row args (use_longer_chase s) (?par * ?n) (?par * t + q)) 0"
    "chases_done args (use_longer_chase s) (?par * ?n) ({} \<union> \<Union>(thread_indices ?par ` set order)) m'"
    using start_all_ready[OF F(1) geo' refl refl tp' malloc seeds aff chase(2) order(1) sub _ _ inv cyc P(4),
        where a = ar and lround = lround] by blast
  have "multichase_setup ar lround e order s0 m = Some (Inr (args, ts, m'))"
    using settled mix(1,2) P(1,2) pages run(1) chase(2)
    by (simp add: multichase_setup_def n(2) args_def plain_chase_def case_prod_beta)
  moreover have "cycles_ready args (use_longer_chase s) ?par ?n (cycle (ts t)) t m'" if "t < ?n" for t
    using run(2) that order(2) by (intro cycles_readyI[OF run(3)]) auto
  ultimately show ?thesis using geo' F by blast
qed

end

subsection \<open>Properties\<close>


text \<open>With -M and an offset -O, a malloc that fails is not noticed: the offset is added before the
  result is compared with NULL, and the run goes on with the offset itself as the address of the
  arena. Without an offset the run ends.\<close>
theorem failed_malloc_unnoticed:
  assumes "getenv e ''ALLOC'' = None" and "getenv e ''NUMA_ALLOC'' = None" and "use_malloc s"
    and "malloc_at e (add64 (mem_size s) (offset s)) = 0" and "offset s < W64"
  shows "place_arena e s m = (if offset s = 0 then Inl (Exit 1) else Inr (offset s, m))"
  using assms by (simp add: place_arena_def map_block_def add64_exact Let_def)

subsection \<open>Examples\<close>

definition test_bench :: "nat surroundings" where
  "test_bench =
     \<lparr>os = linux\<lparr>mmap_at := (\<lambda>call len fl fd. Some (2 ^ 40 * (call + 1)))\<rparr>, heap = free_heap, seed_rng = Some,
      draw = next_draw, clz_of_0 = 64, getenv = (\<lambda>_. None), malloc_at = (\<lambda>_. 0), numa_at = (\<lambda>_ _. 0),
      hip_alloc = (\<lambda>_ _ _. None), hip_peer_ok = False, hip_register_ok = (\<lambda>_ _. False),
      content = (\<lambda>_. 0), affinity_cpus = Some (\<lambda>_. True), affinity_set = (\<lambda>_. True)\<rparr>"

definition two_threads :: settings where
  "two_threads = default_settings X86_64 4096\<lparr>nr_threads := 2, cache_flush_size := 2 ^ 28\<rparr>"





theorem failed_malloc_unnoticed_witness:
  "place_arena test_bench (two_threads\<lparr>use_malloc := True, offset := 64\<rparr>) Map.empty = Inr (64, Map.empty)"
  using failed_malloc_unnoticed[of test_bench "two_threads\<lparr>use_malloc := True, offset := 64\<rparr>" Map.empty]
  by (simp add: test_bench_def W64_def)

end
