(* ===== verification/Multiload_Main.thy ===== *)
theory Multiload_Main
  imports Multichase_Main Multi_Threads
begin

text \<open>
  \<open>multiload.c\<close> from the accepted options to the start of the measurement, put together as \<open>main\<close>
  does it. The theorem says that, for each of the three tests, every thread that chases has its cycles
  and every thread that loads has its buffer, and that they do not get into each other's way.
\<close>

subsection \<open>main\<close>

definition ml_chase_arena ::
    "'r surroundings \<Rightarrow> settings \<Rightarrow> 'r chase_args \<Rightarrow> mem \<Rightarrow> ('r chase_args \<times> mem) res" where
  "ml_chase_arena e s args m =
     rbind (arena_pages e s 0
              \<lparr>req_page_size = page_size s, req_thp = use_thp s,
               req_size = add64 (mem_size s) (offset s), req_fd = -1\<rparr>)
       (\<lambda>(p, len). Inr (args\<lparr>arena := add64 p (offset s)\<rparr>, map_pages m p len))"

text \<open>The allocator of thread \<open>i\<close>: its mapping has the number \<open>3 + i\<close>, so that nothing depends on the order in
  which the threads ask.\<close>

definition thread_pages :: "'r surroundings \<Rightarrow> settings \<Rightarrow> nat \<Rightarrow> nat \<Rightarrow> (nat \<times> nat) res" where
  "thread_pages e s i n =
     arena_pages e s (3 + i) \<lparr>req_page_size = page_size s, req_thp = use_thp s, req_size = n, req_fd = -1\<rparr>"

definition ml_thread ::
    "'r surroundings \<Rightarrow> settings \<Rightarrow> 'r chase_args \<Rightarrow>
     nat \<Rightarrow> ml_per_thread \<Rightarrow> mem \<Rightarrow> (ml_per_thread \<times> mem) res option" where
  "ml_thread e s args i t m =
     ml_thread_start (heap e) (seed_rng e)
       (if set_thread_affinity s then Some (affinity_cpus e, affinity_set e) else None)
       (thread_pages e s i) args t m"

definition multiload_setup ::
    "'r surroundings \<Rightarrow> nat list \<Rightarrow> ml_settings \<Rightarrow> mem \<Rightarrow>
     ('r chase_args \<times> (nat \<Rightarrow> ml_per_thread) \<times> nat \<times> nat \<times> mem) res option" where
  "multiload_setup e order s m =
     obind (Some (ml_settle_geometry s)) (\<lambda>(s, nmi).
     let g = settings.truncate s in
     obind (Some (rng_init (heap e) (seed_rng e) 1)) (\<lambda>r.
     obind (Some (if run_test_type s = RUN_BANDWIDTH then Inr (args_of e g nmi, m)
                  else rbind (generate_chase_mixer (heap e) (clz_of_0 e) (args_of e g nmi)
                          (mul64 (nr_threads s) (parallelism (chase s))) r) (\<lambda>(args, _).
                    ml_chase_arena e g args m))) (\<lambda>(args, m).
     obind (Some (default_pages e g 1 (mul64 (nr_threads s) AVOID_FALSE_SHARING))) (\<lambda>_.
     obind (Some (place_flush e g m)) (\<lambda>(flush, m).
     obind (Some (start_threads s flush)) (\<lambda>(ts, nr_chase_threads, nr_load_threads).
     obind (start_all (ml_thread e g args) order (\<lambda>i. ts ! i) m) (\<lambda>(ts, m).
     Some (Inr (args, ts, nr_chase_threads, nr_load_threads, m)))))))))"

subsection \<open>Threads side by side\<close>

lemma chases_done_frame:
  assumes geo: "chase_geometry args" and tp: "total_par \<le> nr_mixer_indices args" and D: "D \<subseteq> {..<total_par}"
    and same: "\<forall>x. arena args \<le> x \<and> x < arena args + total_memory args \<longrightarrow> m' x = m x"
    and inv: "chases_done args longer total_par D m"
  shows "chases_done args longer total_par D m'"
proof -
  have kept: "load64 m' c = load64 m c"
    if jc: "j < total_par" "c \<in> row_cells args (chase_rows args longer total_par j)" for j c
  proof -
    obtain r y where y: "c = cell_addr args r y" "r \<in> chase_rows args longer total_par j" "y < nr_elements args"
      using jc(2) by (auto simp: row_cells_def)
    have r: "r < nr_mixer_indices args" using chase_rows_bound[OF jc(1) tp y(2)] .
    have "arena args \<le> c" "c + 8 \<le> arena args + total_memory args"
      using cell_addr_lt(1)[OF geo r y(3)] cell_addr_bounds(1)[OF geo r, of y] unfolding y(1) by linarith+
    then show ?thesis using same by (intro load64_cong) auto
  qed
  have "chase_in_place args longer total_par j m'" if j: "j \<in> D" for j
  proof -
    have lt: "j < total_par" using j D by auto
    obtain as where as: "chase_cycle m (cell_addr args (first_row args longer total_par j) 0) as"
      "set as = row_cells args (chase_rows args longer total_par j)"
      using inv j by (auto simp: chases_done_def chase_in_place_def)
    have "chase_cycle m' (cell_addr args (first_row args longer total_par j) 0) as"
      by (rule chase_cycle_frame[OF as(1)]) (use kept[OF lt] as(2) in simp)
    then show ?thesis using as(2) by (auto simp: chase_in_place_def)
  qed
  moreover have "mapped m' (arena args) (total_memory args)"
    using inv same by (simp add: chases_done_def mapped_def)
  ultimately show ?thesis using inv kept by (simp add: chases_done_def)
qed

text \<open>The pages of the threads that load: beside the arena, the flush pages and each other.\<close>

definition pages_beside :: "(nat \<Rightarrow> nat) \<Rightarrow> nat \<Rightarrow> nat set \<Rightarrow> nat \<Rightarrow> nat \<Rightarrow> bool" where
  "pages_beside lplace len loads a n \<longleftrightarrow> (\<forall>i\<in>loads. lplace i + len \<le> a \<or> a + n \<le> lplace i)"

definition load_pages_granted :: "'r surroundings \<Rightarrow> settings \<Rightarrow> (nat \<Rightarrow> nat) \<Rightarrow> nat \<Rightarrow> nat set \<Rightarrow> bool" where
  "load_pages_granted e s lplace len loads \<longleftrightarrow>
     (\<forall>i\<in>loads. thread_pages e s i (mem_size s + offset s) = Inr (lplace i, len) \<and> lplace i + len < W64 \<and>
        pages_beside lplace len (loads - {i}) (lplace i) len)"

text \<open>The ones the buffer of a load thread is filled with, as the load reads them.\<close>

definition ones_at :: "mem \<Rightarrow> nat \<Rightarrow> nat \<Rightarrow> bool" where
  "ones_at m a n \<longleftrightarrow> (\<forall>i. i + 8 \<le> n \<longrightarrow> load64 m (a + i) = Inr 0x0101010101010101)"

lemma load_ones:
  assumes "\<forall>x. a \<le> x \<and> x < a + 8 \<longrightarrow> m x = Some 1"
  shows "load64 m a = Inr 0x0101010101010101"
proof -
  have z: "m (a + i) = Some 1" if "i < 8" for i using assms that by simp
  then have "mapped m a 8" by (simp add: mapped_def)
  moreover have "map (\<lambda>i. the (m (a + i))) [0..<8] = replicate 8 1"
    by (rule nth_equalityI) (use z in \<open>simp_all del: upt_Suc\<close>)
  ultimately have "read_bytes m a 8 = Inr (replicate 8 1)" by (simp only: read_bytes_eq if_True)
  moreover have "of_bytes (replicate 8 1) = 0x0101010101010101"
  proof -
    have eight: "(8 :: nat) = Suc (Suc (Suc (Suc (Suc (Suc (Suc (Suc 0)))))))" by simp
    show ?thesis unfolding eight by (simp del: One_nat_def)
  qed
  ultimately show ?thesis by (simp only: load64_def rbind.simps)
qed

lemma ones_put: "(\<And>i. i < n \<Longrightarrow> m (a + i) = Some 1) \<Longrightarrow> ones_at m a n"
  unfolding ones_at_def
proof (intro allI impI)
  fix i
  assume m: "\<And>i. i < n \<Longrightarrow> m (a + i) = Some 1" and i: "i + 8 \<le> n"
  have "m x = Some 1" if "a + i \<le> x" "x < a + i + 8" for x
    using m[of "x - a"] that i by simp
  then show "load64 m (a + i) = Inr 0x0101010101010101" by (intro load_ones) simp
qed

text \<open>What holds when the threads \<open>T\<close> have reached the barrier; the first \<open>nc\<close> threads chase.\<close>

definition threads_inv ::
    "'r chase_args \<Rightarrow> ml_settings \<Rightarrow> nat \<Rightarrow> nat \<Rightarrow> (nat \<Rightarrow> nat) \<Rightarrow> nat set \<Rightarrow> (nat \<Rightarrow> ml_per_thread) \<Rightarrow> mem \<Rightarrow> bool" where
  "threads_inv args s flush nc lplace T ts m \<longleftrightarrow>
     (0 < nc \<longrightarrow> chases_done args False (parallelism (chase s) * nc)
        (\<Union>(thread_indices (parallelism (chase s)) ` (T \<inter> {..<nc}))) m) \<and>
     (\<forall>t\<in>T \<inter> {..<nc}. \<forall>p<parallelism (chase s).
        cycle (ts t) ! p = cell_addr args (first_row args False (parallelism (chase s) * nc)
          (parallelism (chase s) * t + p)) 0) \<and>
     (\<forall>t\<in>T - {..<nc}. load_arena (ts t) = lplace t + offset s \<and> ones_at m (lplace t + offset s) (mem_size s)) \<and>
     (\<forall>t<nr_threads s. t \<notin> T \<longrightarrow> ts t = thread_data s flush t) \<and>
     flushable (cache_flush_size s) flush m"

lemma thread_data_fields:
  "thread_num (thread_data s flush i) = i" "thread_test (thread_data s flush i) = thread_role (run_test_type s) i"
  "thread_chase (thread_data s flush i) = chase s" "thread_longer (thread_data s flush i) = use_longer_chase s"
  "flush_arena (thread_data s flush i) = flush" "flush_bytes (thread_data s flush i) = cache_flush_size s"
  "load_total_memory (thread_data s flush i) = mem_size s" "load_offset (thread_data s flush i) = offset s"
  "length (cycle (thread_data s flush i)) = MAX_PARALLEL"
  by (simp_all add: thread_data_def)

lemma ml_adapt_plain: "plain_chase (thread_chase t) \<Longrightarrow> ml_adapt_chase t m = Some (Inr m)"
  by (simp add: ml_adapt_chase_def plain_chase_def Let_def)

lemma ml_flush_sums:
  assumes "flushable (flush_bytes t) (flush_arena t) m"
  shows "\<exists>d. ml_flush_caches m t = Inr (t\<lparr>dummy := d\<rparr>)"
proof -
  have "\<exists>v. load64 m (flush_arena t + 8 * i) = Inr v" if "i < flush_bytes t div 8" for i
  proof -
    have "8 * i + 8 \<le> flush_bytes t" using that by linarith
    then have "mapped m (flush_arena t + 8 * i) 8" using assms by (simp add: flushable_def)
    then show ?thesis using mapped_load by blast
  qed
  then have "wp (\<lambda>_. False) (\<lambda>_. True) (for_range (flush_bytes t div 8)
      (\<lambda>i sum. rbind (load64 m (flush_arena t + 8 * i)) (\<lambda>v. Inr (add64 sum v))) 0)"
    by (intro wp_for_rangeI[where I = "\<lambda>_ _. True"]) (fastforce simp: wp_total)+
  then show ?thesis by (auto simp: ml_flush_caches_def wp_total intro: exI[of _ "dummy t"])
qed

context perm_generator
begin

lemma chase_thread_ready:
  assumes gen: "gen_permutation args = gen" and geo: "chase_geometry args"
    and par: "parallelism (chase s) = par" "par \<le> MAX_PARALLEL"
    and tp: "par * nc \<le> nr_mixer_indices args" "par * nc < 2 ^ 32"
    and plain: "plain_chase (chase s)" "\<not> use_longer_chase s"
    and malloc: "malloc_serves (heap e) (max 48 (total_memory args))"
    and seed: "\<exists>r. seed_rng e t = Some r \<and> ok r"
    and aff: "affinity_ok e g" "t < nr_threads g" "nr_threads g = nr_threads s"
    and beside: "pages_beside lplace len (T - {..<nc}) (arena args) (total_memory args)" "mem_size s + offset s \<le> len"
    and role: "t < nc" "thread_role (run_test_type s) t = RUN_CHASE" "t \<notin> T"
    and inv: "threads_inv args s flush nc lplace T ts m"
  shows "\<exists>th m'. ml_thread e g args t (ts t) m = Some (Inr (th, m')) \<and>
    threads_inv args s flush nc lplace (insert t T) (ts(t := th)) m'"
proof -
  let ?D = "\<Union>(thread_indices par ` (T \<inter> {..<nc}))" and ?t = "thread_data s flush t"
  have I: "chases_done args False (par * nc) ?D m" "ts t = ?t" "flushable (cache_flush_size s) flush m"
    using inv role(1,3) par(1) aff(2,3) by (auto simp: threads_inv_def)
  obtain r where r: "seed_rng e t = Some r" "ok r" using seed by blast
  have serves: "malloc_serves (heap e) (total_memory args)"
    and heap: "malloc_ok (heap e) 48" "malloc_ok (heap e) RNG_BUF_SIZE"
    using malloc by (simp_all add: malloc_serves_def RNG_BUF_SIZE_def)
  have D: "?D \<subseteq> {..<par * nc}" using thread_indices_sub[of _ nc par] by auto
  have disj: "thread_indices par t \<inter> ?D = {}"
  proof -
    have "thread_indices par t \<inter> thread_indices par u = {}" if "u \<in> T" for u
      by (rule thread_indices_disjoint) (use that role(3) in auto)
    then show ?thesis by auto
  qed
  have cyc: "par \<le> length (cycle ?t)" using par(2) by (simp add: thread_data_fields)
  obtain cy m' r' where cy: "thread_cycles (heap e) args False par nc t (cycle ?t) m r = Inr (cy, m', r')"
    "\<forall>p<par. cy ! p = cell_addr args (first_row args False (par * nc) (par * t + p)) 0"
    "\<forall>a. mapped m' a 8 = mapped m a 8" "chases_done args False (par * nc) (?D \<union> thread_indices par t) m'"
    "\<forall>a. a + 8 \<le> arena args \<or> arena args + total_memory args \<le> a \<longrightarrow> load64 m' a = load64 m a"
    using wp_thread_cycles[OF gen geo tp role(1) D disj I(1) cyc serves, of r] r(2)
    by (cases "thread_cycles (heap e) args False par nc t (cycle ?t) m r") auto
  have cycles: "ml_thread_cycles (heap e) args ?t m r = Inr (cy, m', r')"
    using multiload_chases_as_multichase[of ?t "heap e" args m r nc] cy(1) plain(2) par(1)
    by (simp add: thread_data_fields)
  let ?th = "?t\<lparr>cycle := cy\<rparr>"
  have fl: "flushable (cache_flush_size s) flush m'" using I(3) cy(3) by (simp add: flushable_def)
  then obtain d where d: "ml_flush_caches m' ?th = Inr (?th\<lparr>dummy := d\<rparr>)"
    using ml_flush_sums[of ?th m'] by (auto simp: thread_data_fields)
  obtain c where "(if set_thread_affinity g then set_affinity (affinity_cpus e) (affinity_set e) t else Inr 0) = Inr c"
    using affinity_found[OF aff(1,2)] by blast
  then have run: "ml_thread e g args t (ts t) m = Some (Inr (?th\<lparr>dummy := d\<rparr>, m'))"
    using r heap cycles d ml_adapt_plain[of ?th m'] plain(1) role(2) I(2)
    by (simp add: ml_thread_def ml_thread_start_def rng_init_def thread_data_fields Let_def split: if_splits)
  have keep: "ones_at m' (lplace u + offset s) (mem_size s)"
    if u: "u \<in> T - {..<nc}" "ones_at m (lplace u + offset s) (mem_size s)" for u
    unfolding ones_at_def
  proof (intro allI impI)
    fix i assume i: "i + 8 \<le> mem_size s"
    have "lplace u + len \<le> arena args \<or> arena args + total_memory args \<le> lplace u"
      using beside(1) u(1) unfolding pages_beside_def by blast
    then have "lplace u + offset s + i + 8 \<le> arena args \<or> arena args + total_memory args \<le> lplace u + offset s + i"
      using beside(2) i by linarith
    then show "load64 m' (lplace u + offset s + i) = Inr 0x0101010101010101"
      using cy(5)[rule_format, of "lplace u + offset s + i"] u(2) i by (simp add: ones_at_def)
  qed
  have T: "insert t T \<inter> {..<nc} = insert t (T \<inter> {..<nc})" "insert t T - {..<nc} = T - {..<nc}"
    using role(1) by auto
  have "threads_inv args s flush nc lplace (insert t T) (ts(t := ?th\<lparr>dummy := d\<rparr>)) m'"
    unfolding threads_inv_def T par(1)
  proof (intro conjI)
    show "0 < nc \<longrightarrow> chases_done args False (par * nc) (\<Union>(thread_indices par ` insert t (T \<inter> {..<nc}))) m'"
      using cy(4) by (simp add: Un_commute)
    show "\<forall>u\<in>insert t (T \<inter> {..<nc}). \<forall>p<par. cycle ((ts(t := ?th\<lparr>dummy := d\<rparr>)) u) ! p =
        cell_addr args (first_row args False (par * nc) (par * u + p)) 0"
      using inv cy(2) par(1) by (simp add: threads_inv_def)
    show "\<forall>u\<in>T - {..<nc}. load_arena ((ts(t := ?th\<lparr>dummy := d\<rparr>)) u) = lplace u + offset s \<and>
        ones_at m' (lplace u + offset s) (mem_size s)"
    proof
      fix u assume u: "u \<in> T - {..<nc}"
      then have "ones_at m (lplace u + offset s) (mem_size s)" "load_arena (ts u) = lplace u + offset s" "u \<noteq> t"
        using inv role(1) by (auto simp: threads_inv_def)
      then show "load_arena ((ts(t := ?th\<lparr>dummy := d\<rparr>)) u) = lplace u + offset s \<and>
          ones_at m' (lplace u + offset s) (mem_size s)"
        using keep[OF u] by simp
    qed
    show "\<forall>u<nr_threads s. u \<notin> insert t T \<longrightarrow> (ts(t := ?th\<lparr>dummy := d\<rparr>)) u = thread_data s flush u"
      using inv by (simp add: threads_inv_def)
  qed (rule fl)
  then show ?thesis using run by blast
qed

end

lemma load_pages_cover:
  assumes "load_pages_granted e s lplace len loads" and "i \<in> loads"
    and "0 < mem_size s" and "mem_size s + offset s + page_size s \<le> 2 ^ 64"
  shows "mem_size s + offset s \<le> len"
proof -
  have "arena_pages e s (3 + i) \<lparr>req_page_size = page_size s, req_thp = use_thp s, req_size = mem_size s + offset s,
      req_fd = -1\<rparr> = Inr (lplace i, len)"
    using assms(1,2) by (auto simp: load_pages_granted_def thread_pages_def)
  from arena_pages_cover(1)[OF this] show ?thesis using assms(3,4) by simp
qed

text \<open>A load thread: it fills its own buffer, and no other thread notices.\<close>

lemma load_thread_ready:
  assumes geo: "0 < nc \<Longrightarrow> chase_geometry args" "0 < nc \<Longrightarrow> parallelism (chase s) * nc \<le> nr_mixer_indices args"
    and g: "mem_size g = mem_size s" "offset g = offset s" and fits: "mem_size s + offset s \<le> len"
    and granted: "load_pages_granted e g lplace len loads" "t \<in> loads" "T - {..<nc} \<subseteq> loads"
    and beside: "0 < nc \<Longrightarrow> pages_beside lplace len loads (arena args) (total_memory args)"
      "pages_beside lplace len loads flush (cache_flush_size s)"
    and heap: "malloc_ok (heap e) 48" "malloc_ok (heap e) RNG_BUF_SIZE" "\<exists>r. seed_rng e t = Some r"
    and aff: "affinity_ok e g" "t < nr_threads g" "nr_threads g = nr_threads s"
    and role: "nc \<le> t" "thread_role (run_test_type s) t \<noteq> RUN_CHASE" "t \<notin> T"
    and inv: "threads_inv args s flush nc lplace T ts m"
  shows "\<exists>th m'. ml_thread e g args t (ts t) m = Some (Inr (th, m')) \<and>
    threads_inv args s flush nc lplace (insert t T) (ts(t := th)) m'"
proof -
  let ?t = "thread_data s flush t" and ?n = "mem_size s + offset s" and ?a = "lplace t"
  have G: "thread_pages e g t ?n = Inr (?a, len)" "?a + len < W64" "pages_beside lplace len (loads - {t}) ?a len"
    using granted(1,2) g unfolding load_pages_granted_def by simp_all
  have P: "thread_pages e g t ?n = Inr (?a, len)" "?n \<le> len" using G(1) fits by simp_all
  have n: "add64 (mem_size s) (offset s) = ?n" "add64 ?a (offset s) = ?a + offset s"
    using G(2) P(2) by (intro add64_exact; linarith)+
  let ?p = "?a + offset s" and ?m1 = "map_pages m ?a len"
  let ?m2 = "put_bytes ?m1 ?p (replicate (mem_size s) 1)" and ?th = "?t\<lparr>load_arena := ?p\<rparr>"
  have fresh: "mapped ?m1 ?p (mem_size s)" using P(2) by (intro mapped_map_pages) auto
  have ts: "ts t = ?t" using inv role(3) aff(2,3) by (simp add: threads_inv_def)
  obtain c where "(if set_thread_affinity g then set_affinity (affinity_cpus e) (affinity_set e) t else Inr 0) = Inr c"
    using affinity_found[OF aff(1,2)] by blast
  moreover obtain r where "seed_rng e t = Some r" using heap(3) by blast
  ultimately have run: "ml_thread e g args t (ts t) m = Some (Inr (?th, ?m2))"
    using heap(1,2) role(2) P(1) n fresh ts
    by (simp add: ml_thread_def ml_thread_start_def rng_init_def thread_data_fields load_buffer_def
        memset_bytes_def write_bytes_eq Let_def split: if_splits)
  have old: "?m2 x = m x" if "x < ?a \<or> ?a + len \<le> x" for x
    using that P(2) by (auto simp: put_bytes_def map_pages_def)
  have apart: "?m2 x = m x" if "pages_beside lplace len loads b k" "b \<le> x" "x < b + k" for b k x
    using that granted(2) old[of x] unfolding pages_beside_def by fastforce
  have T: "insert t T \<inter> {..<nc} = T \<inter> {..<nc}" "insert t T - {..<nc} = insert t (T - {..<nc})"
    using role(1) by auto
  have "threads_inv args s flush nc lplace (insert t T) (ts(t := ?th)) ?m2"
    unfolding threads_inv_def T
  proof (intro conjI)
    let ?par = "parallelism (chase s)"
    have D: "\<Union>(thread_indices ?par ` (T \<inter> {..<nc})) \<subseteq> {..<?par * nc}"
      using thread_indices_sub[of _ nc ?par] by auto
    show "0 < nc \<longrightarrow> chases_done args False (?par * nc) (\<Union>(thread_indices ?par ` (T \<inter> {..<nc}))) ?m2"
    proof
      assume nc: "0 < nc"
      have old_inv: "chases_done args False (?par * nc) (\<Union>(thread_indices ?par ` (T \<inter> {..<nc}))) m"
        using inv nc by (simp add: threads_inv_def)
      have same: "\<forall>x. arena args \<le> x \<and> x < arena args + total_memory args \<longrightarrow> ?m2 x = m x"
        using apart[OF beside(1)[OF nc]] by blast
      show "chases_done args False (?par * nc) (\<Union>(thread_indices ?par ` (T \<inter> {..<nc}))) ?m2"
        by (rule chases_done_frame[OF geo(1,2)[OF nc] D same old_inv])
    qed
    show "\<forall>u\<in>T \<inter> {..<nc}. \<forall>p<?par. cycle ((ts(t := ?th)) u) ! p =
        cell_addr args (first_row args False (?par * nc) (?par * u + p)) 0"
      using inv role(1) by (auto simp: threads_inv_def)
    show "\<forall>u\<in>insert t (T - {..<nc}). load_arena ((ts(t := ?th)) u) = lplace u + offset s \<and>
        ones_at ?m2 (lplace u + offset s) (mem_size s)"
    proof
      fix u assume u: "u \<in> insert t (T - {..<nc})"
      show "load_arena ((ts(t := ?th)) u) = lplace u + offset s \<and> ones_at ?m2 (lplace u + offset s) (mem_size s)"
      proof (cases "u = t")
        case True
        have "ones_at ?m2 ?p (mem_size s)" by (rule ones_put) (simp add: put_bytes_def)
        then show ?thesis using True by simp
      next
        case False
        then have U: "load_arena (ts u) = lplace u + offset s" "ones_at m (lplace u + offset s) (mem_size s)"
          using u inv by (auto simp: threads_inv_def)
        have "u \<in> loads - {t}" using u granted(3) False by auto
        then have "lplace u + len \<le> ?a \<or> ?a + len \<le> lplace u" using G(3) by (simp add: pages_beside_def)
        then have "?m2 (lplace u + offset s + i) = m (lplace u + offset s + i)" if "i < mem_size s" for i
          using that P(2) by (intro old) linarith
        then have "load64 ?m2 (lplace u + offset s + i) = load64 m (lplace u + offset s + i)" if "i + 8 \<le> mem_size s" for i
          using that by (intro load64_cong) (simp add: add.assoc)
        then show ?thesis using U False by (simp add: ones_at_def)
      qed
    qed
    show "\<forall>u<nr_threads s. u \<notin> insert t T \<longrightarrow> (ts(t := ?th)) u = thread_data s flush u"
      using inv by (simp add: threads_inv_def)
    show "flushable (cache_flush_size s) flush ?m2"
    proof -
      have "flushable (cache_flush_size s) flush m" using inv by (simp add: threads_inv_def)
      moreover have "mapped ?m2 (flush + i) 8 = mapped m (flush + i) 8" if "i + 8 \<le> cache_flush_size s" for i
        using apart[OF beside(2)] that unfolding mapped_def by simp
      ultimately show ?thesis by (simp add: flushable_def)
    qed
  qed
  then show ?thesis using run by blast
qed

subsection \<open>The whole set-up\<close>

text \<open>The number of threads that chase in each test; they are the first ones.\<close>

definition nr_chases :: "test_type \<Rightarrow> nat \<Rightarrow> nat" where
  "nr_chases test n =
     (case test of RUN_CHASE \<Rightarrow> n | RUN_BANDWIDTH \<Rightarrow> 0 | RUN_CHASE_LOADED \<Rightarrow> min 1 n)"

lemma thread_roles:
  assumes "t < n"
  shows "thread_role test t = RUN_CHASE \<longleftrightarrow> t < nr_chases test n"
  using assms by (cases test) (auto simp: thread_role_def nr_chases_def)

lemma ml_chases_ok:
  assumes "e \<in> set (ml_chases arch)"
  shows "8 \<le> base_object_size e" "1 \<le> parallelism e" "parallelism e \<le> 10"
  using assms by (auto simp: ml_chases_def chase_row_def split: if_splits)


lemma truncate_fields [simp]:
  "mem_size (settings.truncate s) = mem_size s" "elt_stride (settings.truncate s) = elt_stride s"
  "tlb_size (settings.truncate s) = tlb_size s" "offset (settings.truncate s) = offset s"
  "nr_threads (settings.truncate s) = nr_threads s" "chase (settings.truncate s) = chase s"
  "cache_flush_size (settings.truncate s) = cache_flush_size s" "page_size (settings.truncate s) = page_size s"
  "use_thp (settings.truncate s) = use_thp s" "ordered_chase (settings.truncate s) = ordered_chase s"
  by (simp_all add: settings.truncate_def)

lemma ml_chase_arena_mmap:
  assumes "arena_granted e g a len"
  shows "ml_chase_arena e g args m = Inr (args\<lparr>arena := a + offset g\<rparr>, map_pages m a len)"
  using assms arena_granted_cover(2,3)[OF assms] by (simp add: ml_chase_arena_def arena_granted_def)

text \<open>Every mapping of a run succeeds, beside the others; \<open>nc\<close> threads chase, in an arena at \<open>a\<close> that is there only
  when \<open>nc\<close> is positive, and the others load, thread \<open>t\<close> from its pages at \<open>lplace t\<close>.\<close>

definition ml_pages_granted ::
    "'r surroundings \<Rightarrow> settings \<Rightarrow> nat \<Rightarrow> nat \<Rightarrow> nat \<Rightarrow> nat \<Rightarrow> nat \<Rightarrow> (nat \<Rightarrow> nat) \<Rightarrow> nat \<Rightarrow> bool" where
  "ml_pages_granted e s nc a alen f flen lplace len \<longleftrightarrow>
     mem_size s + offset s + page_size s \<le> 2 ^ 64 \<and> flush_granted e s f flen \<and>
     load_pages_granted e s lplace len {nc..<nr_threads s} \<and>
     (0 < nc \<longrightarrow> arena_granted e s a alen \<and> pages_beside lplace len {nc..<nr_threads s} a alen) \<and>
     (0 < cache_flush_size s \<longrightarrow> pages_beside lplace len {nc..<nr_threads s} f flen \<and> (0 < nc \<longrightarrow> beside f flen a alen))"

context perm_generator
begin

lemma all_threads_ready:
  assumes gen: "0 < nc \<Longrightarrow> gen_permutation args = gen" and geo: "0 < nc \<Longrightarrow> chase_geometry args"
    and par: "parallelism (chase s) \<le> MAX_PARALLEL"
    and tp: "0 < nc \<Longrightarrow> parallelism (chase s) * nc \<le> nr_mixer_indices args"
      "parallelism (chase s) * nc < 2 ^ 32"
    and plain: "plain_chase (chase s)" "\<not> use_longer_chase s" and mem: "8 \<le> mem_size s"
    and malloc: "malloc_serves (heap e) (max 48 (mem_size s))" "0 < nc \<Longrightarrow> total_memory args = mem_size s"
    and seed: "\<And>t. \<exists>r. seed_rng e t = Some r \<and> ok r"
    and aff: "affinity_ok e g" "nr_threads g = n" "nr_threads g = nr_threads s"
    and g: "mem_size g = mem_size s" "offset g = offset s" and wrap: "mem_size g + offset g + page_size g \<le> 2 ^ 64"
    and granted: "load_pages_granted e g lplace len {nc..<n}"
    and beside: "0 < nc \<Longrightarrow> pages_beside lplace len {nc..<n} (arena args) (total_memory args)"
      "pages_beside lplace len {nc..<n} flush (cache_flush_size s)"
    and role: "\<And>t. t < n \<Longrightarrow> thread_role (run_test_type s) t = RUN_CHASE \<longleftrightarrow> t < nc"
    and order: "distinct order" "set order \<subseteq> {..<n}" "set order \<inter> T = {}" "T \<subseteq> {..<n}"
    and inv: "threads_inv args s flush nc lplace T ts m"
  shows "\<exists>ts' m'. start_all (ml_thread e g args) order ts m = Some (Inr (ts', m')) \<and>
    threads_inv args s flush nc lplace (T \<union> set order) ts' m'"
  using order inv
proof (induction order arbitrary: T ts m)
  case (Cons t order)
  have heap: "malloc_ok (heap e) 48" "malloc_ok (heap e) RNG_BUF_SIZE" "\<exists>r. seed_rng e t = Some r"
    using malloc(1) seed[of t] by (auto simp: malloc_serves_def RNG_BUF_SIZE_def)
  have t: "t < n" "t < nr_threads g" "t \<notin> T" using Cons.prems(2,3) aff(2) by auto
  have "\<exists>th m'. ml_thread e g args t (ts t) m = Some (Inr (th, m')) \<and>
    threads_inv args s flush nc lplace (insert t T) (ts(t := th)) m'"
  proof (cases "t < nc")
    case True
    then have nc: "0 < nc" by simp
    have serves: "malloc_serves (heap e) (max 48 (total_memory args))" using malloc nc by simp
    have loads: "T - {..<nc} \<subseteq> {nc..<n}" using Cons.prems(4) by auto
    have apart: "pages_beside lplace len' (T - {..<nc}) (arena args) (total_memory args) \<and> mem_size s + offset s \<le> len'"
      if "len' = (if T - {..<nc} = {} then mem_size s + offset s else len)" for len'
    proof (cases "T - {..<nc} = {}")
      case False
      then obtain i where "i \<in> {nc..<n}" using loads by blast
      then have "mem_size s + offset s \<le> len"
        using load_pages_cover[OF granted _ _ wrap] mem g by simp
      then show ?thesis using that False beside(1)[OF nc] loads by (auto simp: pages_beside_def)
    qed (use that in \<open>auto simp: pages_beside_def\<close>)
    show ?thesis
      using chase_thread_ready[OF gen[OF nc] geo[OF nc] refl par tp(1)[OF nc] tp(2) plain serves seed
          aff(1) t(2) aff(3) apart[OF refl, THEN conjunct1] apart[OF refl, THEN conjunct2] True _ t(3) Cons.prems(5)]
        role[OF t(1)] True by blast
  next
    case False
    then have loads: "nc \<le> t" "t \<in> {nc..<n}" "T - {..<nc} \<subseteq> {nc..<n}" using t Cons.prems(4) by auto
    have fits: "mem_size s + offset s \<le> len" using load_pages_cover[OF granted loads(2) _ wrap] mem g by simp
    have no_chase: "thread_role (run_test_type s) t \<noteq> RUN_CHASE" using role[OF t(1)] False by simp
    show ?thesis
      by (rule load_thread_ready[OF geo tp(1) g fits granted loads(2,3) beside heap aff(1) t(2) aff(3) loads(1)
          no_chase t(3) Cons.prems(5)])
  qed
  then obtain th m1 where th: "ml_thread e g args t (ts t) m = Some (Inr (th, m1))"
    "threads_inv args s flush nc lplace (insert t T) (ts(t := th)) m1" by blast
  have "distinct order" "set order \<subseteq> {..<n}" "set order \<inter> insert t T = {}" "insert t T \<subseteq> {..<n}"
    using Cons.prems(1-4) by auto
  from Cons.IH[OF this th(2)] obtain ts' m' where
    "start_all (ml_thread e g args) order (ts(t := th)) m1 = Some (Inr (ts', m'))"
    "threads_inv args s flush nc lplace (insert t T \<union> set order) ts' m'" by blast
  then show ?case using th(1) by simp
qed simp

end

context perm_generator
begin

text \<open>What \<open>main\<close> hands to the threads: chase arguments with a chase arena where a thread chases,
  flush pages, and the thread structures.\<close>

lemma ml_before_threads:
  assumes gen: "gen_permutation (args_of e (settings.truncate s) nmi) = gen"
    and stride: "8 \<le> elt_stride s" and chase: "chase s \<in> set (ml_chases arch)" and n: "0 < nr_threads s"
    and tp: "total_par = nr_threads s * parallelism (chase s)" "total_par \<le> 2 ^ 30"
    and nc: "nc = nr_chases (run_test_type s) (nr_threads s)"
    and geo: "0 < nc \<Longrightarrow> geometry_settled (settings.truncate s) nmi"
    and size: "elt_stride s * (2 * max total_par 64) < W64"
    and res: "resources e total_par (settings.truncate s)" and ok: "\<And>r. rng_ok (draw e) r \<Longrightarrow> ok r"
    and pages: "ml_pages_granted e (settings.truncate s) nc a alen f flen lplace len"
  defines "flush \<equiv> (if cache_flush_size s = 0 then 0 else f)"
  shows "\<exists>r args m1 m2 pgs. rng_init (heap e) (seed_rng e) 1 = Inr r \<and>
    (if run_test_type s = RUN_BANDWIDTH then Inr (args_of e (settings.truncate s) nmi, m)
     else rbind (generate_chase_mixer (heap e) (clz_of_0 e) (args_of e (settings.truncate s) nmi)
             (mul64 (nr_threads s) (parallelism (chase s))) r) (\<lambda>(args, _).
       ml_chase_arena e (settings.truncate s) args m)) = Inr (args, m1) \<and>
    default_pages e (settings.truncate s) 1 (mul64 (nr_threads s) AVOID_FALSE_SHARING) = Inr pgs \<and>
    place_flush e (settings.truncate s) m1 = Inr (flush, m2) \<and> flushable (cache_flush_size s) flush m2 \<and>
    (0 < nc \<longrightarrow> gen_permutation args = gen \<and> chase_geometry args \<and> nr_mixer_indices args = nmi \<and>
       total_memory args = mem_size s \<and> arena args = a + offset s \<and>
       mem_size s + offset s \<le> alen \<and>
       (\<forall>x. arena args \<le> x \<and> x < arena args + total_memory args \<longrightarrow> m2 x = Some 0))"
proof -
  let ?g = "settings.truncate s" and ?par = "parallelism (chase s)" and ?n = "nr_threads s"
  have flushes: "flush_granted e ?g f flen" using pages by (simp add: ml_pages_granted_def)
  note C = ml_chases_ok[OF chase]
  have "?n * 1 \<le> ?n * ?par" using C(2) by (intro mult_le_mono2) auto
  then have "?n \<le> total_par" unfolding tp(1) by linarith
  then have small: "nr_threads ?g \<le> 2 ^ 30" using tp(2) by simp
  have mul: "mul64 ?n ?par = total_par" using tp mul64_exact[of ?n ?par] by (simp add: W64_def)
  obtain pgs where pgs: "default_pages e ?g 1 (mul64 ?n AVOID_FALSE_SHARING) = Inr pgs"
    using thread_pages_ready[OF flushes small] by auto
  have "1 * (2 * 64) \<le> elt_stride s * (2 * max total_par 64)" using stride by (intro mult_le_mono) auto
  then have heap: "malloc_ok (heap e) 48" "malloc_ok (heap e) RNG_BUF_SIZE"
    using res by (auto simp: resources_def malloc_serves_def RNG_BUF_SIZE_def)
  show ?thesis
  proof (cases "run_test_type s = RUN_BANDWIDTH")
    case True
    then have "nc = 0" using nc by (simp add: nr_chases_def)
    moreover obtain r where "seed_rng e 1 = Some r" using res unfolding resources_def by blast
    moreover obtain m2 where "place_flush e ?g m = Inr (flush, m2)" "flushable (cache_flush_size s) flush m2"
      using place_flush_mmap(1)[OF flushes, of m] unfolding flush_def truncate_fields by blast
    ultimately show ?thesis using True heap pgs by (auto simp: rng_init_def)
  next
    case False
    then have nc0: "0 < nc" using nc n by (cases "run_test_type s") (auto simp: nr_chases_def)
    have "0 < total_par" using tp(1) n C(2) by simp
    then obtain r mixed r' c where mix: "rng_init (heap e) (seed_rng e) 1 = Inr r"
      "generate_chase_mixer (heap e) (clz_of_0 e) (args_of e ?g nmi) total_par r = Inr (mixed, r')"
      "mixer_ok mixed" "mixed = (args_of e ?g nmi)\<lparr>nr_mixers := c, mixer := mixer mixed\<rparr>"
      using mixer_ready[OF gen geo[OF nc0] _ tp(2) _ res ok] size by auto
    let ?args = "mixed\<lparr>arena := a + offset s\<rparr>" and ?m1 = "map_pages m a alen"
    have G: "arena_granted e ?g a alen" and pg: "pages_granted e ?g a alen f flen"
      using pages nc0 by (simp_all add: ml_pages_granted_def pages_granted_def)
    have A: "ml_chase_arena e ?g mixed m = Inr (?args, ?m1)" "mem_size s + offset s \<le> alen"
      using ml_chase_arena_mmap[OF G, of mixed m] arena_granted_cover(1)[OF G] by simp_all
    obtain m2 where P: "place_flush e ?g ?m1 = Inr (flush, m2)" "flushable (cache_flush_size s) flush m2"
      "a + offset s + mem_size s < W64"
      "\<forall>x. a + offset s \<le> x \<and> x < a + offset s + mem_size s \<longrightarrow> m2 x = Some 0"
      using flush_beside_arena[OF pg, of m] unfolding flush_def truncate_fields by blast
    have M: "gen_permutation mixed = gen" "nr_mixer_indices mixed = nmi" "total_memory mixed = mem_size s"
      "stride mixed = elt_stride s" "tlb_locality mixed = tlb_size s"
      using arg_cong[OF mix(4), of gen_permutation] arg_cong[OF mix(4), of nr_mixer_indices]
        arg_cong[OF mix(4), of total_memory] arg_cong[OF mix(4), of stride]
        arg_cong[OF mix(4), of tlb_locality] gen
      by (simp_all add: args_of_fields)
    have "mixer_ok ?args" using mix(3) by (simp add: mixer_ok_def mixer_column_def)
    then have "chase_geometry ?args"
      using geo[OF nc0] P(3) M by (simp add: chase_geometry_def geometry_settled_def)
    then have "gen_permutation ?args = gen \<and> chase_geometry ?args \<and> nr_mixer_indices ?args = nmi \<and>
       total_memory ?args = mem_size s \<and> arena ?args = a + offset s \<and> mem_size s + offset s \<le> alen \<and>
       (\<forall>x. arena ?args \<le> x \<and> x < arena ?args + total_memory ?args \<longrightarrow> m2 x = Some 0)"
      using M A(2) P(4) by simp
    moreover have "(if run_test_type s = RUN_BANDWIDTH then Inr (args_of e ?g nmi, m)
       else rbind (generate_chase_mixer (heap e) (clz_of_0 e) (args_of e ?g nmi) (mul64 ?n ?par) r)
         (\<lambda>(args, _). ml_chase_arena e ?g args m)) = Inr (?args, ?m1)"
      using False mix(2) A(1) by (simp add: mul)
    ultimately show ?thesis using mix(1) pgs P(1,2) by blast
  qed
qed

end

context perm_generator
begin

lemma ml_setup_ready:
  assumes gen: "gen_permutation (args_of e (settings.truncate s) nmi) = gen"
    and chase: "chase s \<in> set (ml_chases arch)" "plain_chase (chase s)" "\<not> use_longer_chase s"
    and n: "0 < nr_threads s" and settled: "ml_settle_geometry s0 = Inr (s, nmi)"
    and stride: "8 \<le> elt_stride s" and mem: "8 \<le> mem_size s"
    and geo: "0 < nmi \<Longrightarrow> geometry_settled (settings.truncate s) nmi"
    and tp: "total_par = nr_threads s * parallelism (chase s)" "total_par \<le> 2 ^ 30"
    and nc: "nc = nr_chases (run_test_type s) (nr_threads s)" "parallelism (chase s) * nc \<le> nmi"
    and size: "elt_stride s * (2 * max total_par 64) < W64"
    and res: "resources e total_par (settings.truncate s)" and ok: "\<And>r. rng_ok (draw e) r \<Longrightarrow> ok r"
    and pages: "ml_pages_granted e (settings.truncate s) nc a alen f flen lplace len"
    and order: "distinct order" "set order = {0..<nr_threads s}"
  shows "\<exists>args ts m'. multiload_setup e order s0 m = Some (Inr (args, ts, nc, nr_threads s - nc, m')) \<and>
    (\<forall>t<nc. cycles_ready args False (parallelism (chase s)) nc (cycle (ts t)) t m') \<and>
    (\<forall>t. nc \<le> t \<and> t < nr_threads s \<longrightarrow>
       load_arena (ts t) = lplace t + offset s \<and> ones_at m' (load_arena (ts t)) (mem_size s))"
proof -
  let ?g = "settings.truncate s" and ?par = "parallelism (chase s)" and ?n = "nr_threads s"
  let ?flush = "if cache_flush_size s = 0 then 0 else f"
  have G: "flush_granted e ?g f flen" "load_pages_granted e ?g lplace len {nc..<?n}"
    "mem_size ?g + offset ?g + page_size ?g \<le> 2 ^ 64"
    "0 < nc \<Longrightarrow> pages_beside lplace len {nc..<?n} a alen"
    "0 < cache_flush_size s \<Longrightarrow> pages_beside lplace len {nc..<?n} f flen"
    using pages by (simp_all add: ml_pages_granted_def)
  note C = ml_chases_ok[OF chase(1)]
  have nc_le: "nc \<le> ?n" using nc(1) by (cases "run_test_type s") (auto simp: nr_chases_def)
  have "?par * nc \<le> total_par" using nc_le tp(1) by (simp add: mult.commute)
  then have small: "?par * nc < 2 ^ 32" using tp(2) by simp
  have geo': "0 < nc \<Longrightarrow> geometry_settled ?g nmi" using geo nc(2) C(2) by (cases nmi) auto
  obtain r args m1 m2 pgs where B: "rng_init (heap e) (seed_rng e) 1 = Inr r"
    "(if run_test_type s = RUN_BANDWIDTH then Inr (args_of e ?g nmi, m)
     else rbind (generate_chase_mixer (heap e) (clz_of_0 e) (args_of e ?g nmi) (mul64 ?n ?par) r) (\<lambda>(args, _).
       ml_chase_arena e ?g args m)) = Inr (args, m1)"
    "default_pages e ?g 1 (mul64 ?n AVOID_FALSE_SHARING) = Inr pgs"
    "place_flush e ?g m1 = Inr (?flush, m2)" "flushable (cache_flush_size s) ?flush m2"
    "0 < nc \<Longrightarrow> gen_permutation args = gen \<and> chase_geometry args \<and> nr_mixer_indices args = nmi \<and>
       total_memory args = mem_size s \<and> arena args = a + offset s \<and> mem_size s + offset s \<le> alen \<and>
       (\<forall>x. arena args \<le> x \<and> x < arena args + total_memory args \<longrightarrow> m2 x = Some 0)"
    using ml_before_threads[OF gen stride chase(1) n tp nc(1) geo' size res ok pages, of m] by blast
  define ts where "ts = (\<lambda>i. map (thread_data s ?flush) [0..<?n] ! i)"
  have starts: "start_threads s ?flush = Inr (map (thread_data s ?flush) [0..<?n], nc, ?n - nc)"
    unfolding start_threads_roles nc(1) by (cases "run_test_type s") (auto simp: nr_chases_def)
  let ?ts = "\<lambda>i. map (thread_data s ?flush) [0..<?n] ! i"
  have inv: "threads_inv args s ?flush nc lplace {} ?ts m2"
    unfolding threads_inv_def
  proof (intro conjI)
    show "0 < nc \<longrightarrow> chases_done args False (?par * nc) (\<Union>(thread_indices ?par ` ({} \<inter> {..<nc}))) m2"
      using B(6) nc(2) by (auto intro!: zeroed_arena)
  qed (use B(5) in simp_all)
  have beside_arena: "0 < nc \<Longrightarrow> pages_beside lplace len {nc..<?n} (arena args) (total_memory args)"
    using G(4) B(6) by (fastforce simp: pages_beside_def)
  have beside_flush: "pages_beside lplace len {nc..<?n} ?flush (cache_flush_size s)"
  proof (cases "cache_flush_size s = 0")
    case False
    have "cache_flush_size s \<le> flen" using place_flush_mmap(2)[OF G(1)] False by simp
    then show ?thesis using G(5) False by (fastforce simp: pages_beside_def)
  qed (simp add: pages_beside_def)
  have total: "128 \<le> elt_stride s * (2 * max total_par 64)"
  proof -
    have "1 * (2 * 64) \<le> elt_stride s * (2 * max total_par 64)" using stride by (intro mult_le_mono) auto
    then show ?thesis by simp
  qed
  have malloc: "malloc_serves (heap e) (max 48 (mem_size s))"
  proof -
    have "max 48 (mem_size s) \<le> max (mem_size s) (elt_stride s * (2 * max total_par 64))" using total by linarith
    then show ?thesis using res unfolding resources_def malloc_serves_def truncate_fields by (meson le_trans)
  qed
  have seed: "\<exists>r. seed_rng e t = Some r \<and> ok r" for t using res ok unfolding resources_def by blast
  have aff: "affinity_ok e ?g" "nr_threads ?g = ?n" using res by (simp_all add: resources_def)
  have same: "mem_size ?g = mem_size s" "offset ?g = offset s" by simp_all
  have par: "?par \<le> MAX_PARALLEL" using C(3) by (simp add: MAX_PARALLEL_def)
  have role: "\<And>t. t < ?n \<Longrightarrow> thread_role (run_test_type s) t = RUN_CHASE \<longleftrightarrow> t < nc"
    using thread_roles nc(1) by simp
  have ord: "set order \<subseteq> {..<?n}" "set order \<inter> {} = {}" "{} \<subseteq> {..<?n}" using order(2) by auto
  have B6: "0 < nc \<Longrightarrow> gen_permutation args = gen" "0 < nc \<Longrightarrow> chase_geometry args"
    "0 < nc \<Longrightarrow> ?par * nc \<le> nr_mixer_indices args" "0 < nc \<Longrightarrow> total_memory args = mem_size s"
    using B(6) nc(2) by simp_all
  obtain ts' m' where run: "start_all (ml_thread e ?g args) order ?ts m2 = Some (Inr (ts', m'))"
    "threads_inv args s ?flush nc lplace ({} \<union> set order) ts' m'"
    using all_threads_ready[OF B6(1,2) par B6(3) small chase(2,3) mem malloc B6(4) seed aff aff(2) same G(3,2) beside_arena beside_flush role order(1) ord inv] by blast
  have "multiload_setup e order s0 m = Some (Inr (args, ts', nc, ?n - nc, m'))"
    using settled B(1-4) starts run(1) by (simp add: multiload_setup_def)
  moreover have "cycles_ready args False ?par nc (cycle (ts' t)) t m'" if "t < nc" for t
  proof -
    have "{..<nc} \<subseteq> set order" unfolding order(2) using nc_le by (simp add: subset_iff)
    then have "set order \<inter> {..<nc} = {..<nc}" by (rule Int_absorb1)
    then show ?thesis
      using run(2) that by (intro cycles_readyI[where D = "\<Union>(thread_indices ?par ` {..<nc})"])
        (auto simp: threads_inv_def)
  qed
  moreover have "load_arena (ts' t) = lplace t + offset s \<and> ones_at m' (load_arena (ts' t)) (mem_size s)"
    if "nc \<le> t" "t < ?n" for t
    using run(2) that order(2) by (simp add: threads_inv_def)
  ultimately show ?thesis by blast
qed

end

subsection \<open>Properties\<close>


subsection \<open>Example\<close>






end
