(* ===== verification/Gpu_Memset.thy ===== *)
theory Gpu_Memset
  imports Memory
begin

text \<open>
  \<open>memset_kernel\<close> and its launch, which \<open>mstream.cpp\<close> and \<open>getmem.cpp\<close> both contain: every GPU
  thread fills one block of \<open>STRIDE\<close> bytes. The threads run in any order; thread \<open>k\<close> of the launch is
  thread \<open>k mod TPB\<close> of block \<open>k div TPB\<close>.
\<close>

subsection \<open>The code\<close>

definition TPB :: nat where
  "TPB = 256"

definition STRIDE :: nat where
  "STRIDE = 1024"

definition memset_length :: "nat \<Rightarrow> nat \<Rightarrow> nat" where
  "memset_length n tid =
     (if n \<le> mul64 STRIDE tid then 0
      else if n \<le> sub64 (mul64 STRIDE (add64 tid 1)) 1 then sub64 (mul64 STRIDE (add64 tid 1)) n
      else STRIDE)"

definition memset_kernel :: "nat \<Rightarrow> 8 word \<Rightarrow> nat \<Rightarrow> nat \<Rightarrow> mem \<Rightarrow> mem res" where
  "memset_kernel p x n tid m =
     for_range (memset_length n tid) (\<lambda>i m. write_bytes m (add64 p (add64 (mul64 STRIDE tid) i)) [x]) m"

text \<open>The number of blocks and the number of a thread have 32 bits.\<close>

definition launch_threads :: "nat \<Rightarrow> nat" where
  "launch_threads n = (add64 n (TPB - 1) div TPB) mod 2 ^ 32 * TPB"

definition gpu_memset :: "nat list \<Rightarrow> nat \<Rightarrow> 8 word \<Rightarrow> nat \<Rightarrow> mem \<Rightarrow> mem res" where
  "gpu_memset threads p x n m = for_each threads (\<lambda>k. memset_kernel p x n (k mod 2 ^ 32)) m"

subsection \<open>One thread\<close>

text \<open>The bytes thread \<open>id\<close> fills, and the bytes all of them fill.\<close>

definition filled :: "nat \<Rightarrow> nat \<Rightarrow> nat" where
  "filled n tid =
     (if tid < n div STRIDE then STRIDE
      else if tid = n div STRIDE \<and> n mod STRIDE \<noteq> 0 then STRIDE - n mod STRIDE else 0)"

definition filled_total :: "nat \<Rightarrow> nat" where
  "filled_total n =
     (if n mod STRIDE = 0 then n else n div STRIDE * STRIDE + (STRIDE - n mod STRIDE))"

lemma memset_length_eq:
  assumes "STRIDE * (tid + 1) < W64" and "n < W64"
  shows "memset_length n tid = filled n tid"
proof -
  define q where "q = n div STRIDE"
  define r where "r = n mod STRIDE"
  have n: "n = STRIDE * q + r" "r < STRIDE" by (simp_all add: q_def r_def STRIDE_def)
  have "STRIDE * tid < W64" "tid + 1 < W64" using assms(1) by (auto simp: STRIDE_def)
  then have w: "mul64 STRIDE tid = STRIDE * tid" "mul64 STRIDE (add64 tid 1) = STRIDE * (tid + 1)"
    "sub64 (STRIDE * (tid + 1)) 1 = STRIDE * (tid + 1) - 1"
    using assms(1) by (simp_all add: c_arith STRIDE_def)
  have s: "sub64 (STRIDE * (tid + 1)) n = STRIDE * (tid + 1) - n" if "n \<le> STRIDE * (tid + 1)"
    using that assms(1) by (rule sub64_exact)
  consider "tid < q" | "tid = q" | "q < tid" by linarith
  then show ?thesis
  proof cases
    case 1
    then have "STRIDE * (tid + 1) \<le> n" using n by (simp add: STRIDE_def)
    then show ?thesis
      unfolding memset_length_def w filled_def q_def[symmetric]
      using 1 s by (auto simp: STRIDE_def)
  next
    case 2
    then show ?thesis
      unfolding memset_length_def w filled_def q_def[symmetric] r_def[symmetric]
      using n s by (auto simp: STRIDE_def)
  next
    case 3
    then have "n \<le> STRIDE * tid" using n by (simp add: STRIDE_def)
    then show ?thesis
      unfolding memset_length_def w filled_def q_def[symmetric] using 3 by auto
  qed
qed

text \<open>A memory with the bytes of a set overwritten.\<close>

definition fill :: "nat set \<Rightarrow> 8 word \<Rightarrow> mem \<Rightarrow> mem" where
  "fill A x m = (\<lambda>a. if a \<in> A then Some x else m a)"

lemma fill_fill: "fill A x (fill B x m) = fill (B \<union> A) x m"
  by (auto simp: fill_def)

lemma fill_empty [simp]: "fill {} x m = m"
  by (simp add: fill_def)

lemma put_bytes_fill: "put_bytes m a (replicate k x) = fill {a..<a + k} x m"
  by (rule ext) (auto simp: put_bytes_def fill_def)

lemma byte_loop:
  assumes "mapped m a k" and "\<And>i. i < k \<Longrightarrow> f i = a + i"
  shows "for_range k (\<lambda>i m. write_bytes m (f i) [x]) m = Inr (fill {a..<a + k} x m)"
  using assms
proof (induction k)
  case (Suc k)
  have "mapped m a k" using Suc.prems(1) by (simp add: mapped_def)
  moreover have "fill {a..<a + k} x m (a + k) \<noteq> None"
    using Suc.prems(1) by (simp add: fill_def mapped_def)
  moreover have "(fill {a..<a + k} x m)(a + k \<mapsto> x) = fill {a..<a + Suc k} x m"
    by (auto simp: fill_def fun_eq_iff)
  ultimately show ?case using Suc by simp
qed simp

lemma memset_kernel_fill:
  assumes "p + STRIDE * (tid + 1) < W64" and "n < W64" and "mapped m (p + STRIDE * tid) (filled n tid)"
  shows "memset_kernel p x n tid m = Inr (fill {p + STRIDE * tid..<p + STRIDE * tid + filled n tid} x m)"
proof -
  have len: "memset_length n tid = filled n tid" using assms(1,2) by (intro memset_length_eq) simp_all
  have "filled n tid \<le> STRIDE" by (simp add: filled_def)
  then have "add64 p (add64 (mul64 STRIDE tid) i) = p + STRIDE * tid + i" if "i < filled n tid" for i
    using that assms(1) by (simp add: c_arith STRIDE_def)
  then show ?thesis
    unfolding memset_kernel_def len using assms(3) by (intro byte_loop)
qed

subsection \<open>All threads\<close>

lemma filled_union:
  assumes "n < STRIDE * T"
  shows "(\<Union>k<T. {p + STRIDE * k..<p + STRIDE * k + filled n k}) = {p..<p + filled_total n}"
    and "k < T \<Longrightarrow> 0 < filled n k \<Longrightarrow> STRIDE * k + filled n k \<le> filled_total n"
proof -
  define q where "q = n div STRIDE"
  define r where "r = n mod STRIDE"
  have n: "n = STRIDE * q + r" "r < STRIDE" by (simp_all add: q_def r_def STRIDE_def)
  have q: "q < T" using assms n by (simp add: STRIDE_def)
  have tot: "filled_total n = STRIDE * q + (if r = 0 then 0 else STRIDE - r)"
    using n by (simp add: filled_total_def q_def[symmetric] r_def[symmetric] mult.commute)
  have f: "filled n k = (if k < q then STRIDE else if k = q \<and> r \<noteq> 0 then STRIDE - r else 0)" for k
    by (simp add: filled_def q_def r_def)
  have le: "STRIDE * k + filled n k \<le> filled_total n" if "0 < filled n k" for k
  proof (cases "k < q")
    case True
    then have "STRIDE * (k + 1) \<le> STRIDE * q" by (intro mult_le_mono2) simp
    then show ?thesis using True by (simp add: f tot)
  next
    case False
    then show ?thesis using that by (auto simp: f tot split: if_splits)
  qed
  then show "k < T \<Longrightarrow> 0 < filled n k \<Longrightarrow> STRIDE * k + filled n k \<le> filled_total n" by blast
  show "(\<Union>k<T. {p + STRIDE * k..<p + STRIDE * k + filled n k}) = {p..<p + filled_total n}"
  proof (intro equalityI subsetI)
    fix a assume "a \<in> (\<Union>k<T. {p + STRIDE * k..<p + STRIDE * k + filled n k})"
    then obtain k where "p + STRIDE * k \<le> a" "a < p + STRIDE * k + filled n k" by auto
    moreover from this have "0 < filled n k" by linarith
    ultimately show "a \<in> {p..<p + filled_total n}" using le[of k] by auto
  next
    fix a assume a: "a \<in> {p..<p + filled_total n}"
    define k where "k = (a - p) div STRIDE"
    have k: "STRIDE * k \<le> a - p" "a - p < STRIDE * (k + 1)"
      by (auto simp: k_def STRIDE_def)
    have "k \<le> q" using a k(1) n(2) by (auto simp: tot STRIDE_def split: if_splits)
    moreover have "a - p < STRIDE * k + filled n k"
      using a k \<open>k \<le> q\<close> by (cases "k < q"; cases "r = 0") (auto simp: f tot STRIDE_def)
    ultimately show "a \<in> (\<Union>k<T. {p + STRIDE * k..<p + STRIDE * k + filled n k})"
      using a q k(1) by (intro UN_I[of k]) auto
  qed
qed

lemma gpu_memset_eq:
  assumes "0 < n" and "n < 2 ^ 31" and "p + STRIDE * 2 ^ 32 < W64"
    and "mset threads = mset [0..<launch_threads n]" and "mapped m p (filled_total n)"
  shows "gpu_memset threads p x n m = Inr (put_bytes m p (replicate (filled_total n) x))"
proof -
  have T: "launch_threads n = (n + 255) div 256 * 256"
    using assms(2) by (simp add: launch_threads_def TPB_def add64_def W64_def)
  then have small: "launch_threads n \<le> 2 ^ 32" and cover: "n \<le> launch_threads n"
    using assms(2) by (simp_all add: T)
  then have "n < STRIDE * launch_threads n" using assms(1) by (simp add: STRIDE_def)
  note U = filled_union(1)[OF this, of p] filled_union(2)[OF this]
  define rng where "rng k = {p + STRIDE * k..<p + STRIDE * k + filled n k}" for k
  have ids: "set threads = {..<launch_threads n}"
    using assms(4) by (metis mset_eq_setD set_upt atLeast0LessThan)
  have "gpu_memset ts p x n (fill A x m) = Inr (fill (A \<union> (\<Union>k\<in>set ts. rng k)) x m)"
    if "set ts \<subseteq> {..<launch_threads n}" for ts A
    using that
  proof (induction ts arbitrary: A)
    case (Cons k ts)
    then have k: "k < launch_threads n" "k < 2 ^ 32" using small by auto
    have "STRIDE * (k + 1) \<le> STRIDE * 2 ^ 32" using k(2) by (intro mult_le_mono2) simp
    then have w: "p + STRIDE * (k + 1) < W64" using assms(3) by linarith
    have nw: "n < W64" using assms(2) by (simp add: W64_def)
    have "mapped m (p + STRIDE * k) (filled n k)"
      using U(2)[of k] k(1) by (cases "filled n k = 0") (auto intro: mapped_sub[OF assms(5)] simp: mapped_def[of m _ 0])
    then have "mapped (fill A x m) (p + STRIDE * k) (filled n k)" by (simp add: mapped_def fill_def)
    from memset_kernel_fill[OF w nw this] have "memset_kernel p x n k (fill A x m) = Inr (fill (A \<union> rng k) x m)"
      by (simp add: fill_fill rng_def)
    then show ?case
      using Cons k(2) by (simp add: gpu_memset_def Un_assoc)
  qed (simp add: gpu_memset_def)
  from this[of threads "{}"] ids have "gpu_memset threads p x n m = Inr (fill (\<Union>k<launch_threads n. rng k) x m)"
    by simp
  then show ?thesis using U(1) by (simp add: rng_def put_bytes_fill)
qed

lemma filled_total_compare:
  "filled_total n = n \<longleftrightarrow> n mod STRIDE = 0 \<or> 2 * (n mod STRIDE) = STRIDE"
  "n < filled_total n \<longleftrightarrow> 0 < n mod STRIDE \<and> 2 * (n mod STRIDE) < STRIDE"
  "filled_total n < n \<longleftrightarrow> STRIDE < 2 * (n mod STRIDE)"
proof -
  define r where "r = n mod STRIDE"
  have n: "n = n div STRIDE * STRIDE + r" "r < STRIDE" by (simp_all add: r_def STRIDE_def)
  have "filled_total n = n div STRIDE * STRIDE + (if r = 0 then 0 else STRIDE - r)"
    using n(1) by (simp add: filled_total_def r_def[symmetric])
  then show "filled_total n = n \<longleftrightarrow> n mod STRIDE = 0 \<or> 2 * (n mod STRIDE) = STRIDE"
    "n < filled_total n \<longleftrightarrow> 0 < n mod STRIDE \<and> 2 * (n mod STRIDE) < STRIDE"
    "filled_total n < n \<longleftrightarrow> STRIDE < 2 * (n mod STRIDE)"
    unfolding r_def[symmetric] using n by (auto split: if_splits)
qed

text \<open>C31: For a size n from 1 to 2^31 - 1 the launch of memset_kernel, with its threads in
  any order, writes the value to the first filled_total n bytes and to no other: exactly the n
  bytes asked for when n mod 1024 is 0 or 512, more than n when it is from 1 to 511, and fewer
  than n when it is above 512, because the last block fills the bytes that are missing to 1024
  instead of those that are left.\<close>
theorem gpu_memset_fills:
  assumes "0 < n" and "n < 2 ^ 31" and "p + STRIDE * 2 ^ 32 < W64"
    and "mset threads = mset [0..<launch_threads n]" and "mapped m p (filled_total n)"
  shows "gpu_memset threads p x n m = Inr (put_bytes m p (replicate (filled_total n) x)) \<and>
    (filled_total n = n \<longleftrightarrow> n mod 1024 = 0 \<or> n mod 1024 = 512) \<and>
    (n < filled_total n \<longleftrightarrow> 0 < n mod 1024 \<and> n mod 1024 < 512) \<and>
    (filled_total n < n \<longleftrightarrow> 512 < n mod 1024)"
  using gpu_memset_eq[OF assms] by (auto simp: filled_total_compare) (auto simp: STRIDE_def)

text \<open>A request for one byte fills 1023.\<close>

theorem gpu_memset_fills_witness:
  "gpu_memset [0..<256] 0 7 1 (\<lambda>_. Some 0) = Inr (put_bytes (\<lambda>_. Some 0) 0 (replicate 1023 7))"
proof -
  have "launch_threads 1 = 256" "filled_total 1 = 1023"
    by (simp_all add: launch_threads_def filled_total_def TPB_def STRIDE_def add64_def W64_def)
  then show ?thesis
    using gpu_memset_fills[of 1 0 "[0..<256]" "\<lambda>_. Some 0" 7] by (simp add: STRIDE_def W64_def mapped_def)
qed

end
