(* ===== verification/Parallel_Loops.thy ===== *)
theory Parallel_Loops
  imports Prelude
begin

text \<open>
  Loops whose iterations run in any order: the parallel loops of OpenMP (locale \<open>parallel_for\<close>), and the
  launches of kernels on the GPU, whose threads each do at most one iteration (locale \<open>kernel_launch\<close>,
  which is a parallel loop over the threads).
\<close>

subsection \<open>Parallel loops\<close>

text \<open>
  \<open>mk C\<close> is the state in which the target of the loop holds \<open>C\<close>; iteration \<open>j\<close> replaces element \<open>j\<close>
  by \<open>f j\<close> of its old value.
\<close>

locale parallel_for =
  fixes n :: nat and body :: "nat \<Rightarrow> 's \<Rightarrow> 's res" and mk :: "(nat \<Rightarrow> 'e) \<Rightarrow> 's" and f :: "nat \<Rightarrow> 'e \<Rightarrow> 'e"
  assumes iteration: "j < n \<Longrightarrow> body j (mk C) = Inr (mk (C(j := f j (C j))))"
    and extensional: "(\<And>j. j < n \<Longrightarrow> C j = D j) \<Longrightarrow> mk C = mk D"
begin

lemma some_iterations:
  assumes "distinct js" and "set js \<subseteq> {..<n}"
  shows "for_each js body (mk C) = Inr (mk (\<lambda>j. if j \<in> set js then f j (C j) else C j))"
  using assms
proof (induction js arbitrary: C)
  case (Cons j js)
  then have "for_each (j # js) body (mk C) =
      Inr (mk (\<lambda>i. if i \<in> set js then f i ((C(j := f j (C j))) i) else (C(j := f j (C j))) i))"
    by (simp add: iteration)
  also have "(\<lambda>i. if i \<in> set js then f i ((C(j := f j (C j))) i) else (C(j := f j (C j))) i) =
      (\<lambda>i. if i \<in> set (j # js) then f i (C i) else C i)"
    using Cons.prems(1) by auto
  finally show ?case .
qed simp

lemma any_order:
  assumes "mset js = mset [0..<n]"
  shows "for_each js body (mk C) = Inr (mk (\<lambda>j. f j (C j)))"
proof -
  have js: "distinct js" "set js = {..<n}"
    using assms mset_eq_imp_distinct_iff[OF assms] mset_eq_setD[OF assms] by (auto simp: atLeast0LessThan)
  then have "for_each js body (mk C) = Inr (mk (\<lambda>j. if j \<in> set js then f j (C j) else C j))"
    by (intro some_iterations) simp_all
  moreover have "mk (\<lambda>j. if j \<in> set js then f j (C j) else C j) = mk (\<lambda>j. f j (C j))"
    using js(2) by (intro extensional) simp
  ultimately show ?thesis by simp
qed

end

subsection \<open>Kernel launches\<close>

text \<open>
  The number of a thread in a launch: \<open>threadIdx.x + blockIdx.x * blockDim.x\<close> is computed in
  \<open>unsigned int\<close>. Thread \<open>k\<close> of a launch with \<open>block_dim\<close> threads per block is thread \<open>k mod block_dim\<close>
  of block \<open>k div block_dim\<close>.
\<close>

definition thread_number :: "nat \<Rightarrow> nat \<Rightarrow> nat" where
  "thread_number block_dim k = (k mod block_dim + k div block_dim * block_dim) mod 2 ^ 32"

text \<open>The same kept in an \<open>int\<close>.\<close>

definition thread_index :: "nat \<Rightarrow> nat \<Rightarrow> int" where
  "thread_index block_dim k = signed_take_bit 31 (int (thread_number block_dim k))"

lemma thread_number_eq: "k < 2 ^ 32 \<Longrightarrow> thread_number block_dim k = k"
  by (simp add: thread_number_def)

lemma thread_index_eq: "k < 2 ^ 31 \<Longrightarrow> thread_index block_dim k = int k"
  by (simp add: thread_index_def thread_number_eq signed_take_bit_int_eq_self)

text \<open>
  Thread \<open>k\<close> replaces element \<open>k\<close>, if there is one, and otherwise does nothing; this holds for the first
  \<open>limit\<close> threads, whose numbers fit the type the kernel keeps them in.
\<close>

locale kernel_launch =
  fixes n limit :: nat and kernel :: "nat \<Rightarrow> 's \<Rightarrow> 's res" and mk :: "(nat \<Rightarrow> 'e) \<Rightarrow> 's"
    and f :: "nat \<Rightarrow> 'e \<Rightarrow> 'e"
  assumes active: "k < n \<Longrightarrow> kernel k (mk C) = Inr (mk (C(k := f k (C k))))"
    and idle: "n \<le> k \<Longrightarrow> k < limit \<Longrightarrow> kernel k (mk C) = Inr (mk C)"
    and same_elements: "(\<And>j. j < n \<Longrightarrow> C j = D j) \<Longrightarrow> mk C = mk D"
    and in_limit: "n \<le> limit"

sublocale kernel_launch \<subseteq> thread_loop: parallel_for limit kernel mk "\<lambda>j x. if j < n then f j x else x"
proof (unfold_locales, goal_cases)
  case (1 j C)
  then show ?case by (cases "j < n") (simp_all add: active idle)
next
  case (2 C D)
  have "C j = D j" if "j < n" for j using that in_limit by (intro 2) simp
  then show ?case by (rule same_elements)
qed

context kernel_launch begin

lemma launch:
  assumes "mset ks = mset [0..<threads]" and "n \<le> threads" and "threads \<le> limit"
  shows "for_each ks kernel (mk C) = Inr (mk (\<lambda>j. f j (C j)))"
proof -
  have ks: "distinct ks" "set ks = {..<threads}"
    using mset_eq_imp_distinct_iff[OF assms(1)] mset_eq_setD[OF assms(1)] by (auto simp: atLeast0LessThan)
  have "mk (\<lambda>j. if j \<in> set ks then (if j < n then f j (C j) else C j) else C j) = mk (\<lambda>j. f j (C j))"
    using ks(2) assms(2) by (intro same_elements) simp
  moreover have "set ks \<subseteq> {..<limit}" using ks(2) assms(3) by simp
  ultimately show ?thesis using thread_loop.some_iterations[OF ks(1), of C] by simp
qed

end

end
