(* ===== verification/Stream.thy ===== *)
theory Stream
  imports Gpu_Memset Floats Parallel_Loops
begin

text \<open>
  \<open>mstream.cpp\<close>, the STREAM benchmark on arrays of selectable allocators: the four kernels and the
  initialisation, whose iterations OpenMP may run in any order, the validation of the result, the
  calibration of the clock, and the summary of the times. The loops are interpretations of the locale
  \<open>parallel_for\<close>.
\<close>

subsection \<open>Arrays and kernels\<close>

record 'd stream_ops = "'d fp_ops" +
  fp_le :: "'d \<Rightarrow> 'd \<Rightarrow> bool"
  fp_neg :: "'d \<Rightarrow> 'd"
  fp_to_int :: "'d \<Rightarrow> int"

record 'd arrays =
  arr_a :: "'d list"
  arr_b :: "'d list"
  arr_c :: "'d list"

definition init_element :: "'d stream_ops \<Rightarrow> nat \<Rightarrow> 'd arrays \<Rightarrow> 'd arrays res" where
  "init_element fp j s =
     rbind (arr_set (arr_a s) j (fp_nat fp 1)) (\<lambda>a.
     rbind (arr_set (arr_b s) j (fp_nat fp 2)) (\<lambda>b.
     rbind (arr_set (arr_c s) j (fp_nat fp 0)) (\<lambda>c. Inr \<lparr>arr_a = a, arr_b = b, arr_c = c\<rparr>)))"

definition double_element :: "'d stream_ops \<Rightarrow> nat \<Rightarrow> 'd arrays \<Rightarrow> 'd arrays res" where
  "double_element fp j s =
     rbind (arr_get (arr_a s) j) (\<lambda>x.
     rbind (arr_set (arr_a s) j (fp_mul fp (fp_nat fp 2) x)) (\<lambda>a. Inr (s\<lparr>arr_a := a\<rparr>)))"

definition copy_element :: "nat \<Rightarrow> 'd arrays \<Rightarrow> 'd arrays res" where
  "copy_element j s =
     rbind (arr_get (arr_a s) j) (\<lambda>x. rbind (arr_set (arr_c s) j x) (\<lambda>c. Inr (s\<lparr>arr_c := c\<rparr>)))"

definition scale_element :: "'d stream_ops \<Rightarrow> 'd \<Rightarrow> nat \<Rightarrow> 'd arrays \<Rightarrow> 'd arrays res" where
  "scale_element fp scalar j s =
     rbind (arr_get (arr_c s) j) (\<lambda>x.
     rbind (arr_set (arr_b s) j (fp_mul fp scalar x)) (\<lambda>b. Inr (s\<lparr>arr_b := b\<rparr>)))"

definition add_element :: "'d stream_ops \<Rightarrow> nat \<Rightarrow> 'd arrays \<Rightarrow> 'd arrays res" where
  "add_element fp j s =
     rbind (arr_get (arr_a s) j) (\<lambda>x. rbind (arr_get (arr_b s) j) (\<lambda>y.
     rbind (arr_set (arr_c s) j (fp_add fp x y)) (\<lambda>c. Inr (s\<lparr>arr_c := c\<rparr>))))"

definition triad_line :: "'d stream_ops \<Rightarrow> 'd \<Rightarrow> nat \<Rightarrow> 'd arrays \<Rightarrow> 'd arrays res" where
  "triad_line fp scalar j s =
     rbind (arr_get (arr_b s) j) (\<lambda>x. rbind (arr_get (arr_c s) j) (\<lambda>y.
     rbind (arr_set (arr_a s) j (fp_add fp x (fp_mul fp scalar y))) (\<lambda>a. Inr (s\<lparr>arr_a := a\<rparr>))))"

text \<open>\<open>order i\<close> is the order in which the iterations of the \<open>i\<close>-th parallel loop happen to run.\<close>

definition stream_round :: "'d stream_ops \<Rightarrow> (nat \<Rightarrow> nat list) \<Rightarrow> nat \<Rightarrow> 'd arrays \<Rightarrow> 'd arrays res" where
  "stream_round fp order k s =
     (let scalar = fp_nat fp 3 in
      rbind (for_each (order (4 * k + 2)) copy_element s) (\<lambda>s.
      rbind (for_each (order (4 * k + 3)) (scale_element fp scalar) s) (\<lambda>s.
      rbind (for_each (order (4 * k + 4)) (add_element fp) s) (\<lambda>s.
      for_each (order (4 * k + 5)) (triad_line fp scalar) s))))"

definition stream_main :: "'d stream_ops \<Rightarrow> nat \<Rightarrow> (nat \<Rightarrow> nat list) \<Rightarrow> 'd arrays \<Rightarrow> 'd arrays res" where
  "stream_main fp ntimes order s =
     rbind (for_each (order 0) (init_element fp) s) (\<lambda>s.
     rbind (for_each (order 1) (double_element fp) s) (\<lambda>s.
     for_range ntimes (stream_round fp order) s))"

subsection \<open>checkSTREAMresults\<close>

definition expected_values :: "'d stream_ops \<Rightarrow> nat \<Rightarrow> 'd \<times> 'd \<times> 'd" where
  "expected_values fp ntimes =
     (let aj = fp_nat fp 1; bj = fp_nat fp 2; cj = fp_nat fp 0; aj = fp_mul fp (fp_nat fp 2) aj;
          scalar = fp_nat fp 3 in
      foldl (\<lambda>(aj, bj, cj) k.
          let cj = aj; bj = fp_mul fp scalar cj; cj = fp_add fp aj bj;
              aj = fp_add fp bj (fp_mul fp scalar cj) in (aj, bj, cj))
        (aj, bj, cj) [0..<ntimes])"

text \<open>The macro \<open>abs\<close>, and the constants \<open>1.e-6\<close> and \<open>1.e-13\<close> as correctly rounded quotients.\<close>

definition abs_macro :: "'d stream_ops \<Rightarrow> 'd \<Rightarrow> 'd" where
  "abs_macro fp x = (if fp_le fp (fp_nat fp 0) x then x else fp_neg fp x)"

definition epsilon_of :: "'d stream_ops \<Rightarrow> nat \<Rightarrow> 'd" where
  "epsilon_of fp sizeof_type =
     (if sizeof_type = 4 then fp_div fp (fp_nat fp 1) (fp_nat fp (10 ^ 6))
      else if sizeof_type = 8 then fp_div fp (fp_nat fp 1) (fp_nat fp (10 ^ 13))
      else fp_div fp (fp_nat fp 1) (fp_nat fp (10 ^ 6)))"

definition avg_error :: "'d stream_ops \<Rightarrow> nat \<Rightarrow> 'd list \<Rightarrow> 'd \<Rightarrow> 'd res" where
  "avg_error fp n xs aj =
     rbind (for_range n (\<lambda>j sum. rbind (arr_get xs j) (\<lambda>x.
          Inr (fp_add fp sum (abs_macro fp (fp_sub fp x aj))))) (fp_nat fp 0))
       (\<lambda>sum. Inr (fp_div fp sum (fp_nat fp n)))"

text \<open>Some number of bad elements when the average of the array is off.\<close>

definition check_array :: "'d stream_ops \<Rightarrow> 'd \<Rightarrow> nat \<Rightarrow> 'd list \<Rightarrow> 'd \<Rightarrow> nat option res" where
  "check_array fp eps n xs aj =
     rbind (avg_error fp n xs aj) (\<lambda>avg.
     if fp_less fp eps (abs_macro fp (fp_div fp avg aj)) then
       rbind (for_range n (\<lambda>j ierr. rbind (arr_get xs j) (\<lambda>x.
          Inr (if fp_less fp eps (abs_macro fp (fp_sub fp (fp_div fp x aj) (fp_nat fp 1)))
               then ierr + 1 else ierr))) 0) (\<lambda>ierr. Inr (Some ierr))
     else Inr None)"

definition checkSTREAMresults :: "'d stream_ops \<Rightarrow> nat \<Rightarrow> nat \<Rightarrow> nat \<Rightarrow> 'd arrays \<Rightarrow> nat option list res" where
  "checkSTREAMresults fp sizeof_type ntimes n s =
     (let (aj, bj, cj) = expected_values fp ntimes; eps = epsilon_of fp sizeof_type in
      rbind (check_array fp eps n (arr_a s) aj) (\<lambda>ea.
      rbind (check_array fp eps n (arr_b s) bj) (\<lambda>eb.
      rbind (check_array fp eps n (arr_c s) cj) (\<lambda>ec. Inr [ea, eb, ec]))))"

subsection \<open>The loops have independent iterations\<close>

definition arrays_of :: "nat \<Rightarrow> (nat \<Rightarrow> 'd) \<Rightarrow> (nat \<Rightarrow> 'd) \<Rightarrow> (nat \<Rightarrow> 'd) \<Rightarrow> 'd arrays" where
  "arrays_of n A B C = \<lparr>arr_a = map A [0..<n], arr_b = map B [0..<n], arr_c = map C [0..<n]\<rparr>"

lemma map_update: "j < n \<Longrightarrow> (map C [0..<n])[j := x] = map (C(j := x)) [0..<n]"
  by (rule nth_equalityI) (auto simp: nth_list_update)

lemma arrays_of_sel [simp]:
  "arr_a (arrays_of n A B C) = map A [0..<n]" "arr_b (arrays_of n A B C) = map B [0..<n]"
  "arr_c (arrays_of n A B C) = map C [0..<n]"
  by (simp_all add: arrays_of_def)

interpretation init: parallel_for n "init_element fp" "\<lambda>C. arrays_of n (fst \<circ> C) (fst \<circ> snd \<circ> C) (snd \<circ> snd \<circ> C)"
    "\<lambda>j _. (fp_nat fp 1, fp_nat fp 2, fp_nat fp 0)" for n fp
  by unfold_locales (auto simp: init_element_def arrays_of_def map_update fun_upd_def comp_def if_distrib intro!: nth_equalityI)

interpretation double: parallel_for n "double_element fp" "\<lambda>A. arrays_of n A B C"
    "\<lambda>j. fp_mul fp (fp_nat fp 2)" for n fp B C
  by unfold_locales (auto simp: double_element_def map_update arrays_of_def)

interpretation copy: parallel_for n copy_element "\<lambda>C. arrays_of n A B C" "\<lambda>j _. A j" for n A B
  by unfold_locales (auto simp: copy_element_def map_update arrays_of_def)

interpretation scale: parallel_for n "scale_element fp s" "\<lambda>B. arrays_of n A B C" "\<lambda>j _. fp_mul fp s (C j)" for n fp s A C
  by unfold_locales (auto simp: scale_element_def map_update arrays_of_def)

interpretation add: parallel_for n "add_element fp" "\<lambda>C. arrays_of n A B C" "\<lambda>j _. fp_add fp (A j) (B j)" for n fp A B
  by unfold_locales (auto simp: add_element_def map_update arrays_of_def)

interpretation triad: parallel_for n "triad_line fp s" "\<lambda>A. arrays_of n A B C"
    "\<lambda>j _. fp_add fp (B j) (fp_mul fp s (C j))" for n fp s B C
  by unfold_locales (auto simp: triad_line_def map_update arrays_of_def)

subsection \<open>The result of a run\<close>

definition expected_step :: "'d stream_ops \<Rightarrow> 'd \<times> 'd \<times> 'd \<Rightarrow> nat \<Rightarrow> 'd \<times> 'd \<times> 'd" where
  "expected_step fp v k =
     (let (aj, bj, cj) = v; scalar = fp_nat fp 3; cj = aj; bj = fp_mul fp scalar cj; cj = fp_add fp aj bj;
          aj = fp_add fp bj (fp_mul fp scalar cj) in (aj, bj, cj))"

lemma expected_values_eq:
  "expected_values fp ntimes =
     foldl (expected_step fp) (fp_mul fp (fp_nat fp 2) (fp_nat fp 1), fp_nat fp 2, fp_nat fp 0) [0..<ntimes]"
  by (simp add: expected_values_def expected_step_def Let_def case_prod_beta' cong: foldl_cong)

text \<open>All elements of an array are equal.\<close>

abbreviation uniform :: "nat \<Rightarrow> 'd \<times> 'd \<times> 'd \<Rightarrow> 'd arrays" where
  "uniform n v \<equiv> arrays_of n (\<lambda>_. fst v) (\<lambda>_. fst (snd v)) (\<lambda>_. snd (snd v))"

lemma stream_round_uniform:
  assumes "\<And>i. mset (order i) = mset [0..<n]"
  shows "stream_round fp order k (uniform n v) = Inr (uniform n (expected_step fp v k))"
  by (cases v) (simp add: stream_round_def expected_step_def Let_def assms copy.any_order scale.any_order
      add.any_order triad.any_order)

lemma stream_main_uniform:
  assumes "\<And>i. mset (order i) = mset [0..<n]"
    and "length (arr_a s) = n" "length (arr_b s) = n" "length (arr_c s) = n"
  shows "stream_main fp ntimes order s = Inr (uniform n (expected_values fp ntimes))"
proof -
  let ?C = "\<lambda>j. (arr_a s ! j, arr_b s ! j, arr_c s ! j)"
  have "s = arrays_of n (fst \<circ> ?C) (fst \<circ> snd \<circ> ?C) (snd \<circ> snd \<circ> ?C)"
    using assms(2-4) by (cases s) (auto simp: arrays_of_def intro!: nth_equalityI)
  then have "for_each (order 0) (init_element fp) s = Inr (uniform n (fp_nat fp 1, fp_nat fp 2, fp_nat fp 0))"
    using init.any_order[OF assms(1), of 0 fp ?C] by (simp add: comp_def)
  moreover
  have "for_range k (stream_round fp order) (uniform n v) =
      Inr (uniform n (foldl (expected_step fp) v [0..<k]))" for k v
    by (induction k) (simp_all add: stream_round_uniform[OF assms(1)])
  note this[of ntimes "(fp_mul fp (fp_nat fp 2) (fp_nat fp 1), fp_nat fp 2, fp_nat fp 0)"]
  ultimately show ?thesis
    by (simp add: stream_main_def double.any_order[OF assms(1)] expected_values_eq)
qed

text \<open>What the validation needs of the arithmetic: differences of equal values are 0, and so on.\<close>

definition exact_zero :: "'d stream_ops \<Rightarrow> nat \<Rightarrow> 'd \<Rightarrow> 'd \<Rightarrow> bool" where
  "exact_zero fp n eps x \<longleftrightarrow>
     (let zero = fp_nat fp 0 in
      fp_sub fp x x = zero \<and> fp_le fp zero zero \<and> fp_add fp zero zero = zero \<and>
      fp_div fp zero (fp_nat fp n) = zero \<and> fp_div fp zero x = zero \<and> \<not> fp_less fp eps zero)"

lemma check_array_ok:
  assumes "exact_zero fp n eps x"
  shows "check_array fp eps n (replicate n x) x = Inr None"
proof -
  let ?body = "\<lambda>j sum. rbind (arr_get (replicate n x) j) (\<lambda>y.
          Inr (fp_add fp sum (abs_macro fp (fp_sub fp y x))))"
  have "for_range k ?body (fp_nat fp 0) = Inr (fp_nat fp 0)" if "k \<le> n" for k
    using that assms by (induction k) (auto simp: exact_zero_def abs_macro_def Let_def)
  then have "avg_error fp n (replicate n x) x = Inr (fp_nat fp 0)"
    using assms by (simp add: avg_error_def exact_zero_def Let_def)
  then show ?thesis
    using assms by (simp add: check_array_def exact_zero_def abs_macro_def Let_def)
qed

text \<open>C29: Whatever the order in which the iterations of the parallel loops run, a run of
  STREAM on arrays of n elements leaves in every element of the three arrays the value that
  checkSTREAMresults computes on scalars, and the validation passes.\<close>
theorem stream_validates:
  assumes "\<forall>i. mset (order i) = mset [0..<n]"
    and "length (arr_a s) = n" and "length (arr_b s) = n" and "length (arr_c s) = n"
    and "expected_values fp ntimes = (aj, bj, cj)"
    and "\<forall>x\<in>{aj, bj, cj}. exact_zero fp n (epsilon_of fp 8) x"
  shows "\<exists>s'. stream_main fp ntimes order s = Inr s' \<and>
    arr_a s' = replicate n aj \<and> arr_b s' = replicate n bj \<and> arr_c s' = replicate n cj \<and>
    checkSTREAMresults fp 8 ntimes n s' = Inr [None, None, None]"
proof -
  have "stream_main fp ntimes order s = Inr (uniform n (aj, bj, cj))"
    using stream_main_uniform[of order n s fp ntimes] assms(1-5) by simp
  then show ?thesis
    using assms(5,6) by (simp add: checkSTREAMresults_def Let_def check_array_ok map_replicate_const)
qed

subsection \<open>Times\<close>

text \<open>\<open>clock i\<close> is the \<open>i\<close>-th reading of \<open>mysecond\<close> in the main loop.\<close>

definition stream_time :: "'d stream_ops \<Rightarrow> (nat \<Rightarrow> 'd) \<Rightarrow> nat \<Rightarrow> nat \<Rightarrow> 'd" where
  "stream_time fp clock j k = fp_sub fp (clock (8 * k + 2 * j + 1)) (clock (8 * k + 2 * j))"

record 'd stream_times =
  avgtime :: "'d list"
  maxtime :: "'d list"
  mintime :: "'d list"

definition FLT_MAX :: nat where
  "FLT_MAX = (2 ^ 24 - 1) * 2 ^ 104"

definition first_times :: "'d stream_ops \<Rightarrow> 'd stream_times" where
  "first_times fp =
     \<lparr>avgtime = replicate 4 (fp_nat fp 0), maxtime = replicate 4 (fp_nat fp 0),
      mintime = replicate 4 (fp_nat fp FLT_MAX)\<rparr>"

definition add_time :: "'d stream_ops \<Rightarrow> nat \<Rightarrow> 'd \<Rightarrow> 'd stream_times \<Rightarrow> 'd stream_times" where
  "add_time fp j t s =
     s\<lparr>avgtime := (avgtime s)[j := fp_add fp (avgtime s ! j) t],
       mintime := (mintime s)[j := (if fp_less fp (mintime s ! j) t then mintime s ! j else t)],
       maxtime := (maxtime s)[j := (if fp_less fp t (maxtime s ! j) then maxtime s ! j else t)]\<rparr>"

definition bytes_moved :: "nat \<Rightarrow> nat \<Rightarrow> nat list" where
  "bytes_moved sizeof_type n = [2 * sizeof_type * n, 2 * sizeof_type * n, 3 * sizeof_type * n, 3 * sizeof_type * n]"

text \<open>A line for each kernel: the rate, the average, the least and the greatest time.\<close>

definition stream_summary ::
    "'d stream_ops \<Rightarrow> nat \<Rightarrow> nat \<Rightarrow> nat \<Rightarrow> (nat \<Rightarrow> nat \<Rightarrow> 'd) \<Rightarrow> ('d \<times> 'd \<times> 'd \<times> 'd) list" where
  "stream_summary fp sizeof_type n ntimes tm =
     (let s = foldl (\<lambda>s k. foldl (\<lambda>s j. add_time fp j (tm j k) s) s [0..<4]) (first_times fp) [1..<ntimes] in
      map (\<lambda>j. (fp_div fp (fp_mul fp (fp_div fp (fp_nat fp 1) (fp_nat fp (10 ^ 6)))
                       (fp_nat fp (bytes_moved sizeof_type n ! j))) (mintime s ! j),
                 fp_div fp (avgtime s ! j) (fp_nat fp (ntimes - 1)), mintime s ! j, maxtime s ! j)) [0..<4])"

lemma add_times:
  "foldl (\<lambda>s k. foldl (\<lambda>s j. add_time fp j (tm j k) s) s [0..<4])
      \<lparr>avgtime = map A [0..<4], maxtime = map U [0..<4], mintime = map L [0..<4]\<rparr> ks =
    \<lparr>avgtime = map (\<lambda>j. foldl (\<lambda>a k. fp_add fp a (tm j k)) (A j) ks) [0..<4],
     maxtime = map (\<lambda>j. foldl (\<lambda>m k. if fp_less fp (tm j k) m then m else tm j k) (U j) ks) [0..<4],
     mintime = map (\<lambda>j. foldl (\<lambda>m k. if fp_less fp m (tm j k) then m else tm j k) (L j) ks) [0..<4]\<rparr>"
proof (induction ks arbitrary: A U L)
  case (Cons k ks)
  have four: "[0..<4] = [0, 1, 2, 3 :: nat]" by (simp add: upt_rec)
  have "foldl (\<lambda>s j. add_time fp j (tm j k) s)
      \<lparr>avgtime = map A [0..<4], maxtime = map U [0..<4], mintime = map L [0..<4]\<rparr> [0..<4] =
    \<lparr>avgtime = map (\<lambda>j. fp_add fp (A j) (tm j k)) [0..<4],
     maxtime = map (\<lambda>j. if fp_less fp (tm j k) (U j) then U j else tm j k) [0..<4],
     mintime = map (\<lambda>j. if fp_less fp (L j) (tm j k) then L j else tm j k) [0..<4]\<rparr>"
    by (simp add: four add_time_def)
  then show ?case using Cons by simp
qed simp

text \<open>The line STREAM prints for a kernel is made of its runs after the first: the bytes moved
  over their least time, and their average, least and greatest time.\<close>
theorem stream_summary_skips_first:
  assumes "j < 4"
  shows "stream_summary fp sizeof_type n ntimes tm ! j =
    (let ts = map (tm j) [1..<ntimes];
         least = foldl (\<lambda>m t. if fp_less fp m t then m else t) (fp_nat fp FLT_MAX) ts in
     (fp_div fp (fp_mul fp (fp_div fp (fp_nat fp 1) (fp_nat fp (10 ^ 6)))
         (fp_nat fp ((if j < 2 then 2 else 3) * sizeof_type * n))) least,
      fp_div fp (foldl (fp_add fp) (fp_nat fp 0) ts) (fp_nat fp (ntimes - 1)), least,
      foldl (\<lambda>m t. if fp_less fp t m then m else t) (fp_nat fp 0) ts))"
proof -
  have "first_times fp = \<lparr>avgtime = map (\<lambda>_. fp_nat fp 0) [0..<4], maxtime = map (\<lambda>_. fp_nat fp 0) [0..<4],
      mintime = map (\<lambda>_. fp_nat fp FLT_MAX) [0..<4]\<rparr>"
    by (simp add: first_times_def map_replicate_const)
  moreover have "bytes_moved sizeof_type n ! j = (if j < 2 then 2 else 3) * sizeof_type * n"
  proof -
    consider "j = 0" | "j = 1" | "j = 2" | "j = 3" using assms by linarith
    then show ?thesis by cases (simp_all add: bytes_moved_def)
  qed
  ultimately show ?thesis
    using assms by (simp add: stream_summary_def add_times Let_def foldl_map del: upt_Suc cong: if_cong)
qed

subsection \<open>Allocation\<close>

text \<open>\<open>alloc method i s\<close> is the \<open>i\<close>-th allocation, None when it fails; \<open>malloc\<close> is not checked.\<close>

definition stream_methods :: "string list" where
  "stream_methods = [''malloc'', ''hipMalloc'', ''hipHostMalloc'', ''hipMallocManaged'', ''posix_memalign'']"

definition stream_allocate :: "(string \<Rightarrow> nat \<Rightarrow> nat \<Rightarrow> nat option) \<Rightarrow> string list \<Rightarrow> nat \<Rightarrow> nat list res" where
  "stream_allocate alloc argv s =
     (if length argv \<noteq> 2 then Inl (Exit 1)
      else let how = argv ! 1 in
        if how \<notin> set stream_methods then Inl (Exit 1)
        else for_range 3 (\<lambda>i ps.
          case alloc how i s of
            Some p \<Rightarrow> Inr (ps @ [p])
          | None \<Rightarrow> if how = ''malloc'' then Inr (ps @ [0]) else Inl AssertFail) [])"

subsection \<open>The granularity of the clock\<close>

text \<open>
  \<open>reads\<close> are the values the clock gives from here on, one for each call; None when they run out
  while the code still waits.
\<close>

definition microsecond :: "'d stream_ops \<Rightarrow> 'd" where
  "microsecond fp = fp_div fp (fp_nat fp 1) (fp_nat fp (10 ^ 6))"

fun wait_tick :: "'d stream_ops \<Rightarrow> 'd \<Rightarrow> 'd list \<Rightarrow> ('d \<times> 'd list) option" where
  "wait_tick fp t1 [] = None"
| "wait_tick fp t1 (t2 # reads) =
     (if fp_less fp (fp_sub fp t2 t1) (microsecond fp) then wait_tick fp t1 reads else Some (t2, reads))"

fun find_times :: "'d stream_ops \<Rightarrow> nat \<Rightarrow> 'd list \<Rightarrow> 'd list option" where
  "find_times fp 0 reads = Some []"
| "find_times fp (Suc i) reads =
     (case reads of
        [] \<Rightarrow> None
      | t1 # reads \<Rightarrow>
          (case wait_tick fp t1 reads of
             None \<Rightarrow> None
           | Some (t2, reads) \<Rightarrow> map_option (\<lambda>ts. t2 # ts) (find_times fp i reads)))"

definition checktick :: "'d stream_ops \<Rightarrow> 'd list \<Rightarrow> int option" where
  "checktick fp reads =
     map_option (\<lambda>timesfound.
         foldl (\<lambda>min_delta i.
             let d = fp_to_int fp (fp_mul fp (fp_nat fp (10 ^ 6))
                       (fp_sub fp (timesfound ! i) (timesfound ! (i - 1)))) in
             min min_delta (max d 0)) 1000000 [1..<20])
       (find_times fp 20 reads)"

text \<open>A clock that does not go back, and subtraction on its values.\<close>

definition clock_ok :: "'d stream_ops \<Rightarrow> 'd list \<Rightarrow> bool" where
  "clock_ok fp reads \<longleftrightarrow>
     sorted_wrt (\<lambda>t u. \<forall>v\<in>set reads. \<not> fp_less fp (fp_sub fp v u) (microsecond fp) \<longrightarrow>
         \<not> fp_less fp (fp_sub fp v t) (microsecond fp)) reads \<and>
     (\<forall>t\<in>set reads. \<forall>u\<in>set reads. \<not> fp_less fp (fp_sub fp t u) (microsecond fp) \<longrightarrow>
         1 \<le> fp_to_int fp (fp_mul fp (fp_nat fp (10 ^ 6)) (fp_sub fp t u)))"

lemma wait_tick_Some:
  assumes "wait_tick fp t1 reads = Some (t2, rest)"
  shows "\<exists>skipped. reads = skipped @ t2 # rest \<and> \<not> fp_less fp (fp_sub fp t2 t1) (microsecond fp)"
  using assms
proof (induction reads)
  case (Cons t reads)
  show ?case
  proof (cases "fp_less fp (fp_sub fp t t1) (microsecond fp)")
    case True
    then have "wait_tick fp t1 reads = Some (t2, rest)" using Cons.prems by simp
    from Cons.IH[OF this] obtain skipped where
      "reads = skipped @ t2 # rest" "\<not> fp_less fp (fp_sub fp t2 t1) (microsecond fp)" by blast
    then show ?thesis by (intro exI[of _ "t # skipped"]) simp
  next
    case False
    then show ?thesis using Cons.prems by (intro exI[of _ "[]"]) simp
  qed
qed simp

text \<open>Neighbouring times found are a microsecond apart.\<close>

lemma find_times_apart:
  assumes "find_times fp k reads = Some ts" and "t0 # reads = drop i all" and "clock_ok fp all"
  shows "length ts = k \<and> set ts \<subseteq> set all \<and>
    (\<forall>j<k. \<not> fp_less fp (fp_sub fp (ts ! j) ((t0 # ts) ! j)) (microsecond fp))"
  using assms(1,2)
proof (induction k arbitrary: reads ts t0 i)
  case (Suc k)
  then obtain t1 reads1 t2 reads2 ts2 where R: "reads = t1 # reads1" "wait_tick fp t1 reads1 = Some (t2, reads2)"
    "find_times fp k reads2 = Some ts2" "ts = t2 # ts2"
    by (auto split: list.splits option.splits)
  from wait_tick_Some[OF R(2)] obtain sk where
    sk: "reads1 = sk @ t2 # reads2" "\<not> fp_less fp (fp_sub fp t2 t1) (microsecond fp)" by blast
  have all: "drop i all = t0 # t1 # sk @ t2 # reads2" using Suc.prems(2) R(1) sk(1) by simp
  have len: "length all = i + length (t0 # t1 # sk @ t2 # reads2)"
    using arg_cong[OF all, of length] by (cases "i \<le> length all") auto
  have "drop (i + 2 + length sk) all = drop (2 + length sk) (drop i all)" by (simp add: add.commute add.left_commute)
  then have rest: "t2 # reads2 = drop (i + 2 + length sk) all" unfolding all by simp
  have in_all: "set (drop i all) \<subseteq> set all" by (rule set_drop_subset)
  then have t2: "t2 \<in> set all" unfolding all by auto
  have "sorted_wrt (\<lambda>t u. \<forall>v\<in>set all. \<not> fp_less fp (fp_sub fp v u) (microsecond fp) \<longrightarrow>
         \<not> fp_less fp (fp_sub fp v t) (microsecond fp)) (drop i all)"
    using assms(3) by (auto simp: clock_ok_def intro: sorted_wrt_drop)
  then have "\<not> fp_less fp (fp_sub fp t2 t0) (microsecond fp)"
    unfolding all using t2 sk(2) by auto
  moreover note Suc.IH[OF R(3) rest]
  ultimately show ?case using t2 R(4) by (auto simp: nth_Cons' less_Suc_eq_0_disj split: if_splits)
qed simp

text \<open>Checktick, when it returns, returns at least 1 (and at most a second), with any clock that does not go back (start is an earlier reading). The message about a granularity below one microsecond is never printed.\<close>
theorem checktick_positive:
  assumes "clock_ok fp (start # reads)"
  shows "case checktick fp reads of None \<Rightarrow> True | Some quantum \<Rightarrow> 1 \<le> quantum \<and> quantum \<le> 1000000"
proof (cases "find_times fp 20 reads")
  case (Some ts)
  define d where "d i = fp_to_int fp (fp_mul fp (fp_nat fp (10 ^ 6)) (fp_sub fp (ts ! i) (ts ! (i - 1))))" for i
  have F: "length ts = 20" "set ts \<subseteq> set (start # reads)"
    "\<forall>j<20. \<not> fp_less fp (fp_sub fp (ts ! j) ((start # ts) ! j)) (microsecond fp)"
    using find_times_apart[OF Some _ assms, of start 0] by simp_all
  have d: "1 \<le> d i" if "i \<in> set [1..<20]" for i
  proof -
    have i: "0 < i" "i < 20" using that by auto
    then have "\<not> fp_less fp (fp_sub fp (ts ! i) (ts ! (i - 1))) (microsecond fp)"
      using F(3) by (metis nth_Cons_pos)
    moreover have "ts ! i \<in> set (start # reads)" "ts ! (i - 1) \<in> set (start # reads)"
      using F(1,2) i nth_mem by (metis less_imp_diff_less subsetD)+
    ultimately show ?thesis using assms unfolding clock_ok_def d_def by blast
  qed
  have "1 \<le> foldl (\<lambda>m i. min m (max (d i) 0)) q is \<and> foldl (\<lambda>m i. min m (max (d i) 0)) q is \<le> q"
    if "1 \<le> q" "\<forall>i\<in>set is. 1 \<le> d i" for q "is"
    using that
  proof (induction "is" arbitrary: q)
    case (Cons i js)
    then show ?case using Cons.IH[of "min q (max (d i) 0)"] by auto
  qed simp
  from this[of 1000000 "[1..<20]"] d Some show ?thesis by (simp add: checktick_def d_def Let_def)
qed (simp add: checktick_def)

text \<open>C37: When the clock advances by a microsecond within w readings, checktick returns
  after at most 20 (w + 1) readings.\<close>
theorem checktick_returns:
  assumes "\<forall>i. i + w < length reads \<longrightarrow> \<not> fp_less fp (fp_sub fp (reads ! (i + w)) (reads ! i)) (microsecond fp)"
    and "0 < w" and "20 * (w + 1) \<le> length reads"
  shows "checktick fp reads \<noteq> None"
proof -
  have wait: "\<exists>t2 rest. wait_tick fp t rs = Some (t2, rest) \<and> rest = drop (length rs - length rest) rs \<and>
      length rs \<le> length rest + Suc k \<and> length rest < length rs"
    if "k < length rs" "\<not> fp_less fp (fp_sub fp (rs ! k) t) (microsecond fp)" for k rs t
    using that
  proof (induction rs arbitrary: k)
    case (Cons r rs)
    show ?case
    proof (cases "fp_less fp (fp_sub fp r t) (microsecond fp)")
      case True
      then obtain k' where k': "k = Suc k'" using Cons.prems(2) by (cases k) auto
      then obtain t2 rest where R: "wait_tick fp t rs = Some (t2, rest)" "rest = drop (length rs - length rest) rs"
        "length rs \<le> length rest + Suc k'" "length rest < length rs"
        using Cons.IH[of k'] Cons.prems by auto
      have "Suc (length rs) - length rest = Suc (length rs - length rest)" using R(4) by simp
      then show ?thesis using True R k' by (intro exI[of _ t2] exI[of _ rest]) simp
    qed simp
  qed simp
  have "find_times fp k (drop i reads) \<noteq> None" if "i + k * (w + 1) \<le> length reads" for k i
    using that
  proof (induction k arbitrary: i)
    case (Suc k)
    then have i: "i + w < length reads" by simp
    then have split: "drop i reads = reads ! i # drop (Suc i) reads" by (simp add: Cons_nth_drop_Suc)
    have w: "w - 1 < length (drop (Suc i) reads)" using assms(2) i by simp
    have "drop (Suc i) reads ! (w - 1) = reads ! (i + w)" using assms(2) i by simp
    then have "\<not> fp_less fp (fp_sub fp (drop (Suc i) reads ! (w - 1)) (reads ! i)) (microsecond fp)"
      using assms(1) i by simp
    from wait[OF w this] assms(2) obtain t2 rest where R: "wait_tick fp (reads ! i) (drop (Suc i) reads) = Some (t2, rest)"
      "rest = drop (length (drop (Suc i) reads) - length rest) (drop (Suc i) reads)"
      "length (drop (Suc i) reads) \<le> length rest + w"
      by auto
    define i' where "i' = Suc i + (length (drop (Suc i) reads) - length rest)"
    have rest: "rest = drop i' reads" using R(2) by (simp add: i'_def add.commute)
    have "i' + k * (w + 1) \<le> length reads" using Suc.prems R(3) by (auto simp: i'_def)
    from Suc.IH[OF this] show ?case using split R(1) by (simp add: rest[symmetric])
  qed simp
  from this[of 0 20] show ?thesis using assms(3) by (simp add: checktick_def)
qed

subsection \<open>Examples\<close>

definition nat_stream_ops :: "nat stream_ops" where
  "nat_stream_ops = \<lparr>fp_nat = (\<lambda>n. n), fp_inf = 10 ^ 12, fp_add = (+), fp_sub = (-), fp_mul = (*), fp_div = (div),
     fp_less = (<), fp_log = (\<lambda>x. x), fp_exp = (\<lambda>x. x), fp_le = (\<le>), fp_neg = (\<lambda>x. x), fp_to_int = int\<rparr>"

theorem stream_validates_witness:
  "\<exists>s'. stream_main nat_stream_ops 1 (\<lambda>i. [1, 0]) \<lparr>arr_a = [7, 7], arr_b = [7, 7], arr_c = [7, 7]\<rparr> = Inr s' \<and>
    arr_a s' = replicate 2 30 \<and> arr_b s' = replicate 2 6 \<and> arr_c s' = replicate 2 8 \<and>
    checkSTREAMresults nat_stream_ops 8 1 2 s' = Inr [None, None, None]"
  by (rule stream_validates)
    (auto simp: nat_stream_ops_def expected_values_def exact_zero_def upt_rec)

theorem stream_summary_skips_first_witness:
  "stream_summary nat_stream_ops 8 10 3 (\<lambda>j k. 5 + k) ! 0 = (0, 6, 6, 7)"
  using stream_summary_skips_first[of 0 nat_stream_ops 8 10 3 "\<lambda>j k. 5 + k"]
  by (simp add: nat_stream_ops_def FLT_MAX_def upt_rec)

theorem checktick_positive_witness:
  "case checktick (nat_stream_ops\<lparr>fp_div := (\<lambda>x y. if y = 10 ^ 6 then 1 else x div y)\<rparr>) [0..<40] of
    None \<Rightarrow> True | Some quantum \<Rightarrow> 1 \<le> quantum \<and> quantum \<le> 1000000"
proof (rule checktick_positive[of _ 0])
  have "sorted_wrt (\<le>) (0 # [0..<40])" by simp
  then have "sorted_wrt (\<lambda>t u. \<forall>v\<in>set (0 # [0..<40]). \<not> v - u < 1 \<longrightarrow> \<not> v - t < 1) (0 # [0..<40])"
    by (rule sorted_wrt_mono_rel[rotated]) auto
  then show "clock_ok (nat_stream_ops\<lparr>fp_div := (\<lambda>x y. if y = 10 ^ 6 then 1 else x div y)\<rparr>) (0 # [0..<40])"
    by (simp add: clock_ok_def nat_stream_ops_def microsecond_def del: upt_Suc)
qed

theorem checktick_returns_witness:
  "checktick (nat_stream_ops\<lparr>fp_div := (\<lambda>x y. if y = 10 ^ 6 then 1 else x div y)\<rparr>) [0..<40] \<noteq> None"
  by (rule checktick_returns[of 1]) (auto simp: nat_stream_ops_def microsecond_def)

end
