(* ===== verification/Getmem.thy ===== *)
theory Getmem
  imports Options Gpu_Memset
begin

text \<open>
  \<open>getmem.cpp\<close>: it allocates a block in one of several ways, touches it, and prints the amounts of
  memory the system reports in between. Modelled are the reader of the lines of \<open>/proc\<close>, the search
  for the node the process is bound to, the loop that writes the file for \<open>mmap\<close>, and the order of
  the actions of \<open>main\<close>. What the system calls and the files answer is a parameter; \<open>abort\<close> is
  \<open>AssertFail\<close>.
\<close>

subsection \<open>Lines of /proc\<close>

definition prefix :: "string \<Rightarrow> string \<Rightarrow> bool" where
  "prefix str pre = strncmp_eq pre str (length pre)"

text \<open>\<open>while (!isspace(*p)) p++\<close> runs past the end of a line without a space.\<close>

fun skip_word :: "string \<Rightarrow> string res" where
  "skip_word [] = Inl OutOfBounds"
| "skip_word (c # p) = (if is_space c then Inr (c # p) else skip_word p)"

text \<open>\<open>strtoul(p, &end, 10)\<close>; \<open>end\<close> is never NULL.\<close>

definition strtoul10 :: "string \<Rightarrow> nat" where
  "strtoul10 str =
     (let (neg, s) = number_sign (dropWhile is_space str); ds = takeWhile (is_digit 10) s;
          v = digits_value 10 ds in
      if ds = [] then 0 else if W64 \<le> v then W64 - 1 else if neg then sub64 0 v else v)"

definition proc_line :: "string \<Rightarrow> nat res" where
  "proc_line line =
     rbind (skip_word line) (\<lambda>p. Inr (mul64 (strtoul10 (dropWhile is_space p)) 1024))"

text \<open>The name under which a line of \<open>/proc/meminfo\<close> is printed.\<close>

definition meminfo_name :: "string \<Rightarrow> string option" where
  "meminfo_name line =
     (if prefix line ''MemFree:'' then Some ''MemFree''
      else if prefix line ''MemAvailable:'' then Some ''MemAvailable'' else None)"

definition smaps_name :: "string \<Rightarrow> string option" where
  "smaps_name line = (if prefix line ''Rss:'' then Some ''Rss'' else None)"

definition proc_lines ::
    "(string \<Rightarrow> string option) \<Rightarrow> string list \<Rightarrow> (string \<times> nat) list \<Rightarrow> (string \<times> nat) list res" where
  "proc_lines named lines out =
     for_each lines (\<lambda>line out.
       case named line of
         None \<Rightarrow> Inr out
       | Some label \<Rightarrow> rbind (proc_line line) (\<lambda>v. Inr (out @ [(label, v)]))) out"

subsection \<open>The node of the process\<close>

text \<open>\<open>numa_bitmask_weight\<close>, and the loop over the nodes, which has no end of its own.\<close>

definition mask_weight :: "nat \<Rightarrow> (nat \<Rightarrow> bool) \<Rightarrow> nat" where
  "mask_weight nodes isset = length (filter isset [0..<nodes])"

fun find_node :: "(nat \<Rightarrow> bool) \<Rightarrow> nat \<Rightarrow> nat \<Rightarrow> nat option" where
  "find_node isset 0 node = None"
| "find_node isset (Suc k) node = (if isset node then Some node else find_node isset k (node + 1))"

record system =
  page_bytes :: nat
  hip_free :: nat
  meminfo :: "string list option"
  statm :: "(nat \<times> nat) option"
  smaps_rollup :: "string list option"
  mask_nodes :: nat
  membind :: "nat \<Rightarrow> bool"
  hip_device :: nat
  node_free :: "nat \<Rightarrow> nat option"

text \<open>None when the search for the node would run on.\<close>

definition numa_part :: "system \<Rightarrow> (string \<times> nat) list \<Rightarrow> (string \<times> nat) list res option" where
  "numa_part sys out =
     (if mask_weight (mask_nodes sys) (membind sys) = 1 then
        (case find_node (membind sys) (mask_nodes sys) 0 of
           None \<Rightarrow> None
         | Some node \<Rightarrow> Some (
             if hip_device sys \<noteq> node then Inl (Exit 1)
             else case node_free sys node of
               None \<Rightarrow> Inl AssertFail
             | Some bytes \<Rightarrow> Inr (out @ [(''numa_free'', bytes)])))
      else Some (Inr out))"

definition measure_memory :: "system \<Rightarrow> (string \<times> nat) list res option" where
  "measure_memory sys =
     (let r = rbind (case meminfo sys of None \<Rightarrow> Inl AssertFail
                     | Some lines \<Rightarrow> proc_lines meminfo_name lines [(''hipMemGetInfo'', hip_free sys)]) (\<lambda>out.
              rbind (case statm sys of None \<Rightarrow> Inl AssertFail
                     | Some (vm_size, vm_rss) \<Rightarrow>
                         Inr (out @ [(''VmSize'', mul64 vm_size (page_bytes sys)),
                                     (''VmRss'', mul64 vm_rss (page_bytes sys))])) (\<lambda>out.
              case smaps_rollup sys of None \<Rightarrow> Inl AssertFail
              | Some lines \<Rightarrow> proc_lines smaps_name lines out)) in
      case r of Inl e \<Rightarrow> Some (Inl e) | Inr out \<Rightarrow> numa_part sys out)"

subsection \<open>The file for mmap\<close>

text \<open>
  \<open>rs\<close> are the results of the calls of \<open>write\<close>; the result is the list of requests (offset in the
  buffer and length) and what is left to write. \<open>m < 0\<close> never holds, as \<open>m\<close> is a \<open>size_t\<close>.
\<close>

fun write_loop :: "nat \<Rightarrow> nat \<Rightarrow> int list \<Rightarrow> (int \<times> nat) list \<times> nat" where
  "write_loop len n [] = ([], n)"
| "write_loop len n (r # rs) =
     (if n = 0 then ([], 0)
      else let m = nat (r mod 2 ^ 64); (reqs, left) = write_loop len (sub64 n m) rs in
        ((int len - int n, n) # reqs, left))"

subsection \<open>main\<close>

record allocator =
  alloc_name :: string
  touch_write :: bool

definition getmem_allocs :: "allocator list" where
  "getmem_allocs =
     [\<lparr>alloc_name = ''malloc'', touch_write = True\<rparr>,
      \<lparr>alloc_name = ''mmap_anon'', touch_write = True\<rparr>,
      \<lparr>alloc_name = ''mmap_file'', touch_write = False\<rparr>,
      \<lparr>alloc_name = ''hipMalloc'', touch_write = True\<rparr>,
      \<lparr>alloc_name = ''hipHostMalloc'', touch_write = True\<rparr>,
      \<lparr>alloc_name = ''hipMallocManaged'', touch_write = True\<rparr>,
      \<lparr>alloc_name = ''alloca'', touch_write = True\<rparr>,
      \<lparr>alloc_name = ''mprotect_test'', touch_write = True\<rparr>]"

datatype getmem_action = Write_file | Measure | Allocate string | Cpu_write | Cpu_read | Gpu_write

text \<open>The actions up to the end of the program, and how it ends early; \<open>gpu_read\<close> exits.\<close>

definition getmem_main :: "string list \<Rightarrow> getmem_action list \<times> failure option" where
  "getmem_main argv =
     (let touch_cpu = (2 < length argv \<and> argv ! 2 = ''cpu'');
          touch_gpu = (2 < length argv \<and> argv ! 2 = ''gpu'') in
      if length argv \<le> 1 then ([Measure], None)
      else case find (\<lambda>a. alloc_name a = argv ! 1) getmem_allocs of
        None \<Rightarrow> ([], Some AssertFail)
      | Some a \<Rightarrow>
          let acts = (if alloc_name a = ''mmap_file'' then [Write_file] else []) @
                [Measure, Allocate (alloc_name a), Measure] @
                (if touch_cpu then [if touch_write a then Cpu_write else Cpu_read, Measure] else []) in
          if touch_gpu then
            (if touch_write a then (acts @ [Gpu_write, Measure], None) else (acts, Some (Exit 1)))
          else (acts, None))"

subsection \<open>Reading back a line\<close>

lemma strncmp_eq_prefix: "strncmp_eq pre (pre @ s) (length pre)"
  by (induction pre) auto

lemma skip_word_append:
  "\<forall>c\<in>set w. \<not> is_space c \<Longrightarrow> is_space c \<Longrightarrow> skip_word (w @ c # s) = Inr (c # s)"
  by (induction w) auto

lemma strtoul10_decimal:
  assumes "ends_number rest"
  shows "strtoul10 (numeral_string 10 n @ rest) = min n (W64 - 1)"
proof -
  obtain d s where ns: "numeral_string 10 n = digit_char d # s" "d < 10"
    by (rule numeral_string_hd[of 10 n]) auto
  have start: "\<not> is_space (digit_char d)" "digit_char d \<noteq> CHR ''-''" "digit_char d \<noteq> CHR ''+''"
    using digit_char_not[of d] ns(2) by simp_all
  have "\<forall>c\<in>set (numeral_string 10 n). is_digit 10 c"
    using numeral_string_digits(2)[of 10 n] is_digit_char[of _ 10] by fastforce
  then have "takeWhile (is_digit 10) (numeral_string 10 n @ rest) = numeral_string 10 n"
    using ends_number_scan(1)[OF assms, of 10] by (simp add: takeWhile_append)
  then have tw: "takeWhile (is_digit 10) (digit_char d # s @ rest) = numeral_string 10 n"
    using ns(1) by simp
  have "digits_value 10 (numeral_string 10 n) = n" "numeral_string 10 n \<noteq> []"
    using numeral_string_digits[of 10 n] by simp_all
  then show ?thesis
    unfolding strtoul10_def using start tw ns(1) by (auto simp: min_def)
qed

text \<open>A line of /proc/meminfo as the kernel writes it, the name, spaces, a decimal number and
  the unit kB, is read back as the number times 1024 (modulo 2^64).\<close>
theorem proc_line_roundtrip:
  assumes "label \<in> {''MemFree:'', ''MemAvailable:'', ''Rss:''}" and "0 < k" and "n < W64"
  shows "proc_line (label @ replicate k CHR '' '' @ numeral_string 10 n @ '' kB'' @ [CHR 0x0A]) =
    Inr (n * 1024 mod W64)"
proof -
  let ?rest = "'' kB'' @ [CHR 0x0A]"
  have sp: "is_space CHR '' ''" by (simp add: is_space_def)
  obtain k' where k': "k = Suc k'" using assms(2) by (cases k) auto
  have label: "\<forall>c\<in>set label. \<not> is_space c" using assms(1) by (auto simp: is_space_def)
  have "skip_word (label @ replicate k CHR '' '' @ numeral_string 10 n @ ?rest) =
      Inr (replicate k CHR '' '' @ numeral_string 10 n @ ?rest)"
    using skip_word_append[OF label sp] by (simp add: k')
  moreover have "dropWhile is_space (replicate k CHR '' '' @ numeral_string 10 n @ ?rest) = numeral_string 10 n @ ?rest"
  proof -
    obtain d s where "numeral_string 10 n = digit_char d # s" "d < 10"
      by (rule numeral_string_hd[of 10 n]) auto
    then have "dropWhile is_space (numeral_string 10 n @ ?rest) = numeral_string 10 n @ ?rest"
      using digit_char_not(1)[of d] by simp
    then show ?thesis using sp by (induction k) auto
  qed
  moreover have "ends_number ?rest" by (simp add: ends_number_def is_digit_def digit_val_def)
  from strtoul10_decimal[OF this, of n]
  have "strtoul10 (numeral_string 10 n @ ?rest) = n" using assms(3) by simp
  ultimately show ?thesis by (simp add: proc_line_def mul64_def)
qed

lemma find_node_eq:
  "find_node isset k i = (case filter isset [i..<i + k] of [] \<Rightarrow> None | c # _ \<Rightarrow> Some c)"
proof (induction k arbitrary: i)
  case (Suc k)
  have "[i..<i + Suc k] = i # [Suc i..<Suc i + k]" by (simp add: upt_conv_Cons)
  then show ?case using Suc[of "Suc i"] by simp
qed simp

text \<open>The search for the node ends, as it is only made when a bit is set.\<close>

lemma numa_part_returns: "numa_part sys out \<noteq> None"
  by (auto simp: numa_part_def mask_weight_def find_node_eq split: list.splits option.splits)

subsection \<open>Writing the file\<close>

lemma write_loop_parts:
  assumes "\<forall>r\<in>set rs. 0 < r" and "sum_list rs = int n" and "n \<le> length buf" and "length buf < W64"
  shows "\<exists>reqs. write_loop (length buf) n rs = (reqs, 0) \<and>
    concat (map2 (\<lambda>(off, cnt) r. take (nat r) (drop (nat off) buf)) reqs rs) = drop (length buf - n) buf"
  using assms(1-3)
proof (induction rs arbitrary: n)
  case (Cons r rs)
  have "0 \<le> sum_list rs" using Cons.prems(1) by (intro sum_list_nonneg) auto
  then have r: "0 < r" "r \<le> int n" "sum_list rs = int (n - nat r)" using Cons.prems(1,2) by auto
  have "n < 2 ^ 64" using Cons.prems(3) assms(4) by (simp add: W64_def)
  then have "int n < 2 ^ 64" by (metis of_nat_less_iff of_nat_numeral of_nat_power)
  then have m: "nat (r mod 2 ^ 64) = nat r" using r by (simp add: mod_pos_pos_trivial)
  have s: "sub64 n (nat r) = n - nat r" using r Cons.prems(3) assms(4) by (intro sub64_exact) auto
  have "\<forall>r\<in>set rs. 0 < r" "n - nat r \<le> length buf" using Cons.prems by auto
  from Cons.IH[OF this(1) r(3) this(2)] obtain reqs where reqs:
    "write_loop (length buf) (n - nat r) rs = (reqs, 0)"
    "concat (map2 (\<lambda>(off, cnt) r. take (nat r) (drop (nat off) buf)) reqs rs) = drop (length buf - (n - nat r)) buf"
    by blast
  have "n \<noteq> 0" using r by auto
  have "length buf - (n - nat r) = nat r + (length buf - n)" using r Cons.prems(3) by simp
  then have "take (nat r) (drop (length buf - n) buf) @ drop (length buf - (n - nat r)) buf = drop (length buf - n) buf"
    by (metis append_take_drop_id drop_drop)
  moreover have "nat (int (length buf) - int n) = length buf - n" by simp
  ultimately show ?case
    using reqs m s \<open>n \<noteq> 0\<close> by (intro exI[of _ "(int (length buf) - int n, n) # reqs"]) (simp add: Let_def)
qed simp

text \<open>However the calls of write split it, the loop that writes the file ends when the buffer is
  written, and the bytes written one after the other are the buffer.\<close>
theorem write_loop_writes_buffer:
  assumes "\<forall>r\<in>set rs. 0 < r" and "sum_list rs = int (length buf)" and "length buf < W64"
  shows "\<exists>reqs. write_loop (length buf) (length buf) rs = (reqs, 0) \<and>
    concat (map2 (\<lambda>(off, cnt) r. take (nat r) (drop (nat off) buf)) reqs rs) = buf"
  using write_loop_parts[OF assms(1,2) _ assms(3)] by simp

text \<open>A failing call of write is not noticed (its result is kept in an unsigned
  variable, and a file that cannot be opened is compared with 0 instead of -1): every failure
  adds 1 to the bytes left, the loop goes on for as long as the calls fail, and the requests
  start before the buffer.\<close>
theorem write_error_not_noticed:
  assumes "0 < n" and "n + k < W64"
  shows "write_loop len n (replicate k (- 1)) = (map (\<lambda>i. (int len - int (n + i), n + i)) [0..<k], n + k)"
  using assms
proof (induction k arbitrary: n)
  case (Suc k)
  have "nat ((- 1) mod 2 ^ 64) = W64 - 1" by (simp add: W64_def)
  moreover have "sub64 n (W64 - 1) = n + 1"
    using Suc.prems by (simp add: sub64_def W64_def)
  moreover have "map (\<lambda>i. (int len - int (n + i), n + i)) [0..<Suc k] =
      (int len - int n, n) # map (\<lambda>i. (int len - int (n + 1 + i), n + 1 + i)) [0..<k]"
    by (subst upt_conv_Cons) (simp_all del: upt_Suc flip: map_Suc_upt)
  moreover note Suc.IH[of "n + 1"]
  ultimately show ?case using Suc.prems by (simp add: Let_def del: upt_Suc)
qed simp

subsection \<open>Touching the block\<close>

definition SIZE :: nat where
  "SIZE = 10 * 1024 * 1024"

text \<open>The sum over the signed characters; it is not used.\<close>

definition cpu_read :: "nat \<Rightarrow> mem \<Rightarrow> nat res" where
  "cpu_read p m =
     for_range SIZE (\<lambda>i s. rbind (read_bytes m (add64 p i) 1) (\<lambda>q.
        Inr (nat ((int s + sint (hd q)) mod 2 ^ 64)))) 0"

definition cpu_write :: "nat \<Rightarrow> mem \<Rightarrow> mem res" where
  "cpu_write p m = write_bytes m p (replicate SIZE 123)"

definition gpu_write :: "nat list \<Rightarrow> nat \<Rightarrow> mem \<Rightarrow> mem res" where
  "gpu_write threads p m = gpu_memset threads p 123 SIZE m"

text \<open>Touching the block on the GPU, with its threads in any order, has the effect of touching it
  on the CPU: all its 10 MiB are set, and nothing else.\<close>
theorem gpu_write_as_cpu_write:
  assumes "mset threads = mset [0..<launch_threads SIZE]" and "p + STRIDE * 2 ^ 32 < W64" and "mapped m p SIZE"
  shows "gpu_write threads p m = cpu_write p m \<and> cpu_write p m = Inr (put_bytes m p (replicate SIZE 123))"
proof -
  have "filled_total SIZE = SIZE" by (simp add: filled_total_def SIZE_def STRIDE_def)
  then have "gpu_write threads p m = Inr (put_bytes m p (replicate SIZE 123))"
    unfolding gpu_write_def using gpu_memset_eq[of SIZE p threads m 123] assms by (simp add: SIZE_def)
  then show ?thesis using assms(3) by (simp add: cpu_write_def write_bytes_eq)
qed

subsection \<open>Examples\<close>

theorem gpu_write_as_cpu_write_witness:
  "gpu_write (rev [0..<launch_threads SIZE]) 0 (\<lambda>_. Some 0) = cpu_write 0 (\<lambda>_. Some 0) \<and>
    cpu_write 0 (\<lambda>_. Some 0) = Inr (put_bytes (\<lambda>_. Some 0) 0 (replicate SIZE 123))"
  by (rule gpu_write_as_cpu_write) (simp_all add: mapped_def STRIDE_def W64_def)

theorem proc_line_roundtrip_witness:
  "proc_line (''MemFree:'' @ replicate 8 CHR '' '' @ numeral_string 10 12345 @ '' kB'' @ [CHR 0x0A]) =
    Inr (12345 * 1024 mod W64)"
  by (rule proc_line_roundtrip) (simp_all add: W64_def)

theorem write_loop_writes_buffer_witness:
  "\<exists>reqs. write_loop (length ''abc'') (length ''abc'') [2, 1] = (reqs, 0) \<and>
    concat (map2 (\<lambda>(off, cnt) r. take (nat r) (drop (nat off) ''abc'')) reqs [2, 1]) = ''abc''"
  by (rule write_loop_writes_buffer) (simp_all add: W64_def)

theorem write_error_not_noticed_witness:
  "write_loop 3 3 (replicate 2 (- 1)) = ([(0, 3), (- 1, 4)], 5)"
  using write_error_not_noticed[of 3 2 3] by (simp add: W64_def upt_rec)

end
