(* ===== verification/Malloc_Bench.thy ===== *)
theory Malloc_Bench
  imports Util Floats
begin

text \<open>
  \<open>bench.cpp\<close> of \<open>src/malloc\<close>: it times a number of allocations of one size and the calls that free
  them again. The state of the allocators is a parameter; the array of the pointers is the code's.
\<close>

subsection \<open>test\<close>

text \<open>The calls of \<open>test\<close>: all allocations, then all frees.\<close>

definition test_calls ::
    "(nat \<Rightarrow> 'h \<Rightarrow> (nat \<times> 'h) res) \<Rightarrow> (nat \<Rightarrow> 'h \<Rightarrow> 'h res) \<Rightarrow> nat \<Rightarrow> int \<Rightarrow> nat list \<Rightarrow> 'h \<Rightarrow> (nat list \<times> 'h) res" where
  "test_calls alloc_fn free_fn n iter ps h =
     rbind (for_range (nat iter) (\<lambda>i (ps, h).
         rbind (alloc_fn n h) (\<lambda>(p, h). rbind (arr_set ps i p) (\<lambda>ps. Inr (ps, h)))) (ps, h)) (\<lambda>(ps, h).
     rbind (for_range (nat iter) (\<lambda>i h. rbind (arr_get ps i) (\<lambda>p. free_fn p h)) h) (\<lambda>h. Inr (ps, h)))"

text \<open>\<open>atime\<close> and \<open>ftime\<close> from the three readings of the clock; \<open>of_int\<close> converts \<open>iter\<close> to a double.\<close>

definition test_times :: "'d fp_ops \<Rightarrow> (int \<Rightarrow> 'd) \<Rightarrow> int \<Rightarrow> 'd \<Rightarrow> 'd \<Rightarrow> 'd \<Rightarrow> 'd \<times> 'd" where
  "test_times fp to_double iter t0 t1 t2 =
     (fp_div fp (fp_sub fp t1 t0) (to_double iter), fp_div fp (fp_sub fp t2 t1) (to_double iter))"

subsection \<open>The allocators\<close>

text \<open>\<open>malloc\<close> may return 0; a HIP call that fails makes \<open>CHECK_HIP\<close> abort.\<close>

record 'h allocators =
  c_malloc :: "nat \<Rightarrow> 'h \<Rightarrow> nat \<times> 'h"
  c_free :: "nat \<Rightarrow> 'h \<Rightarrow> 'h"
  hip_malloc :: "string \<Rightarrow> nat \<Rightarrow> 'h \<Rightarrow> (nat \<times> 'h) option"
  hip_free :: "nat \<Rightarrow> 'h \<Rightarrow> 'h option"

definition check_hip :: "'a option \<Rightarrow> 'a res" where
  "check_hip r = (case r of None \<Rightarrow> Inl AssertFail | Some x \<Rightarrow> Inr x)"

definition wrap_hipMalloc :: "'h allocators \<Rightarrow> nat \<Rightarrow> 'h \<Rightarrow> (nat \<times> 'h) res" where
  "wrap_hipMalloc a n h = check_hip (hip_malloc a ''hipMalloc'' n h)"

definition wrap_hipHostMalloc :: "'h allocators \<Rightarrow> nat \<Rightarrow> 'h \<Rightarrow> (nat \<times> 'h) res" where
  "wrap_hipHostMalloc a n h = check_hip (hip_malloc a ''hipHostMalloc'' n h)"

definition wrap_hipMallocManaged :: "'h allocators \<Rightarrow> nat \<Rightarrow> 'h \<Rightarrow> (nat \<times> 'h) res" where
  "wrap_hipMallocManaged a n h = check_hip (hip_malloc a ''hipMallocManaged'' n h)"

definition wrap_hipFree :: "'h allocators \<Rightarrow> nat \<Rightarrow> 'h \<Rightarrow> 'h res" where
  "wrap_hipFree a p h = check_hip (hip_free a p h)"

definition choose_alloc ::
    "'h allocators \<Rightarrow> string \<Rightarrow> ((nat \<Rightarrow> 'h \<Rightarrow> (nat \<times> 'h) res) \<times> (nat \<Rightarrow> 'h \<Rightarrow> 'h res)) res" where
  "choose_alloc a how =
     (if how = ''malloc'' then Inr (\<lambda>n h. Inr (c_malloc a n h), \<lambda>p h. Inr (c_free a p h))
      else if how = ''hipMalloc'' then Inr (wrap_hipMalloc a, wrap_hipFree a)
      else if how = ''hipHostMalloc'' then Inr (wrap_hipHostMalloc a, wrap_hipFree a)
      else if how = ''hipMallocManaged'' then Inr (wrap_hipMallocManaged a, wrap_hipFree a)
      else Inl AssertFail)"

subsection \<open>main\<close>

definition WARMUP :: int where
  "WARMUP = 10"

text \<open>
  An argument that is missing is NULL, and a failed \<open>malloc\<close> of the array is written to by \<open>memset\<close>.
  The result is the array and the state of the allocators after the measured test.
\<close>

definition malloc_bench_main ::
    "heap_env \<Rightarrow> 'h allocators \<Rightarrow> string list \<Rightarrow> 'h \<Rightarrow> (nat list \<times> 'h) res" where
  "malloc_bench_main heap a argv h =
     rbind (arr_get argv 1) (\<lambda>size_arg. rbind (arr_get argv 2) (\<lambda>iter_arg.
     let n = fst (strtoull size_arg); iter = atoi iter_arg; cells = nat (max iter WARMUP) in
     case malloc_words heap (mul64 cells 8) of
       None \<Rightarrow> Inl OutOfBounds
     | Some _ \<Rightarrow>
         rbind (arr_get argv 3) (\<lambda>how.
         rbind (choose_alloc a how) (\<lambda>(alloc_fn, free_fn).
         rbind (test_calls alloc_fn free_fn n WARMUP (replicate cells 0) h) (\<lambda>(ps, h).
         test_calls alloc_fn free_fn n iter ps h)))))"

subsection \<open>Properties\<close>

text \<open>An allocator that works: \<open>live h\<close> are the blocks in use.\<close>

definition working ::
    "('h \<Rightarrow> nat set) \<Rightarrow> nat \<Rightarrow> (nat \<Rightarrow> 'h \<Rightarrow> (nat \<times> 'h) res) \<Rightarrow> (nat \<Rightarrow> 'h \<Rightarrow> 'h res) \<Rightarrow> bool" where
  "working live n alloc_fn free_fn \<longleftrightarrow>
     (\<forall>h. \<exists>p h'. alloc_fn n h = Inr (p, h') \<and> p \<notin> live h \<and> live h' = insert p (live h)) \<and>
     (\<forall>p h. p \<in> live h \<longrightarrow> (\<exists>h'. free_fn p h = Inr h' \<and> live h' = live h - {p}))"

lemma alloc_loop:
  assumes "working live n alloc_fn free_fn" and "k \<le> length ps"
  shows "\<exists>ps' h'. for_range k (\<lambda>i (ps, h). rbind (alloc_fn n h) (\<lambda>(p, h).
        rbind (arr_set ps i p) (\<lambda>ps. Inr (ps, h)))) (ps, h) = Inr (ps', h') \<and>
    length ps' = length ps \<and> distinct (take k ps') \<and> set (take k ps') \<inter> live h = {} \<and>
    live h' = live h \<union> set (take k ps')"
proof -
  let ?I = "\<lambda>k (ps', h'). length ps' = length ps \<and> distinct (take k ps') \<and> set (take k ps') \<inter> live h = {} \<and>
    live h' = live h \<union> set (take k ps')"
  have "wp (\<lambda>_. False) (?I k) (for_range k (\<lambda>i (ps, h). rbind (alloc_fn n h) (\<lambda>(p, h).
        rbind (arr_set ps i p) (\<lambda>ps. Inr (ps, h)))) (ps, h))"
  proof (rule wp_for_range[where I = ?I], goal_cases)
    case (2 i st)
    obtain ps1 h1 where st: "st = (ps1, h1)" by force
    obtain p h2 where p: "alloc_fn n h1 = Inr (p, h2)" "p \<notin> live h1" "live h2 = insert p (live h1)"
      using assms(1) unfolding working_def by blast
    have len: "i < length ps1" "length ps1 = length ps" using 2 assms(2) by (auto simp: st)
    have "take (Suc i) (ps1[i := p]) = take i ps1 @ [p]"
      using len(1) by (simp add: take_Suc_conv_app_nth)
    then show ?case using 2 p len by (auto simp: st)
  qed simp
  then show ?thesis by (auto simp: wp_total)
qed

lemma free_loop:
  assumes "working live n alloc_fn free_fn" and "k \<le> length ps" and "distinct (take k ps)"
    and "set (take k ps) \<subseteq> live h"
  shows "\<exists>h'. for_range k (\<lambda>i h. rbind (arr_get ps i) (\<lambda>p. free_fn p h)) h = Inr h' \<and>
    live h' = live h - set (take k ps)"
proof -
  let ?I = "\<lambda>i h'. live h' = live h - set (take i ps)"
  have "wp (\<lambda>_. False) (?I k) (for_range k (\<lambda>i h. rbind (arr_get ps i) (\<lambda>p. free_fn p h)) h)"
  proof (rule wp_for_range[where I = ?I], goal_cases)
    case (2 i h1)
    have i: "i < length ps" "take (Suc i) ps = take i ps @ [ps ! i]"
      using 2(1) assms(2) by (simp_all add: take_Suc_conv_app_nth)
    have "take k ps ! i = ps ! i" "ps ! i \<in> set (take k ps)"
      using 2(1) assms(2) in_set_conv_nth[of "ps ! i" "take k ps"] by auto
    moreover have "ps ! i \<notin> set (take i ps)"
    proof -
      have "distinct (take (Suc i) ps)" using distinct_take[OF assms(3), of "Suc i"] 2(1) by (simp add: min_def)
      then show ?thesis by (simp add: i(2))
    qed
    ultimately have "ps ! i \<in> live h1" using 2(2) assms(4) by auto
    then obtain h2 where "free_fn (ps ! i) h1 = Inr h2" "live h2 = live h1 - {ps ! i}"
      using assms(1) unfolding working_def by blast
    then show ?case using 2(2) i by auto
  qed simp
  then show ?thesis by (auto simp: wp_total)
qed

lemma test_balanced:
  assumes "working live n alloc_fn free_fn" and "nat iter \<le> length ps"
  shows "\<exists>ps' h'. test_calls alloc_fn free_fn n iter ps h = Inr (ps', h') \<and> length ps' = length ps \<and>
    live h' = live h"
proof -
  obtain ps1 h1 where A: "for_range (nat iter) (\<lambda>i (ps, h). rbind (alloc_fn n h) (\<lambda>(p, h).
        rbind (arr_set ps i p) (\<lambda>ps. Inr (ps, h)))) (ps, h) = Inr (ps1, h1)"
    "length ps1 = length ps" "distinct (take (nat iter) ps1)" "set (take (nat iter) ps1) \<inter> live h = {}"
    "live h1 = live h \<union> set (take (nat iter) ps1)"
    using alloc_loop[OF assms, of h] by blast
  obtain h2 where F: "for_range (nat iter) (\<lambda>i h. rbind (arr_get ps1 i) (\<lambda>p. free_fn p h)) h1 = Inr h2"
    "live h2 = live h1 - set (take (nat iter) ps1)"
    using free_loop[OF assms(1), of "nat iter" ps1 h1] A assms(2) by auto
  have "live h2 = live h" using A(4,5) F(2) by auto
  then show ?thesis using A(1,2) F(1) by (simp add: test_calls_def)
qed

text \<open>A run of the allocation benchmark with an allocator that works writes only inside its array
  of pointers, whatever the number of iterations (a negative one included), and frees every block it
  has allocated, once.\<close>
theorem bench_frees_all:
  assumes "argv = [prog, sz, iter, how]" and "choose_alloc a how = Inr (alloc_fn, free_fn)"
    and "working live (fst (strtoull sz)) alloc_fn free_fn"
    and "malloc_ok heap (mul64 (nat (max (atoi iter) WARMUP)) 8)"
  shows "\<exists>ps h'. malloc_bench_main heap a argv h = Inr (ps, h') \<and> live h' = live h"
proof -
  let ?cells = "nat (max (atoi iter) WARMUP)"
  obtain ps1 h1 where W: "test_calls alloc_fn free_fn (fst (strtoull sz)) WARMUP (replicate ?cells 0) h = Inr (ps1, h1)"
    "length ps1 = ?cells" "live h1 = live h"
    using test_balanced[OF assms(3), of WARMUP "replicate ?cells 0" h] by (auto simp: nat_mono)
  obtain ps2 h2 where T: "test_calls alloc_fn free_fn (fst (strtoull sz)) (atoi iter) ps1 h1 = Inr (ps2, h2)"
    "live h2 = live h1"
    using test_balanced[OF assms(3), of "atoi iter" ps1 h1] W(2) by (auto simp: nat_mono)
  show ?thesis
    using assms(1,2,4) W T by (simp add: malloc_bench_main_def malloc_words_def Let_def)
qed

subsection \<open>Example\<close>

text \<open>The state is the list of the blocks in use; a new block lies behind all of them.\<close>

definition list_allocator :: "nat list allocators" where
  "list_allocator =
     \<lparr>c_malloc = (\<lambda>n h. (Suc (sum_list h), Suc (sum_list h) # h)), c_free = (\<lambda>p h. removeAll p h),
      hip_malloc = (\<lambda>_ n h. Some (Suc (sum_list h), Suc (sum_list h) # h)),
      hip_free = (\<lambda>p h. Some (removeAll p h))\<rparr>"

lemma list_allocator_works:
  "working set n (\<lambda>n h. Inr (c_malloc list_allocator n h)) (\<lambda>p h. Inr (c_free list_allocator p h))"
proof -
  have "Suc (sum_list h) \<notin> set h" for h using member_le_sum_list[of _ h] by fastforce
  then show ?thesis by (auto simp: working_def list_allocator_def)
qed

theorem bench_frees_all_witness:
  "\<exists>ps h'. malloc_bench_main \<lparr>malloc_ok = (\<lambda>_. True), junk = (\<lambda>_. 0)\<rparr> list_allocator
      [''bench'', ''4096'', ''-3'', ''malloc''] [7] = Inr (ps, h') \<and> set h' = set [7]"
  by (rule bench_frees_all[OF refl _ list_allocator_works]) (simp_all add: choose_alloc_def)

end
