(* ===== verification/Cmdparser.thy ===== *)
theory Cmdparser
  imports Util
begin

text \<open>
  \<open>cmdparser.hpp\<close>, the command-line parser of the memory copy benchmark: the readers of the argument
  types, the registration of parameters, the distribution of the words of the command line over
  them, and \<open>run\<close>. A thrown exception is None; \<open>exit\<close> ends the run. Floating-point numbers are read by
  a parameter (\<open>stod\<close>); the texts are in \<open>Cmdparser_Help\<close>.
\<close>

subsection \<open>Values\<close>

datatype cli_type = CInt | CBool | CUnsigned | CULong | CLong | CDouble | CString |
  CVector cli_type | CBase cli_type nat

datatype 'd cli_value = VInt int | VBool bool | VDouble 'd | VString string | VVector "'d cli_value list"

text \<open>
  \<open>std::stol\<close> and its relatives on top of \<open>strtol\<close>: they throw when there is no number and when the
  number does not fit; what follows the number is ignored.
\<close>

definition scan_number :: "nat \<Rightarrow> string \<Rightarrow> (bool \<times> nat) option" where
  "scan_number base str =
     (let (neg, s) = number_sign (dropWhile is_space str);
          (b, s) = (if base = 0 then number_base s
                    else if base = 16 then (16, if fst (number_base s) = 16 then snd (number_base s) else s)
                    else (base, s));
          ds = takeWhile (is_digit b) s in
      if ds = [] then None else Some (neg, digits_value b ds))"

definition sto_signed :: "nat \<Rightarrow> nat \<Rightarrow> string \<Rightarrow> int option" where
  "sto_signed bits base str =
     (case scan_number base str of
        None \<Rightarrow> None
      | Some (neg, v) \<Rightarrow>
          let x = (if neg then - int v else int v) in
          if - (2 ^ (bits - 1)) \<le> x \<and> x < 2 ^ (bits - 1) then Some x else None)"

definition sto_unsigned :: "nat \<Rightarrow> string \<Rightarrow> nat option" where
  "sto_unsigned base str =
     (case scan_number base str of
        None \<Rightarrow> None
      | Some (neg, v) \<Rightarrow> if W64 \<le> v then None else Some (if neg then sub64 0 v else v))"

text \<open>\<open>Parser::parse(elements, defval)\<close>; a flag is the negation of its value so far.\<close>

fun one_element :: "string list \<Rightarrow> string option" where
  "one_element [x] = Some x"
| "one_element xs = None"

fun cli_parse :: "(string \<Rightarrow> 'd option) \<Rightarrow> nat \<Rightarrow> cli_type \<Rightarrow> string list \<Rightarrow> 'd cli_value \<Rightarrow> 'd cli_value option" where
  "cli_parse stod base CInt xs v =
     Option.bind (one_element xs) (\<lambda>x. map_option VInt (sto_signed 32 base x))"
| "cli_parse stod base CLong xs v =
     Option.bind (one_element xs) (\<lambda>x. map_option VInt (sto_signed 64 base x))"
| "cli_parse stod base CUnsigned xs v =
     Option.bind (one_element xs) (\<lambda>x. map_option (\<lambda>n. VInt (int (n mod 2 ^ 32))) (sto_unsigned base x))"
| "cli_parse stod base CULong xs v =
     Option.bind (one_element xs) (\<lambda>x. map_option (\<lambda>n. VInt (int n)) (sto_unsigned base x))"
| "cli_parse stod base CBool xs v =
     (if xs \<noteq> [] then None else case v of VBool b \<Rightarrow> Some (VBool (\<not> b)) | _ \<Rightarrow> None)"
| "cli_parse stod base CDouble xs v = Option.bind (one_element xs) (\<lambda>x. map_option VDouble (stod x))"
| "cli_parse stod base CString xs v = map_option VString (one_element xs)"
| "cli_parse stod base (CVector t) xs v =
     map_option VVector (those (map (\<lambda>x. cli_parse stod 0 t [x] (VBool False)) xs))"
| "cli_parse stod base (CBase t b) xs v = cli_parse stod b t xs v"

subsection \<open>Parameters\<close>

datatype callback_result = Returns | Throws | Exits nat

datatype cmd_kind = Argument cli_type | Callback "string list \<Rightarrow> callback_result"

record 'd cmd =
  cmd_name :: string
  cmd_alternative :: string
  is_required :: bool
  is_dominant :: bool
  is_variadic :: bool
  kind :: cmd_kind
  handled :: bool
  arguments :: "string list"
  cmd_value :: "'d cli_value"

definition dash_name :: "'d cmd \<Rightarrow> string" where
  "dash_name c = (if cmd_name c \<noteq> [] then CHR ''-'' # cmd_name c else [])"

definition dash_alternative :: "'d cmd \<Rightarrow> string" where
  "dash_alternative c = (if cmd_alternative c \<noteq> [] then ''--'' @ cmd_alternative c else [])"

definition cmd_is :: "string \<Rightarrow> 'd cmd \<Rightarrow> bool" where
  "cmd_is given c \<longleftrightarrow> given = dash_name c \<or> given = dash_alternative c"

fun variadic_type :: "cli_type \<Rightarrow> bool" where
  "variadic_type (CVector t) = True"
| "variadic_type _ = False"

definition new_cmd :: "string \<Rightarrow> string \<Rightarrow> bool \<Rightarrow> bool \<Rightarrow> bool \<Rightarrow> cmd_kind \<Rightarrow> 'd cli_value \<Rightarrow> 'd cmd" where
  "new_cmd nm alt req dmn var k v =
     \<lparr>cmd_name = nm, cmd_alternative = alt, is_required = req, is_dominant = dmn, is_variadic = var,
      kind = k, handled = False, arguments = [], cmd_value = v\<rparr>"

text \<open>The value of a required or default parameter is not initialised (\<open>garbage\<close>).\<close>

definition set_default :: "cli_type \<Rightarrow> bool \<Rightarrow> 'd cli_value \<Rightarrow> 'd cmd list \<Rightarrow> 'd cmd list" where
  "set_default t req garbage cmds = cmds @ [new_cmd [] [] req False (variadic_type t) (Argument t) garbage]"

definition set_required :: "cli_type \<Rightarrow> string \<Rightarrow> string \<Rightarrow> bool \<Rightarrow> 'd cli_value \<Rightarrow> 'd cmd list \<Rightarrow> 'd cmd list" where
  "set_required t nm alt dmn garbage cmds = cmds @ [new_cmd nm alt True dmn (variadic_type t) (Argument t) garbage]"

definition set_optional :: "cli_type \<Rightarrow> string \<Rightarrow> string \<Rightarrow> 'd cli_value \<Rightarrow> bool \<Rightarrow> 'd cmd list \<Rightarrow> 'd cmd list" where
  "set_optional t nm alt v dmn cmds = cmds @ [new_cmd nm alt False dmn (variadic_type t) (Argument t) v]"

definition set_callback ::
    "string \<Rightarrow> string \<Rightarrow> (string list \<Rightarrow> callback_result) \<Rightarrow> bool \<Rightarrow> 'd cli_value \<Rightarrow> 'd cmd list \<Rightarrow> 'd cmd list" where
  "set_callback nm alt f dmn garbage cmds = cmds @ [new_cmd nm alt False dmn False (Callback f) garbage]"

definition enable_help :: "'d cli_value \<Rightarrow> 'd cmd list \<Rightarrow> 'd cmd list" where
  "enable_help garbage cmds = set_callback ''h'' ''help'' (\<lambda>_. Exits 0) True garbage cmds"

text \<open>\<open>alternative\<close> already carries the two dashes.\<close>

definition is_help :: "'d cmd \<Rightarrow> bool" where
  "is_help c \<longleftrightarrow> cmd_name c = ''h'' \<and> dash_alternative c = ''--help''"

definition has_help :: "'d cmd list \<Rightarrow> bool" where
  "has_help cmds \<longleftrightarrow> list_ex is_help cmds"

fun disable_help :: "'d cmd list \<Rightarrow> 'd cmd list" where
  "disable_help [] = []"
| "disable_help (c # cmds) = (if is_help c then cmds else c # disable_help cmds)"

definition requirements :: "'d cmd list \<Rightarrow> nat" where
  "requirements cmds = foldl (\<lambda>n c. if is_required c then n + 1 else n) 0 cmds"

subsection \<open>run\<close>

fun find_cmd :: "('d cmd \<Rightarrow> bool) \<Rightarrow> 'd cmd list \<Rightarrow> nat option" where
  "find_cmd P [] = None"
| "find_cmd P (c # cmds) = (if P c then Some 0 else map_option Suc (find_cmd P cmds))"

definition find_default :: "'d cmd list \<Rightarrow> nat option" where
  "find_default cmds = find_cmd (\<lambda>c. cmd_name c = []) cmds"

text \<open>The parameter a word selects, if any.\<close>

definition associated :: "'d cmd list \<Rightarrow> string \<Rightarrow> nat option" where
  "associated cmds w = (if w \<noteq> [] \<and> hd w = CHR ''-'' then find_cmd (cmd_is w) cmds else None)"

definition push_argument :: "string \<Rightarrow> 'd cmd \<Rightarrow> 'd cmd" where
  "push_argument w c = c\<lparr>arguments := arguments c @ [w], handled := True\<rparr>"

text \<open>One word; None is the return of false.\<close>

fun take_word :: "string \<Rightarrow> nat option \<times> 'd cmd list \<Rightarrow> (nat option \<times> 'd cmd list) option" where
  "take_word w (current, cmds) =
     (case associated cmds w of
        Some i \<Rightarrow> Some (Some i, cmds[i := (cmds ! i)\<lparr>handled := True\<rparr>])
      | None \<Rightarrow>
          (case current of
             None \<Rightarrow> None
           | Some i \<Rightarrow>
               let cmds = cmds[i := push_argument w (cmds ! i)] in
               Some (if is_variadic (cmds ! i) then Some i else find_default cmds, cmds)))"

fun take_words :: "string list \<Rightarrow> nat option \<times> 'd cmd list \<Rightarrow> 'd cmd list \<times> bool" where
  "take_words [] st = (snd st, True)"
| "take_words (w # ws) st = (case take_word w st of None \<Rightarrow> (snd st, False) | Some st \<Rightarrow> take_words ws st)"

text \<open>
  \<open>command->parse()\<close>: the parameter with its new value and whether it succeeded; the vector type
  replaces what it had.
\<close>

definition parse_cmd :: "(string \<Rightarrow> 'd option) \<Rightarrow> 'd cmd \<Rightarrow> ('d cmd \<times> bool) res" where
  "parse_cmd stod c =
     (case kind c of
        Callback f \<Rightarrow> (case f (arguments c) of
            Returns \<Rightarrow> Inr (c, True) | Throws \<Rightarrow> Inr (c, False) | Exits n \<Rightarrow> Inl (Exit n))
      | Argument t \<Rightarrow> (case cli_parse stod 0 t (arguments c) (cmd_value c) of
            None \<Rightarrow> Inr (c, False) | Some v \<Rightarrow> Inr (c\<lparr>cmd_value := v\<rparr>, True)))"

text \<open>One of the two passes over the parameters; it stops at the first that fails.\<close>

fun parse_pass :: "(string \<Rightarrow> 'd option) \<Rightarrow> ('d cmd \<Rightarrow> bool) \<Rightarrow> 'd cmd list \<Rightarrow> ('d cmd list \<times> bool) res" where
  "parse_pass stod P [] = Inr ([], True)"
| "parse_pass stod P (c # cmds) =
     (if handled c \<and> P c then
        rbind (parse_cmd stod c) (\<lambda>(c, ok).
        if \<not> ok then Inr (c # cmds, False)
        else rbind (parse_pass stod P cmds) (\<lambda>(cmds, ok). Inr (c # cmds, ok)))
      else rbind (parse_pass stod P cmds) (\<lambda>(cmds, ok). Inr (c # cmds, ok)))"

definition run_parser :: "(string \<Rightarrow> 'd option) \<Rightarrow> string list \<Rightarrow> 'd cmd list \<Rightarrow> ('d cmd list \<times> bool) res" where
  "run_parser stod words cmds =
     (let (cmds, ok) = (if words = [] then (cmds, True) else take_words words (find_default cmds, cmds)) in
      if \<not> ok then Inr (cmds, False)
      else
        rbind (parse_pass stod is_dominant cmds) (\<lambda>(cmds, ok).
        if \<not> ok then Inr (cmds, False)
        else if list_ex (\<lambda>c. is_required c \<and> \<not> handled c) cmds then Inr (cmds, False)
        else parse_pass stod (\<lambda>c. \<not> is_dominant c) cmds))"

definition run_and_exit_if_error :: "(string \<Rightarrow> 'd option) \<Rightarrow> string list \<Rightarrow> 'd cmd list \<Rightarrow> 'd cmd list res" where
  "run_and_exit_if_error stod words cmds =
     rbind (run_parser stod words cmds) (\<lambda>(cmds, ok). if ok then Inr cmds else Inl (Exit 1))"

text \<open>\<open>get<T>\<close>: the first parameter of the name; None when there is none or it has another type.\<close>

definition get_value :: "cli_type \<Rightarrow> string \<Rightarrow> 'd cmd list \<Rightarrow> 'd cli_value option" where
  "get_value t nm cmds =
     (case find (\<lambda>c. cmd_name c = nm) cmds of
        None \<Rightarrow> None
      | Some c \<Rightarrow> if kind c = Argument t then Some (cmd_value c) else None)"

text \<open>\<open>doesArgumentExist\<close> compares with the alternative as it is given.\<close>

definition doesArgumentExist :: "string list \<Rightarrow> string \<Rightarrow> string \<Rightarrow> bool" where
  "doesArgumentExist words nm alt \<longleftrightarrow> list_ex (\<lambda>w. w = CHR ''-'' # nm \<or> w = alt) words"

subsection \<open>The distribution of the words\<close>

text \<open>What \<open>take_word\<close> leaves alone in a parameter.\<close>

definition shape :: "'d cmd \<Rightarrow> 'd cmd" where
  "shape c = c\<lparr>handled := False, arguments := []\<rparr>"

lemma shape_put [simp]:
  "shape (c\<lparr>handled := True\<rparr>) = shape c" "shape (push_argument w c) = shape c"
  by (simp_all add: shape_def push_argument_def)

lemma shape_fields:
  "cmd_name (shape c) = cmd_name c" "dash_name (shape c) = dash_name c"
  "dash_alternative (shape c) = dash_alternative c" "kind (shape c) = kind c"
  "is_variadic (shape c) = is_variadic c" "is_dominant (shape c) = is_dominant c"
  "is_required (shape c) = is_required c" "cmd_value (shape c) = cmd_value c"
  by (simp_all add: shape_def dash_name_def dash_alternative_def)

lemma shape_sel:
  assumes "shape c = shape d"
  shows "cmd_name c = cmd_name d" "dash_name c = dash_name d" "dash_alternative c = dash_alternative d"
    "kind c = kind d" "is_variadic c = is_variadic d" "is_dominant c = is_dominant d"
    "is_required c = is_required d" "cmd_value c = cmd_value d"
  by (metis assms shape_fields)+

lemma map_put_same: "f x = f (xs ! i) \<Longrightarrow> map f (xs[i := x]) = map f xs"
  by (cases "i < length xs") (simp_all add: map_update list_update_same_conv list_update_beyond)

lemma find_cmd_cong:
  assumes "\<And>c d. f c = f d \<Longrightarrow> P c = P d" and "map f cmds' = map f cmds"
  shows "find_cmd P cmds' = find_cmd P cmds"
  using assms(2)
proof (induction cmds' arbitrary: cmds)
  case (Cons c cmds')
  then obtain d ds where d: "cmds = d # ds" "f c = f d" "map f cmds' = map f ds" by auto
  then show ?case using Cons.IH[OF d(3)] assms(1)[OF d(2)] by simp
qed simp

lemma find_cmd_Some: "find_cmd P cmds = Some i \<Longrightarrow> i < length cmds \<and> P (cmds ! i)"
proof (induction cmds arbitrary: i)
  case (Cons c cmds)
  then show ?case by (auto split: if_splits)
qed simp

lemma same_shape:
  fixes cmds cmds' :: "'d cmd list"
  assumes "map shape cmds' = map shape cmds"
  shows "associated cmds' w = associated cmds w" "find_default cmds' = find_default cmds"
    "length cmds' = length cmds" "i < length cmds \<Longrightarrow> shape (cmds' ! i) = shape (cmds ! i)"
proof -
  have "cmd_is w c = cmd_is w d" if "shape c = shape d" for c d :: "'d cmd"
    unfolding cmd_is_def using shape_sel(2,3)[OF that] by simp
  from find_cmd_cong[of shape "cmd_is w", OF this assms]
  show "associated cmds' w = associated cmds w" by (simp add: associated_def)
  have "(cmd_name c = []) = (cmd_name d = [])" if "shape c = shape d" for c d :: "'d cmd"
    using shape_sel(1)[OF that] by simp
  from find_cmd_cong[of shape "\<lambda>c. cmd_name c = []", OF this assms]
  show "find_default cmds' = find_default cmds" by (simp add: find_default_def)
  show "length cmds' = length cmds" using arg_cong[OF assms, of length] by simp
  then show "i < length cmds \<Longrightarrow> shape (cmds' ! i) = shape (cmds ! i)" using assms by (metis nth_map)
qed

lemma map_shape_put:
  "map shape (cmds[i := (cmds ! i)\<lparr>handled := True\<rparr>]) = map shape cmds"
  "map shape (cmds[i := push_argument w (cmds ! i)]) = map shape cmds"
  by (simp_all add: map_put_same)

lemma take_word_shape:
  "take_word w (cur, cmds) = Some (cur', cmds') \<Longrightarrow> map shape cmds' = map shape cmds"
  by (auto simp: map_shape_put Let_def split: option.splits if_splits)

lemma take_word_current:
  assumes "take_word w (cur, cmds) = Some (cur', cmds')" and "\<forall>i. cur = Some i \<longrightarrow> i < length cmds"
  shows "\<forall>i. cur' = Some i \<longrightarrow> i < length cmds'"
  using assms find_cmd_Some
  by (auto simp: associated_def find_default_def Let_def split: option.splits if_splits)

lemma concat_push:
  assumes "i < length cmds"
  shows "mset (concat (map arguments (cmds[i := push_argument w (cmds ! i)]))) =
    add_mset w (mset (concat (map arguments cmds)))"
proof -
  have "cmds[i := push_argument w (cmds ! i)] = take i cmds @ push_argument w (cmds ! i) # drop (Suc i) cmds"
    using assms by (rule upd_conv_take_nth_drop)
  moreover have "cmds = take i cmds @ cmds ! i # drop (Suc i) cmds" using assms by (rule id_take_nth_drop)
  then have "map arguments cmds = map arguments (take i cmds) @ arguments (cmds ! i) # map arguments (drop (Suc i) cmds)"
    by (metis list.simps(9) map_append)
  ultimately show ?thesis by (simp add: push_argument_def)
qed

text \<open>The parser gives every word that selects no parameter to exactly one parameter as an
  argument: none is lost or given twice, unless it refuses the command line.\<close>
theorem words_are_distributed:
  assumes "take_words ws (find_default cmds, cmds) = (cmds', True)"
  shows "mset (concat (map arguments cmds')) =
    mset (concat (map arguments cmds)) + mset (filter (\<lambda>w. associated cmds w = None) ws)"
proof -
  have "mset (concat (map arguments cmds')) =
      mset (concat (map arguments cs)) + mset (filter (\<lambda>w. associated cmds w = None) ws)"
    if "take_words ws (cur, cs) = (cmds', True)" "map shape cs = map shape cmds" "\<forall>i. cur = Some i \<longrightarrow> i < length cs" for cur cs
    using that
  proof (induction ws arbitrary: cur cs)
    case (Cons w ws)
    then obtain cur1 cs1 where W: "take_word w (cur, cs) = Some (cur1, cs1)" "take_words ws (cur1, cs1) = (cmds', True)"
      by (auto split: option.splits)
    note IH = Cons.IH[OF W(2) _ take_word_current[OF W(1) Cons.prems(3)]]
    have "mset (concat (map arguments cs1)) =
        mset (concat (map arguments cs)) + (if associated cmds w = None then {#w#} else {#})"
    proof (cases "associated cmds w")
      case None
      then have "associated cs w = None" using same_shape(1)[OF Cons.prems(2)] by simp
      then obtain i where "cur = Some i" "cs1 = cs[i := push_argument w (cs ! i)]"
        using W(1) by (auto simp: Let_def split: option.splits)
      then show ?thesis using concat_push[of i cs w] Cons.prems(3) None by simp
    next
      case (Some i)
      then have "associated cs w = Some i" using same_shape(1)[OF Cons.prems(2)] by simp
      then have "cs1 = cs[i := (cs ! i)\<lparr>handled := True\<rparr>]" using W(1) by auto
      then have "map arguments cs1 = map arguments cs"
        by (simp add: map_put_same)
      then show ?thesis using Some by simp
    qed
    then show ?case using IH take_word_shape[OF W(1)] Cons.prems(2) by simp
  qed simp
  from this[OF assms refl] show ?thesis using find_cmd_Some by (auto simp: find_default_def)
qed

subsection \<open>Help\<close>

lemma take_words_shape: "map shape (fst (take_words ws (cur, cmds))) = map shape cmds"
proof (induction ws arbitrary: cur cmds)
  case (Cons w ws)
  then show ?case
  proof (cases "take_word w (cur, cmds)")
    case (Some st)
    obtain cur1 cs1 where st: "st = (cur1, cs1)" by force
    have "take_words (w # ws) (cur, cmds) = take_words ws (cur1, cs1)"
      using Some by (simp add: st del: take_word.simps)
    then show ?thesis using Cons.IH[of cur1 cs1] take_word_shape[OF Some[unfolded st]] by simp
  qed (simp del: take_word.simps)
qed simp

lemma handled_put:
  "handled c \<Longrightarrow> handled (xs ! i) \<or> i = j \<Longrightarrow> i < length xs \<Longrightarrow> handled (xs[j := c] ! i)"
  by (cases "i = j") simp_all

lemma take_word_handled:
  assumes "take_word w (cur, cmds) = Some (cur', cmds')" and "i < length cmds"
    and "handled (cmds ! i) \<or> associated cmds w = Some i"
  shows "handled (cmds' ! i)"
  using assms by (auto intro!: handled_put simp: push_argument_def Let_def split: option.splits if_splits)

lemma take_words_handled:
  assumes "take_words ws (cur, cmds) = (cmds', True)" and "i < length cmds"
    and "handled (cmds ! i) \<or> (\<exists>w\<in>set ws. associated cmds w = Some i)"
  shows "handled (cmds' ! i)"
  using assms
proof (induction ws arbitrary: cur cmds)
  case (Cons w ws)
  then obtain cur1 cs1 where W: "take_word w (cur, cmds) = Some (cur1, cs1)" "take_words ws (cur1, cs1) = (cmds', True)"
    by (auto simp del: take_word.simps split: option.splits)
  note shape = same_shape[OF take_word_shape[OF W(1)]]
  have "handled (cs1 ! i) \<or> (\<exists>w\<in>set ws. associated cs1 w = Some i)"
    using take_word_handled[OF W(1) Cons.prems(2)] Cons.prems(3) shape(1) by auto
  then show ?case using Cons.IH[OF W(2)] Cons.prems(2) shape(3) by simp
qed simp

text \<open>-h or --help anywhere on a command line whose words can be distributed ends the
  program with status 0 before anything else is parsed, also when required parameters are
  missing.\<close>
theorem help_exits:
  assumes "take_words ws (find_default cmds, cmds) = (cmds', True)" and "cmds = enable_help g [] @ rest"
    and "''-h'' \<in> set ws \<or> ''--help'' \<in> set ws"
  shows "run_parser stod ws cmds = Inl (Exit 0)"
proof -
  have "associated cmds ''-h'' = Some 0" "associated cmds ''--help'' = Some 0"
    by (simp_all add: assms(2) associated_def enable_help_def set_callback_def new_cmd_def cmd_is_def
        dash_name_def dash_alternative_def)
  then have h: "handled (cmds' ! 0)"
    using take_words_handled[OF assms(1), of 0] assms(2,3) by (auto simp: enable_help_def set_callback_def)
  have sh: "map shape cmds' = map shape cmds" using take_words_shape[of ws "find_default cmds" cmds] assms(1) by simp
  then obtain c cs where c: "cmds' = c # cs" "shape c = shape (hd cmds)"
    by (cases cmds') (auto simp: assms(2) enable_help_def set_callback_def)
  have "kind c = Callback (\<lambda>_. Exits 0)" "is_dominant c"
    using shape_sel(4,6)[OF c(2)] by (simp_all add: assms(2) enable_help_def set_callback_def new_cmd_def)
  then have "parse_pass stod is_dominant cmds' = Inl (Exit 0)"
    using h c(1) by (simp add: parse_cmd_def)
  moreover have "ws \<noteq> []" using assms(3) by auto
  ultimately show ?thesis by (simp add: run_parser_def assms(1))
qed

subsection \<open>Reading back a command line\<close>

lemma take_pair:
  assumes "associated cmds w = Some i" and "associated cmds x = None" and "\<not> is_variadic (cmds ! i)" and "i < length cmds"
  shows "take_words (w # x # ws) (cur, cmds) =
    take_words ws (find_default cmds, cmds[i := push_argument x (cmds ! i)])"
proof -
  let ?cs = "cmds[i := (cmds ! i)\<lparr>handled := True\<rparr>]" and ?cs' = "cmds[i := push_argument x (cmds ! i)]"
  have "associated ?cs x = None" using assms(2) by (simp add: same_shape(1)[OF map_shape_put(1)])
  moreover have "?cs[i := push_argument x (?cs ! i)] = ?cs'"
    using assms(4) by (simp add: push_argument_def)
  moreover have "find_default ?cs' = find_default cmds" by (rule same_shape(2)[OF map_shape_put(2)])
  moreover have "\<not> is_variadic (?cs' ! i)" using assms(3,4) by (simp add: push_argument_def)
  ultimately show ?thesis using assms(1) by (simp add: Let_def)
qed

text \<open>The words and the parameters that \<open>settings\<close>, a list of parameter, word and argument, stand for.\<close>

definition words_of :: "(nat \<times> string \<times> string) list \<Rightarrow> string list" where
  "words_of opts = concat (map (\<lambda>(i, w, x). [w, x]) opts)"

lemma take_words_of:
  assumes "\<forall>(i, w, x)\<in>set opts. associated cmds w = Some i \<and> associated cmds x = None \<and> \<not> is_variadic (cmds ! i)"
    and "distinct (map fst opts)"
  shows "\<exists>cmds'. take_words (words_of opts) (cur, cmds) = (cmds', True) \<and> length cmds' = length cmds \<and>
    (\<forall>i<length cmds. cmds' ! i = (case map_of opts i of None \<Rightarrow> cmds ! i | Some (w, x) \<Rightarrow> push_argument x (cmds ! i)))"
  using assms
proof (induction opts arbitrary: cur cmds)
  case Nil
  then show ?case by (simp add: words_of_def)
next
  case (Cons p opts)
  obtain i w x where p: "p = (i, w, x)" by (cases p) auto
  let ?cs = "cmds[i := push_argument x (cmds ! i)]"
  have w: "associated cmds w = Some i" "associated cmds x = None" "\<not> is_variadic (cmds ! i)" using Cons.prems(1) p by auto
  then have i: "i < length cmds" using find_cmd_Some by (auto simp: associated_def split: if_splits)
  have sh: "map shape ?cs = map shape cmds" by (rule map_shape_put(2))
  have "is_variadic (?cs ! j) = is_variadic (cmds ! j)" for j
    using i by (cases "j = i") (simp_all add: push_argument_def)
  then have "\<forall>(j, v, y)\<in>set opts. associated ?cs v = Some j \<and> associated ?cs y = None \<and> \<not> is_variadic (?cs ! j)"
    using Cons.prems(1) same_shape(1)[OF sh] by auto
  from Cons.IH[OF this, of "find_default cmds"] Cons.prems(2) obtain cmds' where R:
    "take_words (words_of opts) (find_default cmds, ?cs) = (cmds', True)" "length cmds' = length cmds"
    "\<forall>j<length cmds. cmds' ! j = (case map_of opts j of None \<Rightarrow> ?cs ! j | Some (w, x) \<Rightarrow> push_argument x (?cs ! j))"
    by auto
  have "take_words (words_of (p # opts)) (cur, cmds) = (cmds', True)"
    using take_pair[OF w i, of "words_of opts" cur] R(1) by (simp add: words_of_def p)
  moreover have "cmds' ! j = (case map_of (p # opts) j of None \<Rightarrow> cmds ! j | Some (w, x) \<Rightarrow> push_argument x (cmds ! j))"
    if "j < length cmds" for j
  proof (cases "j = i")
    case True
    then have "map_of opts j = None" using Cons.prems(2) p by (simp add: map_of_eq_None_iff)
    then show ?thesis using R(3) that True p i by simp
  next
    case False
    then show ?thesis using R(3) that p by (auto split: option.split)
  qed
  ultimately show ?case using R(2) by blast
qed

text \<open>A pass in which every parameter can be parsed.\<close>

definition parsed :: "(string \<Rightarrow> 'd option) \<Rightarrow> 'd cmd \<Rightarrow> 'd cmd" where
  "parsed stod c =
     (case kind c of
        Callback f \<Rightarrow> c
      | Argument t \<Rightarrow> (case cli_parse stod 0 t (arguments c) (cmd_value c) of None \<Rightarrow> c | Some v \<Rightarrow> c\<lparr>cmd_value := v\<rparr>))"

definition parses :: "(string \<Rightarrow> 'd option) \<Rightarrow> 'd cmd \<Rightarrow> bool" where
  "parses stod c \<longleftrightarrow> (\<exists>t v. kind c = Argument t \<and> cli_parse stod 0 t (arguments c) (cmd_value c) = Some v)"

lemma parse_pass_ok:
  assumes "\<forall>c\<in>set cmds. handled c \<and> P c \<longrightarrow> parses stod c"
  shows "parse_pass stod P cmds = Inr (map (\<lambda>c. if handled c \<and> P c then parsed stod c else c) cmds, True)"
  using assms by (induction cmds) (auto simp: parse_cmd_def parsed_def parses_def)

lemma parsed_fields [simp]:
  "handled (parsed stod c) = handled c" "is_dominant (parsed stod c) = is_dominant c"
  "is_required (parsed stod c) = is_required c"
  by (simp_all add: parsed_def split: cmd_kind.split option.split)

lemma run_parser_ok:
  assumes "take_words ws (find_default cmds, cmds) = (cmds', True)" and "ws \<noteq> [] \<or> cmds' = cmds"
    and "\<forall>c\<in>set cmds'. handled c \<longrightarrow> parses stod c" and "\<forall>c\<in>set cmds'. is_required c \<longrightarrow> handled c"
  shows "run_parser stod ws cmds = Inr (map (\<lambda>c. if handled c then parsed stod c else c) cmds', True)"
proof -
  let ?f = "\<lambda>c. if handled c \<and> is_dominant c then parsed stod c else c"
  have 1: "parse_pass stod is_dominant cmds' = Inr (map ?f cmds', True)"
    using assms(3) by (intro parse_pass_ok) simp
  have "\<forall>c\<in>set (map ?f cmds'). handled c \<and> \<not> is_dominant c \<longrightarrow> parses stod c"
    using assms(3) by auto
  from parse_pass_ok[of _ "\<lambda>c. \<not> is_dominant c", OF this]
  have 2: "parse_pass stod (\<lambda>c. \<not> is_dominant c) (map ?f cmds') =
      Inr (map (\<lambda>c. if handled c then parsed stod c else c) cmds', True)"
    by (simp add: comp_def)
  have "\<not> list_ex (\<lambda>c. is_required c \<and> \<not> handled c) (map ?f cmds')"
    using assms(4) by (auto simp: list_ex_iff split: if_splits)
  then show ?thesis using 1 2 assms(1,2) by (auto simp: run_parser_def)
qed

lemma get_value_nth:
  assumes "distinct (map cmd_name cmds)" and "i < length cmds" and "kind (cmds ! i) = Argument t"
  shows "get_value t (cmd_name (cmds ! i)) cmds = Some (cmd_value (cmds ! i))"
proof -
  have "find (\<lambda>c. cmd_name c = cmd_name (cmds ! i)) cmds = Some (cmds ! i)"
    unfolding find_Some_iff
  proof (intro exI[of _ i] conjI allI impI assms refl)
    fix j assume "j < i"
    then show "cmd_name (cmds ! j) \<noteq> cmd_name (cmds ! i)"
      using assms(1,2) by (auto simp: distinct_conv_nth)
  qed
  then show ?thesis using assms(3) by (simp add: get_value_def)
qed

text \<open>The parameters of a parser before its first run, and settings that fit them.\<close>

definition fresh_parser :: "'d cmd list \<Rightarrow> bool" where
  "fresh_parser cmds \<longleftrightarrow>
     distinct (map cmd_name cmds) \<and> (\<forall>c\<in>set cmds. \<not> handled c \<and> arguments c = [])"

definition valid_setting :: "(string \<Rightarrow> 'd option) \<Rightarrow> 'd cmd list \<Rightarrow> nat \<times> string \<times> string \<Rightarrow> bool" where
  "valid_setting stod cmds s \<longleftrightarrow>
     (let (i, w, x) = s in
      associated cmds w = Some i \<and> associated cmds x = None \<and> \<not> is_variadic (cmds ! i) \<and>
      (\<exists>t v. kind (cmds ! i) = Argument t \<and> cli_parse stod 0 t [x] (cmd_value (cmds ! i)) = Some v))"

lemma settings_run:
  assumes "fresh_parser cmds" and "\<forall>s\<in>set opts. valid_setting stod cmds s" and "distinct (map fst opts)"
    and "\<forall>i<length cmds. is_required (cmds ! i) \<longrightarrow> i \<in> fst ` set opts"
  shows "\<exists>cmds'. run_parser stod (words_of opts) cmds = Inr (cmds', True) \<and> length cmds' = length cmds \<and>
    (\<forall>i<length cmds. cmds' ! i = (case map_of opts i of None \<Rightarrow> cmds ! i
       | Some (w, x) \<Rightarrow> parsed stod (push_argument x (cmds ! i))))"
proof -
  have valid: "\<forall>(i, w, x)\<in>set opts. associated cmds w = Some i \<and> associated cmds x = None \<and> \<not> is_variadic (cmds ! i)"
    using assms(2) by (auto simp: valid_setting_def)
  obtain cs where cs: "take_words (words_of opts) (find_default cmds, cmds) = (cs, True)" "length cs = length cmds"
    "\<forall>i<length cmds. cs ! i = (case map_of opts i of None \<Rightarrow> cmds ! i | Some (w, x) \<Rightarrow> push_argument x (cmds ! i))"
    using take_words_of[OF valid assms(3), of "find_default cmds"] by blast
  have mem: "valid_setting stod cmds (i, w, x)" if "map_of opts i = Some (w, x)" for i w x
    using map_of_SomeD[OF that] assms(2) by blast
  have nth: "handled (cs ! i) = (map_of opts i \<noteq> None) \<and> (handled (cs ! i) \<longrightarrow> parses stod (cs ! i)) \<and>
      (is_required (cs ! i) \<longrightarrow> handled (cs ! i))" if "i < length cs" for i
  proof (cases "map_of opts i")
    case None
    then have "i \<notin> fst ` set opts" by (simp add: map_of_eq_None_iff)
    moreover have "\<not> handled (cmds ! i)" using assms(1) that cs(2) by (simp add: fresh_parser_def)
    ultimately show ?thesis using None cs(2,3) that assms(4) by auto
  next
    case (Some p)
    obtain w x where p: "p = (w, x)" by force
    have "arguments (cmds ! i) = []" using assms(1) that cs(2) by (simp add: fresh_parser_def)
    then show ?thesis
      using mem[OF Some[unfolded p]] Some p cs(2,3) that
      by (auto simp: valid_setting_def parses_def push_argument_def)
  qed
  have all: "\<forall>c\<in>set cs. Q c" if "\<And>i. i < length cs \<Longrightarrow> Q (cs ! i)" for Q
    using that by (auto simp: in_set_conv_nth)
  have "words_of opts \<noteq> [] \<or> cs = cmds"
    using cs(2,3) by (cases opts) (auto simp: words_of_def intro: nth_equalityI)
  from run_parser_ok[OF cs(1) this all all] nth have
    "run_parser stod (words_of opts) cmds = Inr (map (\<lambda>c. if handled c then parsed stod c else c) cs, True)" by blast
  then show ?thesis
    using nth cs(2,3) by (intro exI[of _ "map (\<lambda>c. if handled c then parsed stod c else c) cs"])
      (auto split: option.split)
qed

lemma settings_roundtrip:
  assumes "fresh_parser cmds" and "\<forall>s\<in>set opts. valid_setting stod cmds s" and "distinct (map fst opts)"
    and "\<forall>i<length cmds. is_required (cmds ! i) \<longrightarrow> i \<in> fst ` set opts"
  shows "\<exists>cmds'. run_parser stod (words_of opts) cmds = Inr (cmds', True) \<and>
    (\<forall>i<length cmds. \<forall>t. kind (cmds ! i) = Argument t \<longrightarrow>
       get_value t (cmd_name (cmds ! i)) cmds' =
         (case map_of opts i of None \<Rightarrow> Some (cmd_value (cmds ! i))
          | Some (w, x) \<Rightarrow> cli_parse stod 0 t [x] (cmd_value (cmds ! i))))"
proof -
  obtain cmds' where R: "run_parser stod (words_of opts) cmds = Inr (cmds', True)" "length cmds' = length cmds"
    "\<forall>i<length cmds. cmds' ! i = (case map_of opts i of None \<Rightarrow> cmds ! i
       | Some (w, x) \<Rightarrow> parsed stod (push_argument x (cmds ! i)))"
    using settings_run[OF assms] by blast
  have name: "cmd_name (parsed stod (push_argument x c)) = cmd_name c" "kind (parsed stod (push_argument x c)) = kind c" for x c
    by (simp_all add: parsed_def push_argument_def split: cmd_kind.split option.split)
  have names: "map cmd_name cmds' = map cmd_name cmds"
    using R(2,3) by (intro nth_equalityI) (auto simp: name split: option.split)
  have "get_value t (cmd_name (cmds ! i)) cmds' =
      (case map_of opts i of None \<Rightarrow> Some (cmd_value (cmds ! i))
       | Some (w, x) \<Rightarrow> cli_parse stod 0 t [x] (cmd_value (cmds ! i)))"
    if i: "i < length cmds" and t: "kind (cmds ! i) = Argument t" for i t
  proof -
    have same: "cmd_name (cmds' ! i) = cmd_name (cmds ! i)" "kind (cmds' ! i) = kind (cmds ! i)"
      using R(3) i by (auto simp: name split: option.split)
    have "get_value t (cmd_name (cmds' ! i)) cmds' = Some (cmd_value (cmds' ! i))"
      using assms(1) i t R(2) same by (intro get_value_nth) (simp_all add: names fresh_parser_def)
    moreover have "Some (cmd_value (cmds' ! i)) =
      (case map_of opts i of None \<Rightarrow> Some (cmd_value (cmds ! i))
       | Some (w, x) \<Rightarrow> cli_parse stod 0 t [x] (cmd_value (cmds ! i)))"
    proof (cases "map_of opts i")
      case None
      then show ?thesis using R(3) i by simp
    next
      case (Some p)
      obtain w x where p: "p = (w, x)" by force
      have v: "valid_setting stod cmds (i, w, x)" using map_of_SomeD[OF Some[unfolded p]] assms(2) by blast
      have "arguments (cmds ! i) = []" using assms(1) i by (simp add: fresh_parser_def)
      then show ?thesis using R(3) i Some p v t by (auto simp: valid_setting_def parsed_def push_argument_def)
    qed
    ultimately show ?thesis using same(1) by simp
  qed
  then show ?thesis using R(1) by blast
qed

text \<open>C30: A command line that sets some parameters of a fresh parser, each once, to a word
  its type can read, and leaves out no required one, is accepted; afterwards get returns for
  each of them what its type reads from the word, and for the other parameters their default.\<close>
theorem command_line_roundtrip:
  assumes "fresh_parser cmds" and "\<forall>s\<in>set opts. valid_setting stod cmds s" and "distinct (map fst opts)"
    and "\<forall>i<length cmds. is_required (cmds ! i) \<longrightarrow> i \<in> fst ` set opts"
  shows "\<exists>cmds'. run_parser stod (words_of opts) cmds = Inr (cmds', True) \<and>
    (\<forall>i<length cmds. \<forall>t. kind (cmds ! i) = Argument t \<longrightarrow>
       get_value t (cmd_name (cmds ! i)) cmds' =
         (case map_of opts i of None \<Rightarrow> Some (cmd_value (cmds ! i))
          | Some (w, x) \<Rightarrow> cli_parse stod 0 t [x] (cmd_value (cmds ! i))))"
  using assms by (rule settings_roundtrip)

subsection \<open>Wrong numbers of arguments\<close>

fun scalar_type :: "cli_type \<Rightarrow> bool" where
  "scalar_type (CVector t) = False"
| "scalar_type CBool = False"
| "scalar_type (CBase t b) = scalar_type t"
| "scalar_type _ = True"

lemma cli_parse_count: "scalar_type t \<Longrightarrow> length xs \<noteq> 1 \<Longrightarrow> cli_parse stod base t xs v = None"
proof (induction t arbitrary: base)
  case CBool
  then show ?case by simp
next
  case (CVector t)
  then show ?case by simp
qed (cases xs rule: one_element.cases; simp)+

lemma parse_pass_fails:
  assumes "\<forall>c\<in>set cmds. handled c \<longrightarrow> (\<exists>t. kind c = Argument t)"
    and "\<exists>c\<in>set cmds. handled c \<and> P c \<and> \<not> parses stod c"
  shows "\<exists>cs. parse_pass stod P cmds = Inr (cs, False)"
  using assms
proof (induction cmds)
  case (Cons c cmds)
  show ?case
  proof (cases "handled c \<and> P c \<and> \<not> parses stod c")
    case True
    then show ?thesis using Cons.prems(1) by (auto simp: parse_cmd_def parses_def)
  next
    case False
    then obtain cs where "parse_pass stod P cmds = Inr (cs, False)" using Cons by auto
    then show ?thesis using False Cons.prems(1) by (auto simp: parse_cmd_def parses_def)
  qed
qed simp

text \<open>A scalar parameter that is given no word or more than one, because its option is the last
  word, is repeated on the command line, or because run is called again (which keeps the words of
  the earlier run), makes run refuse the command line.\<close>
theorem wrong_count_rejected:
  assumes "take_words ws (find_default cmds, cmds) = (cs, True)" and "ws \<noteq> []"
    and "c \<in> set cs" and "handled c" and "kind c = Argument t" and "scalar_type t" and "length (arguments c) \<noteq> 1"
    and "\<forall>c\<in>set cs. handled c \<longrightarrow> (\<exists>t. kind c = Argument t)"
  shows "\<exists>cs'. run_parser stod ws cmds = Inr (cs', False)"
proof -
  have bad: "\<not> parses stod c" using cli_parse_count[OF assms(6,7)] assms(5) by (simp add: parses_def)
  have run: "run_parser stod ws cmds = rbind (parse_pass stod is_dominant cs) (\<lambda>(cmds, ok).
        if \<not> ok then Inr (cmds, False)
        else if list_ex (\<lambda>c. is_required c \<and> \<not> handled c) cmds then Inr (cmds, False)
        else parse_pass stod (\<lambda>c. \<not> is_dominant c) cmds)"
    using assms(1,2) by (simp add: run_parser_def)
  show ?thesis
  proof (cases "\<forall>c\<in>set cs. handled c \<and> is_dominant c \<longrightarrow> parses stod c")
    case False
    then obtain cs' where "parse_pass stod is_dominant cs = Inr (cs', False)"
      using parse_pass_fails[OF assms(8)] by blast
    then show ?thesis by (simp add: run)
  next
    case True
    let ?cs = "map (\<lambda>c. if handled c \<and> is_dominant c then parsed stod c else c) cs"
    have "\<not> is_dominant c" using True assms(3,4) bad by blast
    then have "\<exists>c\<in>set ?cs. handled c \<and> \<not> is_dominant c \<and> \<not> parses stod c"
      using assms(3,4) bad by force
    moreover have "kind (parsed stod d) = kind d" for d
      by (simp add: parsed_def split: cmd_kind.split option.split)
    then have "\<forall>c\<in>set ?cs. handled c \<longrightarrow> (\<exists>t. kind c = Argument t)" using assms(8) by auto
    ultimately obtain cs' where "parse_pass stod (\<lambda>c. \<not> is_dominant c) ?cs = Inr (cs', False)"
      using parse_pass_fails[of ?cs "\<lambda>c. \<not> is_dominant c" stod] by auto
    then show ?thesis using parse_pass_ok[OF True] by (simp add: run)
  qed
qed

subsection \<open>Examples\<close>

text \<open>The parameters \<open>-s\<close>/\<open>--size\<close> (required) and \<open>-n\<close>/\<open>--name\<close> with the help of the constructor.\<close>

definition sample_parser :: "unit cmd list" where
  "sample_parser =
     set_optional CString ''n'' ''name'' (VString ''x'') False
       (set_required CULong ''s'' ''size'' False (VInt 0) (enable_help (VBool False) []))"

lemmas sample_simps = sample_parser_def set_optional_def set_required_def enable_help_def set_callback_def
  new_cmd_def associated_def cmd_is_def dash_name_def dash_alternative_def find_default_def push_argument_def

theorem words_are_distributed_witness:
  "\<exists>cmds'. take_words [''-s'', ''64'', ''-n'', ''-5''] (find_default sample_parser, sample_parser) = (cmds', True) \<and>
    mset (concat (map arguments cmds')) =
    mset (concat (map arguments sample_parser)) + mset (filter (\<lambda>w. associated sample_parser w = None) [''-s'', ''64'', ''-n'', ''-5''])"
proof -
  have "\<exists>cmds'. take_words [''-s'', ''64'', ''-n'', ''-5''] (find_default sample_parser, sample_parser) = (cmds', True)"
    by (simp add: sample_simps)
  then show ?thesis using words_are_distributed by blast
qed

theorem help_exits_witness:
  "run_parser (\<lambda>_. None) [''-n'', ''a'', ''--help''] sample_parser = Inl (Exit 0)"
  by (rule help_exits[where rest = "drop 1 sample_parser" and g = "VBool False"]) (simp_all add: sample_simps)

theorem command_line_roundtrip_witness:
  "\<exists>cmds'. run_parser (\<lambda>_. None) (words_of [(2, ''--name'', ''a b''), (1, ''-s'', ''0x40'')]) sample_parser = Inr (cmds', True) \<and>
    get_value CULong ''s'' cmds' = Some (VInt 64) \<and> get_value CString ''n'' cmds' = Some (VString ''a b'')"
proof -
  let ?opts = "[(2, ''--name'', ''a b''), (1, ''-s'', ''0x40'')]"
  have num: "cli_parse (\<lambda>_. None) 0 CULong [''0x40''] (VInt 0) = Some (VInt 64 :: unit cli_value)"
    by (simp add: sto_unsigned_def scan_number_def is_space_def is_digit_def digit_val_def digits_value_def W64_def)
  have "\<exists>cmds'. run_parser (\<lambda>_. None) (words_of ?opts) sample_parser = Inr (cmds', True) \<and>
    (\<forall>i<length sample_parser. \<forall>t. kind (sample_parser ! i) = Argument t \<longrightarrow>
       get_value t (cmd_name (sample_parser ! i)) cmds' =
         (case map_of ?opts i of None \<Rightarrow> Some (cmd_value (sample_parser ! i))
          | Some (w, x) \<Rightarrow> cli_parse (\<lambda>_. None) 0 t [x] (cmd_value (sample_parser ! i))))"
    by (rule command_line_roundtrip)
      (use num in \<open>auto simp: fresh_parser_def valid_setting_def sample_simps less_Suc_eq\<close>)
  then obtain cmds' where R: "run_parser (\<lambda>_. None) (words_of ?opts) sample_parser = Inr (cmds', True)"
    "\<forall>i<length sample_parser. \<forall>t. kind (sample_parser ! i) = Argument t \<longrightarrow>
       get_value t (cmd_name (sample_parser ! i)) cmds' =
         (case map_of ?opts i of None \<Rightarrow> Some (cmd_value (sample_parser ! i))
          | Some (w, x) \<Rightarrow> cli_parse (\<lambda>_. None) 0 t [x] (cmd_value (sample_parser ! i)))" by blast
  have "get_value CULong ''s'' cmds' = Some (VInt 64)" "get_value CString ''n'' cmds' = Some (VString ''a b'')"
    using R(2)[rule_format, of 1 CULong] R(2)[rule_format, of 2 CString] num by (simp_all add: sample_simps)
  then show ?thesis using R(1) by blast
qed

theorem wrong_count_rejected_witness:
  "\<exists>cs'. run_parser (\<lambda>_. None) [''-s'', ''1'', ''-s'', ''2''] sample_parser = Inr (cs', False)"
  by (rule wrong_count_rejected[where c = "(sample_parser ! 1)\<lparr>handled := True, arguments := [''1'', ''2'']\<rparr>" and t = CULong])
    (auto simp: sample_simps)

end
