(* ===== verification/Memcpy_Bench.thy ===== *)
theory Memcpy_Bench
  imports Cmdparser
begin

text \<open>
  The memory copy benchmark around its command-line parser: the parameters \<open>main.hip\<close> registers and
  what it makes of them (mode, memory, devices, kinds of copy, sizes), and the helpers of
  \<open>example_utils.hpp\<close>. The copies themselves are in \<open>Memcpy_Run\<close>.
\<close>

subsection \<open>example_utils.hpp\<close>

text \<open>\<open>std::stoi(str, &end)\<close> with base 10 and \<open>end == str.size()\<close>; None is the return of false.\<close>

definition parse_int_string :: "string \<Rightarrow> int option" where
  "parse_int_string str =
     (let (neg, s) = number_sign (dropWhile is_space str); ds = takeWhile (is_digit 10) s;
          v = (if neg then - int (digits_value 10 ds) else int (digits_value 10 ds)) in
      if ds = [] \<or> v < - (2 ^ 31) \<or> 2 ^ 31 \<le> v then None
      else if dropWhile (is_digit 10) s = [] then Some v else None)"

fun format_elements :: "string list \<Rightarrow> string" where
  "format_elements [] = []"
| "format_elements [x] = x"
| "format_elements (x # xs) = x @ '', '' @ format_elements xs"

definition format_range :: "string list \<Rightarrow> string" where
  "format_range xs = ''[ '' @ format_elements xs @ '' ]''"

definition format_pairs :: "(string \<times> string) list \<Rightarrow> string" where
  "format_pairs ps = ''[ '' @ format_elements (map (\<lambda>(a, b). ''('' @ a @ '', '' @ b @ '')'') ps) @ '' ]''"

definition ceiling_div :: "nat \<Rightarrow> nat \<Rightarrow> nat res" where
  "ceiling_div dividend divisor = div64 (sub64 (add64 dividend divisor) 1) divisor"

definition report_validation_result :: "int \<Rightarrow> int" where
  "report_validation_result errors = (if errors \<noteq> 0 then - 1 else 0)"

record host_clock =
  start_time :: nat
  elapsed_time :: nat

text \<open>\<open>start_time\<close> has no value before the first start (\<open>garbage\<close>).\<close>

definition reset_timer :: "host_clock \<Rightarrow> host_clock" where
  "reset_timer c = c\<lparr>elapsed_time := 0\<rparr>"

definition new_clock :: "nat \<Rightarrow> host_clock" where
  "new_clock garbage = reset_timer \<lparr>start_time = garbage, elapsed_time = garbage\<rparr>"

definition start_timer :: "nat \<Rightarrow> host_clock \<Rightarrow> host_clock" where
  "start_timer now c = c\<lparr>start_time := now\<rparr>"

definition stop_timer :: "nat \<Rightarrow> host_clock \<Rightarrow> host_clock" where
  "stop_timer now c = c\<lparr>elapsed_time := elapsed_time c + (now - start_time c)\<rparr>"

lemma clock_sum:
  assumes "\<forall>(a, b)\<in>set runs. a \<le> b"
  shows "elapsed_time (foldl (\<lambda>c (a, b). stop_timer b (start_timer a c)) (new_clock garbage) runs) =
    (\<Sum>(a, b)\<leftarrow>runs. b - a)"
proof -
  have "elapsed_time (foldl (\<lambda>c (a, b). stop_timer b (start_timer a c)) c runs) =
      elapsed_time c + (\<Sum>(a, b)\<leftarrow>runs. b - a)" for c
    by (induction runs arbitrary: c) (auto simp: stop_timer_def start_timer_def)
  then show ?thesis by (simp add: new_clock_def reset_timer_def)
qed

subsection \<open>main.hip\<close>

text \<open>The sizes of the range mode; None when the loop does not end (\<open>fuel\<close> runs out).\<close>

fun generate_sizes_range :: "nat \<Rightarrow> nat \<Rightarrow> nat \<Rightarrow> nat \<Rightarrow> nat list option" where
  "generate_sizes_range 0 i end_size step = None"
| "generate_sizes_range (Suc fuel) i end_size step =
     (if i < end_size then map_option (\<lambda>xs. i # xs) (generate_sizes_range fuel (add64 i step) end_size step)
      else Some [])"

definition shmoo_increment :: "nat \<Rightarrow> nat" where
  "shmoo_increment s =
     (if s < 20480 then 1024 else if s < 51200 then 2048 else if s < 102400 then 10240
      else if s < 2 ^ 20 then 102400 else if s < 2 ^ 24 then 2 ^ 20 else if s < 2 ^ 25 then 2 ^ 21 else 2 ^ 22)"

definition SHMOO_MAX :: nat where
  "SHMOO_MAX = 2 ^ 26"

function generate_sizes_shmoo :: "nat \<Rightarrow> nat list" where
  "generate_sizes_shmoo s =
     (if s \<le> SHMOO_MAX then (s + shmoo_increment s) # generate_sizes_shmoo (s + shmoo_increment s) else [])"
  by pat_completeness auto

termination
  by (relation "measure (\<lambda>s. Suc SHMOO_MAX - s)") (auto simp: shmoo_increment_def)

declare generate_sizes_shmoo.simps [simp del]

definition configure_parser :: "'d cmd list \<Rightarrow> 'd cmd list" where
  "configure_parser cmds =
     set_optional (CVector CString) ''memcpy'' ''memcpy'' (VVector [VString ''htod'', VString ''dtoh'', VString ''dtod'']) False
    (set_optional (CVector CString) ''device'' ''device'' (VVector [VString ''0'']) False
    (set_optional CULong ''trials'' ''trials'' (VInt 50) False
    (set_optional CString ''memory'' ''memory'' (VString ''pageable'') False
    (set_optional CString ''mode'' ''mode'' (VString ''range'') False
    (set_optional CULong ''stride'' ''stride'' (VInt (2 ^ 22)) False
    (set_optional CULong ''end'' ''end'' (VInt (2 ^ 23)) False
    (set_optional CULong ''start'' ''start'' (VInt (2 ^ 20)) False cmds)))))))"

definition choose_devices :: "nat \<Rightarrow> string list \<Rightarrow> nat list res" where
  "choose_devices number_of_devices names =
     (if ''all'' \<in> set names then Inr [0..<number_of_devices]
      else for_each names (\<lambda>d devices.
        case parse_int_string d of
          None \<Rightarrow> Inl (Exit 255)
        | Some n \<Rightarrow> if n < 0 \<or> int number_of_devices \<le> n then Inl (Exit 255) else Inr (devices @ [nat n])) [])"

datatype memcpy_kind = HtoD | DtoH | DtoD

text \<open>A \<open>std::map\<close> holds every kind once; the kinds are in the order of the enumeration.\<close>

definition choose_kinds :: "string list \<Rightarrow> memcpy_kind set res" where
  "choose_kinds names =
     (if ''all'' \<in> set names then Inr {HtoD, DtoH, DtoD}
      else for_each names (\<lambda>w kinds.
        if w = ''htod'' then Inr (insert HtoD kinds) else if w = ''dtoh'' then Inr (insert DtoH kinds)
        else if w = ''dtod'' then Inr (insert DtoD kinds) else Inl (Exit 255)) {})"

subsection \<open>Sizes\<close>

lemma shmoo_increment_pos: "0 < shmoo_increment s"
  by (simp add: shmoo_increment_def)

text \<open>The sizes of the shmoo mode increase strictly, and exactly the last of them is above the
  maximum of 64 MiB, as the loop tests a size before it adds the increment: 64 MiB and 76 KiB.\<close>
theorem shmoo_sizes:
  "sorted_wrt (<) (generate_sizes_shmoo 0) \<and> last (generate_sizes_shmoo 0) = 67186688 \<and>
    (\<forall>s\<in>set (butlast (generate_sizes_shmoo 0)). s \<le> SHMOO_MAX) \<and> SHMOO_MAX < last (generate_sizes_shmoo 0)"
proof -
  have gen: "sorted_wrt (<) (s # generate_sizes_shmoo s) \<and>
      (s \<le> SHMOO_MAX \<longrightarrow> generate_sizes_shmoo s \<noteq> [] \<and> SHMOO_MAX < last (generate_sizes_shmoo s)) \<and>
      (\<forall>x\<in>set (butlast (generate_sizes_shmoo s)). x \<le> SHMOO_MAX)" for s
  proof (induction s rule: generate_sizes_shmoo.induct)
    case (1 s)
    show ?case
    proof (cases "s \<le> SHMOO_MAX")
      case True
      have step: "generate_sizes_shmoo s = (s + shmoo_increment s) # generate_sizes_shmoo (s + shmoo_increment s)"
        using True by (subst generate_sizes_shmoo.simps) simp
      note IH = 1[OF True]
      have none: "generate_sizes_shmoo (s + shmoo_increment s) = []" if "SHMOO_MAX < s + shmoo_increment s"
        using that by (subst generate_sizes_shmoo.simps) simp
      show ?thesis
        unfolding step using IH none shmoo_increment_pos[of s] by (cases "s + shmoo_increment s \<le> SHMOO_MAX") auto
    next
      case False
      then show ?thesis by (subst (1 2 3 4) generate_sizes_shmoo.simps) simp
    qed
  qed
  have "last (generate_sizes_shmoo 0) = 67186688"
    by (simp add: generate_sizes_shmoo.simps shmoo_increment_def SHMOO_MAX_def)
  then show ?thesis using gen[of 0] by (auto simp: SHMOO_MAX_def)
qed

text \<open>The range mode measures start, start + stride and so on below end, as many sizes as the rounded
  up quotient of their distance by the stride; with the stride 0, which is accepted, the list of
  sizes grows without end.\<close>
theorem range_sizes:
  assumes "start \<le> stop" and "stop + step < W64"
  shows "(0 < step \<longrightarrow> (stop - start + step - 1) div step < fuel \<longrightarrow>
      ceiling_div (stop - start) step = Inr ((stop - start + step - 1) div step) \<and>
      generate_sizes_range fuel start stop step =
        Some (map (\<lambda>k. start + k * step) [0..<(stop - start + step - 1) div step])) \<and>
    (start < stop \<longrightarrow> generate_sizes_range fuel start stop 0 = None)"
proof (intro conjI impI)
  assume step: "0 < step" and fuel: "(stop - start + step - 1) div step < fuel"
  show "ceiling_div (stop - start) step = Inr ((stop - start + step - 1) div step)"
    using step assms by (simp add: ceiling_div_def c_arith)
  have "generate_sizes_range fuel i stop step = Some (map (\<lambda>k. i + k * step) [0..<(stop - i + step - 1) div step])"
    if "(stop - i + step - 1) div step < fuel" "i < W64" for fuel i
    using that
  proof (induction fuel arbitrary: i)
    case (Suc fuel)
    show ?case
    proof (cases "i < stop")
      case True
      define n where "n = (stop - i + step - 1) div step"
      have next_i: "add64 i step = i + step" using True assms(2) by (simp add: c_arith)
      have n: "n = Suc ((stop - (i + step) + step - 1) div step)"
      proof (cases "step \<le> stop - i")
        case True
        then have "stop - i + step - 1 = (stop - (i + step) + step - 1) + step" using step by simp
        then have "n = (stop - (i + step) + step - 1) div step + 1"
          unfolding n_def using step by (simp only: div_add_self2 neq0_conv)
        then show ?thesis by simp
      next
        case False
        have "n = 1" unfolding n_def using False True step by (intro div_nat_eqI) auto
        then show ?thesis using False step by simp
      qed
      have "(stop - (i + step) + step - 1) div step < fuel" using Suc.prems(1) n by (simp add: n_def)
      moreover have "i + step < W64" using True assms(2) by simp
      ultimately have "generate_sizes_range fuel (i + step) stop step =
          Some (map (\<lambda>k. i + step + k * step) [0..<(stop - (i + step) + step - 1) div step])"
        by (rule Suc.IH)
      moreover have "map (\<lambda>k. i + k * step) [0..<n] = i # map (\<lambda>k. i + step + k * step) [0..<(stop - (i + step) + step - 1) div step]"
        unfolding n by (subst upt_conv_Cons) (simp_all add: map_Suc_upt[symmetric] comp_def add.assoc del: upt_Suc)
      ultimately show ?thesis using True next_i by (simp add: n_def)
    next
      case False
      then show ?thesis using step by simp
    qed
  qed simp
  from this[OF fuel] show "generate_sizes_range fuel start stop step =
      Some (map (\<lambda>k. start + k * step) [0..<(stop - start + step - 1) div step])"
    using assms by simp
next
  assume "start < stop"
  moreover have "add64 start 0 = start" using assms by (simp add: c_arith)
  ultimately show "generate_sizes_range fuel start stop 0 = None" by (induction fuel) auto
qed

subsection \<open>Numbers on the command line\<close>

lemma strtoull_scan:
  "strtoull str = (case scan_number 0 str of
      None \<Rightarrow> (0, str)
    | Some (neg, v) \<Rightarrow> (if W64 \<le> v then W64 - 1 else if neg then sub64 0 v else v, snd (strtoull str)))"
  by (auto simp: strtoull_def scan_number_def Let_def split: prod.split)

lemma sto_unsigned_literal:
  assumes "n < W64 - 1"
  shows "sto_unsigned 0 (literal r n) = Some n"
proof -
  have "strtoull (literal r n @ []) = (min n (W64 - 1), [])"
    by (rule strtoull_literal) (simp add: ends_number_def)
  then have R: "strtoull (literal r n) = (n, [])" using assms by simp
  have "literal r n \<noteq> []" using numeral_string_digits(1)[of 10 n] by (cases r) auto
  then obtain neg v where S: "scan_number 0 (literal r n) = Some (neg, v)"
    using R strtoull_scan[of "literal r n"] by (cases "scan_number 0 (literal r n)") auto
  then show ?thesis
    using R strtoull_scan[of "literal r n"] assms by (auto simp: sto_unsigned_def split: if_splits)
qed

text \<open>Parse_int_string reads back every int written in decimal, and rejects a number that is
  followed by anything.\<close>
theorem parse_int_string_roundtrip:
  assumes "n < 2 ^ 31" and "ends_number rest"
  shows "parse_int_string (numeral_string 10 n @ rest) = (if rest = [] then Some (int n) else None) \<and>
    parse_int_string (CHR ''-'' # numeral_string 10 n @ rest) = (if rest = [] then Some (- int n) else None)"
proof -
  obtain d s where ns: "numeral_string 10 n = digit_char d # s" "d < 10"
    by (rule numeral_string_hd[of 10 n]) auto
  have start: "\<not> is_space (digit_char d)" "digit_char d \<noteq> CHR ''-''" "digit_char d \<noteq> CHR ''+''"
    using digit_char_not[of d] ns(2) by simp_all
  have "\<forall>c\<in>set (numeral_string 10 n). is_digit 10 c"
    using numeral_string_digits(2)[of 10 n] is_digit_char[of _ 10] by fastforce
  then have "takeWhile (is_digit 10) (numeral_string 10 n @ rest) = numeral_string 10 n"
    "dropWhile (is_digit 10) (numeral_string 10 n @ rest) = rest"
    using ends_number_scan[OF assms(2), of 10] by (simp_all add: takeWhile_append dropWhile_append)
  then have tw: "takeWhile (is_digit 10) (digit_char d # s @ rest) = numeral_string 10 n"
    "dropWhile (is_digit 10) (digit_char d # s @ rest) = rest"
    using ns(1) by simp_all
  have "digits_value 10 (numeral_string 10 n) = n" "numeral_string 10 n \<noteq> []"
    using numeral_string_digits[of 10 n] by simp_all
  moreover have "int n < 2 ^ 31" using assms(1) by simp
  moreover have "\<not> is_space CHR ''-''" by (simp add: is_space_def)
  ultimately show ?thesis
    unfolding parse_int_string_def using start tw ns(1) by simp
qed

subsection \<open>Devices\<close>

text \<open>The devices chosen exist, and they are the numbers given, in order.\<close>
theorem chosen_devices_exist:
  assumes "choose_devices number_of_devices names = Inr devices"
  shows "(\<forall>d\<in>set devices. d < number_of_devices) \<and>
    (''all'' \<notin> set names \<longrightarrow> map (\<lambda>d. Some (int d)) devices = map parse_int_string names)"
proof (cases "''all'' \<in> set names")
  case True
  then show ?thesis using assms by (auto simp: choose_devices_def)
next
  case False
  have "(\<forall>d\<in>set ds'. d < number_of_devices) \<and> map (\<lambda>d. Some (int d)) ds' = map (\<lambda>d. Some (int d)) ds @ map parse_int_string ns"
    if "for_each ns (\<lambda>d devices. case parse_int_string d of None \<Rightarrow> Inl (Exit 255)
        | Some n \<Rightarrow> if n < 0 \<or> int number_of_devices \<le> n then Inl (Exit 255) else Inr (devices @ [nat n])) ds = Inr ds'"
      "\<forall>d\<in>set ds. d < number_of_devices" for ns ds ds'
    using that
  proof (induction ns arbitrary: ds)
    case (Cons w ns)
    obtain n where n: "parse_int_string w = Some n" "0 \<le> n" "n < int number_of_devices"
    proof (cases "parse_int_string w")
      case None
      then show ?thesis using Cons.prems(1) by simp
    next
      case (Some n)
      then show ?thesis using that[of n] Cons.prems(1) by (simp split: if_splits)
    qed
    show ?case using Cons.IH[of "ds @ [nat n]"] Cons.prems n by simp
  qed simp
  from this[of names "[]" devices] show ?thesis using assms False by (simp add: choose_devices_def)
qed

subsection \<open>From the command line to the sizes\<close>

abbreviation bench_parser :: "'d cli_value \<Rightarrow> 'd cmd list" where
  "bench_parser g \<equiv> configure_parser (enable_help g [])"

lemmas bench_simps = configure_parser_def enable_help_def set_callback_def set_optional_def new_cmd_def
  associated_def cmd_is_def dash_name_def dash_alternative_def

lemma literal_no_option: "associated cmds (literal r n) = None"
proof -
  obtain d s where ns: "numeral_string 10 n = digit_char d # s" "d < 10"
    by (rule numeral_string_hd[of 10 n]) auto
  then have "hd (literal r n) \<noteq> CHR ''-''" using digit_char_not(2)[of d] by (cases r) auto
  then show ?thesis by (simp add: associated_def)
qed

text \<open>The sizes given on the command line of the memory copy benchmark, in decimal, octal or
  hexadecimal, arrive in the range mode, which is the default.\<close>
theorem bench_sizes_from_command_line:
  assumes "a < W64 - 1" and "b < W64 - 1" and "c < W64 - 1"
  shows "\<exists>cmds'. run_and_exit_if_error stod [''-start'', literal r a, ''--end'', literal r b, ''-stride'', literal r c]
      (bench_parser g) = Inr cmds' \<and>
    get_value CULong ''start'' cmds' = Some (VInt (int a)) \<and>
    get_value CULong ''end'' cmds' = Some (VInt (int b)) \<and>
    get_value CULong ''stride'' cmds' = Some (VInt (int c)) \<and>
    get_value CString ''mode'' cmds' = Some (VString ''range'')"
proof -
  let ?cmds = "bench_parser g"
  let ?opts = "[(1, ''-start'', literal r a), (2, ''--end'', literal r b), (3, ''-stride'', literal r c)]"
  have read: "cli_parse stod 0 CULong [literal r x] v = Some (VInt (int x))" if "x < W64 - 1" for x v
    using sto_unsigned_literal[OF that] by simp
  have fresh: "fresh_parser ?cmds" by (simp add: fresh_parser_def bench_simps)
  have sel: "associated ?cmds ''-start'' = Some 1" "associated ?cmds ''--end'' = Some 2" "associated ?cmds ''-stride'' = Some 3"
    by (simp_all add: bench_simps eval_nat_numeral)
  have at: "kind (?cmds ! i) = Argument CULong \<and> \<not> is_variadic (?cmds ! i) \<and>
      cmd_name (?cmds ! i) = [[], ''start'', ''end'', ''stride''] ! i" if "i \<in> {1, 2, 3}" for i
    using that by (auto simp: bench_simps)
  have valid: "\<forall>s\<in>set ?opts. valid_setting stod ?cmds s"
    using at[of 1] at[of 2] at[of 3] sel read[OF assms(1)] read[OF assms(2)] read[OF assms(3)]
    by (simp add: valid_setting_def literal_no_option del: cli_parse.simps)
  have "\<forall>i<length ?cmds. \<not> is_required (?cmds ! i)"
    by (auto simp: bench_simps less_Suc_eq)
  then have "\<forall>i<length ?cmds. is_required (?cmds ! i) \<longrightarrow> i \<in> fst ` set ?opts" by blast
  from settings_roundtrip[OF fresh valid _ this] obtain cmds' where
    run: "run_parser stod (words_of ?opts) ?cmds = Inr (cmds', True)" and
    vals: "\<And>i t. i < length ?cmds \<Longrightarrow> kind (?cmds ! i) = Argument t \<Longrightarrow>
       get_value t (cmd_name (?cmds ! i)) cmds' =
         (case map_of ?opts i of None \<Rightarrow> Some (cmd_value (?cmds ! i))
          | Some (w, x) \<Rightarrow> cli_parse stod 0 t [x] (cmd_value (?cmds ! i)))"
    by auto
  have len: "length ?cmds = 9" by (simp add: bench_simps)
  have "cmd_name (?cmds ! 4) = ''mode''" "kind (?cmds ! 4) = Argument CString" "cmd_value (?cmds ! 4) = VString ''range''"
    by (simp_all add: bench_simps)
  then have "get_value CString ''mode'' cmds' = Some (VString ''range'')"
    using vals[of 4 CString] len by simp
  moreover have "get_value CULong ''start'' cmds' = Some (VInt (int a))"
    "get_value CULong ''end'' cmds' = Some (VInt (int b))"
    "get_value CULong ''stride'' cmds' = Some (VInt (int c))"
    using vals[of 1 CULong] vals[of 2 CULong] vals[of 3 CULong] at[of 1] at[of 2] at[of 3] len
      read[OF assms(1)] read[OF assms(2)] read[OF assms(3)]
    by (simp_all del: cli_parse.simps)
  ultimately show ?thesis using run by (simp add: run_and_exit_if_error_def words_of_def)
qed

subsection \<open>Examples\<close>

theorem range_sizes_witness:
  "ceiling_div (8 - 1) 3 = Inr 3 \<and> generate_sizes_range 4 1 8 3 = Some [1, 4, 7] \<and> generate_sizes_range 4 1 8 0 = None"
  using range_sizes[of 1 8 3 4] range_sizes[of 1 8 0 4] by (simp add: W64_def upt_rec)

theorem parse_int_string_roundtrip_witness:
  "parse_int_string (numeral_string 10 42 @ ''kb'') = None \<and> parse_int_string (CHR ''-'' # numeral_string 10 42 @ ''kb'') = None"
proof -
  have "ends_number ''kb''" by (simp add: ends_number_def is_digit_def digit_val_def)
  then show ?thesis using parse_int_string_roundtrip[of 42 "''kb''"] by simp
qed

theorem chosen_devices_exist_witness:
  "(\<forall>d\<in>set [1, 0]. d < (2 :: nat)) \<and>
    (''all'' \<notin> set [''1'', ''0''] \<longrightarrow> map (\<lambda>d. Some (int d)) [1, 0] = map parse_int_string [''1'', ''0''])"
  by (rule chosen_devices_exist)
    (simp add: choose_devices_def parse_int_string_def is_space_def is_digit_def digit_val_def digits_value_def)

theorem bench_sizes_from_command_line_witness:
  "\<exists>cmds'. run_and_exit_if_error (\<lambda>_. None :: unit option) [''-start'', literal Decimal 16, ''--end'', literal Decimal 64, ''-stride'', literal Decimal 8]
      (bench_parser (VBool False)) = Inr cmds' \<and>
    get_value CULong ''start'' cmds' = Some (VInt 16) \<and> get_value CULong ''end'' cmds' = Some (VInt 64) \<and>
    get_value CULong ''stride'' cmds' = Some (VInt 8) \<and> get_value CString ''mode'' cmds' = Some (VString ''range'')"
  using bench_sizes_from_command_line[of 16 64 8 "\<lambda>_. None" Decimal "VBool False"] by (simp add: W64_def del: literal.simps)

end
