(* ===== verification/Memcpy_Run.thy ===== *)
theory Memcpy_Run
  imports Memcpy_Bench Floats
begin

text \<open>
  The measurements of \<open>main.hip\<close>: the copies between the host and the devices, for paged and pinned
  host memory and between blocks of one device, and main around them. HIP and the vectors of the
  host are parameters (\<open>hip_api\<close>); \<open>working_hip\<close> is what the documentation promises of them. Left out
  are the buffers that are only written to clear the caches, the name of the device
  (\<open>hipGetDeviceProperties\<close>) and the count of the devices, which is an argument of main.
\<close>

subsection \<open>HIP\<close>

text \<open>The kinds in the order of the enumeration of HIP, in which a \<open>std::map\<close> goes through them.\<close>

fun kind_number :: "memcpy_kind \<Rightarrow> nat" where
  "kind_number HtoD = 1"
| "kind_number DtoH = 2"
| "kind_number DtoD = 3"

instantiation memcpy_kind :: linorder
begin

definition less_eq_memcpy_kind :: "memcpy_kind \<Rightarrow> memcpy_kind \<Rightarrow> bool" where
  "less_eq_memcpy_kind k l \<longleftrightarrow> kind_number k \<le> kind_number l"

definition less_memcpy_kind :: "memcpy_kind \<Rightarrow> memcpy_kind \<Rightarrow> bool" where
  "less_memcpy_kind k l \<longleftrightarrow> kind_number k < kind_number l"

instance
proof
  fix k l :: memcpy_kind
  show "k \<le> l \<Longrightarrow> l \<le> k \<Longrightarrow> k = l" by (cases k; cases l) (simp_all add: less_eq_memcpy_kind_def)
qed (auto simp: less_eq_memcpy_kind_def less_memcpy_kind_def)

end

text \<open>
  The state \<open>'h\<close> is that of HIP and of the heap. \<open>host_vector\<close> is a fresh vector of the host with its
  contents, \<open>host_fill\<close> writes to a block of the host.
\<close>

record 'h hip_api =
  hip_set_device :: "nat \<Rightarrow> 'h \<Rightarrow> 'h option"
  hip_device_malloc :: "nat \<Rightarrow> 'h \<Rightarrow> (nat \<times> 'h) option"
  hip_device_free :: "nat \<Rightarrow> 'h \<Rightarrow> 'h option"
  hip_host_malloc :: "nat \<Rightarrow> 'h \<Rightarrow> (nat \<times> 'h) option"
  hip_host_free :: "nat \<Rightarrow> 'h \<Rightarrow> 'h option"
  hip_memcpy :: "nat \<Rightarrow> nat \<Rightarrow> nat \<Rightarrow> memcpy_kind \<Rightarrow> 'h \<Rightarrow> 'h option"
  hip_synchronize :: "'h \<Rightarrow> 'h option"
  host_vector :: "nat list \<Rightarrow> 'h \<Rightarrow> nat \<times> 'h"
  host_drop :: "nat \<Rightarrow> 'h \<Rightarrow> 'h"
  host_fill :: "nat \<Rightarrow> nat list \<Rightarrow> 'h \<Rightarrow> 'h"

text \<open>\<open>HIP_CHECK\<close>.\<close>

definition hip_ok :: "'a option \<Rightarrow> 'a res" where
  "hip_ok r = (case r of None \<Rightarrow> Inl (Exit 255) | Some x \<Rightarrow> Inr x)"

subsection \<open>Measurements\<close>

text \<open>The loops that fill the input count in 32 bits: None when they do not end.\<close>

definition input_bytes :: "nat \<Rightarrow> nat list option" where
  "input_bytes n = (if n < 2 ^ 32 then Some (map (\<lambda>i. i mod 256) [0..<n]) else None)"

definition get_elapsed_time :: "'d fp_ops \<Rightarrow> host_clock \<Rightarrow> 'd" where
  "get_elapsed_time fp c = fp_div fp (fp_nat fp (elapsed_time c)) (fp_nat fp (10 ^ 9))"

definition bandwidth :: "'d fp_ops \<Rightarrow> nat \<Rightarrow> nat \<Rightarrow> host_clock \<Rightarrow> 'd" where
  "bandwidth fp bytes trails c =
     fp_div fp (fp_div fp (fp_nat fp (mul64 bytes trails)) (fp_nat fp (10 ^ 9))) (get_elapsed_time fp c)"

text \<open>The state of a measurement: the number of readings of the clock so far, and HIP; \<open>now r\<close> is the
  \<open>r\<close>-th reading. A copy that is timed on its own, as often as there are trials.\<close>

definition warm_up :: "'h hip_api \<Rightarrow> nat \<Rightarrow> nat \<Rightarrow> nat \<Rightarrow> memcpy_kind \<Rightarrow> 'h \<Rightarrow> 'h res" where
  "warm_up a dst src bytes k h = for_range 5 (\<lambda>_ h. hip_ok (hip_memcpy a dst src bytes k h)) h"

definition timed_copies ::
    "'h hip_api \<Rightarrow> (nat \<Rightarrow> nat) \<Rightarrow> nat \<Rightarrow> nat \<Rightarrow> nat \<Rightarrow> memcpy_kind \<Rightarrow> nat \<Rightarrow> host_clock \<times> nat \<times> 'h \<Rightarrow>
     (host_clock \<times> nat \<times> 'h) res" where
  "timed_copies a now dst src bytes k trails st =
     for_range trails (\<lambda>_ (c, r, h).
       let c = start_timer (now r) c in
       rbind (hip_ok (hip_memcpy a dst src bytes k h)) (\<lambda>h.
       Inr (stop_timer (now (r + 1)) c, r + 2, h))) st"

text \<open>All copies timed together, up to the synchronisation.\<close>

definition timed_batch ::
    "'h hip_api \<Rightarrow> (nat \<Rightarrow> nat) \<Rightarrow> nat \<Rightarrow> nat \<Rightarrow> nat \<Rightarrow> memcpy_kind \<Rightarrow> nat \<Rightarrow> host_clock \<times> nat \<times> 'h \<Rightarrow>
     (host_clock \<times> nat \<times> 'h) res" where
  "timed_batch a now dst src bytes k trails st =
     (let (c, r, h) = st; c = start_timer (now r) c in
      rbind (for_range trails (\<lambda>_ h. hip_ok (hip_memcpy a dst src bytes k h)) h) (\<lambda>h.
      rbind (hip_ok (hip_synchronize a h)) (\<lambda>h.
      Inr (stop_timer (now (r + 1)) c, r + 2, h))))"

definition paged_copy ::
    "'h hip_api \<Rightarrow> 'd fp_ops \<Rightarrow> (nat \<Rightarrow> nat) \<Rightarrow> memcpy_kind \<Rightarrow> nat \<Rightarrow> nat \<Rightarrow> nat \<Rightarrow> nat \<times> 'h \<Rightarrow>
     ('d \<times> nat \<times> 'h) res option" where
  "paged_copy a fp now k d_in bytes trails st =
     (case input_bytes bytes of
        None \<Rightarrow> None
      | Some input \<Rightarrow> Some
          (let (r, h) = st; (h_in, h) = host_vector a input h; (h_out, h) = host_vector a (replicate bytes 0) h in
           rbind (case k of
               HtoD \<Rightarrow> Inr (h_in, d_in, h)
             | DtoH \<Rightarrow> rbind (hip_ok (hip_memcpy a d_in h_in bytes HtoD h)) (\<lambda>h. Inr (d_in, h_out, h))
             | DtoD \<Rightarrow> Inl (Exit 255)) (\<lambda>(src, dst, h).
           rbind (warm_up a dst src bytes k h) (\<lambda>h.
           rbind (timed_copies a now dst src bytes k trails (new_clock 0, r, h)) (\<lambda>(c, r, h).
           Inr (bandwidth fp bytes trails c, r, host_drop a h_in (host_drop a h_out h)))))))"

text \<open>The first copy of the other direction has the kind of the measured copies.\<close>

definition pinned_copy ::
    "'h hip_api \<Rightarrow> 'd fp_ops \<Rightarrow> (nat \<Rightarrow> nat) \<Rightarrow> memcpy_kind \<Rightarrow> nat \<Rightarrow> nat \<Rightarrow> nat \<Rightarrow> nat \<times> 'h \<Rightarrow>
     ('d \<times> nat \<times> 'h) res option" where
  "pinned_copy a fp now k d_in bytes trails st =
     obind (Some (let (r, h) = st in
       rbind (hip_ok (hip_host_malloc a bytes h)) (\<lambda>(h_in, h).
       rbind (hip_ok (hip_host_malloc a bytes h)) (\<lambda>(h_out, h). Inr (h_in, h_out, r, h))))) (\<lambda>(h_in, h_out, r, h).
     case input_bytes bytes of
       None \<Rightarrow> None
     | Some input \<Rightarrow> Some
         (let h = host_fill a h_in input h in
          rbind (case k of
              HtoD \<Rightarrow> Inr (h_in, d_in, h)
            | DtoH \<Rightarrow>
                rbind (hip_ok (hip_memcpy a d_in h_in bytes k h)) (\<lambda>h.
                rbind (hip_ok (hip_synchronize a h)) (\<lambda>h. Inr (d_in, h_out, h)))
            | DtoD \<Rightarrow> Inr (0, 0, h)) (\<lambda>(src, dst, h).
          rbind (warm_up a dst src bytes k h) (\<lambda>h.
          rbind (hip_ok (hip_synchronize a h)) (\<lambda>h.
          rbind (timed_batch a now dst src bytes k trails (new_clock 0, r, h)) (\<lambda>(c, r, h).
          rbind (hip_ok (hip_host_free a h_in h)) (\<lambda>h.
          rbind (hip_ok (hip_host_free a h_out h)) (\<lambda>h.
          Inr (bandwidth fp bytes trails c, r, h)))))))))"

datatype memory_mode = PAGED | PINNED

definition run_bandwidth_host_device ::
    "'h hip_api \<Rightarrow> 'd fp_ops \<Rightarrow> (nat \<Rightarrow> nat) \<Rightarrow> nat list \<Rightarrow> nat \<Rightarrow> memcpy_kind \<Rightarrow> memory_mode \<Rightarrow> nat \<Rightarrow> nat \<times> 'h \<Rightarrow>
     ('d list \<times> nat \<times> 'h) res option" where
  "run_bandwidth_host_device a fp now sizes device k mode trails st =
     (if k = DtoD then Some (Inl (Exit 255))
      else obind (Some (hip_ok (hip_set_device a device (snd st)))) (\<lambda>h.
        for_each_opt sizes (\<lambda>bytes (bs, r, h).
          obind (Some (hip_ok (hip_device_malloc a bytes h))) (\<lambda>(d_in, h).
          obind ((if mode = PAGED then paged_copy else pinned_copy) a fp now k d_in bytes trails (r, h)) (\<lambda>(b, r, h).
          obind (Some (hip_ok (hip_device_free a d_in h))) (\<lambda>h. Some (Inr (bs @ [b], r, h)))))) ([], fst st, h)))"

definition run_bandwidth_device_device ::
    "'h hip_api \<Rightarrow> 'd fp_ops \<Rightarrow> (nat \<Rightarrow> nat) \<Rightarrow> nat list \<Rightarrow> nat \<Rightarrow> nat \<Rightarrow> nat \<times> 'h \<Rightarrow>
     ('d list \<times> nat \<times> 'h) res option" where
  "run_bandwidth_device_device a fp now sizes device trails st =
     obind (Some (hip_ok (hip_set_device a device (snd st)))) (\<lambda>h.
     for_each_opt sizes (\<lambda>bytes (bs, r, h).
       obind (Some (hip_ok (hip_device_malloc a bytes h))) (\<lambda>(d_in, h).
       obind (Some (hip_ok (hip_device_malloc a bytes h))) (\<lambda>(d_out, h).
       case input_bytes bytes of
         None \<Rightarrow> None
       | Some input \<Rightarrow> Some
           (let (h_in, h) = host_vector a input h in
            rbind (hip_ok (hip_memcpy a d_in h_in bytes HtoD h)) (\<lambda>h.
            rbind (warm_up a d_out d_in bytes DtoD h) (\<lambda>h.
            rbind (hip_ok (hip_synchronize a h)) (\<lambda>h.
            rbind (timed_batch a now d_out d_in bytes DtoD trails (new_clock 0, r, h)) (\<lambda>(c, r, h).
            rbind (hip_ok (hip_device_free a d_out h)) (\<lambda>h.
            rbind (hip_ok (hip_device_free a d_in h)) (\<lambda>h.
            Inr (bs @ [bandwidth fp bytes trails c], r, host_drop a h_in h))))))))))) ([], fst st, h))"

subsection \<open>main\<close>

text \<open>\<open>parser.get\<close>; an exception nobody catches aborts.\<close>

definition get_size :: "string \<Rightarrow> 'd cmd list \<Rightarrow> nat res" where
  "get_size nm cmds = (case get_value CULong nm cmds of Some (VInt n) \<Rightarrow> Inr (nat n) | _ \<Rightarrow> Inl AssertFail)"

definition get_string :: "string \<Rightarrow> 'd cmd list \<Rightarrow> string res" where
  "get_string nm cmds = (case get_value CString nm cmds of Some (VString s) \<Rightarrow> Inr s | _ \<Rightarrow> Inl AssertFail)"

fun value_string :: "'d cli_value \<Rightarrow> string" where
  "value_string (VString s) = s"
| "value_string _ = []"

definition get_strings :: "string \<Rightarrow> 'd cmd list \<Rightarrow> string list res" where
  "get_strings nm cmds =
     (case get_value (CVector CString) nm cmds of Some (VVector vs) \<Rightarrow> Inr (map value_string vs) | _ \<Rightarrow> Inl AssertFail)"

datatype test_mode = RANGED | SHMOO

record memcpy_settings =
  trials :: nat
  start_size :: nat
  end_size :: nat
  stride_size :: nat
  test_mode :: test_mode
  host_memory :: memory_mode
  chosen_devices :: "nat list"
  chosen_kinds :: "memcpy_kind set"

definition memcpy_settings_of :: "nat \<Rightarrow> 'd cmd list \<Rightarrow> memcpy_settings res" where
  "memcpy_settings_of number_of_devices cmds =
     rbind (get_size ''trials'' cmds) (\<lambda>tr. rbind (get_size ''start'' cmds) (\<lambda>st.
     rbind (get_size ''end'' cmds) (\<lambda>en. rbind (get_size ''stride'' cmds) (\<lambda>sd.
     rbind (get_string ''mode'' cmds) (\<lambda>mode. rbind (get_string ''memory'' cmds) (\<lambda>memory.
     rbind (get_strings ''device'' cmds) (\<lambda>devices_cmd. rbind (get_strings ''memcpy'' cmds) (\<lambda>memcpy_cmd.
     rbind (if mode = ''range'' then Inr RANGED else if mode = ''shmoo'' then Inr SHMOO else Inl (Exit 255)) (\<lambda>tm.
     rbind (if memory = ''pageable'' then Inr PAGED else if memory = ''pinned'' then Inr PINNED else Inl (Exit 255)) (\<lambda>mm.
     rbind (choose_devices number_of_devices devices_cmd) (\<lambda>devices.
     rbind (choose_kinds memcpy_cmd) (\<lambda>kinds.
     Inr \<lparr>trials = tr, start_size = st, end_size = en, stride_size = sd, test_mode = tm, host_memory = mm,
          chosen_devices = devices, chosen_kinds = kinds\<rparr>))))))))))))"

definition measurement_sizes :: "nat \<Rightarrow> memcpy_settings \<Rightarrow> nat list option" where
  "measurement_sizes fuel s =
     (if test_mode s = RANGED then generate_sizes_range fuel (start_size s) (end_size s) (stride_size s)
      else Some (generate_sizes_shmoo 0))"

definition print_text :: "memory_mode \<Rightarrow> memcpy_kind \<Rightarrow> string" where
  "print_text mode k =
     (case k of
        DtoD \<Rightarrow> ''Bandwidth Device to Device''
      | HtoD \<Rightarrow> (if mode = PAGED then ''Paged Bandwidth '' else ''Pinned Bandwidth '') @ ''Host to Device''
      | DtoH \<Rightarrow> (if mode = PAGED then ''Paged Bandwidth '' else ''Pinned Bandwidth '') @ ''Device to Host'')"

text \<open>The measurements of one kind; \<open>trials\<close> is passed on as an \<open>unsigned int\<close>.\<close>

definition run_kind ::
    "'h hip_api \<Rightarrow> 'd fp_ops \<Rightarrow> (nat \<Rightarrow> nat) \<Rightarrow> memcpy_settings \<Rightarrow> nat list \<Rightarrow> nat \<Rightarrow> memcpy_kind \<Rightarrow>
     (nat \<times> string \<times> 'd list) list \<times> nat \<times> 'h \<Rightarrow> ((nat \<times> string \<times> 'd list) list \<times> nat \<times> 'h) res option" where
  "run_kind a fp now s sizes device k = (\<lambda>(out, st).
     obind (if k = DtoD then run_bandwidth_device_device a fp now sizes device (trials s mod 2 ^ 32) st
            else run_bandwidth_host_device a fp now sizes device k (host_memory s) (trials s mod 2 ^ 32) st) (\<lambda>(bs, st).
     Some (Inr (out @ [(device, print_text (host_memory s) k, bs)], st))))"

definition run_measurements ::
    "'h hip_api \<Rightarrow> 'd fp_ops \<Rightarrow> (nat \<Rightarrow> nat) \<Rightarrow> memcpy_settings \<Rightarrow> nat list \<Rightarrow> nat \<times> 'h \<Rightarrow>
     ((nat \<times> string \<times> 'd list) list \<times> nat \<times> 'h) res option" where
  "run_measurements a fp now s sizes st =
     for_each_opt (chosen_devices s) (\<lambda>device (out, r, h).
       obind (Some (hip_ok (hip_set_device a device h))) (\<lambda>h.
       for_each_opt (sorted_list_of_set (chosen_kinds s)) (run_kind a fp now s sizes device) (out, r, h))) ([], st)"

definition memcpy_main ::
    "'h hip_api \<Rightarrow> 'd fp_ops \<Rightarrow> (nat \<Rightarrow> nat) \<Rightarrow> (string \<Rightarrow> 'd option) \<Rightarrow> 'd cli_value \<Rightarrow> nat \<Rightarrow> int \<Rightarrow> string list \<Rightarrow> nat \<times> 'h \<Rightarrow>
     ((nat \<times> string \<times> 'd list) list \<times> nat \<times> 'h) res option" where
  "memcpy_main a fp now stod garbage fuel number_of_devices words st =
     (if number_of_devices \<le> 0 then Some (Inl (Exit 255))
      else obind (Some (rbind (run_and_exit_if_error stod words (bench_parser garbage))
                          (memcpy_settings_of (nat number_of_devices)))) (\<lambda>s.
        case measurement_sizes fuel s of
          None \<Rightarrow> None
        | Some sizes \<Rightarrow> run_measurements a fp now s sizes st))"

subsection \<open>What HIP promises\<close>

datatype side = Host | Device

text \<open>\<open>blocks h\<close> are the blocks in use, the side each is on and its contents. Nothing is promised of an
  allocation of size 0, for which HIP returns a null pointer.\<close>

definition kind_from :: "memcpy_kind \<Rightarrow> side" where
  "kind_from k = (if k = HtoD then Host else Device)"

definition kind_to :: "memcpy_kind \<Rightarrow> side" where
  "kind_to k = (if k = DtoH then Host else Device)"

definition allocates :: "('h \<Rightarrow> (nat \<rightharpoonup> side \<times> nat list)) \<Rightarrow> side \<Rightarrow> (nat \<Rightarrow> 'h \<Rightarrow> (nat \<times> 'h) option) \<Rightarrow> bool" where
  "allocates blocks where_to f \<longleftrightarrow>
     (\<forall>n h. 0 < n \<longrightarrow>
        (\<exists>p h' xs. f n h = Some (p, h') \<and> blocks h p = None \<and> length xs = n \<and> blocks h' = (blocks h)(p \<mapsto> (where_to, xs))))"

definition frees :: "('h \<Rightarrow> (nat \<rightharpoonup> side \<times> nat list)) \<Rightarrow> side \<Rightarrow> (nat \<Rightarrow> 'h \<Rightarrow> 'h option) \<Rightarrow> bool" where
  "frees blocks where_to f \<longleftrightarrow>
     (\<forall>p h xs. blocks h p = Some (where_to, xs) \<longrightarrow> (\<exists>h'. f p h = Some h' \<and> blocks h' = (blocks h)(p := None)))"

definition copies :: "('h \<Rightarrow> (nat \<rightharpoonup> side \<times> nat list)) \<Rightarrow> 'h hip_api \<Rightarrow> bool" where
  "copies blocks a \<longleftrightarrow>
     (\<forall>dst src n k h xs ys. blocks h dst = Some (kind_to k, xs) \<longrightarrow> blocks h src = Some (kind_from k, ys) \<longrightarrow>
        length xs = n \<longrightarrow> length ys = n \<longrightarrow>
        (\<exists>h'. hip_memcpy a dst src n k h = Some h' \<and> blocks h' = (blocks h)(dst \<mapsto> (kind_to k, ys))))"

definition working_hip :: "('h \<Rightarrow> (nat \<rightharpoonup> side \<times> nat list)) \<Rightarrow> nat \<Rightarrow> 'h hip_api \<Rightarrow> bool" where
  "working_hip blocks number_of_devices a \<longleftrightarrow>
     (\<forall>d h. d < number_of_devices \<longrightarrow> (\<exists>h'. hip_set_device a d h = Some h' \<and> blocks h' = blocks h)) \<and>
     allocates blocks Device (hip_device_malloc a) \<and> allocates blocks Host (hip_host_malloc a) \<and>
     frees blocks Device (hip_device_free a) \<and> frees blocks Host (hip_host_free a) \<and> copies blocks a \<and>
     (\<forall>h. \<exists>h'. hip_synchronize a h = Some h' \<and> blocks h' = blocks h) \<and>
     (\<forall>xs h. blocks h (fst (host_vector a xs h)) = None \<and>
        blocks (snd (host_vector a xs h)) = (blocks h)(fst (host_vector a xs h) \<mapsto> (Host, xs))) \<and>
     (\<forall>p h. blocks (host_drop a p h) = (blocks h)(p := None)) \<and>
     (\<forall>p xs h. blocks (host_fill a p xs h) = (blocks h)(p \<mapsto> (Host, xs)))"

subsection \<open>Calls of a working HIP\<close>

abbreviation returns :: "('a \<Rightarrow> bool) \<Rightarrow> 'a res \<Rightarrow> bool" where
  "returns \<equiv> wp (\<lambda>_. False)"

lemma hip_ok_returns: "hip_ok r = Inr x \<longleftrightarrow> r = Some x"
  by (cases r) (simp_all add: hip_ok_def)

lemma returns_hip_ok: "returns Q (hip_ok r) \<longleftrightarrow> (\<exists>x. r = Some x \<and> Q x)"
  by (auto simp: wp_total hip_ok_returns)

lemma working_calls:
  assumes w: "working_hip blocks nd a"
  shows "d < nd \<Longrightarrow> returns (\<lambda>h'. blocks h' = blocks h) (hip_ok (hip_set_device a d h))"
    and "returns (\<lambda>h'. blocks h' = blocks h) (hip_ok (hip_synchronize a h))"
    and "0 < n \<Longrightarrow> returns (\<lambda>(p, h'). blocks h p = None \<and> (\<exists>xs. length xs = n \<and> blocks h' = (blocks h)(p \<mapsto> (Device, xs))))
      (hip_ok (hip_device_malloc a n h))"
    and "0 < n \<Longrightarrow> returns (\<lambda>(p, h'). blocks h p = None \<and> (\<exists>xs. length xs = n \<and> blocks h' = (blocks h)(p \<mapsto> (Host, xs))))
      (hip_ok (hip_host_malloc a n h))"
    and "blocks h p = Some (Device, ys) \<Longrightarrow> returns (\<lambda>h'. blocks h' = (blocks h)(p := None)) (hip_ok (hip_device_free a p h))"
    and "blocks h p = Some (Host, ys) \<Longrightarrow> returns (\<lambda>h'. blocks h' = (blocks h)(p := None)) (hip_ok (hip_host_free a p h))"
    and "blocks h dst = Some (kind_to k, xs) \<Longrightarrow> blocks h src = Some (kind_from k, ys) \<Longrightarrow> length xs = n \<Longrightarrow> length ys = n \<Longrightarrow>
      returns (\<lambda>h'. blocks h' = (blocks h)(dst \<mapsto> (kind_to k, ys))) (hip_ok (hip_memcpy a dst src n k h))"
    and "blocks h (fst (host_vector a xs h)) = None"
    and "blocks (snd (host_vector a xs h)) = (blocks h)(fst (host_vector a xs h) \<mapsto> (Host, xs))"
    and "blocks (host_drop a p h) = (blocks h)(p := None)"
    and "blocks (host_fill a p xs h) = (blocks h)(p \<mapsto> (Host, xs))"
proof -
  note W = w[unfolded working_hip_def]
  show "d < nd \<Longrightarrow> returns (\<lambda>h'. blocks h' = blocks h) (hip_ok (hip_set_device a d h))"
    "returns (\<lambda>h'. blocks h' = blocks h) (hip_ok (hip_synchronize a h))"
    using W unfolding returns_hip_ok by blast+
  have dm: "allocates blocks Device (hip_device_malloc a)" and hm: "allocates blocks Host (hip_host_malloc a)"
    and df: "frees blocks Device (hip_device_free a)" and hf: "frees blocks Host (hip_host_free a)" and c: "copies blocks a"
    using W by blast+
  have al: "returns (\<lambda>(p, h'). blocks h p = None \<and> (\<exists>xs. length xs = n \<and> blocks h' = (blocks h)(p \<mapsto> (s, xs)))) (hip_ok (f n h))"
    if al: "allocates blocks s f" and n: "0 < n" for s f n h
  proof -
    obtain p h' xs where "f n h = Some (p, h')" "blocks h p = None" "length xs = n" "blocks h' = (blocks h)(p \<mapsto> (s, xs))"
      using al n unfolding allocates_def by blast
    then show ?thesis unfolding returns_hip_ok by auto
  qed
  show "0 < n \<Longrightarrow> returns (\<lambda>(p, h'). blocks h p = None \<and> (\<exists>xs. length xs = n \<and> blocks h' = (blocks h)(p \<mapsto> (Device, xs))))
      (hip_ok (hip_device_malloc a n h))"
    by (rule al[OF dm])
  show "0 < n \<Longrightarrow> returns (\<lambda>(p, h'). blocks h p = None \<and> (\<exists>xs. length xs = n \<and> blocks h' = (blocks h)(p \<mapsto> (Host, xs))))
      (hip_ok (hip_host_malloc a n h))"
    by (rule al[OF hm])
  show "blocks h p = Some (Device, ys) \<Longrightarrow> returns (\<lambda>h'. blocks h' = (blocks h)(p := None)) (hip_ok (hip_device_free a p h))"
    using df unfolding frees_def returns_hip_ok by blast
  show "blocks h p = Some (Host, ys) \<Longrightarrow> returns (\<lambda>h'. blocks h' = (blocks h)(p := None)) (hip_ok (hip_host_free a p h))"
    using hf unfolding frees_def returns_hip_ok by blast
  show "blocks h dst = Some (kind_to k, xs) \<Longrightarrow> blocks h src = Some (kind_from k, ys) \<Longrightarrow> length xs = n \<Longrightarrow> length ys = n \<Longrightarrow>
      returns (\<lambda>h'. blocks h' = (blocks h)(dst \<mapsto> (kind_to k, ys))) (hip_ok (hip_memcpy a dst src n k h))"
    using c unfolding copies_def returns_hip_ok by blast
  show "blocks h (fst (host_vector a xs h)) = None"
    "blocks (snd (host_vector a xs h)) = (blocks h)(fst (host_vector a xs h) \<mapsto> (Host, xs))"
    "blocks (host_drop a p h) = (blocks h)(p := None)" "blocks (host_fill a p xs h) = (blocks h)(p \<mapsto> (Host, xs))"
    using W by blast+
qed

text \<open>Copies from \<open>src\<close> to \<open>dst\<close> are possible, and \<open>src\<close> holds \<open>ys\<close>.\<close>

definition copy_ready :: "(nat \<rightharpoonup> side \<times> nat list) \<Rightarrow> nat \<Rightarrow> nat \<Rightarrow> nat \<Rightarrow> memcpy_kind \<Rightarrow> nat list \<Rightarrow> bool" where
  "copy_ready B dst src n k ys \<longleftrightarrow>
     dst \<noteq> src \<and> (\<exists>xs. B dst = Some (kind_to k, xs) \<and> length xs = n) \<and> B src = Some (kind_from k, ys) \<and> length ys = n"

lemma copy_returns:
  assumes "working_hip blocks nd a" and "copy_ready (blocks h) dst src n k ys"
  shows "returns (\<lambda>h'. blocks h' = (blocks h)(dst \<mapsto> (kind_to k, ys))) (hip_ok (hip_memcpy a dst src n k h))"
  using assms(2) unfolding copy_ready_def by (blast intro: working_calls(7)[OF assms(1)])

lemma copy_ready_after: "copy_ready B dst src n k ys \<Longrightarrow> copy_ready (B(dst \<mapsto> (kind_to k, ys))) dst src n k ys"
  by (auto simp: copy_ready_def)

lemma warm_up_returns:
  assumes w: "working_hip blocks nd a" and r: "copy_ready (blocks h) dst src n k ys"
  shows "returns (\<lambda>h'. blocks h' = (blocks h)(dst \<mapsto> (kind_to k, ys))) (warm_up a dst src n k h)"
  unfolding warm_up_def
proof (rule wp_for_rangeI[where I = "\<lambda>i h'. blocks h' = (if i = 0 then blocks h else (blocks h)(dst \<mapsto> (kind_to k, ys)))"], goal_cases)
  case (2 i h')
  have "copy_ready (blocks h') dst src n k ys" using 2(2) r copy_ready_after[OF r] by (cases "i = 0") simp_all
  from copy_returns[OF w this] show ?case by (rule wp_mono) (use 2(2) in auto)
qed simp_all

lemma again: "copy_ready B dst src n k ys \<Longrightarrow> B dst = Some (kind_to k, ys) \<Longrightarrow> B(dst \<mapsto> (kind_to k, ys)) = B"
  by auto

lemma timed_copies_returns:
  assumes w: "working_hip blocks nd a" and r: "copy_ready (blocks h) dst src n k ys" "blocks h dst = Some (kind_to k, ys)"
  shows "returns (\<lambda>(c', r', h'). blocks h' = blocks h) (timed_copies a now dst src n k trails (c, r, h))"
  unfolding timed_copies_def
proof (rule wp_for_rangeI[where I = "\<lambda>i (c', r', h'). blocks h' = blocks h"], goal_cases)
  case (2 i st)
  obtain c' r' h' where st: "st = (c', r', h')" by (cases st)
  have "copy_ready (blocks h') dst src n k ys" using 2(2) r(1) by (simp add: st)
  from copy_returns[OF w this] show ?case
    unfolding st by (simp add: Let_def) (rule wp_mono, use 2(2) again[OF r] in \<open>auto simp: st\<close>)
qed simp_all

lemma timed_batch_returns:
  assumes w: "working_hip blocks nd a" and r: "copy_ready (blocks h) dst src n k ys" "blocks h dst = Some (kind_to k, ys)"
  shows "returns (\<lambda>(c', r', h'). blocks h' = blocks h) (timed_batch a now dst src n k trails (c, r, h))"
proof -
  have "returns (\<lambda>h'. blocks h' = blocks h) (for_range trails (\<lambda>_ h. hip_ok (hip_memcpy a dst src n k h)) h)"
  proof (rule wp_for_rangeI[where I = "\<lambda>i h'. blocks h' = blocks h"], goal_cases)
    case (2 i h')
    have "copy_ready (blocks h') dst src n k ys" using 2(2) r(1) by simp
    from copy_returns[OF w this] show ?case by (rule wp_mono) (use 2(2) again[OF r] in auto)
  qed simp_all
  then show ?thesis
    unfolding timed_batch_def Let_def prod.case
  proof (rule wp_bindI)
    fix h' assume h': "blocks h' = blocks h"
    show "returns (\<lambda>(c', r', h'). blocks h' = blocks h) (rbind (hip_ok (hip_synchronize a h'))
        (\<lambda>h. Inr (stop_timer (now (r + 1)) (start_timer (now r) c), r + 2, h)))"
      by (rule wp_bindI[OF working_calls(2)[OF w, of h']]) (simp add: h')
  qed
qed

subsection \<open>One size\<close>

definition pattern :: "nat \<Rightarrow> nat list" where
  "pattern n = map (\<lambda>i. i mod 256) [0..<n]"

lemma pattern_length [simp]: "length (pattern n) = n"
  by (simp add: pattern_def)

lemma input_pattern: "n < 2 ^ 32 \<Longrightarrow> input_bytes n = Some (pattern n)"
  by (simp add: input_bytes_def pattern_def)

text \<open>After a measurement the block of the device holds the pattern, and nothing else is left.\<close>

lemma paged_copy_returns:
  assumes w: "working_hip blocks nd a" and k: "k \<noteq> DtoD" and n: "n < 2 ^ 32"
    and d: "blocks h d_in = Some (Device, xs)" "length xs = n"
  shows "\<exists>b r' h'. paged_copy a fp now k d_in n trails (r, h) = Some (Inr (b, r', h')) \<and>
    blocks h' = (blocks h)(d_in \<mapsto> (Device, pattern n))"
proof -
  obtain h_in h1 where v1: "host_vector a (pattern n) h = (h_in, h1)" by force
  obtain h_out h2 where v2: "host_vector a (replicate n 0) h1 = (h_out, h2)" by force
  have in1: "blocks h h_in = None" "blocks h1 = (blocks h)(h_in \<mapsto> (Host, pattern n))"
    using working_calls(8,9)[OF w, where h = h and xs = "pattern n"] v1 by simp_all
  have in2: "blocks h1 h_out = None" "blocks h2 = (blocks h1)(h_out \<mapsto> (Host, replicate n 0))"
    using working_calls(8,9)[OF w, where h = h1 and xs = "replicate n 0"] v2 by simp_all
  have ne: "h_in \<noteq> d_in" "h_out \<noteq> d_in" "h_out \<noteq> h_in" using in1 in2 d(1) by (auto split: if_splits)
  have drop: "blocks (host_drop a h_in (host_drop a h_out h')) = (blocks h')(h_out := None, h_in := None)" for h'
    by (simp add: working_calls(10)[OF w])
  define B where "B = (blocks h)(h_in \<mapsto> (Host, pattern n), h_out \<mapsto> (Host, replicate n 0), d_in \<mapsto> (Device, pattern n))"
  define src where "src = (if k = HtoD then h_in else d_in)"
  define dst where "dst = (if k = HtoD then d_in else h_out)"
  have first: "returns (\<lambda>(s, t, h3). s = src \<and> t = dst \<and> copy_ready (blocks h3) dst src n k (pattern n) \<and>
      blocks h3 = (if k = HtoD then blocks h2 else B)) (case k of
               HtoD \<Rightarrow> Inr (h_in, d_in, h2)
             | DtoH \<Rightarrow> rbind (hip_ok (hip_memcpy a d_in h_in n HtoD h2)) (\<lambda>h. Inr (d_in, h_out, h))
             | DtoD \<Rightarrow> Inl (Exit 255))"
  proof (cases k)
    case HtoD
    then show ?thesis
      using ne in1 in2 d by (simp add: src_def dst_def copy_ready_def kind_to_def kind_from_def)
  next
    case DtoH
    have "copy_ready (blocks h2) d_in h_in n HtoD (pattern n)"
      using ne in1 in2 d by (simp add: copy_ready_def kind_to_def kind_from_def)
    from copy_returns[OF w this]
    have "returns (\<lambda>h'. blocks h' = B) (hip_ok (hip_memcpy a d_in h_in n HtoD h2))"
      by (rule wp_mono) (use ne in \<open>auto simp: B_def in1 in2 kind_to_def fun_upd_twist\<close>)
    then have "returns (\<lambda>(s, t, h3). s = d_in \<and> t = h_out \<and> blocks h3 = B)
        (rbind (hip_ok (hip_memcpy a d_in h_in n HtoD h2)) (\<lambda>h. Inr (d_in, h_out, h)))"
      by simp
    then show ?thesis
      unfolding DtoH memcpy_kind.case
      by (rule wp_mono) (use ne in \<open>auto simp: B_def DtoH src_def dst_def copy_ready_def kind_to_def kind_from_def\<close>)
  qed (use k in simp)
  have "returns (\<lambda>(b, r', h'). blocks h' = (blocks h)(d_in \<mapsto> (Device, pattern n)))
      (rbind (case k of
               HtoD \<Rightarrow> Inr (h_in, d_in, h2)
             | DtoH \<Rightarrow> rbind (hip_ok (hip_memcpy a d_in h_in n HtoD h2)) (\<lambda>h. Inr (d_in, h_out, h))
             | DtoD \<Rightarrow> Inl (Exit 255)) (\<lambda>(src, dst, h).
           rbind (warm_up a dst src n k h) (\<lambda>h.
           rbind (timed_copies a now dst src n k trails (new_clock 0, r, h)) (\<lambda>(c, r, h).
           Inr (bandwidth fp n trails c, r, host_drop a h_in (host_drop a h_out h))))))"
  proof (rule wp_bindI[OF first], clarify)
    fix h3 assume ready: "copy_ready (blocks h3) dst src n k (pattern n)" and h3: "blocks h3 = (if k = HtoD then blocks h2 else B)"
    let ?B = "(blocks h3)(dst \<mapsto> (kind_to k, pattern n))"
    have clean: "?B(h_out := None, h_in := None) = (blocks h)(d_in \<mapsto> (Device, pattern n))"
      using k ne in1 in2 h3 by (cases k) (auto simp: dst_def B_def kind_to_def fun_eq_iff)
    show "returns (\<lambda>(b, r', h'). blocks h' = (blocks h)(d_in \<mapsto> (Device, pattern n)))
      (rbind (warm_up a dst src n k h3) (\<lambda>h.
       rbind (timed_copies a now dst src n k trails (new_clock 0, r, h)) (\<lambda>(c, r, h).
       Inr (bandwidth fp n trails c, r, host_drop a h_in (host_drop a h_out h)))))"
    proof (rule wp_bindI[OF warm_up_returns[OF w ready]])
      fix h4 assume h4: "blocks h4 = ?B"
      have r4: "copy_ready (blocks h4) dst src n k (pattern n)" "blocks h4 dst = Some (kind_to k, pattern n)"
        using copy_ready_after[OF ready] by (simp_all add: h4)
      show "returns (\<lambda>(b, r', h'). blocks h' = (blocks h)(d_in \<mapsto> (Device, pattern n)))
        (rbind (timed_copies a now dst src n k trails (new_clock 0, r, h4)) (\<lambda>(c, r, h).
         Inr (bandwidth fp n trails c, r, host_drop a h_in (host_drop a h_out h))))"
        by (rule wp_bindI[OF timed_copies_returns[OF w r4]]) (clarify, simp only: wp.simps prod.case drop h4 clean)
    qed
  qed
  then show ?thesis
    using input_pattern[OF n] by (auto simp: paged_copy_def v1 v2 wp_total)
qed

text \<open>The pinned copies to the device; those from the device fail before they start when HIP checks
  the kind of the first copy.\<close>

lemma pinned_copy_returns:
  assumes w: "working_hip blocks nd a" and pos: "0 < n" and n: "n < 2 ^ 32"
    and d: "blocks h d_in = Some (Device, xs)" "length xs = n"
  shows "\<exists>b r' h'. pinned_copy a fp now HtoD d_in n trails (r, h) = Some (Inr (b, r', h')) \<and>
    blocks h' = (blocks h)(d_in \<mapsto> (Device, pattern n))"
proof -
  obtain h_in h1 ys where m1: "hip_ok (hip_host_malloc a n h) = Inr (h_in, h1)"
    and in1: "blocks h h_in = None" "length ys = n" "blocks h1 = (blocks h)(h_in \<mapsto> (Host, ys))"
    using working_calls(4)[OF w pos, where h = h] by (auto simp: wp_total)
  obtain h_out h2 zs where m2: "hip_ok (hip_host_malloc a n h1) = Inr (h_out, h2)"
    and in2: "blocks h1 h_out = None" "length zs = n" "blocks h2 = (blocks h1)(h_out \<mapsto> (Host, zs))"
    using working_calls(4)[OF w pos, where h = h1] by (auto simp: wp_total)
  have ne: "h_in \<noteq> d_in" "h_out \<noteq> d_in" "h_out \<noteq> h_in" using in1 in2 d(1) by (auto split: if_splits)
  define h3 where "h3 = host_fill a h_in (pattern n) h2"
  have h3: "blocks h3 = (blocks h2)(h_in \<mapsto> (Host, pattern n))" by (simp add: h3_def working_calls(11)[OF w])
  have ready: "copy_ready (blocks h3) d_in h_in n HtoD (pattern n)"
    using ne d by (simp add: copy_ready_def kind_to_def kind_from_def h3 in1 in2)
  let ?B = "(blocks h3)(d_in \<mapsto> (kind_to HtoD, pattern n))"
  have clean: "?B(h_in := None, h_out := None) = (blocks h)(d_in \<mapsto> (Device, pattern n))"
    using ne in1 in2 by (auto simp: h3 kind_to_def fun_eq_iff)
  have left: "?B h_in = Some (Host, pattern n)" "(?B(h_in := None)) h_out = Some (Host, zs)"
    using ne by (auto simp: h3 in1 in2)
  have "returns (\<lambda>(b, r', h'). blocks h' = (blocks h)(d_in \<mapsto> (Device, pattern n)))
    (rbind (warm_up a d_in h_in n HtoD h3) (\<lambda>h.
     rbind (hip_ok (hip_synchronize a h)) (\<lambda>h.
     rbind (timed_batch a now d_in h_in n HtoD trails (new_clock 0, r, h)) (\<lambda>(c, r, h).
     rbind (hip_ok (hip_host_free a h_in h)) (\<lambda>h.
     rbind (hip_ok (hip_host_free a h_out h)) (\<lambda>h. Inr (bandwidth fp n trails c, r, h)))))))"
  proof (rule wp_bindI[OF warm_up_returns[OF w ready]], rule wp_bindI[OF working_calls(2)[OF w]])
    fix h4 h5 assume "blocks h4 = ?B" and "blocks h5 = blocks h4"
    then have h5: "blocks h5 = ?B" by (rule trans[rotated])
    have r5: "copy_ready (blocks h5) d_in h_in n HtoD (pattern n)" "blocks h5 d_in = Some (kind_to HtoD, pattern n)"
      using copy_ready_after[OF ready] by (simp_all add: h5)
    have free: "returns (\<lambda>(b, r', h'). blocks h' = (blocks h)(d_in \<mapsto> (Device, pattern n)))
       (rbind (hip_ok (hip_host_free a h_in h6)) (\<lambda>h.
        rbind (hip_ok (hip_host_free a h_out h)) (\<lambda>h. Inr (bandwidth fp n trails c, r', h))))"
      if h6: "blocks h6 = blocks h5" for h6 c r'
    proof (rule wp_bindI)
      show "returns (\<lambda>h'. blocks h' = (blocks h6)(h_in := None)) (hip_ok (hip_host_free a h_in h6))"
        by (rule working_calls(6)[OF w]) (simp only: h6 h5 left)
      fix h7 assume h7: "blocks h7 = (blocks h6)(h_in := None)"
      have "returns (\<lambda>h'. blocks h' = (blocks h7)(h_out := None)) (hip_ok (hip_host_free a h_out h7))"
        by (rule working_calls(6)[OF w]) (simp only: h7 h6 h5 left)
      then show "returns (\<lambda>(b, r', h'). blocks h' = (blocks h)(d_in \<mapsto> (Device, pattern n)))
        (rbind (hip_ok (hip_host_free a h_out h7)) (\<lambda>h. Inr (bandwidth fp n trails c, r', h)))"
        by (rule wp_bindI) (simp only: wp.simps prod.case h7 h6 h5 clean)
    qed
    show "returns (\<lambda>(b, r', h'). blocks h' = (blocks h)(d_in \<mapsto> (Device, pattern n)))
      (rbind (timed_batch a now d_in h_in n HtoD trails (new_clock 0, r, h5)) (\<lambda>(c, r, h).
       rbind (hip_ok (hip_host_free a h_in h)) (\<lambda>h.
       rbind (hip_ok (hip_host_free a h_out h)) (\<lambda>h. Inr (bandwidth fp n trails c, r, h)))))"
      by (rule wp_bindI[OF timed_batch_returns[OF w r5]]) (clarify, rule free)
  qed
  then show ?thesis
    using input_pattern[OF n] by (auto simp: pinned_copy_def m1 m2 wp_total h3_def)
qed

lemma pinned_dtoh_exits:
  assumes w: "working_hip blocks nd a" and pos: "0 < n" and n: "n < 2 ^ 32"
    and strict: "\<And>dst src k h ys. blocks h src = Some (Host, ys) \<Longrightarrow> kind_from k = Device \<Longrightarrow> hip_memcpy a dst src n k h = None"
  shows "pinned_copy a fp now DtoH d_in n trails (r, h) = Some (Inl (Exit 255))"
proof -
  obtain h_in h1 where m1: "hip_ok (hip_host_malloc a n h) = Inr (h_in, h1)"
    using working_calls(4)[OF w pos, where h = h] by (auto simp: wp_total)
  obtain h_out h2 where m2: "hip_ok (hip_host_malloc a n h1) = Inr (h_out, h2)"
    using working_calls(4)[OF w pos, where h = h1] by (auto simp: wp_total)
  have "hip_memcpy a d_in h_in n DtoH (host_fill a h_in (pattern n) h2) = None"
    by (rule strict[of _ _ "pattern n"]) (simp_all add: working_calls(11)[OF w] kind_from_def)
  then show ?thesis
    using input_pattern[OF n] by (simp add: pinned_copy_def m1 m2 hip_ok_def[of None])
qed

subsection \<open>All sizes\<close>

lemma obind_returns:
  "returns P x \<Longrightarrow> (\<And>v. P v \<Longrightarrow> \<exists>w. f v = Some (Inr w) \<and> Q w) \<Longrightarrow> \<exists>w. obind (Some x) f = Some (Inr w) \<and> Q w"
  by (auto simp: wp_total)

text \<open>The kinds a memory mode measures.\<close>

definition measurable :: "memory_mode \<Rightarrow> memcpy_kind \<Rightarrow> bool" where
  "measurable mode k \<longleftrightarrow> \<not> (mode = PINNED \<and> k = DtoH)"

lemma device_block:
  assumes "working_hip blocks nd a" and "0 < n"
  obtains p h' xs where "hip_ok (hip_device_malloc a n h) = Inr (p, h')"
    and "blocks h p = None" and "length xs = n" and "blocks h' = (blocks h)(p \<mapsto> (Device, xs))"
  using working_calls(3)[OF assms, where h = h] by (force simp: wp_total)

lemma host_copy_returns:
  assumes w: "working_hip blocks nd a" and k: "k \<noteq> DtoD" "measurable mode k" and pos: "0 < n" and n: "n < 2 ^ 32"
    and d: "blocks h d_in = Some (Device, xs)" "length xs = n"
  shows "\<exists>b r' h'. (if mode = PAGED then paged_copy else pinned_copy) a fp now k d_in n trails (r, h) = Some (Inr (b, r', h')) \<and>
    blocks h' = (blocks h)(d_in \<mapsto> (Device, pattern n))"
proof (cases "mode = PAGED")
  case True
  then show ?thesis using paged_copy_returns[OF w k(1) n d] by simp
next
  case False
  then have "k = HtoD" using k by (cases k; cases mode) (simp_all add: measurable_def)
  then show ?thesis using False pinned_copy_returns[OF w pos n d] by simp
qed

lemma run_bandwidth_host_device_returns:
  assumes w: "working_hip blocks nd a" and dev: "d < nd" and k: "k \<noteq> DtoD" "measurable mode k"
    and sizes: "\<forall>n\<in>set ns. 0 < n \<and> n < 2 ^ 32"
  shows "\<exists>bs r' h'. run_bandwidth_host_device a fp now ns d k mode trails (r, h) = Some (Inr (bs, r', h')) \<and>
    length bs = length ns \<and> blocks h' = blocks h"
proof -
  let ?body = "\<lambda>bytes (bs, r, h).
      obind (Some (hip_ok (hip_device_malloc a bytes h))) (\<lambda>(d_in, h).
      obind ((if mode = PAGED then paged_copy else pinned_copy) a fp now k d_in bytes trails (r, h)) (\<lambda>(b, r, h).
      obind (Some (hip_ok (hip_device_free a d_in h))) (\<lambda>h. Some (Inr (bs @ [b], r, h)))))"
  have step: "\<exists>s'. ?body (ns ! i) s = Some (Inr s') \<and> (\<lambda>(bs, r, h'). length bs = Suc i \<and> blocks h' = blocks h) s'"
    if i: "i < length ns" and s: "(\<lambda>(bs, r, h'). length bs = i \<and> blocks h' = blocks h) s" for i s
  proof -
    obtain bs r1 h1 where st: "s = (bs, r1, h1)" "length bs = i" "blocks h1 = blocks h" using s by (cases s) auto
    have n: "0 < ns ! i" "ns ! i < 2 ^ 32" using sizes i by simp_all
    obtain p h2 xs where v: "hip_ok (hip_device_malloc a (ns ! i) h1) = Inr (p, h2)"
      and p: "blocks h1 p = None" "length xs = ns ! i" "blocks h2 = (blocks h1)(p \<mapsto> (Device, xs))"
      by (rule device_block[OF w n(1)])
    have dp: "blocks h2 p = Some (Device, xs)" "length xs = ns ! i" using p by simp_all
      obtain b r3 h3 where c: "(if mode = PAGED then paged_copy else pinned_copy) a fp now k p (ns ! i) trails (r1, h2) = Some (Inr (b, r3, h3))"
        "blocks h3 = (blocks h2)(p \<mapsto> (Device, pattern (ns ! i)))"
        using host_copy_returns[OF w k n(1) n(2) dp, where fp = fp and now = now and trails = trails and r = r1] by blast
    show ?thesis
      unfolding st(1) prod.case v obind.simps c(1)
    proof (rule obind_returns[OF working_calls(5)[OF w, of h3 p "pattern (ns ! i)"]])
        show "blocks h3 p = Some (Device, pattern (ns ! i))" using c(2) by simp
        show "\<exists>s'. Some (Inr (bs @ [b], r3, h4)) = Some (Inr s') \<and> (\<lambda>(bs, r, h'). length bs = Suc i \<and> blocks h' = blocks h) s'"
          if "blocks h4 = (blocks h3)(p := None)" for h4
          using that c(2) p st by (auto simp: fun_eq_iff)
    qed
  qed
  have "\<exists>s'. run_bandwidth_host_device a fp now ns d k mode trails (r, h) = Some (Inr s') \<and>
      (\<lambda>(bs, r, h'). length bs = length ns \<and> blocks h' = blocks h) s'"
    unfolding run_bandwidth_host_device_def fst_conv snd_conv if_not_P[OF k(1)]
  proof (rule obind_returns[OF working_calls(1)[OF w dev]])
    fix h0 assume "blocks h0 = blocks h"
    then show "\<exists>s'. for_each_opt ns ?body ([], r, h0) = Some (Inr s') \<and> (\<lambda>(bs, r, h'). length bs = length ns \<and> blocks h' = blocks h) s'"
      by (intro for_each_opt_inv[where I = "\<lambda>i (bs, r, h'). length bs = i \<and> blocks h' = blocks h"] step) simp_all
  qed
  then show ?thesis by auto
qed

text \<open>The copies within a device, from its block \<open>d_in\<close> to \<open>d_out\<close>; \<open>G\<close> are the other blocks.\<close>

lemma device_copies_return:
  assumes w: "working_hip blocks nd a" and ne: "d_in \<noteq> d_out" "h_in \<noteq> d_in" "h_in \<noteq> d_out"
    and G: "G d_in = None" "G d_out = None" "G h_in = None" and len: "length xs = n" "length ys = n"
    and h4: "blocks h4 = G(d_in \<mapsto> (Device, xs), d_out \<mapsto> (Device, ys), h_in \<mapsto> (Host, pattern n))"
  shows "returns (\<lambda>(bs', r', h'). length bs' = Suc (length bs) \<and> blocks h' = G)
         (rbind (hip_ok (hip_memcpy a d_in h_in n HtoD h4)) (\<lambda>h.
          rbind (warm_up a d_out d_in n DtoD h) (\<lambda>h.
          rbind (hip_ok (hip_synchronize a h)) (\<lambda>h.
          rbind (timed_batch a now d_out d_in n DtoD trails (new_clock 0, r1, h)) (\<lambda>(c, r, h).
          rbind (hip_ok (hip_device_free a d_out h)) (\<lambda>h.
          rbind (hip_ok (hip_device_free a d_in h)) (\<lambda>h.
          Inr (bs @ [bandwidth fp n trails c], r, host_drop a h_in h))))))))"
proof -
  let ?I = "\<lambda>(bs', r', h'). length bs' = Suc (length bs) \<and> blocks h' = G"
  let ?B = "(blocks h4)(d_in \<mapsto> (Device, pattern n), d_out \<mapsto> (Device, pattern n))"
  have clean: "?B(d_out := None, d_in := None, h_in := None) = G"
    using ne G by (auto simp: fun_eq_iff h4)
  have at: "?B d_out = Some (Device, pattern n)" "(?B(d_out := None)) d_in = Some (Device, pattern n)" using ne by simp_all
  have ready: "copy_ready (blocks h4) d_in h_in n HtoD (pattern n)"
    using ne len by (simp add: copy_ready_def kind_to_def kind_from_def h4)
  have free: "returns ?I
      (rbind (hip_ok (hip_device_free a d_out h5)) (\<lambda>h.
       rbind (hip_ok (hip_device_free a d_in h)) (\<lambda>h.
       Inr (bs @ [bandwidth fp n trails c], r', host_drop a h_in h))))"
    if h5: "blocks h5 = ?B" for h5 c r'
  proof (rule wp_bindI)
    show "returns (\<lambda>h'. blocks h' = (blocks h5)(d_out := None)) (hip_ok (hip_device_free a d_out h5))"
      by (rule working_calls(5)[OF w]) (simp only: h5 at)
    fix h6 assume h6: "blocks h6 = (blocks h5)(d_out := None)"
    have "returns (\<lambda>h'. blocks h' = (blocks h6)(d_in := None)) (hip_ok (hip_device_free a d_in h6))"
      by (rule working_calls(5)[OF w]) (simp only: h6 h5 at)
    then show "returns ?I (rbind (hip_ok (hip_device_free a d_in h6)) (\<lambda>h.
       Inr (bs @ [bandwidth fp n trails c], r', host_drop a h_in h)))"
      by (rule wp_bindI) (simp only: wp.simps prod.case working_calls(10)[OF w] h6 h5 clean length_append_singleton simp_thms)
  qed
  show ?thesis
  proof (rule wp_bindI[OF copy_returns[OF w ready]])
    fix h5 assume h5: "blocks h5 = (blocks h4)(d_in \<mapsto> (kind_to HtoD, pattern n))"
    have r5: "copy_ready (blocks h5) d_out d_in n DtoD (pattern n)"
      using ne len by (simp add: copy_ready_def kind_to_def kind_from_def h5 h4)
    show "returns ?I
       (rbind (warm_up a d_out d_in n DtoD h5) (\<lambda>h.
        rbind (hip_ok (hip_synchronize a h)) (\<lambda>h.
        rbind (timed_batch a now d_out d_in n DtoD trails (new_clock 0, r1, h)) (\<lambda>(c, r, h).
        rbind (hip_ok (hip_device_free a d_out h)) (\<lambda>h.
        rbind (hip_ok (hip_device_free a d_in h)) (\<lambda>h.
        Inr (bs @ [bandwidth fp n trails c], r, host_drop a h_in h)))))))"
    proof (rule wp_bindI[OF warm_up_returns[OF w r5]], rule wp_bindI[OF working_calls(2)[OF w]])
      fix h6 h7 assume "blocks h6 = (blocks h5)(d_out \<mapsto> (kind_to DtoD, pattern n))" and "blocks h7 = blocks h6"
      then have h7: "blocks h7 = ?B" by (simp add: h5 kind_to_def)
      have r7: "copy_ready (blocks h7) d_out d_in n DtoD (pattern n)" "blocks h7 d_out = Some (kind_to DtoD, pattern n)"
        using ne by (simp_all add: h7 copy_ready_def kind_to_def kind_from_def)
      show "returns ?I
       (rbind (timed_batch a now d_out d_in n DtoD trails (new_clock 0, r1, h7)) (\<lambda>(c, r, h).
        rbind (hip_ok (hip_device_free a d_out h)) (\<lambda>h.
        rbind (hip_ok (hip_device_free a d_in h)) (\<lambda>h.
        Inr (bs @ [bandwidth fp n trails c], r, host_drop a h_in h)))))"
        by (rule wp_bindI[OF timed_batch_returns[OF w r7]]) (clarify, rule free, simp only: h7)
    qed
  qed
qed

lemma run_bandwidth_device_device_returns:
  assumes w: "working_hip blocks nd a" and dev: "d < nd" and sizes: "\<forall>n\<in>set ns. 0 < n \<and> n < 2 ^ 32"
  shows "\<exists>bs r' h'. run_bandwidth_device_device a fp now ns d trails (r, h) = Some (Inr (bs, r', h')) \<and>
    length bs = length ns \<and> blocks h' = blocks h"
proof -
  let ?I = "\<lambda>i (bs, r, h'). length bs = i \<and> blocks h' = blocks h"
  let ?body = "\<lambda>bytes (bs, r, h).
     obind (Some (hip_ok (hip_device_malloc a bytes h))) (\<lambda>(d_in, h).
     obind (Some (hip_ok (hip_device_malloc a bytes h))) (\<lambda>(d_out, h).
     case input_bytes bytes of
       None \<Rightarrow> None
     | Some input \<Rightarrow> Some
         (let (h_in, h) = host_vector a input h in
          rbind (hip_ok (hip_memcpy a d_in h_in bytes HtoD h)) (\<lambda>h.
          rbind (warm_up a d_out d_in bytes DtoD h) (\<lambda>h.
          rbind (hip_ok (hip_synchronize a h)) (\<lambda>h.
          rbind (timed_batch a now d_out d_in bytes DtoD trails (new_clock 0, r, h)) (\<lambda>(c, r, h).
          rbind (hip_ok (hip_device_free a d_out h)) (\<lambda>h.
          rbind (hip_ok (hip_device_free a d_in h)) (\<lambda>h.
          Inr (bs @ [bandwidth fp bytes trails c], r, host_drop a h_in h))))))))))"
  have step: "\<exists>s'. ?body (ns ! i) s = Some (Inr s') \<and> ?I (Suc i) s'" if i: "i < length ns" and s: "?I i s" for i s
  proof -
    obtain bs r1 h1 where st: "s = (bs, r1, h1)" "length bs = i" "blocks h1 = blocks h" using s by (cases s) auto
    define n where "n = ns ! i"
    have pos: "0 < n" and n: "n < 2 ^ 32" using sizes i by (simp_all add: n_def)
    obtain d_in h2 xs where m1: "hip_ok (hip_device_malloc a n h1) = Inr (d_in, h2)"
      and p1: "blocks h1 d_in = None" "length xs = n" "blocks h2 = (blocks h1)(d_in \<mapsto> (Device, xs))"
      by (rule device_block[OF w pos])
    obtain d_out h3 ys where m2: "hip_ok (hip_device_malloc a n h2) = Inr (d_out, h3)"
      and p2: "blocks h2 d_out = None" "length ys = n" "blocks h3 = (blocks h2)(d_out \<mapsto> (Device, ys))"
      by (rule device_block[OF w pos])
    obtain h_in h4 where v: "host_vector a (pattern n) h3 = (h_in, h4)" by force
    have p3: "blocks h3 h_in = None" "blocks h4 = (blocks h3)(h_in \<mapsto> (Host, pattern n))"
      using working_calls(8,9)[OF w, where h = h3 and xs = "pattern n"] v by simp_all
    have ne: "d_in \<noteq> d_out" "h_in \<noteq> d_in" "h_in \<noteq> d_out" using p1 p2 p3 by (auto split: if_splits)
    have ret: "returns (\<lambda>(bs', r', h'). length bs' = Suc (length bs) \<and> blocks h' = blocks h1)
        (rbind (hip_ok (hip_memcpy a d_in h_in n HtoD h4)) (\<lambda>h.
          rbind (warm_up a d_out d_in n DtoD h) (\<lambda>h.
          rbind (hip_ok (hip_synchronize a h)) (\<lambda>h.
          rbind (timed_batch a now d_out d_in n DtoD trails (new_clock 0, r1, h)) (\<lambda>(c, r, h).
          rbind (hip_ok (hip_device_free a d_out h)) (\<lambda>h.
          rbind (hip_ok (hip_device_free a d_in h)) (\<lambda>h.
          Inr (bs @ [bandwidth fp n trails c], r, host_drop a h_in h))))))))"
      using p1 p2 p3 by (intro device_copies_return[OF w ne, where xs = xs and ys = ys]) (auto split: if_splits)
    show ?thesis
      using ret unfolding st(1) prod.case n_def[symmetric] m1 m2 obind.simps input_pattern[OF n] option.case v Let_def
      by (simp only: wp_total option.inject st)
  qed
  have "\<exists>s'. run_bandwidth_device_device a fp now ns d trails (r, h) = Some (Inr s') \<and> ?I (length ns) s'"
    unfolding run_bandwidth_device_device_def fst_conv snd_conv
  proof (rule obind_returns[OF working_calls(1)[OF w dev]])
    fix h0 assume "blocks h0 = blocks h"
    then show "\<exists>s'. for_each_opt ns ?body ([], r, h0) = Some (Inr s') \<and> ?I (length ns) s'"
      by (intro for_each_opt_inv[where I = ?I] step) simp_all
  qed
  then show ?thesis by auto
qed

subsection \<open>The program\<close>

lemma run_kind_returns:
  assumes w: "working_hip blocks nd a" and dev: "d < nd" and k: "measurable (host_memory s) k"
    and sizes: "\<forall>n\<in>set ns. 0 < n \<and> n < 2 ^ 32"
  shows "\<exists>bs r' h'. run_kind a fp now s ns d k (out, r, h) = Some (Inr (out @ [(d, print_text (host_memory s) k, bs)], r', h')) \<and>
    length bs = length ns \<and> blocks h' = blocks h"
proof (cases "k = DtoD")
  case True
  then show ?thesis
    using run_bandwidth_device_device_returns[OF w dev sizes, where fp = fp and now = now and r = r and h = h
        and trails = "trials s mod 2 ^ 32"] by (auto simp: run_kind_def)
next
  case False
  then show ?thesis
    using run_bandwidth_host_device_returns[OF w dev False k sizes, where fp = fp and now = now and r = r and h = h
        and trails = "trials s mod 2 ^ 32"] by (auto simp: run_kind_def)
qed

text \<open>What a run reports: for every device, for every kind, the text and as many bandwidths as sizes.\<close>

definition report_of :: "(nat \<times> string \<times> 'd list) list \<Rightarrow> (nat \<times> string \<times> nat) list" where
  "report_of out = map (\<lambda>(d, t, bs). (d, t, length bs)) out"

definition expected_report :: "memcpy_settings \<Rightarrow> nat \<Rightarrow> (nat \<times> string \<times> nat) list" where
  "expected_report s n =
     concat (map (\<lambda>d. map (\<lambda>k. (d, print_text (host_memory s) k, n)) (sorted_list_of_set (chosen_kinds s))) (chosen_devices s))"

lemma all_kinds: "finite (K :: memcpy_kind set)"
proof (rule finite_subset)
  show "K \<subseteq> {HtoD, DtoH, DtoD}" using memcpy_kind.exhaust by blast
qed simp

lemma kinds_return:
  assumes w: "working_hip blocks nd a" and dev: "d < nd" and k: "\<forall>k\<in>set ks. measurable (host_memory s) k"
    and sizes: "\<forall>n\<in>set ns. 0 < n \<and> n < 2 ^ 32"
  shows "\<exists>out' r' h'. for_each_opt ks (run_kind a fp now s ns d) (out, r, h) = Some (Inr (out', r', h')) \<and>
    report_of out' = report_of out @ map (\<lambda>k. (d, print_text (host_memory s) k, length ns)) ks \<and> blocks h' = blocks h"
  using k
proof (induction ks arbitrary: out r h)
  case (Cons k ks)
  obtain bs r1 h1 where step: "run_kind a fp now s ns d k (out, r, h) = Some (Inr (out @ [(d, print_text (host_memory s) k, bs)], r1, h1))"
    "length bs = length ns" "blocks h1 = blocks h"
    using run_kind_returns[OF w dev _ sizes, of s k fp now out r h] Cons.prems by auto
  show ?case
    using Cons.IH[of "out @ [(d, print_text (host_memory s) k, bs)]" r1 h1] Cons.prems step
    by (auto simp: report_of_def)
qed simp

lemma run_measurements_returns:
  assumes w: "working_hip blocks nd a" and dev: "\<forall>d\<in>set (chosen_devices s). d < nd"
    and k: "\<forall>k\<in>chosen_kinds s. measurable (host_memory s) k" and sizes: "\<forall>n\<in>set ns. 0 < n \<and> n < 2 ^ 32"
  shows "\<exists>out r' h'. run_measurements a fp now s ns (r, h) = Some (Inr (out, r', h')) \<and>
    report_of out = expected_report s (length ns) \<and> blocks h' = blocks h"
proof -
  let ?ks = "sorted_list_of_set (chosen_kinds s)"
  let ?row = "\<lambda>d. map (\<lambda>k. (d, print_text (host_memory s) k, length ns)) ?ks"
  let ?body = "\<lambda>device (out, r, h).
       obind (Some (hip_ok (hip_set_device a device h))) (\<lambda>h. for_each_opt ?ks (run_kind a fp now s ns device) (out, r, h))"
  have ks: "\<forall>k\<in>set ?ks. measurable (host_memory s) k" using k all_kinds by simp
  have "\<exists>out' r' h'. for_each_opt ds ?body (out, r, h) = Some (Inr (out', r', h')) \<and>
      report_of out' = report_of out @ concat (map ?row ds) \<and> blocks h' = blocks h"
    if "\<forall>d\<in>set ds. d < nd" for ds out r h
    using that
  proof (induction ds arbitrary: out r h)
    case (Cons d ds)
    then have d: "d < nd" by simp
    obtain h1 where h1: "hip_ok (hip_set_device a d h) = Inr h1" "blocks h1 = blocks h"
      using working_calls(1)[OF w d, where h = h] by (auto simp: wp_total)
    obtain out2 r2 h2 where step: "for_each_opt ?ks (run_kind a fp now s ns d) (out, r, h1) = Some (Inr (out2, r2, h2))"
      "report_of out2 = report_of out @ ?row d" "blocks h2 = blocks h1"
      using kinds_return[OF w d ks sizes, of fp now out r h1] by blast
    show ?case using Cons.IH[of out2 r2 h2] Cons.prems h1 step by simp
  qed simp
  from this[OF dev, of "[]" r h] show ?thesis
    by (simp add: run_measurements_def report_of_def expected_report_def)
qed

subsubsection \<open>Sizes and settings\<close>

text \<open>The rounded up quotient.\<close>

definition range_count :: "nat \<Rightarrow> nat \<Rightarrow> nat \<Rightarrow> nat" where
  "range_count start stop step = (stop - start + step - 1) div step"

lemma range_sizes_positive:
  assumes "0 < start" and "stop \<le> 2 ^ 32" and "step < 2 ^ 63" and "0 < step \<or> stop \<le> start" and "range_count start stop step < fuel"
  shows "generate_sizes_range fuel start stop step = Some (map (\<lambda>k. start + k * step) [0..<range_count start stop step])"
proof -
  have idle: "(step - 1) div step = 0" by (cases "step = 0") simp_all
  show ?thesis
proof (cases "start \<le> stop")
  case True
  moreover have "stop + step < W64" using assms(2,3) by (simp add: W64_def)
  ultimately have "0 < step \<Longrightarrow> ?thesis" using range_sizes[of start stop step fuel] assms(5) by (simp add: range_count_def)
  moreover have "?thesis" if "stop = start" using that assms(5) idle by (cases fuel) (simp_all add: range_count_def)
  ultimately show ?thesis using True assms(4) by linarith
next
  case False
  then show ?thesis using assms(5) idle by (cases fuel) (simp_all add: range_count_def)
qed
qed

lemma range_below: "generate_sizes_range fuel i stop step = Some ns \<Longrightarrow> n \<in> set ns \<Longrightarrow> n < stop"
  by (induction fuel i stop step arbitrary: ns rule: generate_sizes_range.induct) (auto split: if_splits)

lemma shmoo_bounds: "n \<in> set (generate_sizes_shmoo s) \<Longrightarrow> 0 < n \<and> n \<le> SHMOO_MAX + 2 ^ 22"
proof (induction s rule: generate_sizes_shmoo.induct)
  case (1 s)
  have "0 < shmoo_increment s \<and> shmoo_increment s \<le> 2 ^ 22" by (simp add: shmoo_increment_def)
  then show ?case using 1 by (subst (asm) (2) generate_sizes_shmoo.simps) (auto split: if_splits)
qed

text \<open>The sizes that are measured, and the command line whose list of sizes grows for ever.\<close>

definition sizes_of :: "memcpy_settings \<Rightarrow> nat list" where
  "sizes_of s =
     (if test_mode s = RANGED
      then map (\<lambda>k. start_size s + k * stride_size s) [0..<range_count (start_size s) (end_size s) (stride_size s)]
      else generate_sizes_shmoo 0)"

definition endless_sizes :: "memcpy_settings \<Rightarrow> bool" where
  "endless_sizes s \<longleftrightarrow> test_mode s = RANGED \<and> stride_size s = 0 \<and> start_size s < end_size s"

lemma measurement_sizes_eq:
  assumes "test_mode s = RANGED \<Longrightarrow> 0 < start_size s \<and> end_size s \<le> 2 ^ 32 \<and> stride_size s < 2 ^ 63"
  shows "endless_sizes s \<Longrightarrow> measurement_sizes fuel s = None"
    and "\<not> endless_sizes s \<Longrightarrow> length (sizes_of s) < fuel \<Longrightarrow>
      measurement_sizes fuel s = Some (sizes_of s) \<and> (\<forall>n\<in>set (sizes_of s). 0 < n \<and> n < 2 ^ 32)"
proof -
  assume e: "endless_sizes s"
  then have "end_size s + stride_size s < W64" using assms by (simp add: endless_sizes_def W64_def)
  then show "measurement_sizes fuel s = None"
    using e range_sizes[of "start_size s" "end_size s" "stride_size s" fuel]
    by (simp add: endless_sizes_def measurement_sizes_def)
next
  assume e: "\<not> endless_sizes s" and f: "length (sizes_of s) < fuel"
  show "measurement_sizes fuel s = Some (sizes_of s) \<and> (\<forall>n\<in>set (sizes_of s). 0 < n \<and> n < 2 ^ 32)"
  proof (cases "test_mode s = RANGED")
    case True
    then have a: "0 < start_size s" "end_size s \<le> 2 ^ 32" "stride_size s < 2 ^ 63" using assms by simp_all
    have "0 < stride_size s \<or> end_size s \<le> start_size s" using e True by (auto simp: endless_sizes_def)
    from range_sizes_positive[OF a this, of fuel] f
    have r: "generate_sizes_range fuel (start_size s) (end_size s) (stride_size s) = Some (sizes_of s)"
      by (simp add: sizes_of_def True)
    have "0 < n \<and> n < 2 ^ 32" if n: "n \<in> set (sizes_of s)" for n
      using range_below[OF r n] a n by (auto simp: sizes_of_def True)
    then show ?thesis using r by (simp add: measurement_sizes_def True)
  next
    case False
    then show ?thesis by (auto simp: measurement_sizes_def sizes_of_def SHMOO_MAX_def dest!: shmoo_bounds)
  qed
qed

lemma settings_devices:
  assumes "memcpy_settings_of nd cmds = Inr s"
  shows "\<forall>d\<in>set (chosen_devices s). d < nd"
proof -
  obtain names where "choose_devices nd names = Inr (chosen_devices s)"
    using assms by (auto simp: memcpy_settings_of_def res_simps)
  then show ?thesis using chosen_devices_exist by blast
qed

text \<open>C32: With a HIP that works (nothing is promised of allocations of size 0) and a command
  line that is accepted, whose kinds of copy the memory mode can measure (pinned memory is not
  combined with copies from the device) and, in range mode, with start positive, end at most 4
  GiB and stride below 2^63, the memory copy benchmark loops for ever when the stride is 0 and
  start is below end; otherwise it reports for the devices in the order given and the kinds of
  copy in the order of the enumeration one bandwidth for each of the sizes start, start + stride
  and so on below end (or of the fixed sizes of the shmoo mode), and every block it allocated on
  the host and on the devices is released.\<close>
theorem memcpy_main_reports:
  assumes w: "working_hip blocks nd a" and some: "0 < nd"
    and settings: "rbind (run_and_exit_if_error stod args (bench_parser g)) (memcpy_settings_of nd) = Inr s"
    and kinds: "\<forall>k\<in>chosen_kinds s. measurable (host_memory s) k"
    and range: "test_mode s = RANGED \<Longrightarrow> 0 < start_size s \<and> end_size s \<le> 2 ^ 32 \<and> stride_size s < 2 ^ 63"
  shows "if endless_sizes s then \<forall>fuel. memcpy_main a fp now stod g fuel (int nd) args (r, h) = None
    else \<forall>fuel > length (sizes_of s). \<exists>out r' h'.
      memcpy_main a fp now stod g fuel (int nd) args (r, h) = Some (Inr (out, r', h')) \<and>
      report_of out = expected_report s (length (sizes_of s)) \<and> blocks h' = blocks h"
proof -
  have dev: "\<forall>d\<in>set (chosen_devices s). d < nd"
    using settings settings_devices by (auto simp: rbind_Inr)
  have M: "endless_sizes s \<Longrightarrow> measurement_sizes fuel s = None" "\<not> endless_sizes s \<Longrightarrow> length (sizes_of s) < fuel \<Longrightarrow>
      measurement_sizes fuel s = Some (sizes_of s) \<and> (\<forall>n\<in>set (sizes_of s). 0 < n \<and> n < 2 ^ 32)" for fuel
    using measurement_sizes_eq[of s fuel] range by blast+
  show ?thesis
  proof (cases "endless_sizes s")
    case True
    then show ?thesis using M(1) settings some by (simp add: memcpy_main_def)
  next
    case False
    have "\<exists>out r' h'. memcpy_main a fp now stod g fuel (int nd) args (r, h) = Some (Inr (out, r', h')) \<and>
        report_of out = expected_report s (length (sizes_of s)) \<and> blocks h' = blocks h"
      if "length (sizes_of s) < fuel" for fuel
      using run_measurements_returns[OF w dev kinds, of "sizes_of s" fp now r h] M(2)[OF False that] settings some
      by (simp add: memcpy_main_def)
    then show ?thesis using False by simp
  qed
qed

subsection \<open>An instance\<close>

text \<open>A HIP whose blocks are an association list, and which checks the side and the length of every block.\<close>

definition fresh_block :: "(nat \<times> side \<times> nat list) list \<Rightarrow> nat" where
  "fresh_block h = Suc (sum_list (map fst h))"

definition drop_block :: "nat \<Rightarrow> (nat \<times> side \<times> nat list) list \<Rightarrow> (nat \<times> side \<times> nat list) list" where
  "drop_block p h = filter (\<lambda>(q, _). q \<noteq> p) h"

definition table_malloc :: "side \<Rightarrow> nat \<Rightarrow> (nat \<times> side \<times> nat list) list \<Rightarrow> (nat \<times> (nat \<times> side \<times> nat list) list) option" where
  "table_malloc s n h = Some (if n = 0 then (0, h) else (fresh_block h, (fresh_block h, s, replicate n 0) # h))"

definition table_free :: "side \<Rightarrow> nat \<Rightarrow> (nat \<times> side \<times> nat list) list \<Rightarrow> (nat \<times> side \<times> nat list) list option" where
  "table_free s p h = (case map_of h p of None \<Rightarrow> None | Some (t, _) \<Rightarrow> if s = t then Some (drop_block p h) else None)"

definition table_copy :: "nat \<Rightarrow> nat \<Rightarrow> nat \<Rightarrow> memcpy_kind \<Rightarrow> (nat \<times> side \<times> nat list) list \<Rightarrow> (nat \<times> side \<times> nat list) list option" where
  "table_copy dst src n k h =
     (case (map_of h dst, map_of h src) of
        (Some (t, xs), Some (f, ys)) \<Rightarrow>
          if t = kind_to k \<and> f = kind_from k \<and> length xs = n \<and> length ys = n then Some ((dst, t, ys) # drop_block dst h) else None
      | _ \<Rightarrow> None)"

definition table_hip :: "(nat \<times> side \<times> nat list) list hip_api" where
  "table_hip = \<lparr>hip_set_device = (\<lambda>_. Some), hip_device_malloc = table_malloc Device, hip_device_free = table_free Device,
     hip_host_malloc = table_malloc Host, hip_host_free = table_free Host, hip_memcpy = table_copy, hip_synchronize = Some,
     host_vector = (\<lambda>xs h. (fresh_block h, (fresh_block h, Host, xs) # h)), host_drop = drop_block,
     host_fill = (\<lambda>p xs h. (p, Host, xs) # h)\<rparr>"

lemma fresh_block_new: "map_of h (fresh_block h) = None"
proof -
  have "p < fresh_block h" if "p \<in> fst ` set h" for p
    using that member_le_sum_list[of p "map fst h"] by (simp add: fresh_block_def less_Suc_eq_le)
  then show ?thesis by (auto simp: map_of_eq_None_iff)
qed

lemma map_of_drop_block: "map_of (drop_block p h) = (map_of h)(p := None)"
  by (induction h) (auto simp: drop_block_def fun_eq_iff)

lemma table_malloc_allocates: "allocates map_of s (table_malloc s)"
  unfolding allocates_def
proof (intro allI impI exI conjI)
  show "0 < n \<Longrightarrow> table_malloc s n h = Some (fresh_block h, (fresh_block h, s, replicate n 0) # h)" for n h by (simp add: table_malloc_def)
qed (simp_all add: fresh_block_new)

lemma table_hip_works: "working_hip map_of nd table_hip"
  by (auto simp: working_hip_def table_hip_def table_malloc_allocates frees_def copies_def table_free_def table_copy_def
      fresh_block_new map_of_drop_block)

theorem memcpy_main_reports_witness:
  "\<exists>out r' h'. memcpy_main table_hip nat_ops (\<lambda>r. r) (\<lambda>_. None) (VBool False) 3 (int 1)
      [''-memory'', ''pageable''] (0, []) = Some (Inr (out, r', h')) \<and>
    report_of out = [(0, ''Paged Bandwidth Host to Device'', 2), (0, ''Paged Bandwidth Device to Host'', 2),
      (0, ''Bandwidth Device to Device'', 2)] \<and> map_of h' = map_of ([] :: (nat \<times> side \<times> nat list) list)"
proof -
  define s where "s = \<lparr>trials = 50, start_size = 2 ^ 20, end_size = 2 ^ 23, stride_size = 2 ^ 22, test_mode = RANGED,
     host_memory = PAGED, chosen_devices = [0], chosen_kinds = {HtoD, DtoH, DtoD}\<rparr>"
  let ?given = "(bench_parser (VBool False))[5 := (bench_parser (VBool False) ! 5)\<lparr>arguments := [''pageable''], handled := True\<rparr>] :: nat cmd list"
  have run: "run_and_exit_if_error (\<lambda>_. None) [''-memory'', ''pageable''] (bench_parser (VBool False)) = Inr ?given"
    by (simp add: run_and_exit_if_error_def bench_simps run_parser_def find_default_def push_argument_def parse_cmd_def)
  have int0: "parse_int_string ''0'' = Some 0"
    by (simp add: parse_int_string_def is_space_def is_digit_def digit_val_def digits_value_def)
  have chosen: "choose_devices 1 [''0''] = Inr [0]" "choose_kinds [''htod'', ''dtoh'', ''dtod''] = Inr {HtoD, DtoH, DtoD}"
    using int0 by (auto simp add: choose_devices_def choose_kinds_def)
  have make: "memcpy_settings_of 1 cmds = Inr s"
    if "get_size ''trials'' cmds = Inr 50" "get_size ''start'' cmds = Inr (2 ^ 20)" "get_size ''end'' cmds = Inr (2 ^ 23)"
      "get_size ''stride'' cmds = Inr (2 ^ 22)" "get_string ''mode'' cmds = Inr ''range''" "get_string ''memory'' cmds = Inr ''pageable''"
      "get_strings ''device'' cmds = Inr [''0'']" "get_strings ''memcpy'' cmds = Inr [''htod'', ''dtoh'', ''dtod'']"
    for cmds :: "nat cmd list"
    unfolding memcpy_settings_of_def that chosen rbind.simps s_def by simp
  have "memcpy_settings_of 1 ?given = Inr s"
    by (rule make; simp add: get_size_def get_string_def get_strings_def get_value_def bench_simps)
  then have settings: "rbind (run_and_exit_if_error (\<lambda>_. None) [''-memory'', ''pageable''] (bench_parser (VBool False :: nat cli_value)))
      (memcpy_settings_of 1) = Inr s"
    unfolding run by (simp only: rbind.simps)
  have two: "length (sizes_of s) = 2" by (simp add: sizes_of_def s_def range_count_def)
  have ends: "\<not> endless_sizes s" by (simp add: endless_sizes_def s_def)
  have kinds: "\<forall>k\<in>chosen_kinds s. measurable (host_memory s) k" by (simp add: s_def measurable_def)
  have "sorted_list_of_set {HtoD, DtoH, DtoD} = [HtoD, DtoH, DtoD]"
    by (simp add: sorted_list_of_set_insert_remove less_eq_memcpy_kind_def insert_Diff_if)
  then have report: "expected_report s 2 =
     [(0, ''Paged Bandwidth Host to Device'', 2), (0, ''Paged Bandwidth Device to Host'', 2), (0, ''Bandwidth Device to Device'', 2)]"
    by (simp add: expected_report_def s_def print_text_def)
  have "test_mode s = RANGED \<Longrightarrow> 0 < start_size s \<and> end_size s \<le> 2 ^ 32 \<and> stride_size s < 2 ^ 63" by (simp add: s_def)
  from memcpy_main_reports[OF table_hip_works zero_less_one settings kinds this, of nat_ops "\<lambda>r. r" 0 "[]"] ends
  show ?thesis unfolding two report by simp
qed

end
