(* ===== verification/Cmdparser_Help.thy ===== *)
theory Cmdparser_Help
  imports Memcpy_Bench "HOL-Library.Sublist"
begin

text \<open>
  The texts of \<open>cmdparser.hpp\<close>: how values are printed, the help of the program, and the messages of
  \<open>run\<close>. The description of a parameter is given beside it, the text \<open>std::to_string\<close> makes of a
  floating-point number is a parameter.
\<close>

subsection \<open>Printing\<close>

definition int_string :: "int \<Rightarrow> string" where
  "int_string v = (if v < 0 then CHR ''-'' # numeral_string 10 (nat (- v)) else numeral_string 10 (nat v))"

fun stringify :: "('d \<Rightarrow> string) \<Rightarrow> 'd cli_value \<Rightarrow> string" where
  "stringify dts (VInt v) = int_string v"
| "stringify dts (VBool b) = (if b then ''1'' else ''0'')"
| "stringify dts (VDouble d) = dts d"
| "stringify dts (VString s) = s"
| "stringify dts (VVector vs) = ''[ '' @ concat (map (\<lambda>v. stringify dts v @ '' '') vs) @ '']''"

definition print_value :: "('d \<Rightarrow> string) \<Rightarrow> 'd cmd \<Rightarrow> string" where
  "print_value dts c = (case kind c of Callback _ \<Rightarrow> [] | Argument _ \<Rightarrow> stringify dts (cmd_value c))"

text \<open>The line breaks and tabs.\<close>

definition nl :: string where
  "nl = [CHR 0x0A]"

definition tab :: string where
  "tab = [CHR 0x09]"

definition usage_entry :: "('d \<Rightarrow> string) \<Rightarrow> 'd cmd \<times> string \<Rightarrow> string" where
  "usage_entry dts = (\<lambda>(c, description).
     ''  '' @ dash_name c @ tab @ dash_alternative c @
     (if is_required c then tab @ ''(required)'' else []) @
     nl @ ''   '' @ description @
     (if \<not> is_required c
      then nl @ ''   '' @ ''This parameter is optional. The default value is '' @ [CHR 0x27] @ print_value dts c @ [CHR 0x27] @ ''.''
      else []) @ nl @ nl)"

definition usage :: "('d \<Rightarrow> string) \<Rightarrow> string \<Rightarrow> ('d cmd \<times> string) list \<Rightarrow> string" where
  "usage dts general_help_text cmds =
     general_help_text @ nl @ nl @ ''Available parameters:'' @ nl @ nl @ concat (map (usage_entry dts) cmds)"

definition print_help :: "'d cmd list \<Rightarrow> string" where
  "print_help cmds = (if has_help cmds then ''For more help use --help or -h.'' @ nl else [])"

definition howto_required :: "'d cmd list \<Rightarrow> 'd cmd \<times> string \<Rightarrow> string" where
  "howto_required cmds = (\<lambda>(c, description).
     ''The parameter '' @ cmd_name c @ '' is required.'' @ nl @ description @ nl @ print_help cmds)"

definition howto_use :: "'d cmd list \<Rightarrow> 'd cmd \<times> string \<Rightarrow> string" where
  "howto_use cmds = (\<lambda>(c, description).
     ''The parameter '' @ cmd_name c @ '' has invalid arguments.'' @ nl @ description @ nl @ print_help cmds)"

definition no_default :: "'d cmd list \<Rightarrow> string" where
  "no_default cmds =
     ''No default parameter has been specified.'' @ nl @
     ''The given argument must be used with a parameter.'' @ nl @ print_help cmds"

subsection \<open>What is printed can be given\<close>

text \<open>A decimal number as base 0 reads it; 0 is read as octal.\<close>

lemma base0_numeral:
  "(let (b, s) = number_base (numeral_string 10 n); ds = takeWhile (is_digit b) s in (ds \<noteq> [], digits_value b ds)) = (True, n)"
proof (cases "n = 0")
  case True
  then have "numeral_string 10 n = [digit_char 0]" by (subst numeral_string.simps) simp
  moreover have "digit_char 0 = CHR ''0''" using digit_char_not(6)[of 0] by simp
  moreover have "is_digit 8 CHR ''0''" "digits_value 8 ''0'' = 0" by (simp_all add: is_digit_def digit_val_def digits_value_def)
  ultimately show ?thesis using True number_base_octal[of "[]"] by simp
next
  case False
  obtain d s where ns: "numeral_string 10 n = digit_char d # s" "d < 10" "n \<noteq> 0 \<longrightarrow> d \<noteq> 0"
    by (rule numeral_string_hd[of 10 n]) auto
  then have "digit_char d \<noteq> CHR ''0''" using digit_char_not(6)[of d] False by simp
  then have "number_base (numeral_string 10 n) = (10, numeral_string 10 n)" by (simp add: ns(1) number_base_plain)
  note base = this
  have tw: "takeWhile (is_digit 10) (numeral_string 10 n) = numeral_string 10 n"
    using literal_scan(1)[of "[]" 10 n] by simp
  show ?thesis unfolding base Let_def prod.case tw using numeral_string_digits(1,4)[of 10 n] by simp
qed

lemma scan_numeral:
  "scan_number 0 (numeral_string 10 n) = Some (False, n)" "scan_number 0 (CHR ''-'' # numeral_string 10 n) = Some (True, n)"
proof -
  obtain d s where ns: "numeral_string 10 n = digit_char d # s" "d < 10"
    by (rule numeral_string_hd[of 10 n]) auto
  have start: "\<not> is_space (digit_char d)" "digit_char d \<noteq> CHR ''-''" "digit_char d \<noteq> CHR ''+''"
    using digit_char_not[of d] ns(2) by simp_all
  have "number_sign (dropWhile is_space (numeral_string 10 n)) = (False, numeral_string 10 n)"
    using start by (simp add: ns(1))
  moreover have "number_sign (dropWhile is_space (CHR ''-'' # numeral_string 10 n)) = (True, numeral_string 10 n)"
    by (simp add: is_space_def)
  ultimately show "scan_number 0 (numeral_string 10 n) = Some (False, n)"
    "scan_number 0 (CHR ''-'' # numeral_string 10 n) = Some (True, n)"
    using base0_numeral[of n] by (auto simp: scan_number_def Let_def split: prod.splits)
qed

lemma sto_signed_printed:
  assumes "- (2 ^ (bits - 1)) \<le> v" and "v < 2 ^ (bits - 1)"
  shows "sto_signed bits 0 (int_string v) = Some v"
  using assms by (auto simp: sto_signed_def int_string_def scan_numeral Let_def)

text \<open>The values a parameter of a type can have.\<close>

fun value_fits :: "cli_type \<Rightarrow> 'd cli_value \<Rightarrow> bool" where
  "value_fits CInt (VInt v) = (- (2 ^ 31) \<le> v \<and> v < 2 ^ 31)"
| "value_fits CLong (VInt v) = (- (2 ^ 63) \<le> v \<and> v < 2 ^ 63)"
| "value_fits CUnsigned (VInt v) = (0 \<le> v \<and> v < 2 ^ 32)"
| "value_fits CULong (VInt v) = (0 \<le> v \<and> v < 2 ^ 64)"
| "value_fits CString (VString s) = True"
| "value_fits _ _ = False"

lemma printed_reads:
  assumes "value_fits t v"
  shows "cli_parse stod 0 t [stringify dts v] garbage = Some v"
proof -
  have unsigned: "sto_unsigned 0 (int_string x) = Some (nat x)" if "0 \<le> x" "x < 2 ^ 64" for x
    using that by (simp add: sto_unsigned_def int_string_def scan_numeral W64_def nat_less_iff)
  show ?thesis using assms by (cases t; cases v) (auto simp: sto_signed_printed unsigned)
qed

lemma words_read: "\<forall>v\<in>set vs. value_fits t v \<Longrightarrow>
    cli_parse stod 0 (CVector t) (map (stringify dts) vs) garbage = Some (VVector vs)"
  by (induction vs) (auto simp: printed_reads)

text \<open>A printed list starts with a bracket, which no number does.\<close>

lemma bracket_is_no_number: "scan_number 0 (''[ '' @ s) = None"
proof -
  have "dropWhile is_space (''[ '' @ s) = ''[ '' @ s" by (simp add: is_space_def)
  moreover have "number_sign (''[ '' @ s) = (False, ''[ '' @ s)" by simp
  moreover have "number_base (''[ '' @ s) = (10, ''[ '' @ s)" by (simp add: number_base_plain)
  moreover have "takeWhile (is_digit 10) (''[ '' @ s) = []" by (simp add: is_digit_def digit_val_def)
  ultimately show ?thesis by (simp add: scan_number_def)
qed

lemma printed_list_read:
  assumes "value_fits t (v :: 'd cli_value)"
  shows "cli_parse stod 0 (CVector t) [stringify dts (VVector vs :: 'd cli_value)] garbage =
    (if t = CString then Some (VVector [VString (stringify dts (VVector vs))]) else None)"
  using assms bracket_is_no_number[of "concat (map (\<lambda>v. stringify dts v @ '' '') vs) @ '']''"]
  by (cases t; cases v) (simp_all add: sto_signed_def sto_unsigned_def)

text \<open>C36: The text that the help prints for the value of a parameter whose type is int,
  long, unsigned, unsigned long or string, given on the command line after the option, is read
  back as that value, if the text is not itself an option and no other parameter is required. A
  list of such values is read back from its elements as separate words, but its printed form is
  not: for numbers it is rejected, and for strings it is read as a list of the one printed word.\<close>
theorem printed_value_reads_back:
  assumes "fresh_parser cmds" and "i < length cmds" and "kind (cmds ! i) = Argument t"
    and "is_variadic (cmds ! i) = variadic_type t" and "\<forall>j<length cmds. is_required (cmds ! j) \<longrightarrow> j = i"
    and "kind c = Argument t" and "value_fits t (cmd_value c)"
    and "associated cmds w = Some i" and "associated cmds (print_value dts c) = None"
  shows "(\<exists>cmds'. run_parser stod [w, print_value dts c] cmds = Inr (cmds', True) \<and>
      get_value t (cmd_name (cmds ! i)) cmds' = Some (cmd_value c)) \<and>
    (\<forall>vs. (\<forall>v\<in>set vs. value_fits t v) \<longrightarrow>
      cli_parse stod 0 (CVector t) (map (stringify dts) vs) g = Some (VVector vs) \<and>
      cli_parse stod 0 (CVector t) [stringify dts (VVector vs)] g \<noteq> Some (VVector vs) \<and>
      cli_parse stod 0 (CVector t) [stringify dts (VVector vs)] g =
        (if t = CString then Some (VVector [VString (stringify dts (VVector vs))]) else None))"
proof (intro conjI allI impI)
  have word: "print_value dts c = stringify dts (cmd_value c)" using assms(6) by (simp add: print_value_def)
  have scalar: "\<not> variadic_type t" using assms(7) by (cases t) simp_all
  have valid: "valid_setting stod cmds (i, w, print_value dts c)"
    using assms(3,4,8,9) scalar printed_reads[OF assms(7)] by (simp add: valid_setting_def word)
  have "\<exists>cmds'. run_parser stod (words_of [(i, w, print_value dts c)]) cmds = Inr (cmds', True) \<and>
    (\<forall>k<length cmds. \<forall>u. kind (cmds ! k) = Argument u \<longrightarrow>
       get_value u (cmd_name (cmds ! k)) cmds' =
         (case map_of [(i, w, print_value dts c)] k of None \<Rightarrow> Some (cmd_value (cmds ! k))
          | Some (w, x) \<Rightarrow> cli_parse stod 0 u [x] (cmd_value (cmds ! k))))"
    using assms(1) valid assms(5) by (intro settings_roundtrip) auto
  then show "\<exists>cmds'. run_parser stod [w, print_value dts c] cmds = Inr (cmds', True) \<and>
      get_value t (cmd_name (cmds ! i)) cmds' = Some (cmd_value c)"
    using assms(2,3) printed_reads[OF assms(7)] by (auto simp: words_of_def word)
  fix vs assume vs: "\<forall>v\<in>set vs. value_fits t (v :: 'a cli_value)"
  show "cli_parse stod 0 (CVector t) (map (stringify dts) vs) g = Some (VVector vs)" by (rule words_read[OF vs])
  show read: "cli_parse stod 0 (CVector t) [stringify dts (VVector vs)] g =
      (if t = CString then Some (VVector [VString (stringify dts (VVector vs))]) else None)"
    by (rule printed_list_read[OF assms(7)])
  show "cli_parse stod 0 (CVector t) [stringify dts (VVector vs)] g \<noteq> Some (VVector vs)"
  proof
    assume "cli_parse stod 0 (CVector t) [stringify dts (VVector vs)] g = Some (VVector vs)"
    then have "vs = [VString (stringify dts (VVector vs))]" unfolding read by (simp split: if_splits)
    then obtain s where s: "vs = [VString s]" "s = stringify dts (VVector vs)" by blast
    have "stringify dts (VVector vs) = ''[ '' @ s @ '' ]''" unfolding s(1) by simp
    from arg_cong[OF trans[OF s(2) this], of length] show False by simp
  qed
qed

subsection \<open>The help names every parameter\<close>

lemma sublist_concat: "x \<in> set xs \<Longrightarrow> sublist x (concat xs)"
  by (auto dest!: split_list)

lemma sublist_later: "sublist x ys \<Longrightarrow> sublist x (zs @ ys)"
  by (simp add: sublist_append)

text \<open>The help has an entry for every parameter, in the order in which they are registered, with its two names
  and, for an optional one, the value it has.\<close>

theorem usage_names_parameters:
  assumes "(c, d) \<in> set cmds"
  shows "sublist (usage_entry dts (c, d)) (usage dts text cmds) \<and>
    prefix (''  '' @ dash_name c @ tab @ dash_alternative c) (usage_entry dts (c, d)) \<and>
    (\<not> is_required c \<longrightarrow> sublist ([CHR 0x27] @ print_value dts c @ [CHR 0x27]) (usage_entry dts (c, d)))"
proof (intro conjI impI)
  have "sublist (usage_entry dts (c, d)) (concat (map (usage_entry dts) cmds))"
    using assms by (intro sublist_concat) force
  then show "sublist (usage_entry dts (c, d)) (usage dts text cmds)"
    unfolding usage_def append_assoc[symmetric] by (rule sublist_later)
  show "prefix (''  '' @ dash_name c @ tab @ dash_alternative c) (usage_entry dts (c, d))"
    by (simp add: usage_entry_def)
  assume optional: "\<not> is_required c"
  let ?before = "''  '' @ dash_name c @ tab @ dash_alternative c @ nl @ ''   '' @ d @ nl @ ''   '' @
    ''This parameter is optional. The default value is ''"
  have "usage_entry dts (c, d) = ?before @ ([CHR 0x27] @ print_value dts c @ [CHR 0x27]) @ ''.'' @ nl @ nl"
    using optional by (simp add: usage_entry_def)
  then show "sublist ([CHR 0x27] @ print_value dts c @ [CHR 0x27]) (usage_entry dts (c, d))"
    by (simp only: sublist_appendI)
qed

subsection \<open>Examples\<close>

lemma forty_two: "numeral_string 10 42 = ''42''" "numeral_string 10 50 = ''50''"
  by code_simp+

definition number_parser :: "unit cmd list" where
  "number_parser = set_optional CInt ''n'' ''number'' (VInt 7) False (enable_help (VBool False) [])"

lemmas number_parser_simps = number_parser_def set_optional_def enable_help_def set_callback_def new_cmd_def

theorem printed_value_reads_back_witness:
  "\<exists>cmds'. run_parser (\<lambda>_. None) [''--number'', ''-42''] number_parser = Inr (cmds', True) \<and>
    get_value CInt ''n'' cmds' = Some (VInt (- 42))"
proof -
  let ?c = "(number_parser ! 1)\<lparr>cmd_value := VInt (- 42)\<rparr>"
  have printed: "print_value (\<lambda>_. []) ?c = ''-42''"
    by (simp add: print_value_def number_parser_simps int_string_def forty_two)
  have len: "length number_parser = 2" by (simp add: number_parser_simps)
  have fields: "fresh_parser number_parser" "kind (number_parser ! 1) = Argument CInt" "\<not> is_variadic (number_parser ! 1)"
    "cmd_name (number_parser ! 1) = ''n''" "\<forall>j<2. \<not> is_required (number_parser ! j)"
    by (auto simp: number_parser_simps fresh_parser_def less_2_cases_iff)
  have "associated number_parser ''--number'' = Some 1" "associated number_parser ''-42'' = None"
    by (simp_all add: associated_def number_parser_simps cmd_is_def dash_name_def dash_alternative_def)
  then show ?thesis
    using printed_value_reads_back[of number_parser 1 CInt ?c "''--number''" "\<lambda>_. []" "\<lambda>_. None"] fields len
    unfolding printed by simp
qed

theorem usage_names_parameters_witness:
  "sublist [CHR 0x27, CHR ''5'', CHR ''0'', CHR 0x27]
    (usage_entry (\<lambda>_. []) (bench_parser (VBool False :: unit cli_value) ! 6, ''Number of trials''))"
  using usage_names_parameters[of "bench_parser (VBool False :: unit cli_value) ! 6" "''Number of trials''"
      "[(bench_parser (VBool False) ! 6, ''Number of trials'')]" "\<lambda>_. []" "[]"]
  by (auto simp: bench_simps print_value_def int_string_def forty_two)

end
