(* ===== verification/Matrices.thy ===== *)
theory Matrices
  imports Prelude
begin

text \<open>
  The matrix helpers of \<open>example_utils.hpp\<close>, templates of the element type. The element type is a
  commutative ring here, the offsets are those of the loops, and an access outside an array is
  \<open>OutOfBounds\<close>; the offsets are taken not to overflow.
\<close>

subsection \<open>The loops\<close>

definition generate_identity_matrix :: "nat \<Rightarrow> nat \<Rightarrow> nat \<Rightarrow> 'a :: comm_ring_1 list \<Rightarrow> 'a list res" where
  "generate_identity_matrix m n lda A =
     for_range m (\<lambda>i A. for_range n (\<lambda>j A. arr_set A (i + j * lda) (if i = j then 1 else 0)) A) A"

definition multiply_matrices ::
    "'a \<Rightarrow> 'a \<Rightarrow> nat \<Rightarrow> nat \<Rightarrow> nat \<Rightarrow> 'a list \<Rightarrow> nat \<Rightarrow> nat \<Rightarrow> 'a list \<Rightarrow> nat \<Rightarrow> nat \<Rightarrow> 'a list \<Rightarrow> nat \<Rightarrow>
     'a :: comm_ring_1 list res" where
  "multiply_matrices alpha beta m n k A stride1_a stride2_a B stride1_b stride2_b C stride_c =
     for_range m (\<lambda>i1 C. for_range n (\<lambda>i2 C.
       rbind (for_range k (\<lambda>i3 t.
           rbind (arr_get A (i1 * stride1_a + i3 * stride2_a)) (\<lambda>x.
           rbind (arr_get B (i3 * stride1_b + i2 * stride2_b)) (\<lambda>y. Inr (t + x * y)))) 0) (\<lambda>t.
       rbind (arr_get C (i1 + i2 * stride_c)) (\<lambda>c.
       arr_set C (i1 + i2 * stride_c) (beta * c + alpha * t)))) C) C"

subsection \<open>A loop over the cells of a matrix\<close>

text \<open>
  Column-major with the leading dimension \<open>ld\<close>: below \<open>ld\<close> rows no two cells share an element. The
  loop that sets every cell to \<open>f i j\<close> of what it was sets exactly those.
\<close>

lemma cell_distinct:
  assumes "i < ld" and "i' < (ld :: nat)" and "i + j * ld = i' + j' * ld"
  shows "i = i' \<and> j = j'"
proof -
  have "(i + j * ld) mod ld = (i' + j' * ld) mod ld" using assms(3) by simp
  then have "i = i'" using assms(1,2) by simp
  then show ?thesis using assms by simp
qed

lemma cell_inside:
  assumes "i < m" and "j < n" and "m \<le> ld" and "(n - 1) * ld + m \<le> len"
  shows "i + j * ld < (len :: nat)"
proof -
  have "j * ld \<le> (n - 1) * ld" using assms(2) by (intro mult_right_mono) auto
  then show ?thesis using assms by linarith
qed

lemma cell_update:
  assumes "i < m" and "j < n" and "m \<le> ld" and "(n - 1) * ld + m \<le> length s" and "i' < m" and "j' < n"
  shows "s[i + j * ld := v] ! (i' + j' * ld) = (if i' = i \<and> j' = j then v else s ! (i' + j' * ld))"
  using assms cell_inside[OF assms(1-4)] cell_distinct[of i ld i' j j'] by (auto simp: nth_list_update)

lemma matrix_loop:
  assumes ld: "m \<le> ld" and room: "(n - 1) * ld + m \<le> length M"
    and body: "\<And>i j s. i < m \<Longrightarrow> j < n \<Longrightarrow> length s = length M \<Longrightarrow> s ! (i + j * ld) = M ! (i + j * ld) \<Longrightarrow>
      body i j s = Inr (s[i + j * ld := f i j])"
  shows "\<exists>M'. for_range m (\<lambda>i. for_range n (body i)) M = Inr M' \<and> length M' = length M \<and>
    (\<forall>i<m. \<forall>j<n. M' ! (i + j * ld) = f i j) \<and>
    (\<forall>x<length M. (\<forall>i<m. \<forall>j<n. x \<noteq> i + j * ld) \<longrightarrow> M' ! x = M ! x)"
proof -
  let ?I = "\<lambda>a b s. length s = length M \<and>
    (\<forall>i<m. \<forall>j<n. s ! (i + j * ld) = (if i < a \<or> i = a \<and> j < b then f i j else M ! (i + j * ld))) \<and>
    (\<forall>x<length M. (\<forall>i<m. \<forall>j<n. x \<noteq> i + j * ld) \<longrightarrow> s ! x = M ! x)"
  have row: "wp (\<lambda>_. False) (?I (Suc a) 0) (for_range n (body a) s)" if a: "a < m" and s: "?I a 0 s" for a s
  proof (rule wp_for_rangeI[where I = "?I a", OF s])
    fix b s assume b: "b < n" and s: "?I a b s"
    have inside: "a + b * ld < length s" using cell_inside[OF a b ld room] s by simp
    have "body a b s = Inr (s[a + b * ld := f a b])" using body[OF a b] s a b by simp
    moreover have "?I a (Suc b) (s[a + b * ld := f a b])"
    proof (intro conjI allI impI)
      fix i j assume ij: "i < m" "j < n"
      have room': "(n - 1) * ld + m \<le> length s" using room s by simp
      show "s[a + b * ld := f a b] ! (i + j * ld) = (if i < a \<or> i = a \<and> j < Suc b then f i j else M ! (i + j * ld))"
        unfolding cell_update[OF a b ld room' ij] using s ij by (auto simp: less_Suc_eq)
    next
      fix x assume x: "x < length M" "\<forall>i<m. \<forall>j<n. x \<noteq> i + j * ld"
      then have "x \<noteq> a + b * ld" using a b by blast
      then show "s[a + b * ld := f a b] ! x = M ! x" using s x by (auto simp: nth_list_update)
    qed (use s in simp)
    ultimately show "wp (\<lambda>_. False) (?I a (Suc b)) (body a b s)" by simp
  next
    fix s assume "?I a n s"
    then show "?I (Suc a) 0 s" by (auto simp: less_Suc_eq)
  qed
  have "wp (\<lambda>_. False) (?I m 0) (for_range m (\<lambda>i. for_range n (body i)) M)"
    by (rule wp_for_range[where I = "\<lambda>a. ?I a 0"]) (simp, rule row)
  then show ?thesis by (auto simp: wp_total)
qed

subsection \<open>What the helpers compute\<close>

theorem generate_identity_matrix_cells:
  assumes "m \<le> lda" and "(n - 1) * lda + m \<le> length A"
  shows "\<exists>A'. generate_identity_matrix m n lda A = Inr A' \<and> length A' = length A \<and>
    (\<forall>i<m. \<forall>j<n. A' ! (i + j * lda) = (if i = j then 1 else 0)) \<and>
    (\<forall>x<length A. (\<forall>i<m. \<forall>j<n. x \<noteq> i + j * lda) \<longrightarrow> A' ! x = A ! x)"
  unfolding generate_identity_matrix_def
  by (rule matrix_loop[OF assms]) (simp add: cell_inside[OF _ _ assms])

definition dot :: "nat \<Rightarrow> 'a list \<Rightarrow> nat \<Rightarrow> nat \<Rightarrow> 'a list \<Rightarrow> nat \<Rightarrow> nat \<Rightarrow> nat \<Rightarrow> nat \<Rightarrow> 'a :: comm_ring_1" where
  "dot k A s1a s2a B s1b s2b i j = (\<Sum>p<k. A ! (i * s1a + p * s2a) * B ! (p * s1b + j * s2b))"

theorem multiply_matrices_cells:
  assumes ld: "m \<le> ldc" and room: "(n - 1) * ldc + m \<le> length C"
    and A: "\<forall>i<m. \<forall>p<k. i * s1a + p * s2a < length A" and B: "\<forall>p<k. \<forall>j<n. p * s1b + j * s2b < length B"
  shows "\<exists>C'. multiply_matrices alpha beta m n k A s1a s2a B s1b s2b C ldc = Inr C' \<and> length C' = length C \<and>
    (\<forall>i<m. \<forall>j<n. C' ! (i + j * ldc) = beta * C ! (i + j * ldc) + alpha * dot k A s1a s2a B s1b s2b i j) \<and>
    (\<forall>x<length C. (\<forall>i<m. \<forall>j<n. x \<noteq> i + j * ldc) \<longrightarrow> C' ! x = C ! x)"
  unfolding multiply_matrices_def
proof (rule matrix_loop[OF ld room])
  fix i j and s :: "'a list" assume i: "i < m" and j: "j < n" and s: "length s = length C" "s ! (i + j * ldc) = C ! (i + j * ldc)"
  let ?inner = "\<lambda>q. for_range q (\<lambda>i3 t. rbind (arr_get A (i * s1a + i3 * s2a)) (\<lambda>x.
           rbind (arr_get B (i3 * s1b + j * s2b)) (\<lambda>y. Inr (t + x * y)))) 0"
  have "?inner q = Inr (dot q A s1a s2a B s1b s2b i j)" if "q \<le> k" for q
    using that by (induction q) (use A B i j in \<open>simp_all add: dot_def\<close>)
  then have "?inner k = Inr (dot k A s1a s2a B s1b s2b i j)" by simp
  then show "rbind (?inner k) (\<lambda>t. rbind (arr_get s (i + j * ldc)) (\<lambda>c. arr_set s (i + j * ldc) (beta * c + alpha * t))) =
      Inr (s[i + j * ldc := beta * C ! (i + j * ldc) + alpha * dot k A s1a s2a B s1b s2b i j])"
    using cell_inside[OF i j ld room] s by simp
qed

text \<open>The identity matrix is neutral: multiplied from the left it leaves \<open>B\<close>.\<close>

theorem identity_is_neutral:
  assumes I: "generate_identity_matrix m m m (replicate (m * m) 0) = Inr A"
    and ld: "m \<le> ld" and B: "(n - 1) * ld + m \<le> length B" and C: "(n - 1) * ld + m \<le> length C"
  shows "\<exists>C'. multiply_matrices 1 0 m n m A 1 m B 1 ld C ld = Inr C' \<and>
    (\<forall>i<m. \<forall>j<n. C' ! (i + j * ld) = (B :: 'a :: comm_ring_1 list) ! (i + j * ld))"
proof -
  have "(m - 1) * m + m \<le> length (replicate (m * m) (0 :: 'a))" by (cases m) simp_all
  then have A: "length A = m * m" "\<forall>i<m. \<forall>j<m. A ! (i + j * m) = (if i = j then 1 else 0)"
    using generate_identity_matrix_cells[of m m m "replicate (m * m) (0 :: 'a)"] I by auto
  have "i * 1 + p * m < length A" if "i < m" "p < m" for i p
    using cell_inside[OF that, of m "length A"] that A(1) by (cases m) simp_all
  moreover have "p * 1 + j * ld < length B" if "p < m" "j < n" for p j
    using cell_inside[OF that ld B] by simp
  ultimately obtain C' where C': "multiply_matrices 1 0 m n m A 1 m B 1 ld C ld = Inr C'"
    "\<forall>i<m. \<forall>j<n. C' ! (i + j * ld) = 0 * C ! (i + j * ld) + 1 * dot m A 1 m B 1 ld i j"
    using multiply_matrices_cells[OF ld C, of m 1 m A 1 ld B 1 0] by blast
  have "dot m A 1 m B 1 ld i j = B ! (i + j * ld)" if "i < m" "j < n" for i j
  proof -
    have "dot m A 1 m B 1 ld i j = (\<Sum>p<m. if p = i then B ! (p + j * ld) else 0)"
      unfolding dot_def using A(2) that by (intro sum.cong) auto
    then show ?thesis using that by simp
  qed
  then show ?thesis using C' by auto
qed

theorem multiply_matrices_cells_witness:
  "\<exists>C'. multiply_matrices 2 1 2 1 2 [1, 0, 3, (1 :: int)] 1 2 [5, 7] 1 2 [1, 1] 2 = Inr C' \<and> C' ! 0 = 53 \<and> C' ! 1 = 15"
  using multiply_matrices_cells[of 2 2 1 "[1, 1 :: int]" 2 1 2 "[1, 0, 3, 1]" 1 2 "[5, 7]" 2 1]
  by (auto simp: dot_def numeral_2_eq_2 less_Suc_eq all_conj_distrib)

end
