(* ===== verification/Gpu_Chase.thy ===== *)
theory Gpu_Chase
  imports Worker
begin

text \<open>
  The chase on the GPU (\<open>kernels.hip\<close>): the kernel with one thread that follows the first cycle of
  the thread's arguments, and the function of the host that launches it and waits for it. It is
  the chase \<open>gpu\<close> of \<open>multichase.c\<close>.
\<close>

subsection \<open>The kernel\<close>

text \<open>\<open>atomicAdd_system\<close> on the \<open>unsigned\<close> count: the old value and the new one.\<close>

definition atomicAdd_system :: "nat \<Rightarrow> nat \<Rightarrow> nat \<times> nat" where
  "atomicAdd_system c n = (c, (c + n) mod 2 ^ 32)"

text \<open>The loop, with the pointer and the count; as in the kernels of the host, main sets the count
  to 0 before the \<open>k\<close>-th addition when \<open>sampled k\<close>.\<close>

partial_function (option) gpu_loop ::
    "mem \<Rightarrow> (nat \<Rightarrow> bool) \<Rightarrow> nat \<Rightarrow> nat \<Rightarrow> nat \<Rightarrow> (nat \<times> nat) res option" where
  "gpu_loop m sampled k p c =
     (case for_range 200 (\<lambda>_. load64 m) p of
        Inl e \<Rightarrow> Some (Inl e)
      | Inr p \<Rightarrow>
          (let (old, c) = atomicAdd_system (if sampled k then 0 else c) 200 in
           if (old + 200) mod 2 ^ 32 \<noteq> 0 then gpu_loop m sampled (Suc k) p c else Some (Inr (p, c))))"

definition chase_simple_kernel :: "(nat \<Rightarrow> bool) \<Rightarrow> mem \<Rightarrow> per_thread \<Rightarrow> per_thread res option" where
  "chase_simple_kernel sampled m t =
     obind (Some (arr_get (cycle t) 0)) (\<lambda>p.
     obind (gpu_loop m sampled 0 p (thread_count t)) (\<lambda>(p, c).
     Some (Inr (t\<lparr>thread_count := c, dummy := of_nat p\<rparr>))))"

text \<open>
  The launch does not look at its result: when it fails (\<open>launched\<close>) the kernel does not run, and
  \<open>hipDeviceSynchronize\<close> decides (\<open>synced\<close>). A failure on the GPU shows in the host as one of the
  synchronisation.
\<close>

definition chase_simple_kernel_gpu ::
    "bool \<Rightarrow> bool \<Rightarrow> (nat \<Rightarrow> bool) \<Rightarrow> per_thread \<Rightarrow> mem \<Rightarrow> (per_thread \<times> mem) res option" where
  "chase_simple_kernel_gpu launched synced sampled t m =
     (case (if launched then chase_simple_kernel sampled m t else Some (Inr t)) of
        None \<Rightarrow> None
      | Some (Inl e) \<Rightarrow> Some (Inl AssertFail)
      | Some (Inr t) \<Rightarrow> Some (if synced then Inr (t, m) else Inl AssertFail))"

subsection \<open>The kernel and the kernel of the host\<close>

text \<open>The old value and 200 are 0 as an \<open>unsigned\<close> exactly when the new value is: the loop is the one
  of \<open>chase_simple\<close>. Each of the two unfolds to the other, so they agree wherever one is defined.\<close>

abbreviation host_loop :: "mem \<Rightarrow> (nat \<Rightarrow> bool) \<Rightarrow> nat \<Rightarrow> nat \<Rightarrow> nat \<Rightarrow> nat res option" where
  "host_loop m \<equiv> kernel_loop 32 (rep 200 (load64 m)) 200"

lemma gpu_round: "(fst (atomicAdd_system c n) + n) mod 2 ^ 32 = snd (atomicAdd_system c n)"
  by (simp add: atomicAdd_system_def)

lemma gpu_unfold:
  "gpu_loop m sampled k p c =
     (case for_range 200 (\<lambda>_. load64 m) p of
        Inl e \<Rightarrow> Some (Inl e)
      | Inr q \<Rightarrow> let c' = ((if sampled k then 0 else c) + 200) mod 2 ^ 32 in
          if c' = 0 then Some (Inr (q, 0)) else gpu_loop m sampled (Suc k) q c')"
  by (subst gpu_loop.simps) (auto simp: atomicAdd_system_def Let_def split: sum.split)

lemma host_unfold:
  "host_loop m sampled k p c =
     (case for_range 200 (\<lambda>_. load64 m) p of
        Inl e \<Rightarrow> Some (Inl e)
      | Inr q \<Rightarrow> let c' = ((if sampled k then 0 else c) + 200) mod 2 ^ 32 in
          if c' = 0 then Some (Inr q) else host_loop m sampled (Suc k) q c')"
  by (subst kernel_loop.simps) (auto simp: rep_def Let_def split: sum.split)

lemma gpu_to_host:
  assumes "gpu_loop m sampled k p c = Some r"
  shows "map_option (map_sum id (\<lambda>q. (q, 0))) (host_loop m sampled k p c) = Some r"
proof (rule gpu_loop.raw_induct[where P = "\<lambda>m sampled k p c r. map_option (map_sum id (\<lambda>q. (q, 0))) (host_loop m sampled k p c) = Some r", OF _ assms])
  fix loop m sampled k p c r
  assume IH: "\<And>m sampled k p c r. loop m sampled k p c = Some r \<Longrightarrow>
      map_option (map_sum id (\<lambda>q. (q, 0))) (host_loop m sampled k p c) = Some r"
    and step: "(case for_range 200 (\<lambda>_. load64 m) p of
        Inl e \<Rightarrow> Some (Inl e)
      | Inr p \<Rightarrow>
          (let (old, c) = atomicAdd_system (if sampled k then 0 else c) 200 in
           if (old + 200) mod 2 ^ 32 \<noteq> 0 then loop m sampled (Suc k) p c else Some (Inr (p, c)))) = Some r"
  show "map_option (map_sum id (\<lambda>q. (q, 0))) (host_loop m sampled k p c) = Some r"
    unfolding host_unfold[of m sampled k p c] using step
    by (cases "for_range 200 (\<lambda>_. load64 m) p") (auto simp: Let_def atomicAdd_system_def split: if_splits dest!: IH)
qed

lemma host_to_gpu:
  assumes "host_loop m sampled k p c = Some r"
  shows "gpu_loop m sampled k p c = Some (map_sum id (\<lambda>q. (q, 0)) r)"
proof -
  have "32 = bits \<longrightarrow> rep 200 (load64 m) = body \<longrightarrow> 200 = n \<longrightarrow> gpu_loop m sampled k p c = Some (map_sum id (\<lambda>q. (q, 0)) r)"
    if "kernel_loop bits body n sampled k p c = Some r" for bits body n
  proof (rule kernel_loop.raw_induct[where P = "\<lambda>bits body n sampled k p c r. 32 = bits \<longrightarrow> rep 200 (load64 m) = body \<longrightarrow> 200 = n \<longrightarrow>
      gpu_loop m sampled k p c = Some (map_sum id (\<lambda>q. (q, 0)) r)", OF _ that], intro impI)
    fix loop and bits :: nat and body and n :: nat and sampled k p c r
    assume IH: "\<And>bits body n sampled k p c r. loop bits body n sampled k p c = Some r \<Longrightarrow> 32 = bits \<longrightarrow>
        rep 200 (load64 m) = body \<longrightarrow> 200 = n \<longrightarrow> gpu_loop m sampled k p c = Some (map_sum id (\<lambda>q. (q, 0)) r)"
      and step: "(case body p of
          None \<Rightarrow> None
        | Some (Inl e) \<Rightarrow> Some (Inl e)
        | Some (Inr s') \<Rightarrow>
            (let c' = ((if sampled k then 0 else c) + n) mod 2 ^ bits in
             if c' = 0 then Some (Inr s') else loop bits body n sampled (Suc k) s' c')) = Some r"
      and eq: "32 = bits" "rep 200 (load64 m) = body" "200 = n"
    show "gpu_loop m sampled k p c = Some (map_sum id (\<lambda>q. (q, 0)) r)"
      unfolding gpu_unfold[of m sampled k p c] using step unfolding eq[symmetric] rep_def
      by (cases "for_range 200 (\<lambda>_. load64 m) p")
        (auto simp: Let_def split: if_splits dest!: IH[rule_format, OF _ refl refl refl, unfolded rep_def])
  qed
  from this[OF assms] show ?thesis by simp
qed

lemma gpu_loop_is_host_loop:
  "gpu_loop m sampled k p c = map_option (map_sum id (\<lambda>q. (q, 0))) (host_loop m sampled k p c)"
  using gpu_to_host[of m sampled k p c] host_to_gpu[of m sampled k p c]
  by (cases "gpu_loop m sampled k p c"; cases "host_loop m sampled k p c") auto

lemma kernel_is_chase_simple:
  "chase_simple_kernel sampled m t = map_option (map_sum id fst) (chase_simple 32 m sampled t)"
proof (cases "arr_get (cycle t) 0")
  case (Inl e)
  then show ?thesis by (simp add: chase_simple_kernel_def chase_simple_def kernel_def)
next
  case (Inr p)
  show ?thesis
  proof (cases "host_loop m sampled 0 p (thread_count t)")
    case None
    then show ?thesis using Inr by (simp add: chase_simple_kernel_def chase_simple_def kernel_def gpu_loop_is_host_loop)
  next
    case (Some r)
    then show ?thesis
      using Inr by (cases r) (simp_all add: chase_simple_kernel_def chase_simple_def kernel_def gpu_loop_is_host_loop)
  qed
qed

text \<open>C35: The chase on the GPU is chase_simple: with a launch and a synchronisation that
  work it follows the same pointers, adds to the same count, ends exactly when chase_simple with
  a count of 32 bits ends and leaves the same arguments, and a fault of the kernel aborts the
  program; when the launch fails and the synchronisation does not say so, the chase returns at
  once and nothing has been measured.\<close>
theorem gpu_chase_is_chase_simple:
  "chase_simple_kernel_gpu True True sampled t m =
     (case chase_simple 32 m sampled t of
        None \<Rightarrow> None
      | Some (Inl e) \<Rightarrow> Some (Inl AssertFail)
      | Some (Inr (t', p)) \<Rightarrow> Some (Inr (t', m))) \<and>
   chase_simple_kernel_gpu False True sampled t m = Some (Inr (t, m))"
  by (auto simp: chase_simple_kernel_gpu_def kernel_is_chase_simple split: option.split sum.split)

text \<open>In the table of chases: \<open>gpu\<close> does on a working GPU what \<open>simple\<close> does.\<close>

lemma run_gpu_chase:
  assumes "fn g = Gpu" and "fn s = Simple" and "run_chase 32 gpu cpu fuel s sampled m t = Some (Inr r)"
  shows "run_chase 32 (chase_simple_kernel_gpu True True sampled) cpu fuel g sampled m t = Some (Inr r)"
proof -
  obtain t' p where "chase_simple 32 m sampled t = Some (Inr (t', p))" "r = (t', m)"
    using assms(2,3) by (cases "chase_simple 32 m sampled t" rule: option.exhaust)
      (auto simp: run_chase_def elim: obind.elims split: prod.splits)
  then show ?thesis
    using assms(1) by (simp add: run_chase_def chase_simple_kernel_gpu_def kernel_is_chase_simple)
qed

end
