(* ===== verification/Hip_Stream.thy ===== *)
theory Hip_Stream
  imports Stream Util
begin

text \<open>
  \<open>stream.hip\<close> of \<open>src/hip-stream\<close>: STREAM on the GPU. The kernels do one element per thread; a launch
  is its threads in any order. What the text has in common with \<open>mstream.cpp\<close> (the statement of each
  kernel, the checks of the arrays, the tables of times) is shared with \<open>Stream\<close>.
\<close>

subsection \<open>Options\<close>

record hip_stream_settings =
  SI :: bool
  nr_elements :: int
  block_size :: int
  cpuinit :: bool
  validate :: bool

text \<open>\<open>validate\<close> has no default: \<open>garbage\<close> is what main's variable holds.\<close>

definition parse_options_init :: "bool \<Rightarrow> hip_stream_settings" where
  "parse_options_init garbage =
     \<lparr>SI = False, nr_elements = 2 ^ 26, block_size = 192, cpuinit = False, validate = garbage\<rparr>"

definition parse_option :: "char \<times> string \<Rightarrow> hip_stream_settings \<Rightarrow> hip_stream_settings res" where
  "parse_option opt s =
     (let (c, optarg) = opt in
      if c = CHR ''s'' then Inr (s\<lparr>SI := True\<rparr>)
      else if c = CHR ''n'' then Inr (s\<lparr>nr_elements := atoi optarg\<rparr>)
      else if c = CHR ''b'' then Inr (s\<lparr>block_size := atoi optarg\<rparr>)
      else if c = CHR ''c'' then Inr (s\<lparr>cpuinit := True\<rparr>)
      else if c = CHR ''v'' then Inr (s\<lparr>validate := True\<rparr>)
      else if c = CHR ''h'' then Inl (Exit 0)
      else Inl (Exit 1))"

definition parse_options :: "(char \<times> string) list \<Rightarrow> bool \<Rightarrow> hip_stream_settings res" where
  "parse_options opts garbage = for_each opts parse_option (parse_options_init garbage)"

subsection \<open>Kernels\<close>

text \<open>
  The guard all kernels have in common. A thread number that does not fit an \<open>int\<close> is negative,
  passes the guard and indexes in front of the array.
\<close>

definition guarded :: "nat \<Rightarrow> int \<Rightarrow> (nat \<Rightarrow> 's \<Rightarrow> 's res) \<Rightarrow> nat \<Rightarrow> 's \<Rightarrow> 's res" where
  "guarded block_dim len body k s =
     (let idx = thread_index block_dim k in
      if idx < len then (if idx < 0 then Inl OutOfBounds else body (nat idx) s) else Inr s)"

definition set_array :: "nat \<Rightarrow> 'd \<Rightarrow> int \<Rightarrow> nat \<Rightarrow> 'd list \<Rightarrow> 'd list res" where
  "set_array block_dim v len = guarded block_dim len (\<lambda>idx a. arr_set a idx v)"

definition STREAM_Copy :: "nat \<Rightarrow> int \<Rightarrow> nat \<Rightarrow> 'd arrays \<Rightarrow> 'd arrays res" where
  "STREAM_Copy block_dim len = guarded block_dim len copy_element"

definition STREAM_Scale :: "'d stream_ops \<Rightarrow> nat \<Rightarrow> 'd \<Rightarrow> int \<Rightarrow> nat \<Rightarrow> 'd arrays \<Rightarrow> 'd arrays res" where
  "STREAM_Scale fp block_dim scalar len = guarded block_dim len (scale_element fp scalar)"

definition STREAM_Add :: "'d stream_ops \<Rightarrow> nat \<Rightarrow> int \<Rightarrow> nat \<Rightarrow> 'd arrays \<Rightarrow> 'd arrays res" where
  "STREAM_Add fp block_dim len = guarded block_dim len (add_element fp)"

definition STREAM_Triad :: "'d stream_ops \<Rightarrow> nat \<Rightarrow> 'd \<Rightarrow> int \<Rightarrow> nat \<Rightarrow> 'd arrays \<Rightarrow> 'd arrays res" where
  "STREAM_Triad fp block_dim scalar len = guarded block_dim len (triad_line fp scalar)"

subsection \<open>main\<close>

text \<open>\<open>dim3 dimBlock(blockSize)\<close> and \<open>dimGrid\<close>: unsigned numbers of 32 bits.\<close>

definition dim_block :: "int \<Rightarrow> nat" where
  "dim_block blockSize = nat (blockSize mod 2 ^ 32)"

definition dim_grid :: "int \<Rightarrow> int \<Rightarrow> nat res" where
  "dim_grid N blockSize =
     (let n = nat (N mod 2 ^ 32); b = dim_block blockSize in
      if b = 0 then Inl DivByZero
      else Inr (if n mod b \<noteq> 0 then (n div b + 1) mod 2 ^ 32 else n div b))"

text \<open>
  A launch with more than \<open>max_block\<close> threads in a block is an error of the runtime, which the code does
  not ask for: nothing runs. \<open>order i t\<close> is the order in which the \<open>t\<close> threads of the \<open>i\<close>-th launch run.
\<close>

definition launch_kernel :: "nat \<Rightarrow> nat \<Rightarrow> nat list \<Rightarrow> (nat \<Rightarrow> 's \<Rightarrow> 's res) \<Rightarrow> 's \<Rightarrow> 's res" where
  "launch_kernel max_block block_dim ks kern s = (if block_dim \<le> max_block then for_each ks kern s else Inr s)"

definition NTIMES :: nat where
  "NTIMES = 20"

definition hip_init ::
    "'d stream_ops \<Rightarrow> nat \<Rightarrow> nat \<Rightarrow> int \<Rightarrow> (nat \<Rightarrow> nat list) \<Rightarrow> 'd arrays \<Rightarrow> 'd arrays res" where
  "hip_init fp max_block b N order s =
     rbind (launch_kernel max_block b (order 0) (set_array b (fp_nat fp 1) N) (arr_a s)) (\<lambda>a'.
     rbind (launch_kernel max_block b (order 1) (set_array b (fp_nat fp 2) N) (arr_b s)) (\<lambda>b'.
     rbind (launch_kernel max_block b (order 2) (set_array b (fp_nat fp 0) N) (arr_c s)) (\<lambda>c'.
     Inr \<lparr>arr_a = a', arr_b = b', arr_c = c'\<rparr>)))"

definition hip_round ::
    "'d stream_ops \<Rightarrow> nat \<Rightarrow> nat \<Rightarrow> int \<Rightarrow> (nat \<Rightarrow> nat list) \<Rightarrow> nat \<Rightarrow> 'd arrays \<Rightarrow> 'd arrays res" where
  "hip_round fp max_block b N order k s =
     (let scalar = fp_nat fp 3 in
      rbind (launch_kernel max_block b (order (4 * k + 3)) (STREAM_Copy b N) s) (\<lambda>s.
      rbind (launch_kernel max_block b (order (4 * k + 4)) (STREAM_Scale fp b scalar N) s) (\<lambda>s.
      rbind (launch_kernel max_block b (order (4 * k + 5)) (STREAM_Add fp b N) s) (\<lambda>s.
      launch_kernel max_block b (order (4 * k + 6)) (STREAM_Triad fp b scalar N) s))))"

definition hip_stream_run ::
    "'d stream_ops \<Rightarrow> nat \<Rightarrow> hip_stream_settings \<Rightarrow> (nat \<Rightarrow> nat \<Rightarrow> nat list) \<Rightarrow> 'd arrays \<Rightarrow> 'd arrays res" where
  "hip_stream_run fp max_block settings order s =
     (let N = nr_elements settings; b = dim_block (block_size settings); zeros = replicate (nat N) (fp_nat fp 0) in
      rbind (dim_grid N (block_size settings)) (\<lambda>grid.
      let order = (\<lambda>i. order i (grid * b));
          s = (if cpuinit settings then \<lparr>arr_a = zeros, arr_b = zeros, arr_c = zeros\<rparr> else s) in
      rbind (hip_init fp max_block b N order s) (\<lambda>s.
      for_range NTIMES (hip_round fp max_block b N order) s)))"

subsection \<open>Validation\<close>

definition hip_expected :: "'d stream_ops \<Rightarrow> 'd \<times> 'd \<times> 'd" where
  "hip_expected fp =
     (let aj = fp_nat fp 1; bj = fp_nat fp 2; cj = fp_nat fp 0; scalar = fp_nat fp 3 in
      foldl (\<lambda>(aj, bj, cj) k.
          let cj = aj; bj = fp_mul fp scalar cj; cj = fp_add fp aj bj;
              aj = fp_add fp bj (fp_mul fp scalar cj) in (aj, bj, cj))
        (aj, bj, cj) [0..<NTIMES])"

text \<open>The number of bad elements of every array whose average is off; \<open>real\<close> is double.\<close>

definition hip_checkSTREAMresults :: "'d stream_ops \<Rightarrow> nat \<Rightarrow> 'd arrays \<Rightarrow> nat option list res" where
  "hip_checkSTREAMresults fp n s =
     (let (aj, bj, cj) = hip_expected fp; eps = epsilon_of fp 8 in
      rbind (check_array fp eps n (arr_a s) aj) (\<lambda>ea.
      rbind (check_array fp eps n (arr_b s) bj) (\<lambda>eb.
      rbind (check_array fp eps n (arr_c s) cj) (\<lambda>ec. Inr [ea, eb, ec]))))"

text \<open>
  The arrays are allocated or, in three other builds, static. For the arrays of the device and for
  constant memory the code copies fresh host arrays (\<open>fresh\<close>) to the device, and checks those.
\<close>

datatype array_build = Allocated | Device_Array | Constant_Array | Managed_Array

definition hip_validate ::
    "'d stream_ops \<Rightarrow> array_build \<Rightarrow> nat \<Rightarrow> 'd arrays \<Rightarrow> 'd arrays \<Rightarrow> ('d arrays \<times> nat option list) res" where
  "hip_validate fp build n fresh s =
     (if build = Device_Array \<or> build = Constant_Array
      then rbind (hip_checkSTREAMresults fp n fresh) (\<lambda>errs. Inr (fresh, errs))
      else rbind (hip_checkSTREAMresults fp n s) (\<lambda>errs. Inr (s, errs)))"

subsection \<open>Times\<close>

definition hip_bytes :: "'d stream_ops \<Rightarrow> int \<Rightarrow> 'd list" where
  "hip_bytes fp N =
     (let n = (if 0 \<le> N then fp_nat fp (nat N) else fp_neg fp (fp_nat fp (nat (- N)))) in
      [fp_mul fp (fp_nat fp 16) n, fp_mul fp (fp_nat fp 16) n, fp_mul fp (fp_nat fp 24) n, fp_mul fp (fp_nat fp 24) n])"

text \<open>A line for each kernel: the rate, the average, the least and the greatest time.\<close>

definition hip_summary ::
    "'d stream_ops \<Rightarrow> bool \<Rightarrow> int \<Rightarrow> (nat \<Rightarrow> nat \<Rightarrow> 'd) \<Rightarrow> ('d \<times> 'd \<times> 'd \<times> 'd) list" where
  "hip_summary fp si N tm =
     (let s = foldl (\<lambda>s k. foldl (\<lambda>s j. add_time fp j (tm j k) s) s [0..<4]) (first_times fp) [1..<NTIMES];
          G = (if si then fp_nat fp (10 ^ 9) else fp_nat fp (2 ^ 30)) in
      map (\<lambda>j. (fp_div fp (fp_div fp (hip_bytes fp N ! j) (mintime s ! j)) G,
                 fp_div fp (avgtime s ! j) (fp_nat fp (NTIMES - 1)), mintime s ! j, maxtime s ! j)) [0..<4])"

subsection \<open>Allocation\<close>

text \<open>
  Every method with the call it makes for each array, whether the code looks at the result of this
  call, and what it does with all three arrays afterwards.
\<close>

record hip_method =
  method_name :: string
  method_call :: string
  method_checked :: bool
  method_then :: "string option"

definition hip_methods :: "hip_method list" where
  "hip_methods = map (\<lambda>(n, c, ch, th). \<lparr>method_name = n, method_call = c, method_checked = ch, method_then = th\<rparr>)
     [(''malloc'', ''malloc'', False, None),
      (''hipMalloc'', ''hipMalloc'', True, None),
      (''hipHostMalloc'', ''hipHostMalloc'', True, None),
      (''hipHostMallocNonCoherent'', ''hipHostMallocNonCoherent'', True, None),
      (''hipMallocManaged'', ''hipMallocManaged'', True, None),
      (''hipMallocManagedCpu'', ''hipMallocManaged'', True, Some ''write''),
      (''malloc+register'', ''malloc'', False, Some ''hipHostRegister''),
      (''malloc+coarseGrain'', ''malloc'', False, Some ''hipMemAdvise''),
      (''MPI'', ''MPI_Alloc_mem'', True, None)]"

text \<open>
  \<open>alloc call i bytes\<close> is the answer to the \<open>i\<close>-th allocation and \<open>advise\<close> that of HIP to the calls of
  the last column; \<open>MPI_Init\<close> is the only other call that can fail. Writing through NULL faults.
\<close>

definition hip_allocate ::
    "(string \<Rightarrow> nat \<Rightarrow> nat \<Rightarrow> nat option) \<Rightarrow> (string \<Rightarrow> nat \<Rightarrow> nat \<Rightarrow> bool) \<Rightarrow> bool \<Rightarrow> string list \<Rightarrow> int \<Rightarrow> nat list res" where
  "hip_allocate alloc advise mpi_init operands N =
     (if length operands \<noteq> 1 then Inl (Exit 1)
      else case find (\<lambda>m. method_name m = operands ! 0) hip_methods of
        None \<Rightarrow> Inl (Exit 1)
      | Some m \<Rightarrow>
          let bytes = mul64 8 (nat (N mod 2 ^ 64)) in
          if method_name m = ''MPI'' \<and> \<not> mpi_init then Inl AssertFail
          else rbind (for_range 3 (\<lambda>i ps.
              case alloc (method_call m) i bytes of
                Some p \<Rightarrow> Inr (ps @ [p])
              | None \<Rightarrow> if method_checked m then Inl AssertFail else Inr (ps @ [0])) []) (\<lambda>ps.
            case method_then m of
              None \<Rightarrow> Inr ps
            | Some what \<Rightarrow>
                if what = ''write'' then Inr ps
                else rbind (for_each ps (\<lambda>p u. if advise what p bytes then Inr u else Inl AssertFail) ()) (\<lambda>_. Inr ps)))"

subsection \<open>The kernels are parallel loops\<close>

text \<open>The lengths an \<open>int\<close> can hold.\<close>

abbreviation int_len :: "nat \<Rightarrow> nat" where
  "int_len n \<equiv> min n (2 ^ 31 - 1)"

lemma guarded_thread:
  assumes "k < 2 ^ 31"
  shows "guarded b (int n) body k s = (if k < n then body k s else Inr s)"
  using assms by (simp add: guarded_def thread_index_eq)

lemma launch_locale:
  assumes "parallel_for (int_len n) body mk f"
  shows "kernel_launch (int_len n) (2 ^ 31) (guarded b (int (int_len n)) body) mk f"
proof (unfold_locales, goal_cases)
  case (1 k C)
  then show ?case using parallel_for.iteration[OF assms, of k C] guarded_thread[of k b "int_len n" body] by simp
next
  case (2 k C)
  then have "\<not> k < int_len n" by (simp only: not_less)
  then show ?case using 2 guarded_thread[of k b "int_len n" body] by (simp only: if_False)
next
  case (3 C D)
  then show ?case by (rule parallel_for.extensional[OF assms])
qed simp

interpretation set_a: kernel_launch "int_len n" "2 ^ 31" "set_array b x (int (int_len n))"
    "\<lambda>A. map A [0..<int_len n]" "\<lambda>_ _. x" for n b x
  unfolding set_array_def by (rule launch_locale, unfold_locales) (auto simp: map_update)

interpretation hip_copy: kernel_launch "int_len n" "2 ^ 31" "STREAM_Copy b (int (int_len n))"
    "\<lambda>C. arrays_of (int_len n) A B C" "\<lambda>j _. A j" for n b A B
  unfolding STREAM_Copy_def by (rule launch_locale, rule copy.parallel_for_axioms)

interpretation hip_scale: kernel_launch "int_len n" "2 ^ 31" "STREAM_Scale fp b s (int (int_len n))"
    "\<lambda>B. arrays_of (int_len n) A B C" "\<lambda>j _. fp_mul fp s (C j)" for n b fp s A C
  unfolding STREAM_Scale_def by (rule launch_locale, rule scale.parallel_for_axioms)

interpretation hip_add: kernel_launch "int_len n" "2 ^ 31" "STREAM_Add fp b (int (int_len n))"
    "\<lambda>C. arrays_of (int_len n) A B C" "\<lambda>j _. fp_add fp (A j) (B j)" for n b fp A B
  unfolding STREAM_Add_def by (rule launch_locale, rule add.parallel_for_axioms)

interpretation hip_triad: kernel_launch "int_len n" "2 ^ 31" "STREAM_Triad fp b s (int (int_len n))"
    "\<lambda>A. arrays_of (int_len n) A B C" "\<lambda>j _. fp_add fp (B j) (fp_mul fp s (C j))" for n b fp s B C
  unfolding STREAM_Triad_def by (rule launch_locale, rule triad.parallel_for_axioms)

subsection \<open>The result of a run\<close>

lemma dim_grid_enough:
  assumes "0 \<le> N" and "N < 2 ^ 31" and "0 < bs" and "bs < 2 ^ 32" and "dim_grid N bs = Inr grid"
  shows "nat N \<le> grid * dim_block bs" and "grid * dim_block bs < nat N + dim_block bs"
proof -
  have N: "nat (N mod 2 ^ 32) = nat N" using assms(1,2) by simp
  have b: "dim_block bs = nat bs" "0 < dim_block bs" using assms(3,4) by (simp_all add: dim_block_def)
  define n where "n = nat N"
  define c where "c = dim_block bs"
  have c: "0 < c" using b by (simp add: c_def)
  have "n < 2 ^ 31" using assms(1,2) by (simp add: n_def)
  then have "n div c < 2 ^ 31" by (rule order.strict_trans1[OF div_le_dividend])
  then have grid: "grid = (if n mod c \<noteq> 0 then n div c + 1 else n div c)"
    using assms(5) b N by (auto simp: dim_grid_def Let_def n_def c_def split: if_splits)
  define q where "q = n div c"
  define r where "r = n mod c"
  have split: "n = q * c + r" "r < c" using c by (simp_all add: q_def r_def)
  have "n \<le> grid * c \<and> grid * c < n + c"
  proof (cases "r = 0")
    case True
    then show ?thesis using split c by (simp add: grid q_def[symmetric] r_def[symmetric])
  next
    case False
    then have "grid * c = q * c + c" by (simp add: grid q_def[symmetric] r_def[symmetric])
    then show ?thesis using split False by linarith
  qed
  then show "nat N \<le> grid * dim_block bs" "grid * dim_block bs < nat N + dim_block bs"
    by (simp_all add: n_def c_def)
qed

lemma expected_step_eq:
  "hip_expected fp = foldl (expected_step fp) (fp_nat fp 1, fp_nat fp 2, fp_nat fp 0) [0..<NTIMES]"
  by (simp add: hip_expected_def expected_step_def Let_def case_prod_beta' cong: foldl_cong)

lemma hip_round_uniform:
  assumes "\<And>i. mset (order i) = mset [0..<threads]" and "n < 2 ^ 31" and "n \<le> threads" and "threads \<le> 2 ^ 31"
    and "b \<le> max_block"
  shows "hip_round fp max_block b (int n) order k (uniform n v) = Inr (uniform n (expected_step fp v k))"
proof -
  have n: "int_len n = n" using assms(2) by simp
  note launch = hip_copy.launch[of _ threads n, unfolded n, OF assms(1,3,4)]
    hip_scale.launch[of _ threads n, unfolded n, OF assms(1,3,4)]
    hip_add.launch[of _ threads n, unfolded n, OF assms(1,3,4)]
    hip_triad.launch[of _ threads n, unfolded n, OF assms(1,3,4)]
  show ?thesis
    by (cases v) (simp add: hip_round_def launch_kernel_def expected_step_def Let_def launch assms(5))
qed


lemma hip_init_uniform:
  assumes "\<And>i. mset (order i) = mset [0..<threads]" and "n < 2 ^ 31" and "n \<le> threads" and "threads \<le> 2 ^ 31"
    and "b \<le> max_block" and "length (arr_a s) = n" "length (arr_b s) = n" "length (arr_c s) = n"
  shows "hip_init fp max_block b (int n) order s = Inr (uniform n (fp_nat fp 1, fp_nat fp 2, fp_nat fp 0))"
proof -
  have n: "int_len n = n" using assms(2) by simp
  have one: "for_each (order i) (set_array b x (int n)) xs = Inr (map (\<lambda>_. x) [0..<n])" if "length xs = n" for i x xs
  proof -
    have "map (\<lambda>i. xs ! i) [0..<n] = xs" using map_nth[of xs] that by simp
    then show ?thesis
      using set_a.launch[of "order i" threads n b x "\<lambda>i. xs ! i", unfolded n, OF assms(1,3,4)] by simp
  qed
  show ?thesis
    by (simp add: hip_init_def launch_kernel_def assms(5-8) one arrays_of_def)
qed

lemma hip_run_uniform:
  assumes ord: "\<And>i t. mset (order i t) = mset [0..<t]"
    and s: "nr_elements settings = int n" "block_size settings = int b" "0 < b" "b \<le> max_block"
    and fit: "n + b \<le> 2 ^ 31" and len: "length (arr_a s) = n" "length (arr_b s) = n" "length (arr_c s) = n"
  shows "hip_stream_run fp max_block settings order s = Inr (uniform n (hip_expected fp))"
proof -
  have b: "dim_block (int b) = b" "0 < b" using s(3) fit by (simp_all add: dim_block_def)
  obtain grid where grid: "dim_grid (int n) (int b) = Inr grid" using b by (auto simp: dim_grid_def Let_def)
  have T: "n \<le> grid * b" "grid * b < n + b"
    using dim_grid_enough[OF _ _ _ _ grid] fit b by auto
  let ?s = "if cpuinit settings then \<lparr>arr_a = replicate n (fp_nat fp 0), arr_b = replicate n (fp_nat fp 0),
      arr_c = replicate n (fp_nat fp 0)\<rparr> else s"
  have lt: "n < 2 ^ 31" "grid * b \<le> 2 ^ 31" using fit b T(2) by linarith+
  have I: "hip_init fp max_block b (int n) (\<lambda>i. order i (grid * b)) ?s =
      Inr (uniform n (fp_nat fp 1, fp_nat fp 2, fp_nat fp 0))"
    by (rule hip_init_uniform[OF ord lt(1) T(1) lt(2) s(4)]) (simp_all add: len)
  have R: "for_range k (hip_round fp max_block b (int n) (\<lambda>i. order i (grid * b))) (uniform n v) =
      Inr (uniform n (foldl (expected_step fp) v [0..<k]))" for k v
    by (induction k) (simp_all add: hip_round_uniform[OF ord lt(1) T(1) lt(2) s(4)])
  show ?thesis
    using I R[of NTIMES "(fp_nat fp 1, fp_nat fp 2, fp_nat fp 0)"]
    by (cases "cpuinit settings") (simp_all add: hip_stream_run_def Let_def s b grid expected_step_eq)
qed

text \<open>Whatever the order in which the threads of the launches run, STREAM on the GPU leaves in
  every element of its three arrays the value that its validation computes on scalars, and the
  validation passes, if the block size is one the device accepts and no thread number exceeds an
  int.\<close>
theorem hip_stream_validates:
  assumes "\<forall>i t. mset (order i t) = mset [0..<t]"
    and "nr_elements settings = int n" and "block_size settings = int b" and "0 < b" and "b \<le> max_block"
    and "n + b \<le> 2 ^ 31" and "length (arr_a s) = n" and "length (arr_b s) = n" and "length (arr_c s) = n"
    and "hip_expected fp = (aj, bj, cj)" and "\<forall>x\<in>{aj, bj, cj}. exact_zero fp n (epsilon_of fp 8) x"
  shows "\<exists>s'. hip_stream_run fp max_block settings order s = Inr s' \<and>
    arr_a s' = replicate n aj \<and> arr_b s' = replicate n bj \<and> arr_c s' = replicate n cj \<and>
    hip_validate fp Allocated n fresh s' = Inr (s', [None, None, None])"
proof -
  have "hip_stream_run fp max_block settings order s = Inr (uniform n (aj, bj, cj))"
    using hip_run_uniform[of order settings n b max_block s fp] assms(1-10) by simp
  then show ?thesis
    using assms(10,11)
    by (simp add: hip_validate_def hip_checkSTREAMresults_def Let_def check_array_ok map_replicate_const)
qed

subsection \<open>Thread numbers beyond an int\<close>

lemma for_each_fault:
  assumes "x \<in> set xs" and "\<And>s. I s \<Longrightarrow> body x s = Inl OutOfBounds"
    and "\<And>y s. I s \<Longrightarrow> y \<in> set xs \<Longrightarrow> body y s = Inl OutOfBounds \<or> (\<exists>s'. body y s = Inr s' \<and> I s')" and "I s"
  shows "for_each xs body s = Inl OutOfBounds"
  using assms
proof (induction xs arbitrary: s)
  case (Cons y ys)
  show ?case
  proof (cases "body y s")
    case (Inl e)
    then show ?thesis using Cons.prems(3)[OF Cons.prems(4), of y] by simp
  next
    case (Inr s')
    then have s': "body y s = Inr s'" "I s'" using Cons.prems(3)[OF Cons.prems(4), of y] by simp_all
    have "y \<noteq> x" using s'(1) Cons.prems(2)[OF Cons.prems(4)] by auto
    then have "x \<in> set ys" using Cons.prems(1) by simp
    from Cons.IH[OF this Cons.prems(2) _ s'(2)] show ?thesis using Cons.prems(3) s'(1) by simp
  qed
qed simp

text \<open>With fewer elements than an int can count, but so many that the threads of the last block are
  not, the first kernel already writes in front of its array.\<close>
theorem hip_stream_thread_overflow:
  assumes "\<forall>i t. mset (order i t) = mset [0..<t]"
    and "nr_elements settings = int n" and "block_size settings = int b" and "b \<le> max_block"
    and "length (arr_a s) = n" and "n < 2 ^ 31" and "0 < b" and "b \<le> 2 ^ 31"
    and "dim_grid (int n) (int b) = Inr grid" and "2 ^ 31 < grid * b"
  shows "hip_stream_run fp max_block settings order s = Inl OutOfBounds"
proof -
  have bd: "dim_block (int b) = b" using assms(7,8) by (simp add: dim_block_def)
  have idx: "thread_index b (2 ^ 31) = - (2 ^ 31)"
    by (simp add: thread_index_def thread_number_eq signed_take_bit_eq_take_bit_shift take_bit_eq_mod)
  have fault: "set_array b x (int n) (2 ^ 31) xs = Inl OutOfBounds" for x :: 'a and xs
    unfolding set_array_def guarded_def idx by (simp add: Let_def)
  have other: "set_array b x (int n) k xs = Inl OutOfBounds \<or>
      (\<exists>xs'. set_array b x (int n) k xs = Inr xs' \<and> length xs' = n)" if "length xs = n" for x :: 'a and k xs
    using that by (auto simp: set_array_def guarded_def Let_def arr_set_def)
  have "set (order 0 (grid * b)) = {..<grid * b}"
    using mset_eq_setD[OF assms(1)[rule_format, of 0 "grid * b"]] by (simp add: atLeast0LessThan)
  then have mem: "2 ^ 31 \<in> set (order 0 (grid * b))" using assms(10) by simp
  have "for_each (order 0 (grid * b)) (set_array b (fp_nat fp 1) (int n)) xs = Inl OutOfBounds" if "length xs = n" for xs
    using mem fault other that by (rule for_each_fault[where I = "\<lambda>xs. length xs = n"])
  then have "hip_init fp max_block b (int n) (\<lambda>i. order i (grid * b)) s' = Inl OutOfBounds"
    if "length (arr_a s') = n" for s' :: "'a arrays"
    using assms(4) that by (simp add: hip_init_def launch_kernel_def)
  then have "rbind (hip_init fp max_block b (int n) (\<lambda>i. order i (grid * b)) s') g = Inl OutOfBounds"
    if "length (arr_a s') = n" for s' and g :: "'a arrays \<Rightarrow> 'a arrays res"
    using that by simp
  then show ?thesis
    unfolding hip_stream_run_def Let_def assms(2,3,9) bd rbind.simps
    by (cases "cpuinit settings") (simp_all add: assms(5) del: rbind.simps)
qed

subsection \<open>Examples\<close>

lemma nat_expected_step:
  "foldl (expected_step nat_stream_ops) (1, 2, 0) [0..<Suc k] = (15 ^ Suc k, 3 * 15 ^ k, 4 * 15 ^ k)"
  by (induction k) (simp_all add: expected_step_def nat_stream_ops_def Let_def)

lemma nat_expected: "hip_expected nat_stream_ops = (15 ^ 20, 3 * 15 ^ 19, 4 * 15 ^ 19)"
proof -
  have "NTIMES = Suc 19" by (simp add: NTIMES_def)
  moreover have "(fp_nat nat_stream_ops 1, fp_nat nat_stream_ops 2, fp_nat nat_stream_ops 0) = (1, 2, 0)"
    by (simp add: nat_stream_ops_def)
  ultimately have "hip_expected nat_stream_ops = (15 ^ Suc 19, 3 * 15 ^ 19, 4 * 15 ^ 19)"
    unfolding expected_step_eq using nat_expected_step[of 19] by presburger
  then show ?thesis by simp
qed

theorem hip_stream_validates_witness:
  "\<exists>s'. hip_stream_run nat_stream_ops 1024
      \<lparr>SI = False, nr_elements = 2, block_size = 192, cpuinit = False, validate = True\<rparr> (\<lambda>_ t. rev [0..<t])
      \<lparr>arr_a = [7, 7], arr_b = [7, 7], arr_c = [7, 7]\<rparr> = Inr s' \<and>
    arr_a s' = replicate 2 (15 ^ 20) \<and> arr_b s' = replicate 2 (3 * 15 ^ 19) \<and> arr_c s' = replicate 2 (4 * 15 ^ 19) \<and>
    hip_validate nat_stream_ops Allocated 2 \<lparr>arr_a = [], arr_b = [], arr_c = []\<rparr> s' = Inr (s', [None, None, None])"
  by (rule hip_stream_validates[OF _ _ _ _ _ _ _ _ _ nat_expected, where b = 192])
    (simp_all add: exact_zero_def nat_stream_ops_def epsilon_of_def del: upt_Suc)

theorem hip_stream_thread_overflow_witness:
  "hip_stream_run nat_stream_ops 1024
      \<lparr>SI = False, nr_elements = 2 ^ 31 - 1, block_size = 192, cpuinit = False, validate = True\<rparr> (\<lambda>_ t. [0..<t])
      \<lparr>arr_a = replicate (2 ^ 31 - 1) 0, arr_b = [], arr_c = []\<rparr> = Inl OutOfBounds"
  by (rule hip_stream_thread_overflow[where n = "2 ^ 31 - 1" and b = 192 and grid = 11184811])
    (simp_all add: dim_grid_def dim_block_def)

end
