(* ===== verification/Histo.thy ===== *)
theory Histo
  imports Util Floats "HOL-Library.Signed_Division"
begin

text \<open>
  \<open>histo.hip\<close> of \<open>src/atomics\<close>: threads of the cpu and of the GPU add 1 to random cells of one table by
  atomic operations; the benchmark counts the updates in a time, or makes a given number of them and
  checks the sum of the table. The threads run operation by operation in any order. The locale
  \<open>exact_counter\<close> says what the check needs of the type of the cells.
\<close>

subsection \<open>Options\<close>

record hist_spec =
  table_size :: nat
  total_updates :: nat
  threads_cpu :: int
  threads_gpu :: int
  tpb :: int
  verbose :: bool
  system_wide :: bool
  hip_malloc :: bool
  relaxed_order :: bool

definition hist_default :: hist_spec where
  "hist_default =
     \<lparr>table_size = 1024, total_updates = 1000000, threads_cpu = 0, threads_gpu = 0, tpb = 1,
      verbose = False, system_wide = True, hip_malloc = False, relaxed_order = False\<rparr>"

text \<open>The options, with the name of the data type beside the record.\<close>

definition hist_set_option :: "char \<times> string \<Rightarrow> hist_spec \<times> string \<Rightarrow> (hist_spec \<times> string) res" where
  "hist_set_option opt st =
     (let (c, optarg) = opt; (s, type) = st in
      if c = CHR ''v'' then Inr (s\<lparr>verbose := True\<rparr>, type)
      else if c = CHR ''S'' then Inr (s\<lparr>system_wide := False\<rparr>, type)
      else if c = CHR ''H'' then Inr (s\<lparr>hip_malloc := True\<rparr>, type)
      else if c = CHR ''r'' then Inr (s\<lparr>relaxed_order := True\<rparr>, type)
      else if c = CHR ''c'' then Inr (s\<lparr>threads_cpu := atoi optarg\<rparr>, type)
      else if c = CHR ''g'' then Inr (s\<lparr>threads_gpu := atoi optarg\<rparr>, type)
      else if c = CHR ''b'' then Inr (s\<lparr>tpb := atoi optarg\<rparr>, type)
      else if c = CHR ''s'' then Inr (s\<lparr>table_size := fst (strtoull optarg)\<rparr>, type)
      else if c = CHR ''t'' then Inr (s\<lparr>total_updates := fst (strtoull optarg)\<rparr>, type)
      else if c = CHR ''d'' then Inr (s, optarg)
      else Inl (Exit 1))"

text \<open>
  The number of updates is rounded up, so that every thread makes the same number of them. An \<open>int\<close>
  that overflows, in \<open>lcm\<close> or when it is doubled, is undefined.
\<close>

definition round_unit :: "hist_spec \<Rightarrow> nat res" where
  "round_unit s =
     (let c = threads_cpu s; g = threads_gpu s in
      if c \<noteq> 0 \<and> g \<noteq> 0 then
        if 2 ^ 31 \<le> 2 * lcm c g then Inl Undefined else Inr (nat (2 * lcm c g))
      else if c \<noteq> 0 then Inr (size_of_int c)
      else if g \<noteq> 0 then Inr (size_of_int g)
      else Inr 0)"

definition round_total :: "hist_spec \<Rightarrow> hist_spec res" where
  "round_total s =
     (if total_updates s = 0 then Inr s
      else rbind (round_unit s) (\<lambda>mult.
        if mult = 0 then Inr s
        else Inr (s\<lparr>total_updates :=
          mul64 (sub64 (add64 (total_updates s) mult) 1 div mult) mult\<rparr>)))"

definition hist_types :: "string list" where
  "hist_types = [''u32'', ''u64'', ''f32'', ''f64'']"

text \<open>The type and the settings with which main calls \<open>run\<close>.\<close>

definition hist_settings :: "(char \<times> string) list \<Rightarrow> (string \<times> hist_spec) res" where
  "hist_settings opts =
     rbind (for_each opts hist_set_option (hist_default, ''u32'')) (\<lambda>(s, type).
     rbind (round_total s) (\<lambda>s.
     if type \<in> set hist_types then Inr (type, s) else Inl (Exit 1)))"

subsection \<open>Threads\<close>

text \<open>The type of the cells: 0, \<open>x + 1\<close>, \<open>x + y\<close>, and the comparison with a \<open>size_t\<close>.\<close>

record 't num_type =
  nt_zero :: 't
  nt_inc :: "'t \<Rightarrow> 't"
  nt_add :: "'t \<Rightarrow> 't \<Rightarrow> 't"
  nt_equals :: "'t \<Rightarrow> nat \<Rightarrow> bool"

definition GRANUL :: nat where
  "GRANUL = 200"

text \<open>A thread is at the test of its loop, at the addition to the counter, or has returned.\<close>

datatype upd_pc = Loop nat | Counting nat | Finished

record 't hist =
  cells :: "'t list"
  gpu_count :: nat
  cpu_count :: nat
  at_pc :: "nat \<Rightarrow> upd_pc"

text \<open>
  With \<open>-S\<close> the additions of the GPU to the table have the scope of the device: they are atomic among
  the threads of the GPU, but together with additions of the cpu they are a data race, which the
  memory model leaves undefined. Threads \<open>0\<close> to \<open>nr_gpu - 1\<close> are those of the GPU. \<open>rand w i\<close> is the \<open>i\<close>-th random number of thread
  \<open>w\<close>, on the cpu that of the distribution over the table.
\<close>

record hist_job =
  nr_gpu :: nat
  nr_cpu :: nat
  gpu_share :: nat
  cpu_share :: nat
  device_scope :: bool

definition share_of :: "hist_job \<Rightarrow> nat \<Rightarrow> nat" where
  "share_of j w = (if w < nr_gpu j then gpu_share j else cpu_share j)"

definition racing :: "hist_job \<Rightarrow> nat \<Rightarrow> bool" where
  "racing j w \<longleftrightarrow> device_scope j \<and> w < nr_gpu j \<and> 0 < nr_cpu j"

definition hist_turn ::
    "'t num_type \<Rightarrow> nat \<Rightarrow> hist_job \<Rightarrow> (nat \<Rightarrow> nat \<Rightarrow> nat) \<Rightarrow> nat \<Rightarrow> 't hist \<Rightarrow> 't hist res" where
  "hist_turn nt tsize j rand w s =
     (let to = (\<lambda>p s. s\<lparr>at_pc := (at_pc s)(w := p)\<rparr>) in
      case at_pc s w of
        Loop i \<Rightarrow>
          if i < share_of j w then
            if racing j w then Inl Undefined
            else rbind (if w < nr_gpu j then mod64 (rand w i) tsize else Inr (rand w i)) (\<lambda>k.
            rbind (arr_get (cells s) k) (\<lambda>x. rbind (arr_set (cells s) k (nt_inc nt x)) (\<lambda>t.
            Inr (to (if i mod GRANUL = 0 then Counting i else Loop (i + 1)) (s\<lparr>cells := t\<rparr>)))))
          else Inr (to Finished s)
      | Counting i \<Rightarrow>
          Inr (to (Loop (i + 1))
            (if w < nr_gpu j then s\<lparr>gpu_count := add64 (gpu_count s) 1\<rparr>
             else s\<lparr>cpu_count := add64 (cpu_count s) 1\<rparr>))
      | Finished \<Rightarrow> Inr s)"

subsection \<open>run\<close>

text \<open>
  The threads of a run. A launch the runtime rejects (more than \<open>max_block\<close> threads in a block, a
  negative number) is not noticed, and nothing runs.
\<close>

definition hist_jobs :: "nat \<Rightarrow> hist_spec \<Rightarrow> hist_job res" where
  "hist_jobs max_block s =
     (let both = (threads_cpu s \<noteq> 0 \<and> threads_gpu s \<noteq> 0);
          share = (\<lambda>t. if total_updates s = 0 then W64 - 1
                       else let n = total_updates s div size_of_int t in if both then n div 2 else n) in
      rbind (if threads_gpu s = 0 then Inr 0
             else if tpb s = 0 then Inl DivByZero
             else if threads_gpu s sdiv tpb s * tpb s \<noteq> threads_gpu s then Inl AssertFail
             else Inr (if tpb s \<le> int max_block then nat (threads_gpu s) else 0)) (\<lambda>g.
      Inr \<lparr>nr_gpu = g, nr_cpu = nat (threads_cpu s),
           gpu_share = (if threads_gpu s = 0 then 0 else share (threads_gpu s)),
           cpu_share = (if threads_cpu s = 0 then 0 else share (threads_cpu s)),
           device_scope = \<not> system_wide s\<rparr>))"

text \<open>\<open>count0\<close>: the counters are not initialised.\<close>

definition hist_start :: "'t num_type \<Rightarrow> nat \<Rightarrow> hist_job \<Rightarrow> nat \<Rightarrow> nat \<Rightarrow> 't hist" where
  "hist_start nt tsize j gpu0 cpu0 =
     \<lparr>cells = replicate tsize (nt_zero nt), gpu_count = gpu0, cpu_count = cpu0,
      at_pc = (\<lambda>w. if w < nr_gpu j + nr_cpu j then Loop 0 else Finished)\<rparr>"

definition hist_sum :: "'t num_type \<Rightarrow> nat \<Rightarrow> 't list \<Rightarrow> 't res" where
  "hist_sum nt tsize t =
     for_range tsize (\<lambda>i sum. rbind (arr_get t i) (\<lambda>x. Inr (nt_add nt sum x))) (nt_zero nt)"

text \<open>
  A validation run under a schedule: None when some thread has not returned yet, otherwise whether
  the sum of the table is the number of updates.
\<close>

definition hist_validation ::
    "'t num_type \<Rightarrow> nat \<Rightarrow> (nat \<Rightarrow> nat \<Rightarrow> nat) \<Rightarrow> nat list \<Rightarrow> nat \<Rightarrow> nat \<Rightarrow> hist_spec \<Rightarrow> bool option res" where
  "hist_validation nt max_block rand schedule gpu0 cpu0 s =
     rbind (hist_jobs max_block s) (\<lambda>j.
     rbind (for_each schedule (hist_turn nt (table_size s) j rand) (hist_start nt (table_size s) j gpu0 cpu0)) (\<lambda>h.
     if \<exists>w<nr_gpu j + nr_cpu j. at_pc h w \<noteq> Finished then Inr None
     else rbind (hist_sum nt (table_size s) (cells h)) (\<lambda>sum. Inr (Some (nt_equals nt sum (total_updates s))))))"

text \<open>The two rates of a timed run, from two readings of a counter and of the clock (seconds, nanoseconds).\<close>

definition hist_elapsed :: "int \<times> int \<Rightarrow> int \<times> int \<Rightarrow> nat" where
  "hist_elapsed t0 t1 = nat ((10 ^ 9 * (fst t1 - fst t0) + (snd t1 - snd t0)) mod 2 ^ 64)"

definition hist_rate :: "'d fp_ops \<Rightarrow> nat \<Rightarrow> nat \<Rightarrow> nat \<Rightarrow> 'd" where
  "hist_rate fp c0 c1 t_ns =
     fp_div fp (fp_nat fp (mul64 GRANUL (sub64 c1 c0))) (fp_div fp (fp_nat fp t_ns) (fp_nat fp (10 ^ 9)))"

subsection \<open>What a thread has done\<close>

fun updates_of :: "nat \<Rightarrow> upd_pc \<Rightarrow> nat" where
  "updates_of n (Loop i) = i"
| "updates_of n (Counting i) = i + 1"
| "updates_of n Finished = n"

fun counted_of :: "nat \<Rightarrow> upd_pc \<Rightarrow> nat" where
  "counted_of n (Loop i) = (i + GRANUL - 1) div GRANUL"
| "counted_of n (Counting i) = i div GRANUL"
| "counted_of n Finished = (n + GRANUL - 1) div GRANUL"

fun pc_ok :: "nat \<Rightarrow> upd_pc \<Rightarrow> bool" where
  "pc_ok n (Loop i) \<longleftrightarrow> i \<le> n"
| "pc_ok n (Counting i) \<longleftrightarrow> i < n \<and> i mod GRANUL = 0"
| "pc_ok n Finished \<longleftrightarrow> True"

fun_cases pc_okE: "pc_ok n (Loop i)" "pc_ok n (Counting i)"

lemma GRANUL_pos: "0 < GRANUL"
  by (simp add: GRANUL_def)

lemma updates_le: "pc_ok n p \<Longrightarrow> updates_of n p \<le> n"
  by (cases p) auto

lemma counted_step:
  "i mod GRANUL \<noteq> 0 \<Longrightarrow> counted_of n (Loop (i + 1)) = counted_of n (Loop i)"
  "i mod GRANUL = 0 \<Longrightarrow> counted_of n (Counting i) = counted_of n (Loop i)"
  "i mod GRANUL = 0 \<Longrightarrow> counted_of n (Loop (i + 1)) = counted_of n (Counting i) + 1"
proof -
  define q where "q = i div GRANUL"
  define r where "r = i mod GRANUL"
  have i: "i = q * GRANUL + r" "r < GRANUL" by (simp_all add: q_def r_def GRANUL_def)
  show "counted_of n (Loop (i + 1)) = counted_of n (Loop i)" if "i mod GRANUL \<noteq> 0"
  proof -
    have r: "0 < r" using that by (simp add: r_def)
    have "(i + 1 + GRANUL - 1) div GRANUL = q + 1" using i by (intro div_nat_eqI) (auto simp: GRANUL_def)
    moreover have "(i + GRANUL - 1) div GRANUL = q + 1" using i r by (intro div_nat_eqI) (auto simp: GRANUL_def)
    ultimately show ?thesis by simp
  qed
  assume "i mod GRANUL = 0"
  then have "r = 0" by (simp only: r_def)
  then have i': "i = q * GRANUL" using i(1) by (simp only: add_0_right)
  have "(i + GRANUL - 1) div GRANUL = q" using i' by (intro div_nat_eqI) (auto simp: GRANUL_def)
  moreover have "(i + 1 + GRANUL - 1) div GRANUL = q + 1" using i' by (intro div_nat_eqI) (auto simp: GRANUL_def)
  moreover have "i div GRANUL = q" by (simp add: q_def)
  ultimately
  show "counted_of n (Counting i) = counted_of n (Loop i)" "counted_of n (Loop (i + 1)) = counted_of n (Counting i) + 1"
    by simp_all
qed

text \<open>A sum over the threads when one of them moves.\<close>

lemma sum_move:
  fixes d :: "nat \<Rightarrow> 'p \<Rightarrow> nat"
  assumes "finite A" and "w \<in> A"
  shows "(\<Sum>v\<in>A. d v ((f(w := p)) v)) + d w (f w) = (\<Sum>v\<in>A. d v (f v)) + d w p"
proof -
  have "(\<Sum>v\<in>A. d v ((f(w := p)) v)) = d w p + (\<Sum>v\<in>A - {w}. d v (f v))"
  proof -
    have "(\<Sum>v\<in>A - {w}. d v ((f(w := p)) v)) = (\<Sum>v\<in>A - {w}. d v (f v))" by (rule sum.cong) auto
    then show ?thesis by (simp add: sum.remove[OF assms])
  qed
  moreover have "(\<Sum>v\<in>A. d v (f v)) = d w (f w) + (\<Sum>v\<in>A - {w}. d v (f v))"
    by (rule sum.remove[OF assms])
  ultimately show ?thesis by simp
qed

lemma sum_unmoved: "w \<notin> A \<Longrightarrow> (\<Sum>v\<in>A. d v ((f(w := p)) v)) = (\<Sum>v\<in>A. d v (f v))"
  by (rule sum.cong) auto

subsection \<open>Types that count exactly\<close>

locale exact_counter =
  fixes nt :: "'t num_type" and val :: "'t \<Rightarrow> nat" and bound :: nat
  assumes val_zero: "val (nt_zero nt) = 0"
    and val_inc: "val x + 1 < bound \<Longrightarrow> val (nt_inc nt x) = val x + 1"
    and val_add: "val x + val y < bound \<Longrightarrow> val (nt_add nt x y) = val x + val y"
    and val_equals: "nt_equals nt x n \<longleftrightarrow> val x = n"
begin

definition table_total :: "'t list \<Rightarrow> nat" where
  "table_total t = (\<Sum>x\<leftarrow>t. val x)"

lemma table_total_inc:
  assumes "k < length t" and "table_total t + 1 < bound"
  shows "table_total (t[k := nt_inc nt (t ! k)]) = table_total t + 1"
proof -
  have "val (t ! k) \<le> table_total t"
    using assms(1) by (auto simp: table_total_def intro: member_le_sum_list)
  then have "val (nt_inc nt (t ! k)) = val (t ! k) + 1" using assms(2) by (intro val_inc) simp
  then show ?thesis
    using assms(1) \<open>val (t ! k) \<le> table_total t\<close>
    by (simp add: table_total_def map_update sum_list_update)
qed

lemma hist_sum_exact:
  assumes "length t = n" and "table_total t < bound"
  shows "\<exists>sum. hist_sum nt n t = Inr sum \<and> val sum = table_total t"
proof -
  have "wp (\<lambda>_. False) (\<lambda>sum. val sum = table_total (take n t)) (hist_sum nt n t)"
    unfolding hist_sum_def
  proof (rule wp_for_range[where I = "\<lambda>i sum. val sum = table_total (take i t)"], goal_cases)
    case 1
    then show ?case by (simp add: val_zero table_total_def)
  next
    case (2 i sum)
    have i: "i < length t" using 2(1) assms(1) by simp
    then have T: "table_total (take (Suc i) t) = table_total (take i t) + val (t ! i)"
      by (simp add: table_total_def take_Suc_conv_app_nth)
    have "table_total t = table_total (take (Suc i) t) + table_total (drop (Suc i) t)"
      unfolding table_total_def by (metis append_take_drop_id map_append sum_list_append)
    then have "val sum + val (t ! i) < bound" using 2(2) T assms(2) by simp
    then show ?case using i 2(2) T val_add by simp
  qed
  then show ?thesis using assms(1) by (auto simp: wp_total)
qed

end

definition hist_threads :: "hist_job \<Rightarrow> nat" where
  "hist_threads j = nr_gpu j + nr_cpu j"

definition updates_done :: "hist_job \<Rightarrow> 't hist \<Rightarrow> nat" where
  "updates_done j s = (\<Sum>w<hist_threads j. updates_of (share_of j w) (at_pc s w))"

definition all_updates :: "hist_job \<Rightarrow> nat" where
  "all_updates j = (\<Sum>w<hist_threads j. share_of j w)"

lemma all_updates_eq: "all_updates j = nr_gpu j * gpu_share j + nr_cpu j * cpu_share j"
proof -
  have "(\<Sum>w<a + b. f w) = (\<Sum>w<a. f w) + (\<Sum>w<b. f (a + w))" for a b and f :: "nat \<Rightarrow> nat"
    by (induction b) simp_all
  then have "all_updates j = (\<Sum>w<nr_gpu j. share_of j w) + (\<Sum>w<nr_cpu j. share_of j (nr_gpu j + w))"
    by (simp add: all_updates_def hist_threads_def)
  then show ?thesis by (simp add: share_of_def)
qed


subsection \<open>The invariant\<close>

definition counted :: "hist_job \<Rightarrow> nat set \<Rightarrow> 't hist \<Rightarrow> nat" where
  "counted j W s = (\<Sum>w\<in>W. counted_of (share_of j w) (at_pc s w))"

abbreviation gpu_threads :: "hist_job \<Rightarrow> nat set" where
  "gpu_threads j \<equiv> {..<nr_gpu j}"

abbreviation cpu_threads :: "hist_job \<Rightarrow> nat set" where
  "cpu_threads j \<equiv> {nr_gpu j..<hist_threads j}"

lemma move_thread:
  assumes at: "at_pc s' = (at_pc s)(w := p)"
  shows "w < hist_threads j \<Longrightarrow> updates_done j s' + updates_of (share_of j w) (at_pc s w) =
      updates_done j s + updates_of (share_of j w) p"
    and "finite W \<Longrightarrow> w \<in> W \<Longrightarrow> counted j W s' + counted_of (share_of j w) (at_pc s w) =
      counted j W s + counted_of (share_of j w) p"
    and "w \<notin> W \<Longrightarrow> counted j W s' = counted j W s"
proof -
  show "updates_done j s' + updates_of (share_of j w) (at_pc s w) = updates_done j s + updates_of (share_of j w) p"
    if "w < hist_threads j"
    unfolding updates_done_def at using that by (intro sum_move[where d = "\<lambda>w. updates_of (share_of j w)"]) simp_all
  show "counted j W s' + counted_of (share_of j w) (at_pc s w) = counted j W s + counted_of (share_of j w) p"
    if "finite W" "w \<in> W"
    unfolding counted_def at using that by (intro sum_move[where d = "\<lambda>w. counted_of (share_of j w)"])
  show "counted j W s' = counted j W s" if "w \<notin> W"
    unfolding counted_def at using that by (rule sum_unmoved)
qed

lemma updates_bounded:
  assumes "\<forall>w<hist_threads j. pc_ok (share_of j w) (at_pc s w)"
  shows "updates_done j s \<le> all_updates j"
    and "w < hist_threads j \<Longrightarrow> updates_of (share_of j w) (at_pc s w) < share_of j w \<Longrightarrow> updates_done j s < all_updates j"
proof -
  have le: "updates_of (share_of j v) (at_pc s v) \<le> share_of j v" if "v < hist_threads j" for v
    using assms that updates_le by blast
  then show "updates_done j s \<le> all_updates j" unfolding updates_done_def all_updates_def by (intro sum_mono) simp
  show "updates_done j s < all_updates j" if "w < hist_threads j" "updates_of (share_of j w) (at_pc s w) < share_of j w"
    unfolding updates_done_def all_updates_def using le that by (intro sum_strict_mono_ex1) auto
qed

text \<open>The random numbers of the cpu lie in the table.\<close>

definition draws_ok :: "nat \<Rightarrow> hist_job \<Rightarrow> (nat \<Rightarrow> nat \<Rightarrow> nat) \<Rightarrow> bool" where
  "draws_ok tsize j rand \<longleftrightarrow> 0 < tsize \<and> (\<forall>w i. nr_gpu j \<le> w \<longrightarrow> rand w i < tsize)"

context exact_counter begin

definition hist_inv :: "nat \<Rightarrow> hist_job \<Rightarrow> nat \<Rightarrow> nat \<Rightarrow> 't hist \<Rightarrow> bool" where
  "hist_inv tsize j gpu0 cpu0 s \<longleftrightarrow>
     length (cells s) = tsize \<and> table_total (cells s) = updates_done j s \<and>
     gpu_count s = (gpu0 + counted j (gpu_threads j) s) mod W64 \<and>
     cpu_count s = (cpu0 + counted j (cpu_threads j) s) mod W64 \<and>
     (\<forall>w<hist_threads j. pc_ok (share_of j w) (at_pc s w)) \<and>
     (\<forall>w. hist_threads j \<le> w \<longrightarrow> at_pc s w = Finished)"

lemma table_total_zero: "table_total (replicate n (nt_zero nt)) = 0"
  by (simp add: table_total_def val_zero)

lemma hist_inv_start:
  assumes "gpu0 < W64" and "cpu0 < W64"
  shows "hist_inv tsize j gpu0 cpu0 (hist_start nt tsize j gpu0 cpu0)"
proof -
  have z: "(0 + GRANUL - 1) div GRANUL = 0" by (simp add: GRANUL_def)
  have "updates_done j (hist_start nt tsize j gpu0 cpu0) = 0"
    by (simp add: updates_done_def hist_start_def hist_threads_def)
  moreover have "counted j W (hist_start nt tsize j gpu0 cpu0) = 0" if "W \<subseteq> {..<hist_threads j}" for W
    unfolding counted_def using that z
    by (intro sum.neutral) (auto simp: hist_start_def hist_threads_def GRANUL_def subset_eq)
  moreover have "gpu_threads j \<subseteq> {..<hist_threads j}" "cpu_threads j \<subseteq> {..<hist_threads j}"
    by (auto simp: hist_threads_def)
  ultimately show ?thesis
    using assms by (simp add: hist_inv_def) (simp add: hist_start_def hist_threads_def table_total_zero)
qed

text \<open>One thread moves, adds \<open>u\<close> to the sum of the table and \<open>d\<close> to the counter of its side.\<close>

lemma hist_inv_move:
  assumes inv: "hist_inv tsize j gpu0 cpu0 s" and w: "w < hist_threads j"
    and at: "at_pc s' = (at_pc s)(w := p)" and p: "pc_ok (share_of j w) p"
    and u: "updates_of (share_of j w) p = updates_of (share_of j w) (at_pc s w) + u"
    and d: "counted_of (share_of j w) p = counted_of (share_of j w) (at_pc s w) + d"
    and t: "length (cells s') = tsize" "table_total (cells s') = table_total (cells s) + u"
    and g: "gpu_count s' = (if w < nr_gpu j then (gpu_count s + d) mod W64 else gpu_count s)"
    and c: "cpu_count s' = (if w < nr_gpu j then cpu_count s else (cpu_count s + d) mod W64)"
  shows "hist_inv tsize j gpu0 cpu0 s'"
proof -
  note I = inv[unfolded hist_inv_def]
  have up: "updates_done j s' = updates_done j s + u" using move_thread(1)[OF at w] u by linarith
  have here: "counted j W s' = counted j W s + d" if "finite W" "w \<in> W" for W
    using move_thread(2)[OF at that, of j] d by linarith
  have there: "counted j W s' = counted j W s" if "w \<notin> W" for W
    using that by (rule move_thread(3)[OF at])
  have add: "(x mod W64 + d) mod W64 = (x + d) mod W64" for x by (rule mod_add_left_eq)
  have "gpu_count s' = (gpu0 + counted j (gpu_threads j) s') mod W64"
    using I g here[of "gpu_threads j"] there[of "gpu_threads j"] add[of "gpu0 + counted j (gpu_threads j) s"]
    by (cases "w < nr_gpu j") (simp_all add: add.assoc)
  moreover have "cpu_count s' = (cpu0 + counted j (cpu_threads j) s') mod W64"
    using I c w here[of "cpu_threads j"] there[of "cpu_threads j"] add[of "cpu0 + counted j (cpu_threads j) s"]
    by (cases "w < nr_gpu j") (simp_all add: add.assoc)
  ultimately show ?thesis using I up t p at w by (simp add: hist_inv_def)
qed

lemma hist_inv_turn:
  assumes inv: "hist_inv tsize j gpu0 cpu0 s" and few: "all_updates j < bound" and dr: "draws_ok tsize j rand"
    and scope: "\<And>w. \<not> racing j w"
  shows "\<exists>s'. hist_turn nt tsize j rand w s = Inr s' \<and> hist_inv tsize j gpu0 cpu0 s'"
proof (cases "w < hist_threads j")
  case False
  then have "at_pc s w = Finished" using inv by (simp add: hist_inv_def)
  then show ?thesis using inv by (simp add: hist_turn_def)
next
  case w: True
  note I = inv[unfolded hist_inv_def]
  have pc: "pc_ok (share_of j w) (at_pc s w)" using I w by blast
  have one: "s'' = s \<Longrightarrow> gpu_count s'' = gpu_count s mod W64 \<and> cpu_count s'' = cpu_count s mod W64" for s'' :: "'t hist"
    using I by simp
  show ?thesis
  proof (cases "at_pc s w")
    case (Loop i)
    then have i: "i \<le> share_of j w" using pc by (auto elim: pc_okE)
    show ?thesis
    proof (cases "i < share_of j w")
      case True
      define k where "k = (if w < nr_gpu j then rand w i mod tsize else rand w i)"
      have tsize: "0 < tsize" "length (cells s) = tsize" using dr I by (simp_all add: draws_ok_def)
      have k: "k < tsize" using dr by (auto simp: k_def draws_ok_def)
      define t where "t = (cells s)[k := nt_inc nt (cells s ! k)]"
      define p where "p = (if i mod GRANUL = 0 then Counting i else Loop (i + 1))"
      have "updates_done j s < all_updates j"
        using updates_bounded(2)[of j s w] I w Loop True by simp
      then have "table_total (cells s) + 1 < bound" using I few by simp
      then have t: "table_total t = table_total (cells s) + 1" "length t = tsize"
        unfolding t_def using table_total_inc[of k "cells s"] k tsize by simp_all
      have "hist_turn nt tsize j rand w s = Inr (s\<lparr>cells := t, at_pc := (at_pc s)(w := p)\<rparr>)"
        using Loop True k tsize scope by (auto simp: hist_turn_def k_def t_def p_def Let_def)
      moreover have "hist_inv tsize j gpu0 cpu0 (s\<lparr>cells := t, at_pc := (at_pc s)(w := p)\<rparr>)"
      proof (rule hist_inv_move[OF inv w, where p = p and u = 1 and d = 0])
        show "counted_of (share_of j w) p = counted_of (share_of j w) (at_pc s w) + 0"
          using counted_step(1,2)[of i "share_of j w"] by (simp add: p_def Loop del: counted_of.simps)
      qed (use t True Loop one[OF refl] in \<open>simp_all add: p_def\<close>)
      ultimately show ?thesis by blast
    next
      case False
      then have i: "i = share_of j w" using i by simp
      have "hist_inv tsize j gpu0 cpu0 (s\<lparr>at_pc := (at_pc s)(w := Finished)\<rparr>)"
        by (rule hist_inv_move[OF inv w, where p = Finished and u = 0 and d = 0])
          (use i Loop I one[OF refl] in simp_all)
      then show ?thesis using Loop False by (simp add: hist_turn_def Let_def)
    qed
  next
    case (Counting i)
    then have i: "i < share_of j w" "i mod GRANUL = 0" using pc by (auto elim: pc_okE)
    let ?s = "if w < nr_gpu j then s\<lparr>gpu_count := add64 (gpu_count s) 1\<rparr> else s\<lparr>cpu_count := add64 (cpu_count s) 1\<rparr>"
    have "hist_inv tsize j gpu0 cpu0 (?s\<lparr>at_pc := (at_pc ?s)(w := Loop (i + 1))\<rparr>)"
    proof (rule hist_inv_move[OF inv w, where p = "Loop (i + 1)" and u = 0 and d = 1])
      show "counted_of (share_of j w) (Loop (i + 1)) = counted_of (share_of j w) (at_pc s w) + 1"
        using counted_step(3)[OF i(2), of "share_of j w"] by (simp add: Counting del: counted_of.simps)
    qed (use i Counting I in \<open>simp_all add: add64_def\<close>)
    then show ?thesis using Counting by (simp add: hist_turn_def Let_def)
  next
    case Finished
    then show ?thesis using inv by (simp add: hist_turn_def)
  qed
qed

end

subsection \<open>Every thread returns\<close>

fun turns_left :: "nat \<Rightarrow> upd_pc \<Rightarrow> nat" where
  "turns_left n (Loop i) = 2 * (n - i) + 1"
| "turns_left n (Counting i) = 2 * (n - (i + 1)) + 2"
| "turns_left n Finished = 0"

lemma turns_left_0: "turns_left n p = 0 \<longleftrightarrow> p = Finished"
  by (cases p) auto

lemma turns_left_turn:
  assumes "hist_turn nt tsize j rand w s = Inr s'"
  shows "turns_left (share_of j v) (at_pc s' v) + (if v = w \<and> at_pc s w \<noteq> Finished then 1 else 0)
    \<le> turns_left (share_of j v) (at_pc s v)"
proof (cases "at_pc s w")
  case (Loop i)
  then show ?thesis
    using assms by (cases "i < share_of j w") (auto simp: hist_turn_def Let_def res_simps split: if_splits)
next
  case (Counting i)
  then show ?thesis using assms by (auto simp: hist_turn_def Let_def)
qed (use assms in \<open>simp add: hist_turn_def\<close>)

lemma turns_left_run:
  assumes "for_each schedule (hist_turn nt tsize j rand) s = Inr s'"
  shows "turns_left (share_of j v) (at_pc s' v) \<le> turns_left (share_of j v) (at_pc s v) - count_list schedule v"
  using assms
proof (induction schedule arbitrary: s)
  case (Cons w ws)
  then obtain s1 where s1: "hist_turn nt tsize j rand w s = Inr s1" "for_each ws (hist_turn nt tsize j rand) s1 = Inr s'"
    by (auto simp: res_simps)
  have "turns_left (share_of j v) (at_pc s1 v) \<le> turns_left (share_of j v) (at_pc s v) - (if v = w then 1 else 0)"
    using turns_left_turn[OF s1(1), of v] turns_left_0[of "share_of j v" "at_pc s v"] by (auto split: if_splits)
  then show ?case using Cons.IH[OF s1(2)] by (auto split: if_splits)
qed simp

context exact_counter begin

lemma validation_succeeds:
  assumes j: "hist_jobs max_block s = Inr j" "all_updates j = total_updates s" and few: "total_updates s < bound"
    and dr: "draws_ok (table_size s) j rand" and scope: "\<And>w. \<not> racing j w" and init: "gpu0 < W64" "cpu0 < W64"
    and turns: "\<forall>w<hist_threads j. 2 * total_updates s + 1 \<le> count_list schedule w"
  shows "hist_validation nt max_block rand schedule gpu0 cpu0 s = Inr (Some True)"
proof -
  let ?run = "for_each schedule (hist_turn nt (table_size s) j rand) (hist_start nt (table_size s) j gpu0 cpu0)"
  have "wp (\<lambda>_. False) (hist_inv (table_size s) j gpu0 cpu0) ?run"
    by (rule wp_for_each[where I = "\<lambda>_. hist_inv (table_size s) j gpu0 cpu0"])
      (use hist_inv_start[OF init] hist_inv_turn[OF _ _ dr scope, of gpu0 cpu0] j(2) few in \<open>auto simp: wp_total\<close>)
  then obtain h where h: "?run = Inr h" "hist_inv (table_size s) j gpu0 cpu0 h" by (auto simp: wp_total)
  have fin: "at_pc h w = Finished" if w: "w < hist_threads j" for w
  proof -
    have "share_of j w \<le> all_updates j" unfolding all_updates_def using w by (intro member_le_sum) simp_all
    moreover have "turns_left (share_of j w) (at_pc (hist_start nt (table_size s) j gpu0 cpu0) w) = 2 * share_of j w + 1"
      using w by (simp add: hist_start_def hist_threads_def)
    moreover have "2 * total_updates s + 1 \<le> count_list schedule w" using turns w by blast
    ultimately have "turns_left (share_of j w) (at_pc h w) = 0"
      using turns_left_run[OF h(1), of w] j(2) by simp
    then show ?thesis by (simp only: turns_left_0)
  qed
  have "updates_done j h = total_updates s"
    unfolding updates_done_def j(2)[symmetric] all_updates_def by (rule sum.cong) (simp_all add: fin)
  then have T: "table_total (cells h) = total_updates s" "length (cells h) = table_size s"
    using h(2) by (simp_all add: hist_inv_def)
  then obtain sum where "hist_sum nt (table_size s) (cells h) = Inr sum" "val sum = total_updates s"
    using hist_sum_exact[of "cells h" "table_size s"] few by auto
  then show ?thesis
    using j(1) h(1) fin by (simp add: hist_validation_def hist_threads_def val_equals)
qed

end

definition word_cells :: "'w::len word num_type" where
  "word_cells = \<lparr>nt_zero = 0, nt_inc = (\<lambda>x. x + 1), nt_add = (+), nt_equals = (\<lambda>x n. unat x = n)\<rparr>"

interpretation words: exact_counter "word_cells :: 'w::len word num_type" unat "2 ^ LENGTH('w)"
proof unfold_locales
  fix x y :: "'w word"
  show "unat x + 1 < 2 ^ LENGTH('w) \<Longrightarrow> unat (nt_inc word_cells x) = unat x + 1"
    by (simp add: word_cells_def unat_word_ariths)
  show "unat x + unat y < 2 ^ LENGTH('w) \<Longrightarrow> unat (nt_add word_cells x y) = unat x + unat y"
    by (simp add: word_cells_def unat_word_ariths)
qed (simp_all add: word_cells_def)

subsection \<open>The number of updates\<close>

lemma halves:
  fixes c g k :: nat
  assumes "0 < c" and "0 < g"
  shows "g * (2 * lcm c g * k div g div 2) + c * (2 * lcm c g * k div c div 2) = 2 * lcm c g * k"
proof -
  obtain a b where ab: "lcm c g = g * a" "lcm c g = c * b"
    by (metis dvdE dvd_lcm1 dvd_lcm2)
  have "2 * lcm c g * k div g div 2 = a * k" using assms by (simp add: ab(1) mult.assoc mult.left_commute[of 2])
  moreover have "2 * lcm c g * k div c div 2 = b * k" using assms by (simp add: ab(2) mult.assoc mult.left_commute[of 2])
  ultimately show ?thesis using ab by (simp add: mult.assoc[symmetric])
qed

lemma rounded_up:
  fixes t u :: nat
  assumes "0 < u"
  shows "t \<le> (t + u - 1) div u * u" and "(t + u - 1) div u * u < t + u"
proof -
  define q where "q = (t + u - 1) div u"
  define r where "r = (t + u - 1) mod u"
  have "t + u - 1 = q * u + r" "r < u" using assms by (simp_all add: q_def r_def)
  then show "t \<le> (t + u - 1) div u * u" "(t + u - 1) div u * u < t + u"
    unfolding q_def[symmetric] using assms by linarith+
qed

lemma round_total_eq:
  assumes "round_unit s = Inr u" and "0 < u" and "0 < total_updates s" and "total_updates s + u < W64"
  shows "round_total s = Inr (s\<lparr>total_updates := (total_updates s + u - 1) div u * u\<rparr>)"
proof -
  have "(total_updates s + u - 1) div u * u < W64" using rounded_up(2)[OF assms(2), of "total_updates s"] assms(4) by simp
  moreover have "sub64 (total_updates s + u) 1 = total_updates s + u - 1"
    using assms(2,4) by (intro sub64_exact) simp_all
  ultimately show ?thesis
    using assms by (simp add: round_total_def add64_exact mul64_exact)
qed

text \<open>Settings whose numbers of threads are not negative and whose launch the runtime accepts.\<close>

definition threads_ok :: "nat \<Rightarrow> hist_spec \<Rightarrow> bool" where
  "threads_ok max_block s \<longleftrightarrow>
     0 \<le> threads_cpu s \<and> threads_cpu s < 2 ^ 31 \<and> 0 \<le> threads_gpu s \<and> threads_gpu s < 2 ^ 31 \<and>
     (threads_cpu s \<noteq> 0 \<or> threads_gpu s \<noteq> 0) \<and>
     (threads_gpu s \<noteq> 0 \<longrightarrow> 0 < tpb s \<and> tpb s dvd threads_gpu s \<and> tpb s \<le> int max_block)"

lemma threads_ok_nat:
  assumes "threads_ok max_block s"
  obtains c g where "threads_cpu s = int c" "threads_gpu s = int g" "c < 2 ^ 31" "g < 2 ^ 31" "0 < c \<or> 0 < g"
proof -
  obtain c g where "threads_cpu s = int c" "threads_gpu s = int g"
    using assms zero_le_imp_eq_int by (metis threads_ok_def)
  then show ?thesis using assms that[of c g] by (auto simp: threads_ok_def)
qed

lemma round_unit_pos:
  assumes "threads_ok max_block s" and "round_unit s = Inr u"
  shows "0 < u"
proof -
  obtain c g where cg: "threads_cpu s = int c" "threads_gpu s = int g" "c < 2 ^ 31" "g < 2 ^ 31" "0 < c \<or> 0 < g"
    by (rule threads_ok_nat[OF assms(1)])
  show ?thesis
    using assms(2) cg lcm_pos_nat[of c g]
    by (auto simp: round_unit_def Let_def size_of_int_eq lcm_int_int_eq split: if_splits)
qed

lemma hist_jobs_total:
  assumes ok: "threads_ok max_block s" and u: "round_unit s = Inr u" and t: "total_updates s = u * k" "0 < k"
  shows "\<exists>j. hist_jobs max_block s = Inr j \<and> all_updates j = total_updates s \<and>
    nr_gpu j = nat (threads_gpu s) \<and> nr_cpu j = nat (threads_cpu s) \<and> device_scope j = (\<not> system_wide s)"
proof -
  obtain c g where cg: "threads_cpu s = int c" "threads_gpu s = int g" "c < 2 ^ 31" "g < 2 ^ 31" "0 < c \<or> 0 < g"
    by (rule threads_ok_nat[OF ok])
  have sz: "size_of_int (int c) = c" "size_of_int (int g) = g" using cg(3,4) by (simp_all add: size_of_int_eq)
  have pos: "0 < total_updates s" using t round_unit_pos[OF ok u] by simp
  have launch: "threads_gpu s sdiv tpb s * tpb s = threads_gpu s \<and> tpb s \<noteq> 0 \<and> tpb s \<le> int max_block" if "0 < g"
  proof -
    have b: "0 < tpb s" "tpb s dvd threads_gpu s" "tpb s \<le> int max_block"
      using ok that cg(2) by (auto simp: threads_ok_def)
    then have "threads_gpu s sdiv tpb s = threads_gpu s div tpb s"
      using cg(2) by (simp add: signed_divide_int_def sgn_if)
    then show ?thesis using b by simp
  qed
  consider "0 < c" "0 < g" | "c = 0" "0 < g" | "0 < c" "g = 0" using cg(5) by auto
  then show ?thesis
  proof cases
    case 1
    then have "total_updates s = 2 * lcm c g * k"
      using u t by (auto simp: round_unit_def Let_def cg(1,2) lcm_int_int_eq nat_mult_distrib split: if_splits)
    then show ?thesis
      using 1 launch pos halves[of c g k] cg by (simp add: hist_jobs_def Let_def all_updates_eq sz)
  next
    case 2
    then have "total_updates s = g * k"
      using u t by (simp add: round_unit_def Let_def cg sz)
    then show ?thesis
      using 2 launch pos cg by (simp add: hist_jobs_def Let_def all_updates_eq sz)
  next
    case 3
    then have "total_updates s = c * k"
      using u t by (simp add: round_unit_def Let_def cg sz)
    then show ?thesis
      using 3 pos cg by (simp add: hist_jobs_def Let_def all_updates_eq sz)
  qed
qed

subsection \<open>Validation\<close>

text \<open>C33: A validation run of the atomics benchmark on cells of n bits succeeds under every
  schedule that gives each thread enough turns, when the number of updates plus the unit to
  which main rounds it (twice the least common multiple of the numbers of threads, which must
  fit an int, or the number of the only side) is at most 2^n and below 2^64, the numbers of
  threads are not negative and not both 0, the block size divides the GPU threads and is one the
  runtime accepts, and -S is not given together with threads on both sides: the number is
  rounded up, by less than one unit, to one that the threads of both sides share out exactly, no
  atomic addition is lost, and no access leaves the table.\<close>
theorem histo_validates:
  assumes "threads_ok max_block s0" and "round_unit s0 = Inr u" and "0 < total_updates s0"
    and "total_updates s0 + u < W64" and "0 < table_size s0"
    and "\<forall>w i. nat (threads_gpu s0) \<le> w \<longrightarrow> rand w i < table_size s0"
    and "\<forall>w<nat (threads_gpu s0) + nat (threads_cpu s0). 2 * (total_updates s0 + u) \<le> count_list schedule w"
    and "total_updates s0 + u \<le> 2 ^ LENGTH('w::len)" and "gpu0 < W64" and "cpu0 < W64"
    and "system_wide s0 \<or> threads_cpu s0 = 0 \<or> threads_gpu s0 = 0"
  shows "\<exists>s. round_total s0 = Inr s \<and> total_updates s0 \<le> total_updates s \<and> total_updates s < total_updates s0 + u \<and>
    hist_validation (word_cells :: 'w word num_type) max_block rand schedule gpu0 cpu0 s = Inr (Some True)"
proof -
  define k where "k = (total_updates s0 + u - 1) div u"
  define s where "s = s0\<lparr>total_updates := u * k\<rparr>"
  have u: "0 < u" by (rule round_unit_pos[OF assms(1,2)])
  have R: "round_total s0 = Inr s"
    using round_total_eq[OF assms(2) u assms(3,4)] by (simp add: s_def k_def mult.commute)
  have le: "total_updates s0 \<le> total_updates s" "total_updates s < total_updates s0 + u"
    using rounded_up[OF u, of "total_updates s0"] by (simp_all add: s_def k_def mult.commute)
  then have k: "0 < k" using assms(3) by (cases k) (simp_all add: s_def)
  have "threads_ok max_block s" "round_unit s = Inr u"
    using assms(1,2) by (simp_all add: s_def threads_ok_def round_unit_def)
  then obtain j where j: "hist_jobs max_block s = Inr j" "all_updates j = total_updates s"
    "nr_gpu j = nat (threads_gpu s)" "nr_cpu j = nat (threads_cpu s)" "device_scope j = (\<not> system_wide s)"
    using hist_jobs_total[of max_block s u k] k by (auto simp: s_def)
  have scope: "\<not> racing j w" for w using assms(11) j(3-5) by (auto simp: racing_def s_def)
  have "draws_ok (table_size s) j rand" using assms(5,6) j(3) by (simp add: draws_ok_def s_def)
  moreover have "\<forall>w<hist_threads j. 2 * total_updates s + 1 \<le> count_list schedule w"
    using assms(7) j(3,4) le(2) by (fastforce simp: hist_threads_def s_def)
  moreover have "total_updates s < 2 ^ LENGTH('w)" using le(2) assms(8) by simp
  ultimately have "hist_validation (word_cells :: 'w word num_type) max_block rand schedule gpu0 cpu0 s = Inr (Some True)"
    using words.validation_succeeds[OF j(1,2) _ _ scope assms(9,10)] by blast
  then show ?thesis using R le by blast
qed

text \<open>With 32-bit cells and at least 2 to the 32 updates the validation fails, whatever the threads
  do: the sum has 32 bits and is compared with a number of 64.\<close>
theorem histo_u32_never_validates:
  assumes "2 ^ LENGTH('w) \<le> total_updates s"
    and "hist_validation (word_cells :: 'w::len word num_type) max_block rand schedule gpu0 cpu0 s = Inr (Some ok)"
  shows "\<not> ok"
proof -
  have "unat (x :: 'w word) \<noteq> total_updates s" for x
  proof -
    have "unat x < 2 ^ LENGTH('w)" by (rule unsigned_less)
    then show ?thesis using assms(1) by linarith
  qed
  then show ?thesis using assms(2) by (auto simp: hist_validation_def res_simps word_cells_def split: if_splits)
qed

subsection \<open>Examples\<close>

definition small_spec :: hist_spec where
  "small_spec = hist_default\<lparr>table_size := 3, total_updates := 3, threads_cpu := 2, threads_gpu := 2\<rparr>"

lemma count_rounds: "count_list (concat (replicate k xs)) x = k * count_list xs x"
  by (induction k) simp_all

theorem histo_validates_witness:
  "\<exists>s. round_total small_spec = Inr s \<and> 3 \<le> total_updates s \<and> total_updates s < 3 + 4 \<and>
    hist_validation (word_cells :: 32 word num_type) 1024 (\<lambda>w i. (w + i) mod 3) (concat (replicate 14 [0, 1, 2, 3])) 0 0 s =
      Inr (Some True)"
proof -
  have "\<forall>w<2 + 2. 2 * (3 + 4) \<le> count_list (concat (replicate 14 [0, 1, 2, 3])) (w :: nat)"
    by (auto simp: count_rounds less_Suc_eq numeral_eq_Suc)
  then show ?thesis
    using histo_validates[where ?'w = 32, of 1024 small_spec 4 "\<lambda>w i. (w + i) mod 3" "concat (replicate 14 [0, 1, 2, 3])" 0 0]
    by (simp add: small_spec_def hist_default_def threads_ok_def round_unit_def lcm_int_int_eq W64_def)
qed

theorem histo_u32_never_validates_witness:
  "hist_validation (word_cells :: 1 word num_type) 1024 (\<lambda>w i. 0) [0, 0, 0, 0] 0 0
     (hist_default\<lparr>table_size := 1, total_updates := 2, threads_cpu := 1\<rparr>) = Inr (Some False)"
proof -
  have "\<exists>ok. hist_validation (word_cells :: 1 word num_type) 1024 (\<lambda>w i. 0) [0, 0, 0, 0] 0 0
     (hist_default\<lparr>table_size := 1, total_updates := 2, threads_cpu := 1\<rparr>) = Inr (Some ok)"
    by (intro exI[of _ False]) (simp add: hist_validation_def hist_jobs_def hist_default_def size_of_int_def hist_turn_def racing_def hist_start_def
        share_of_def GRANUL_def hist_sum_def word_cells_def)
  then obtain ok where ok: "hist_validation (word_cells :: 1 word num_type) 1024 (\<lambda>w i. 0) [0, 0, 0, 0] 0 0
     (hist_default\<lparr>table_size := 1, total_updates := 2, threads_cpu := 1\<rparr>) = Inr (Some ok)" by blast
  have "\<not> ok" by (rule histo_u32_never_validates[OF _ ok]) simp
  then show ?thesis using ok by simp
qed

end
