(* ===== verification/Fault.thy ===== *)
theory Fault
  imports Parallel_Loops Util
begin

text \<open>
  \<open>fault.hip\<close> of \<open>src/fault\<close>: it maps pages and times a kernel that writes one element in every
  \<open>stride\<close> of them, on the GPU, on one cpu or on all. The kernels are modelled on the array, the test
  as the sequence of its actions; the answers of the kernel and of HIP are a parameter. That HIP
  supports only launches of fewer than \<open>2 ^ 32\<close> work items, which excludes the largest launch of the
  theorems below, is not modelled.
\<close>

subsection \<open>Options\<close>

record fault_spec =
  pages :: nat
  stride :: nat
  gpu_register :: bool
  gpu_map :: bool
  mlock_pages :: bool
  unmap :: bool
  touch :: bool
  gpu_touch :: bool
  cpu_kernel :: bool
  omp_kernel :: bool
  fork_child :: bool

definition fault_default :: "nat \<Rightarrow> fault_spec" where
  "fault_default ps =
     \<lparr>pages = 1, stride = ps div 4, gpu_register = False, gpu_map = False, mlock_pages = False, unmap = True,
      touch = False, gpu_touch = False, cpu_kernel = False, omp_kernel = False, fork_child = False\<rparr>"

definition fault_set_option :: "char \<times> string \<Rightarrow> fault_spec \<Rightarrow> fault_spec res" where
  "fault_set_option opt s =
     (let (c, optarg) = opt in
      if c = CHR ''n'' then Inr (s\<lparr>pages := size_of_int (atoi optarg)\<rparr>)
      else if c = CHR ''s'' then Inr (s\<lparr>stride := size_of_int (atoi optarg)\<rparr>)
      else if c = CHR ''r'' then Inr (s\<lparr>gpu_register := True\<rparr>)
      else if c = CHR ''m'' then Inr (s\<lparr>gpu_map := True\<rparr>)
      else if c = CHR ''l'' then Inr (s\<lparr>mlock_pages := True\<rparr>)
      else if c = CHR ''u'' then Inr (s\<lparr>unmap := False\<rparr>)
      else if c = CHR ''t'' then Inr (s\<lparr>touch := True\<rparr>)
      else if c = CHR ''T'' then Inr (s\<lparr>gpu_touch := True\<rparr>)
      else if c = CHR ''c'' then Inr (s\<lparr>cpu_kernel := True\<rparr>)
      else if c = CHR ''o'' then Inr (s\<lparr>omp_kernel := True\<rparr>)
      else if c = CHR ''f'' then Inr (s\<lparr>fork_child := True\<rparr>)
      else Inl (Exit 1))"

definition fault_settings :: "nat \<Rightarrow> (char \<times> string) list \<Rightarrow> fault_spec res" where
  "fault_settings ps opts =
     rbind (for_each opts fault_set_option (fault_default ps)) (\<lambda>s.
     if cpu_kernel s \<and> omp_kernel s then Inl AssertFail else Inr s)"

subsection \<open>Kernels\<close>

text \<open>\<open>conv\<close> converts a \<open>size_t\<close> to a float.\<close>

definition kernel_gpu :: "(nat \<Rightarrow> 'f) \<Rightarrow> nat \<Rightarrow> nat \<Rightarrow> nat \<Rightarrow> nat \<Rightarrow> 'f list \<Rightarrow> 'f list res" where
  "kernel_gpu conv block_dim n step k a =
     (let i = mul64 (thread_number block_dim k) step in
      if n \<le> i then Inr a else arr_set a i (conv i))"

text \<open>None when the loop does not end.\<close>

partial_function (option) touch_loop :: "(nat \<Rightarrow> 'f) \<Rightarrow> nat \<Rightarrow> nat \<Rightarrow> nat \<Rightarrow> 'f list \<Rightarrow> 'f list res option" where
  "touch_loop conv n step i a =
     (if i < n then
        (case arr_set a i (conv i) of
           Inl e \<Rightarrow> Some (Inl e)
         | Inr a \<Rightarrow> touch_loop conv n step (add64 i step) a)
      else Some (Inr a))"

definition kernel_cpu :: "(nat \<Rightarrow> 'f) \<Rightarrow> nat \<Rightarrow> nat \<Rightarrow> 'f list \<Rightarrow> 'f list res option" where
  "kernel_cpu conv n step a = touch_loop conv n step 0 a"

text \<open>The iterations of the parallel loop, in any order: iteration \<open>j\<close> has \<open>id = j * stride\<close>.\<close>

definition strides :: "nat \<Rightarrow> nat \<Rightarrow> nat" where
  "strides n step = (n + step - 1) div step"

definition kernel_omp :: "(nat \<Rightarrow> 'f) \<Rightarrow> nat \<Rightarrow> nat \<Rightarrow> (nat \<Rightarrow> nat list) \<Rightarrow> 'f list \<Rightarrow> 'f list res" where
  "kernel_omp conv n step order a =
     for_each (order (strides n step)) (\<lambda>j a. arr_set a (j * step) (conv (j * step))) a"

subsection \<open>test\<close>

definition FAULT_TPB :: nat where
  "FAULT_TPB = 256"

definition fault_threads :: "nat \<Rightarrow> nat \<Rightarrow> nat res" where
  "fault_threads n step =
     rbind (div64 (sub64 (add64 n step) 1) step) (\<lambda>threads.
     if 0 < threads then Inr threads else Inl AssertFail)"

definition fault_blocks :: "nat \<Rightarrow> nat" where
  "fault_blocks threads = sub64 (add64 threads FAULT_TPB) 1 div FAULT_TPB mod 2 ^ 32"

definition launch_gpu :: "(nat \<Rightarrow> 'f) \<Rightarrow> nat \<Rightarrow> nat \<Rightarrow> nat \<Rightarrow> (nat \<Rightarrow> nat list) \<Rightarrow> 'f list \<Rightarrow> 'f list res" where
  "launch_gpu conv n step blocks order a =
     for_each (order (blocks * FAULT_TPB)) (kernel_gpu conv FAULT_TPB n step) a"

text \<open>The actions of a test in the order of the code; the address of the pages is a number.\<close>

datatype fault_action =
  Mmap bool nat | Fork | Child_mlock nat | Mlock nat | Touch | Host_register bool nat | Device_pointer
| Gpu_kernel | Omp_kernel | Cpu_kernel | Flush_cache | Read_clock | Kill_child | Munmap nat

text \<open>
  \<open>works\<close> says which actions succeed; the others end the program in \<open>CHECK\<close>. The result is the array
  and the actions; None when the loop of the cpu does not end. \<open>order\<close> is the order of the threads and
  iterations, \<open>mem0\<close> the contents of the fresh pages.
\<close>

definition act :: "(fault_action \<Rightarrow> bool) \<Rightarrow> bool \<Rightarrow> fault_action \<Rightarrow> fault_action list \<Rightarrow> fault_action list res" where
  "act works cond x done_so_far =
     (if \<not> cond then Inr done_so_far else if works x then Inr (done_so_far @ [x]) else Inl AssertFail)"

definition fault_prepare ::
    "(fault_action \<Rightarrow> bool) \<Rightarrow> nat \<Rightarrow> fault_spec \<Rightarrow> fault_action list res" where
  "fault_prepare works bytes s =
     rbind (act works True (Mmap (fork_child s) bytes) []) (\<lambda>t.
     rbind (act works (fork_child s) Fork t) (\<lambda>t.
     rbind (act works (fork_child s) (Child_mlock bytes) t) (\<lambda>t.
     rbind (act works (mlock_pages s) (Mlock bytes) t) (\<lambda>t.
     rbind (act works (touch s) Touch t) (\<lambda>t.
     rbind (act works (gpu_map s \<or> gpu_register s) (Host_register (gpu_map s) bytes) t) (\<lambda>t.
     act works (gpu_map s) Device_pointer t))))))"

definition fault_test ::
    "(nat \<Rightarrow> 'f) \<Rightarrow> (fault_action \<Rightarrow> bool) \<Rightarrow> (nat \<Rightarrow> nat list) \<Rightarrow> nat \<Rightarrow> fault_spec \<Rightarrow> 'f list \<Rightarrow>
     ('f list \<times> fault_action list) res option" where
  "fault_test conv works order ps s mem0 =
     (let bytes = mul64 ps (pages s); n = bytes div 4; step = stride s in
      case rbind (fault_prepare works bytes s) (\<lambda>t.
           let a = (if touch s then map (\<lambda>_. conv 0) mem0 else mem0) in
           rbind (fault_threads n step) (\<lambda>threads.
           rbind (if gpu_touch s then launch_gpu conv n step (fault_blocks threads) order a else Inr a) (\<lambda>a.
           rbind (act works (gpu_touch s) Gpu_kernel t) (\<lambda>t.
           Inr (threads, a, t @ [Flush_cache, Read_clock]))))) of
        Inl e \<Rightarrow> Some (Inl e)
      | Inr (threads, a, t) \<Rightarrow>
          (case (if omp_kernel s then Some (kernel_omp conv n step order a)
                 else if cpu_kernel s then kernel_cpu conv n step a
                 else Some (launch_gpu conv n step (fault_blocks threads) order a)) of
             None \<Rightarrow> None
           | Some r \<Rightarrow> Some
               (rbind r (\<lambda>a.
                rbind (act works True (if omp_kernel s then Omp_kernel else if cpu_kernel s then Cpu_kernel else Gpu_kernel) t) (\<lambda>t.
                rbind (act works (fork_child s) Kill_child (t @ [Read_clock])) (\<lambda>t.
                rbind (act works (unmap s) (Munmap bytes) t) (\<lambda>t. Inr (a, t))))))))"

subsection \<open>The elements written\<close>

lemma strides_iff:
  assumes "0 < step"
  shows "k < strides n step \<longleftrightarrow> k * step < n"
proof -
  define q where "q = (n + step - 1) div step"
  define r where "r = (n + step - 1) mod step"
  have qr: "n + step - 1 = q * step + r" "r < step" using assms by (simp_all add: q_def r_def)
  show ?thesis
  proof
    assume "k < strides n step"
    then have "k + 1 \<le> q" by (simp add: strides_def q_def)
    then have "(k + 1) * step \<le> q * step" by (rule mult_le_mono1)
    then show "k * step < n" using qr assms by simp
  next
    assume "k * step < n"
    show "k < strides n step"
    proof (rule ccontr)
      assume "\<not> k < strides n step"
      then have "q \<le> k" by (simp add: strides_def q_def)
      then have "q * step \<le> k * step" by (rule mult_le_mono1)
      then show False using qr \<open>k * step < n\<close> by linarith
    qed
  qed
qed

definition strided :: "(nat \<Rightarrow> 'f) \<Rightarrow> nat \<Rightarrow> 'f list \<Rightarrow> 'f list" where
  "strided conv step a = map (\<lambda>i. if step dvd i then conv i else a ! i) [0..<length a]"

abbreviation every :: "nat \<Rightarrow> 'f list \<Rightarrow> (nat \<Rightarrow> 'f) \<Rightarrow> 'f list" where
  "every step a C \<equiv> map (\<lambda>i. if step dvd i then C (i div step) else a ! i) [0..<length a]"

lemma every_update:
  assumes "0 < step" and "k * step < length a"
  shows "(every step a C)[k * step := x] = every step a (C(k := x))"
proof (rule nth_equalityI)
  fix i assume "i < length ((every step a C)[k * step := x])"
  then have i: "i < length a" by simp
  have "step dvd i \<Longrightarrow> i div step = k \<longleftrightarrow> i = k * step" using assms(1) by auto
  then show "(every step a C)[k * step := x] ! i = every step a (C(k := x)) ! i"
    using i assms by (auto simp: nth_list_update)
qed simp

lemma every_same:
  assumes "0 < step" and "\<And>j. j < strides (length a) step \<Longrightarrow> C j = D j"
  shows "every step a C = every step a D"
proof (rule map_cong[OF refl])
  fix i assume "i \<in> set [0..<length a]"
  then have i: "i < length a" by simp
  have "C (i div step) = D (i div step)"
    using i by (intro assms(2)) (simp add: strides_iff[OF assms(1)] div_mult2_eq less_eq_div_iff_mult_less_eq le_less_trans[OF div_times_less_eq_dividend])
  then show "(if step dvd i then C (i div step) else a ! i) = (if step dvd i then D (i div step) else a ! i)" by simp
qed

lemma every_start: "0 < step \<Longrightarrow> every step a (\<lambda>j. a ! (j * step)) = a"
  by (rule nth_equalityI) auto

lemma every_end: "0 < step \<Longrightarrow> every step a (\<lambda>j. conv (j * step)) = strided conv step a"
  by (simp add: strided_def)

lemma strided_loop:
  assumes "0 < step"
  shows "parallel_for (strides (length a) step) (\<lambda>j a. arr_set a (j * step) (conv (j * step))) (every step a) (\<lambda>j _. conv (j * step))"
proof (unfold_locales, goal_cases)
  case (1 j C)
  then have "j * step < length a" using strides_iff[OF assms] by simp
  then show ?case using every_update[OF assms] by simp
next
  case (2 C D)
  then show ?case by (rule every_same[OF assms])
qed

lemma kernel_gpu_launch:
  assumes "0 < step" and "step < 2 ^ 31" and "strides (length a) step \<le> 2 ^ 32"
  shows "kernel_launch (strides (length a) step) (2 ^ 32) (kernel_gpu conv b (length a) step) (every step a) (\<lambda>j _. conv (j * step))"
proof -
  have mul: "mul64 k step = k * step" if "k < 2 ^ 32" for k
  proof -
    have "k * step < 2 ^ 32 * 2 ^ 31" using that assms(2) by (intro mult_strict_mono) simp_all
    also have "\<dots> < W64" by (simp add: W64_def)
    finally show ?thesis by (rule mul64_exact)
  qed
  show ?thesis
  proof (unfold_locales, goal_cases)
    case (1 k C)
    from 1 have k: "k * step < length a" using strides_iff[OF assms(1)] by simp
    have "k < 2 ^ 32" using 1 assms(3) by linarith
    then show ?case using k every_update[OF assms(1) k, of C "conv (k * step)"]
      by (simp only: kernel_gpu_def thread_number_eq mul Let_def) simp
  next
    case (2 k C)
    then have "k < 2 ^ 32" "length a \<le> k * step" using strides_iff[OF assms(1), of k "length a"] by simp_all
    then show ?case by (simp only: kernel_gpu_def thread_number_eq mul Let_def) simp
  next
    case (3 C D)
    then show ?case by (rule every_same[OF assms(1)])
  qed (use assms(3) in simp)
qed

lemma kernel_omp_strided:
  assumes "0 < step" and "\<forall>t. mset (order t) = mset [0..<t]"
  shows "kernel_omp conv (length a) step order a = Inr (strided conv step a)"
  using parallel_for.any_order[OF strided_loop[OF assms(1), of a conv] assms(2)[rule_format], of "\<lambda>j. a ! (j * step)"]
  unfolding every_start[OF assms(1)] every_end[OF assms(1)] by (simp add: kernel_omp_def)

lemma kernel_cpu_loop:
  assumes "0 < step" and "length a + step < W64"
  shows "kernel_cpu conv (length a) step a = Some (kernel_omp conv (length a) step (\<lambda>t. [0..<t]) a)"
proof -
  let ?T = "strides (length a) step"
  have "touch_loop conv (length a) step (j * step) b =
      Some (for_each [j..<?T] (\<lambda>j a. arr_set a (j * step) (conv (j * step))) b)"
    if "length b = length a" "j \<le> ?T" for j b
    using that
  proof (induction "?T - j" arbitrary: j b)
    case 0
    then have "\<not> j * step < length a" using strides_iff[OF assms(1), of j "length a"] by simp
    then show ?case using 0 by (subst touch_loop.simps) simp
  next
    case (Suc d)
    then have j: "j < ?T" by simp
    then have lt: "j * step < length a" using strides_iff[OF assms(1)] by simp
    then have "add64 (j * step) step = Suc j * step" using assms(2) by (simp add: add64_exact)
    moreover have "touch_loop conv (length a) step (Suc j * step) (b[j * step := conv (j * step)]) =
        Some (for_each [Suc j..<?T] (\<lambda>j a. arr_set a (j * step) (conv (j * step))) (b[j * step := conv (j * step)]))"
      using Suc.hyps(2) Suc.prems j by (intro Suc.hyps(1)) simp_all
    ultimately show ?case
      using lt j Suc.prems by (subst touch_loop.simps) (simp add: upt_conv_Cons del: mult_Suc)
  qed
  from this[of a 0] show ?thesis by (simp add: kernel_cpu_def kernel_omp_def)
qed

lemma fault_threads_eq:
  assumes "0 < n" and "0 < step" and "n + step < W64"
  shows "fault_threads n step = Inr (strides n step)"
proof -
  have "sub64 (add64 n step) 1 = n + step - 1" using assms by (simp add: add64_exact sub64_exact)
  moreover have "0 < strides n step" using strides_iff[OF assms(2), of 0 n] assms(1) by simp
  ultimately show ?thesis using assms by (simp add: fault_threads_def strides_def)
qed

lemma fault_blocks_enough:
  assumes "t \<le> 2 ^ 32"
  shows "t \<le> fault_blocks t * FAULT_TPB" and "fault_blocks t * FAULT_TPB \<le> 2 ^ 32"
proof -
  define q where "q = (t + 255) div 256"
  define r where "r = (t + 255) mod 256"
  have qr: "t + 255 = q * 256 + r" "r < 256" by (simp_all add: q_def r_def)
  have "sub64 (add64 t FAULT_TPB) 1 = t + 255"
    using assms by (simp add: FAULT_TPB_def add64_exact sub64_exact W64_def)
  then have "fault_blocks t = q mod 2 ^ 32" by (simp add: fault_blocks_def FAULT_TPB_def q_def)
  moreover have "q < 2 ^ 32" using qr assms by simp
  ultimately have "fault_blocks t = q" by simp
  then show "t \<le> fault_blocks t * FAULT_TPB" "fault_blocks t * FAULT_TPB \<le> 2 ^ 32"
    using qr assms by (simp_all add: FAULT_TPB_def)
qed

lemma launch_gpu_strided:
  assumes "0 < step" and "step < 2 ^ 31" and "strides (length a) step \<le> 2 ^ 32" and "\<forall>t. mset (order t) = mset [0..<t]"
  shows "launch_gpu conv (length a) step (fault_blocks (strides (length a) step)) order a = Inr (strided conv step a)"
  using kernel_launch.launch[OF kernel_gpu_launch[OF assms(1-3), of conv FAULT_TPB] assms(4)[rule_format]
      fault_blocks_enough[OF assms(3)], of "\<lambda>j. a ! (j * step)"]
  unfolding every_start[OF assms(1)] every_end[OF assms(1)] by (simp add: launch_gpu_def)

text \<open>C34: The three kernels of the page fault benchmark do the same, in any order of the
  threads and iterations: they return, write every stride-th element, and leave the others,
  provided the GPU has no more than 2 to the 32 elements to write.\<close>
theorem fault_kernels_agree:
  assumes "a \<noteq> []" and "0 < step" and "step < 2 ^ 31" and "length a < 2 ^ 63" and "strides (length a) step \<le> 2 ^ 32"
    and "\<forall>t. mset (order t) = mset [0..<t]"
  shows "kernel_cpu conv (length a) step a = Some (Inr (strided conv step a)) \<and>
    kernel_omp conv (length a) step order a = Inr (strided conv step a) \<and>
    (\<exists>threads. fault_threads (length a) step = Inr threads \<and>
      launch_gpu conv (length a) step (fault_blocks threads) order a = Inr (strided conv step a))"
proof -
  have W: "length a + step < W64" using assms(3,4) by (simp add: W64_def)
  have "kernel_omp conv (length a) step (\<lambda>t. [0..<t]) a = Inr (strided conv step a)"
    by (rule kernel_omp_strided[OF assms(2)]) simp
  then have "kernel_cpu conv (length a) step a = Some (Inr (strided conv step a))"
    using kernel_cpu_loop[OF assms(2) W, of conv] by simp
  moreover have "fault_threads (length a) step = Inr (strides (length a) step)"
    using assms(1,2) W by (intro fault_threads_eq) simp_all
  ultimately show ?thesis
    using kernel_omp_strided[OF assms(2,6)] launch_gpu_strided[OF assms(2,3,5,6)] by blast
qed

text \<open>Elements beyond 2 to the 32 strides are not written by the GPU, whatever the launch: the
  number of a thread has 32 bits. The kernel of the cpu writes them.\<close>
theorem fault_gpu_misses:
  assumes "launch_gpu conv (length a) step blocks order a = Inr a'" and "0 < step" and "step < 2 ^ 31"
    and "length a < 2 ^ 63" and "2 ^ 32 * step \<le> i" and "i < length a" and "step dvd i"
  shows "a' ! i = a ! i \<and> (\<exists>b. kernel_cpu conv (length a) step a = Some (Inr b) \<and> b ! i = conv i)"
proof -
  have one: "length b' = length b \<and> b' ! i = b ! i" if "kernel_gpu conv FAULT_TPB n step k b = Inr b'" for n k b b'
  proof -
    have "thread_number FAULT_TPB k < 2 ^ 32" by (simp add: thread_number_def)
    have "mul64 (thread_number FAULT_TPB k) step \<le> thread_number FAULT_TPB k * step"
      by (simp add: mul64_def)
    also have "\<dots> \<le> (2 ^ 32 - 1) * step" using \<open>thread_number FAULT_TPB k < 2 ^ 32\<close> by (intro mult_le_mono1) simp
    also have "\<dots> < i" using assms(2,5) by simp
    finally have "mul64 (thread_number FAULT_TPB k) step \<noteq> i" by simp
    then show ?thesis using that by (auto simp: kernel_gpu_def Let_def arr_set_def split: if_splits)
  qed
  have "for_each ks (kernel_gpu conv FAULT_TPB n step) b = Inr a' \<Longrightarrow> length a' = length b \<and> a' ! i = b ! i" for ks n b
  proof (induction ks arbitrary: b)
    case (Cons k ks)
    then obtain b' where "kernel_gpu conv FAULT_TPB n step k b = Inr b'"
      "for_each ks (kernel_gpu conv FAULT_TPB n step) b' = Inr a'"
      by (auto simp: res_simps)
    then show ?case using one[of n k b b'] Cons.IH[of b'] by simp
  qed simp
  then have "a' ! i = a ! i" using assms(1) unfolding launch_gpu_def by blast
  moreover have "kernel_cpu conv (length a) step a = Some (Inr (strided conv step a))"
    using kernel_cpu_loop[OF assms(2), of a conv] kernel_omp_strided[OF assms(2), of "\<lambda>t. [0..<t]" conv a] assms(3,4)
    by (simp add: W64_def)
  ultimately show ?thesis using assms(6,7) by (simp add: strided_def)
qed

subsection \<open>A test\<close>

text \<open>The actions of a test when all of them succeed.\<close>

definition test_actions :: "nat \<Rightarrow> fault_spec \<Rightarrow> fault_action list" where
  "test_actions bytes s =
     [Mmap (fork_child s) bytes] @ (if fork_child s then [Fork, Child_mlock bytes] else []) @
     (if mlock_pages s then [Mlock bytes] else []) @ (if touch s then [Touch] else []) @
     (if gpu_map s \<or> gpu_register s then [Host_register (gpu_map s) bytes] else []) @
     (if gpu_map s then [Device_pointer] else []) @ (if gpu_touch s then [Gpu_kernel] else []) @
     [Flush_cache, Read_clock, if omp_kernel s then Omp_kernel else if cpu_kernel s then Cpu_kernel else Gpu_kernel, Read_clock] @
     (if fork_child s then [Kill_child] else []) @ (if unmap s then [Munmap bytes] else [])"

lemma act_works: "(\<And>x. works x) \<Longrightarrow> act works c x t = Inr (t @ (if c then [x] else []))"
  by (simp add: act_def)

lemma strided_twice: "0 < step \<Longrightarrow> strided conv step (strided conv step a) = strided conv step a"
  by (simp add: strided_def)

lemma strided_length [simp]: "length (strided conv step a) = length a"
  by (simp add: strided_def)

text \<open>A test of the page fault benchmark, when the system grants what it asks for, returns with
  every stride-th element of its pages written, whatever kernel is chosen and in whatever order it
  runs, after the actions its options ask for, in this order: the timed kernel alone between the two
  readings of the clock, a child killed if one was forked, and the pages unmapped unless -u is given.\<close>
theorem fault_test_runs:
  assumes "\<forall>x. works x" and "\<forall>t. mset (order t) = mset [0..<t]"
    and "0 < stride s" and "stride s < 2 ^ 31" and "0 < pages s" and "4 \<le> ps" and "ps * pages s < 2 ^ 62"
    and "strides (ps * pages s div 4) (stride s) \<le> 2 ^ 32" and "length mem0 = ps * pages s div 4"
  shows "fault_test conv works order ps s mem0 =
    Some (Inr (strided conv (stride s) (if touch s then replicate (length mem0) (conv 0) else mem0),
               test_actions (ps * pages s) s))"
proof -
  define n where "n = ps * pages s div 4"
  define a where "a = (if touch s then replicate (length mem0) (conv 0) else mem0)"
  have a: "length a = n" "(if touch s then map (\<lambda>_. conv 0) mem0 else mem0) = a"
    using assms(9) by (simp_all add: a_def n_def map_replicate_const)
  have bytes: "mul64 ps (pages s) = ps * pages s" using assms(7) by (simp add: mul64_exact W64_def)
  have "4 * 1 \<le> ps * pages s" using assms(5,6) by (intro mult_le_mono) simp_all
  then have n: "0 < n" "n < 2 ^ 62" using assms(7) by (auto simp: n_def)
  then have W: "n + stride s < W64" using assms(4) by (simp add: W64_def)
  have T: "fault_threads n (stride s) = Inr (strides n (stride s))" by (rule fault_threads_eq[OF n(1) assms(3) W])
  have K: "launch_gpu conv n (stride s) (fault_blocks (strides n (stride s))) order b = Inr (strided conv (stride s) b)"
    "kernel_omp conv n (stride s) order b = Inr (strided conv (stride s) b)"
    "kernel_cpu conv n (stride s) b = Some (Inr (strided conv (stride s) b))" if "length b = n" for b
    using launch_gpu_strided[OF assms(3,4), of b order conv] kernel_omp_strided[OF assms(3,2), of conv b]
      kernel_cpu_loop[OF assms(3), of b conv] kernel_omp_strided[OF assms(3), of "\<lambda>t. [0..<t]" conv b]
      that assms(2,8) W by (simp_all add: n_def)
  have A: "act works c x t = Inr (t @ (if c then [x] else []))" for c x t using assms(1) by (simp add: act_works)
  have P: "fault_prepare works (ps * pages s) s = Inr ([Mmap (fork_child s) (ps * pages s)] @
      (if fork_child s then [Fork, Child_mlock (ps * pages s)] else []) @
      (if mlock_pages s then [Mlock (ps * pages s)] else []) @ (if touch s then [Touch] else []) @
      (if gpu_map s \<or> gpu_register s then [Host_register (gpu_map s) (ps * pages s)] else []) @
      (if gpu_map s then [Device_pointer] else []))"
    unfolding fault_prepare_def A by simp
  have pick: "(if omp_kernel s then Some (kernel_omp conv n (stride s) order b)
       else if cpu_kernel s then kernel_cpu conv n (stride s) b
       else Some (launch_gpu conv n (stride s) (fault_blocks (strides n (stride s))) order b)) =
      Some (Inr (strided conv (stride s) b))" if "length b = n" for b
    using K[OF that] by simp
  have touched: "(if gpu_touch s then launch_gpu conv n (stride s) (fault_blocks (strides n (stride s))) order a else Inr a) =
      Inr (if gpu_touch s then strided conv (stride s) a else a)"
    using K(1)[OF a(1)] by simp
  have last: "strided conv (stride s) (if gpu_touch s then strided conv (stride s) a else a) = strided conv (stride s) a"
    using strided_twice[OF assms(3), of conv a] by simp
  have len: "length (if gpu_touch s then strided conv (stride s) a else a) = n" using a(1) by simp
  show ?thesis
    unfolding fault_test_def Let_def bytes n_def[symmetric] P rbind.simps a(2) T touched A sum.case prod.case pick[OF len] option.case
      last test_actions_def a_def[symmetric]
    by simp
qed

subsection \<open>Pages\<close>

text \<open>With the default stride, a quarter of the page size in bytes, a test touches every page
  exactly once: one element of each is written.\<close>
theorem fault_default_touches_pages:
  assumes "ps = 4 * k" and "0 < k" and "p < nr"
  shows "{i. i < ps * nr div 4 \<and> i * 4 div ps = p \<and> stride (fault_default ps) dvd i} = {p * k}"
proof -
  have page: "i * 4 div ps = i div k" for i
    using div_mult_mult1[of 4 i k] by (simp only: assms(1) mult.commute[of i 4])
  have size: "ps * nr div 4 = k * nr"
    using nonzero_mult_div_cancel_left[of 4 "k * nr"] by (simp only: assms(1) mult.assoc)
  have step: "stride (fault_default ps) = k"
    using nonzero_mult_div_cancel_left[of 4 k] by (simp only: fault_default_def fault_spec.simps assms(1))
  have "i div k = p \<and> k dvd i \<longleftrightarrow> i = p * k" for i using assms(2) by auto
  moreover have "p * k < k * nr" using assms(2,3) by (simp only: mult.commute[of p k] mult_less_cancel1)
  ultimately show ?thesis unfolding page size step by blast
qed

subsection \<open>Examples\<close>

theorem fault_kernels_agree_witness:
  "kernel_cpu int (length [9, 9, 9, 9, 9 :: int]) 2 [9, 9, 9, 9, 9] = Some (Inr (strided int 2 [9, 9, 9, 9, 9])) \<and>
   kernel_omp int (length [9, 9, 9, 9, 9 :: int]) 2 (\<lambda>t. rev [0..<t]) [9, 9, 9, 9, 9] = Inr (strided int 2 [9, 9, 9, 9, 9]) \<and>
    (\<exists>threads. fault_threads (length [9, 9, 9, 9, 9 :: int]) 2 = Inr threads \<and>
      launch_gpu int (length [9, 9, 9, 9, 9 :: int]) 2 (fault_blocks threads) (\<lambda>t. rev [0..<t]) [9, 9, 9, 9, 9] =
        Inr (strided int 2 [9, 9, 9, 9, 9]))"
  by (rule fault_kernels_agree) (simp_all add: strides_def)

theorem fault_gpu_misses_witness:
  "\<exists>b. kernel_cpu int (length (replicate (2 ^ 32 + 1) 7)) 1 (replicate (2 ^ 32 + 1) 7) = Some (Inr b) \<and>
      b ! (2 ^ 32) = int (2 ^ 32)"
  using fault_gpu_misses[of int "replicate (2 ^ 32 + 1) 7" 1 0 "\<lambda>_. []" "replicate (2 ^ 32 + 1) 7" "2 ^ 32"]
  by (simp add: launch_gpu_def)

theorem fault_test_runs_witness:
  "fault_test int (\<lambda>_. True) (\<lambda>t. [0..<t]) 8 ((fault_default 8)\<lparr>gpu_touch := True, fork_child := True\<rparr>) [9, 9] =
    Some (Inr (strided int 2 [9, 9], test_actions 8 ((fault_default 8)\<lparr>gpu_touch := True, fork_child := True\<rparr>)))"
  using fault_test_runs[of "\<lambda>_. True" "\<lambda>t. [0..<t]" "(fault_default 8)\<lparr>gpu_touch := True, fork_child := True\<rparr>" 8 "[9, 9]" int]
  by (simp add: fault_default_def strides_def)

theorem fault_default_touches_pages_witness:
  "{i. i < 4096 * 3 div 4 \<and> i * 4 div 4096 = 2 \<and> stride (fault_default 4096) dvd i} = {2 * 1024}"
  by (rule fault_default_touches_pages) simp_all

end
