(* ===== verification/Coherence.thy ===== *)
theory Coherence
  imports Histo
begin

text \<open>
  \<open>atomic_test.hip\<close> of \<open>src/coherence\<close>: a million threads of the GPU add 1 to one number, once by a plain
  and once by an atomic addition, in fine- and coarse-grained memory. Memory is a map from addresses to
  numbers of the type tested; \<open>nt\<close> are the operations of the type.
\<close>

subsection \<open>The code\<close>

type_synonym 't number_mem = "nat \<Rightarrow> 't"

definition atomic_sum :: "'t num_type \<Rightarrow> nat \<Rightarrow> 't number_mem \<Rightarrow> 't number_mem" where
  "atomic_sum nt x m = m(x := nt_inc nt (m x))"

text \<open>\<open>x += 1\<close> moves the parameter, a pointer to numbers of \<open>sizeof\<close> bytes, and leaves memory alone.\<close>

definition basic_sum :: "nat \<Rightarrow> nat \<Rightarrow> 't number_mem \<Rightarrow> nat \<times> 't number_mem" where
  "basic_sum sizeof_type x m = (add64 x sizeof_type, m)"

definition SUM_BLOCKS :: nat where
  "SUM_BLOCKS = 1024"

definition SUM_TPB :: nat where
  "SUM_TPB = 1024"

text \<open>Every thread has a parameter of its own; the number printed and the memory after the test.\<close>

definition test_basic :: "'t num_type \<Rightarrow> nat \<Rightarrow> nat list \<Rightarrow> nat \<Rightarrow> 't number_mem \<Rightarrow> 't \<times> 't number_mem" where
  "test_basic nt sizeof_type threads x m =
     (let m = m(x := nt_zero nt); m = foldl (\<lambda>m _. snd (basic_sum sizeof_type x m)) m threads in (m x, m))"

definition test_atomic :: "'t num_type \<Rightarrow> nat list \<Rightarrow> nat \<Rightarrow> 't number_mem \<Rightarrow> 't \<times> 't number_mem" where
  "test_atomic nt threads x m =
     (let m = m(x := nt_zero nt); m = foldl (\<lambda>m _. atomic_sum nt x m) m threads in (m x, m))"

text \<open>The tests of main on the fine- and on the coarse-grained number of one type, in the order of main.\<close>

definition coherence_tests ::
    "'t num_type \<Rightarrow> nat \<Rightarrow> (nat \<Rightarrow> nat list) \<Rightarrow> nat \<Rightarrow> nat \<Rightarrow> 't number_mem \<Rightarrow> 't list \<times> 't number_mem" where
  "coherence_tests nt sizeof_type order fine coarse m =
     (let (b1, m) = test_basic nt sizeof_type (order 0) fine m;
          (b2, m) = test_basic nt sizeof_type (order 1) coarse m;
          (a1, m) = test_atomic nt (order 2) fine m;
          (a2, m) = test_atomic nt (order 3) coarse m in ([b1, b2, a1, a2], m))"

subsection \<open>What is printed\<close>

lemma test_basic_prints: "test_basic nt sizeof_type threads x m = (nt_zero nt, m(x := nt_zero nt))"
proof -
  have "foldl (\<lambda>m _. snd (basic_sum sizeof_type x m)) m' threads = m'" for m' :: "'a number_mem"
    by (induction threads) (simp_all add: basic_sum_def)
  then show ?thesis by (simp add: test_basic_def)
qed

lemma atomic_sums:
  "foldl (\<lambda>m _. atomic_sum nt x m) m threads = m(x := (nt_inc nt ^^ length threads) (m x))"
  by (induction threads arbitrary: m) (simp_all add: atomic_sum_def funpow_swap1)

lemma test_atomic_prints:
  "test_atomic nt threads x m = ((nt_inc nt ^^ length threads) (nt_zero nt), m(x := (nt_inc nt ^^ length threads) (nt_zero nt)))"
  by (simp add: test_atomic_def atomic_sums)

context exact_counter begin

lemma val_count: "k < bound \<Longrightarrow> val ((nt_inc nt ^^ k) (nt_zero nt)) = k"
  by (induction k) (simp_all add: val_zero val_inc)

end

text \<open>The atomic test prints the number of threads when the type counts exactly so far (a float does,
  up to 2 to the 24), the plain one prints 0 in both kinds of memory: its kernel increments the
  pointer and not the number.\<close>
theorem coherence_results:
  assumes "exact_counter nt val bound" and "2 ^ 20 < bound" and "\<forall>i. mset (order i) = mset [0..<SUM_BLOCKS * SUM_TPB]"
  shows "map val (fst (coherence_tests nt sizeof_type order fine coarse m)) = [0, 0, 2 ^ 20, 2 ^ 20]"
proof -
  have len: "length (order i) = 2 ^ 20" for i
    using mset_eq_length[OF assms(3)[rule_format, of i]] by (simp add: SUM_BLOCKS_def SUM_TPB_def)
  have "val ((nt_inc nt ^^ 2 ^ 20) (nt_zero nt)) = 2 ^ 20"
    by (rule exact_counter.val_count[OF assms(1,2)])
  moreover have "val (nt_zero nt) = 0" by (rule exact_counter.val_zero[OF assms(1)])
  ultimately show ?thesis
    unfolding coherence_tests_def test_basic_prints test_atomic_prints len by (simp add: Let_def)
qed

theorem coherence_results_witness:
  "map unat (fst (coherence_tests (word_cells :: 32 word num_type) 4 (\<lambda>_. [0..<SUM_BLOCKS * SUM_TPB]) 0 4096 (\<lambda>_. 7))) =
    [0, 0, 2 ^ 20, 2 ^ 20]"
  by (rule coherence_results[OF words.exact_counter_axioms]) simp_all

end
