(* ===== verification/Triad_Text.thy ===== *)
theory Triad_Text
  imports Cmdparser_Help
begin

text \<open>
  The texts of \<open>triad_worker.hip\<close>, the worker of the controlled TRIAD experiment: JSON strings, PCI
  addresses, arguments, and the lines it exchanges with the coordinator. An exception is the text of
  its message.
\<close>

unbundle bit_operations_syntax

subsection \<open>Exceptions\<close>

type_synonym 'a caught = "string + 'a"

fun sbind :: "'a caught \<Rightarrow> ('a \<Rightarrow> 'b caught) \<Rightarrow> 'b caught" where
  "sbind (Inl e) f = Inl e"
| "sbind (Inr x) f = f x"

lemma sbind_Inr: "sbind x f = Inr y \<longleftrightarrow> (\<exists>z. x = Inr z \<and> f z = Inr y)"
  by (cases x) auto

subsection \<open>JSON\<close>

definition hex4 :: "nat \<Rightarrow> string" where
  "hex4 n = map digit_char [n div 4096 mod 16, n div 256 mod 16, n div 16 mod 16, n mod 16]"

definition quote_char :: "char \<Rightarrow> string" where
  "quote_char c =
     (if c = CHR 0x22 \<or> c = CHR 0x5C then [CHR 0x5C, c]
      else if of_char c < (32 :: nat) then [CHR 0x5C, CHR ''u''] @ hex4 (of_char c)
      else [c])"

definition quote :: "string \<Rightarrow> string" where
  "quote s = [CHR 0x22] @ concat (map quote_char s) @ [CHR 0x22]"

fun commas :: "string list \<Rightarrow> string" where
  "commas [] = []"
| "commas [x] = x"
| "commas (x # xs) = x @ '','' @ commas xs"

definition affinity :: "(nat \<Rightarrow> bool) \<Rightarrow> string" where
  "affinity isset = ''['' @ commas (map (numeral_string 10) (filter isset [0..<1024])) @ '']''"

subsection \<open>Devices\<close>

text \<open>\<open>%x\<close> of \<open>sscanf\<close>: the number as an \<open>unsigned\<close> and what follows it.\<close>

definition scan_hex :: "string \<Rightarrow> (nat \<times> string) option" where
  "scan_hex str =
     (let (neg, s) = number_sign (dropWhile is_space str);
          s = (if fst (number_base s) = 16 then snd (number_base s) else s);
          ds = takeWhile (is_digit 16) s; v = digits_value 16 ds mod 2 ^ 32 in
      if ds = [] then None
      else Some (if neg then (2 ^ 32 - v) mod 2 ^ 32 else v, dropWhile (is_digit 16) s))"

definition scan_char :: "char \<Rightarrow> string \<Rightarrow> string option" where
  "scan_char c s = (case s of [] \<Rightarrow> None | d # s \<Rightarrow> if d = c then Some s else None)"

text \<open>\<open>%04x\<close> and its relatives.\<close>

definition hex_padded :: "nat \<Rightarrow> nat \<Rightarrow> string" where
  "hex_padded w n = (let ds = numeral_string 16 n in replicate (w - length ds) CHR ''0'' @ ds)"

definition bdf :: "string \<Rightarrow> string caught" where
  "bdf raw =
     (case Option.bind (scan_hex raw) (\<lambda>(d, s). Option.bind (scan_char CHR '':'' s) (\<lambda>s.
           Option.bind (scan_hex s) (\<lambda>(b, s). Option.bind (scan_char CHR '':'' s) (\<lambda>s.
           Option.bind (scan_hex s) (\<lambda>(l, s). Option.bind (scan_char CHR ''.'' s) (\<lambda>s.
           Option.bind (scan_hex s) (\<lambda>(f, s). Some (d, b, l, f)))))))) of
        None \<Rightarrow> Inl ''invalid HIP BDF''
      | Some (d, b, l, f) \<Rightarrow>
          Inr (hex_padded 4 d @ '':'' @ hex_padded 2 b @ '':'' @ hex_padded 2 l @ ''.'' @ hex_padded 1 f))"

record hip_device =
  pci_bus_id :: string
  compute_units :: nat
  arch_name :: string
  device_name :: string
  max_threads_per_block :: nat

definition identity :: "nat \<Rightarrow> hip_device \<Rightarrow> string caught" where
  "identity d p =
     sbind (bdf (pci_bus_id p)) (\<lambda>b. Inr
       (''{'' @ quote ''ordinal'' @ '':'' @ numeral_string 10 d @
        '','' @ quote ''bdf'' @ '':'' @ quote b @
        '','' @ quote ''cus'' @ '':'' @ numeral_string 10 (compute_units p) @
        '','' @ quote ''arch'' @ '':'' @ quote (arch_name p) @
        '','' @ quote ''name'' @ '':'' @ quote (device_name p) @ ''}''))"

subsection \<open>Lines\<close>

text \<open>
  \<open>kernel k n\<close> is the answer to the \<open>k\<close>-th \<open>send\<close>, of \<open>n\<close> bytes. The state is the position in the line and
  what has been sent.
\<close>

function send_loop :: "(nat \<Rightarrow> nat \<Rightarrow> int) \<Rightarrow> nat \<Rightarrow> string \<Rightarrow> nat \<Rightarrow> string \<Rightarrow> string caught" where
  "send_loop kern k wire pos sent =
     (if pos < length wire then
        (let n = kern k (length wire - pos) in
         if n \<le> 0 then Inl ''coordinator disconnected''
         else send_loop kern (k + 1) wire (pos + nat n) (sent @ take (nat n) (drop pos wire)))
      else Inr sent)"
  by pat_completeness auto

termination
  by (relation "measure (\<lambda>(kern, k, wire, pos, sent). length wire - pos)") auto

declare send_loop.simps [simp del]

definition send_line :: "(nat \<Rightarrow> nat \<Rightarrow> int) \<Rightarrow> string \<Rightarrow> string caught" where
  "send_line kern data = send_loop kern 0 (data @ nl) 0 []"

text \<open>The line and what is left in the socket; the socket ends where \<open>recv\<close> fails.\<close>

fun receive_loop :: "string \<Rightarrow> string \<Rightarrow> (string \<times> string) caught" where
  "receive_loop s [] = Inl (if length s < 4096 then ''coordinator read failed'' else ''oversized coordinator message'')"
| "receive_loop s (c # incoming) =
     (if length s < 4096 then if [c] = nl then Inr (s, incoming) else receive_loop (s @ [c]) incoming
      else Inl ''oversized coordinator message'')"

definition receive_line :: "string \<Rightarrow> (string \<times> string) caught" where
  "receive_line incoming = receive_loop [] incoming"

subsection \<open>Arguments\<close>

text \<open>\<open>std::stoll\<close>: the number and how many characters it takes.\<close>

definition stoll :: "string \<Rightarrow> (int \<times> nat) option" where
  "stoll str =
     (let (neg, s) = number_sign (dropWhile is_space str); ds = takeWhile (is_digit 10) s;
          v = (if neg then - int (digits_value 10 ds) else int (digits_value 10 ds)) in
      if ds = [] \<or> v < - (2 ^ 63) \<or> 2 ^ 63 \<le> v then None
      else Some (v, length str - length (dropWhile (is_digit 10) s)))"

definition number :: "(string \<rightharpoonup> string) \<Rightarrow> string \<Rightarrow> int \<Rightarrow> int caught" where
  "number args key fallback =
     (case args key of
        None \<Rightarrow> Inr fallback
      | Some str \<Rightarrow>
          (case stoll str of
             None \<Rightarrow> Inl ''stoll''
           | Some (v, used) \<Rightarrow>
               if used \<noteq> length str \<or> v < 1 \<or> 2 ^ 31 - 1 < v then Inl (''invalid '' @ key) else Inr v))"

definition allowed_keys :: "string list" where
  "allowed_keys =
     [''--socket'', ''--output'', ''--allocator'', ''--elements'', ''--block-size'',
      ''--batch-size'', ''--expected-bdf'', ''--expected-cus'', ''--worker-id'']"

definition required_keys :: "string list" where
  "required_keys = [''--socket'', ''--output'', ''--allocator'', ''--expected-bdf'', ''--expected-cus'', ''--worker-id'']"

fun take_arguments :: "string list \<Rightarrow> (string \<rightharpoonup> string) \<Rightarrow> (string \<rightharpoonup> string) caught" where
  "take_arguments [] args = Inr args"
| "take_arguments [k] args = Inl ''invalid/duplicate argument''"
| "take_arguments (k # v # ws) args =
     (if k \<notin> set allowed_keys \<or> args k \<noteq> None then Inl ''invalid/duplicate argument''
      else take_arguments ws (args(k \<mapsto> v)))"

definition worker_arguments :: "string list \<Rightarrow> (string \<rightharpoonup> string) caught" where
  "worker_arguments ws =
     sbind (take_arguments ws Map.empty) (\<lambda>args.
     case find (\<lambda>k. args k = None) required_keys of
       Some k \<Rightarrow> Inl (''missing '' @ k)
     | None \<Rightarrow> Inr args)"

text \<open>\<open>>>\<close> of a stream of characters: a word, and a number of 64 bits.\<close>

definition read_word :: "string \<Rightarrow> (string \<times> string) option" where
  "read_word s =
     (let s = dropWhile is_space s; w = takeWhile (\<lambda>c. \<not> is_space c) s in
      if w = [] then None else Some (w, dropWhile (\<lambda>c. \<not> is_space c) s))"

definition read_int64 :: "string \<Rightarrow> (int \<times> string) option" where
  "read_int64 str = map_option (\<lambda>(v, used). (v, drop used str)) (stoll str)"

record worker_schedule =
  lead_ns :: int
  t0_ns :: int
  t1_ns :: int
  tail_ns :: int

definition read_schedule :: "string \<Rightarrow> worker_schedule option" where
  "read_schedule message =
     Option.bind (read_word message) (\<lambda>(action, s).
     Option.bind (read_int64 s) (\<lambda>(lead, s).
     Option.bind (read_int64 s) (\<lambda>(t0, s).
     Option.bind (read_int64 s) (\<lambda>(t1, s).
     Option.bind (read_int64 s) (\<lambda>(tail, s).
     if action = ''START'' then Some \<lparr>lead_ns = lead, t0_ns = t0, t1_ns = t1, tail_ns = tail\<rparr> else None)))))"

subsection \<open>JSON strings are read back\<close>

text \<open>A reader of JSON strings (RFC 8259), as far as \<open>quote\<close> uses them, after the opening quotation mark:
  the string and what follows it.\<close>

fun json_chars :: "string \<Rightarrow> (string \<times> string) option" where
  "json_chars [] = None"
| "json_chars (c # s) =
     (if c = CHR 0x22 then Some ([], s)
      else if c = CHR 0x5C then
        (case s of
           [] \<Rightarrow> None
         | e # s \<Rightarrow>
             if e = CHR 0x22 \<or> e = CHR 0x5C then map_option (\<lambda>(t, r). (e # t, r)) (json_chars s)
             else if e = CHR ''u'' \<and> 4 \<le> length s \<and> list_all (is_digit 16) (take 4 s) then
               map_option (\<lambda>(t, r). (char_of (digits_value 16 (take 4 s)) # t, r)) (json_chars (drop 4 s))
             else None)
      else if of_char c < (32 :: nat) then None
      else map_option (\<lambda>(t, r). (c # t, r)) (json_chars s))"

lemma hex4_digits:
  assumes "n < 32"
  shows "length (hex4 n) = 4" "list_all (is_digit 16) (hex4 n)" "digits_value 16 (hex4 n) = n"
  using assms by (auto simp: hex4_def is_digit_char digits_value_def digit_val_char)

lemma json_quote_char: "json_chars (quote_char c @ s) = map_option (\<lambda>(t, r). (c # t, r)) (json_chars s)"
proof (cases "c = CHR 0x22 \<or> c = CHR 0x5C")
  case True
  then show ?thesis by (auto simp: quote_char_def)
next
  case plain: False
  show ?thesis
  proof (cases "of_char c < (32 :: nat)")
    case True
    note H = hex4_digits[OF True]
    have "take 4 (hex4 (of_char c) @ s) = hex4 (of_char c)" "drop 4 (hex4 (of_char c) @ s) = s" using H(1) by simp_all
    then show ?thesis using plain True H by (simp add: quote_char_def)
  next
    case False
    then show ?thesis using plain by (auto simp: quote_char_def)
  qed
qed

lemma json_quote_chars: "json_chars (concat (map quote_char s) @ CHR 0x22 # rest) = Some (s, rest)"
  by (induction s) (simp_all add: json_quote_char)

lemma quote_char_printable: "d \<in> set (quote_char c) \<Longrightarrow> 32 \<le> (of_char d :: nat)"
proof -
  have "32 \<le> (of_char (digit_char n) :: nat)" if "n < 16" for n using that by (simp add: digit_char_def)
  then show "d \<in> set (quote_char c) \<Longrightarrow> 32 \<le> (of_char d :: nat)"
    by (auto simp: quote_char_def hex4_def split: if_splits)
qed

text \<open>Any text the worker quotes for its results is a JSON string that reads back as the same text, whatever
  control characters, quotation marks and backslashes it holds, and contains no control character, so that a
  message to the coordinator stays on one line.\<close>
theorem quote_reads_back:
  "hd (quote s) = CHR 0x22 \<and> json_chars (tl (quote s) @ rest) = Some (s, rest) \<and> (\<forall>c\<in>set (quote s). 32 \<le> (of_char c :: nat))"
  using json_quote_chars[of s rest] quote_char_printable by (auto simp: quote_def)

subsection \<open>Lines arrive\<close>

lemma send_loop_sends:
  assumes "\<And>k n. 0 < n \<Longrightarrow> 0 < kern k n" and "sent = take pos wire"
  shows "send_loop kern k wire pos sent = Inr wire"
  using assms
proof (induction kern k wire pos sent rule: send_loop.induct)
  case (1 kern k wire pos sent)
  show ?case
  proof (cases "pos < length wire")
    case True
    let ?n = "kern k (length wire - pos)"
    have "\<not> ?n \<le> 0" using 1(2)[of "length wire - pos" k] True by (simp add: not_le)
    moreover have "sent @ take (nat ?n) (drop pos wire) = take (pos + nat ?n) wire"
      using 1(3) by (simp add: take_add)
    ultimately show ?thesis using 1(1)[OF True refl] 1(2) True by (subst send_loop.simps) (simp add: Let_def)
  next
    case False
    then show ?thesis using 1(3) by (subst send_loop.simps) simp
  qed
qed

lemma receive_loop_line:
  assumes "CHR 0x0A \<notin> set data" and "length s + length data < 4096"
  shows "receive_loop s (data @ CHR 0x0A # rest) = Inr (s @ data, rest)"
  using assms by (induction data arbitrary: s) (auto simp: nl_def)

text \<open>A line of fewer than 4096 characters that the worker or the coordinator sends arrives whole on the other side, in
  however many parts the kernel takes it, as long as it takes some of it every time, and what is sent after it stays
  in the socket; a call that takes nothing is reported, and a longer line is refused.\<close>
theorem line_arrives:
  assumes "CHR 0x0A \<notin> set data"
  shows "((\<forall>k n. 0 < n \<longrightarrow> 0 < kern k n) \<longrightarrow> send_line kern data = Inr (data @ nl)) \<and>
    (kern 0 (length data + 1) \<le> 0 \<longrightarrow> send_line kern data = Inl ''coordinator disconnected'') \<and>
    receive_line (data @ nl @ rest) =
      (if length data < 4096 then Inr (data, rest) else Inl ''oversized coordinator message'')"
proof (intro conjI impI)
  show "send_line kern data = Inr (data @ nl)" if "\<forall>k n. 0 < n \<longrightarrow> 0 < kern k n"
    using that by (simp add: send_line_def send_loop_sends)
  show "send_line kern data = Inl ''coordinator disconnected''" if "kern 0 (length data + 1) \<le> 0"
    using that by (simp add: send_line_def send_loop.simps[of kern 0] nl_def)
  show "receive_line (data @ nl @ rest) =
      (if length data < 4096 then Inr (data, rest) else Inl ''oversized coordinator message'')"
  proof (cases "length data < 4096")
    case True
    then show ?thesis using receive_loop_line[OF assms, of "[]" rest] by (simp add: receive_line_def nl_def)
  next
    case False
    have "receive_loop s (t @ more) = Inl ''oversized coordinator message''"
      if "CHR 0x0A \<notin> set t" "4096 \<le> length s + length t" "length s \<le> 4096" "more \<noteq> []" for s t more
      using that by (induction t arbitrary: s) (auto simp: nl_def neq_Nil_conv)
    then show ?thesis using False assms by (simp add: receive_line_def nl_def)
  qed
qed

theorem line_arrives_witness:
  "send_line (\<lambda>k n. 1) ''ab'' = Inr (''ab'' @ nl) \<and> receive_line (''ab'' @ nl @ ''c'') = Inr (''ab'', ''c'')"
  using line_arrives[of "''ab''" "\<lambda>k n. 1" "''c''"] by simp

subsection \<open>Numbers and schedules are read back\<close>

lemma stoll_printed:
  assumes "- (2 ^ 63) \<le> v" and "v < 2 ^ 63" and stops: "rest = [] \<or> \<not> is_digit 10 (hd rest)" and "\<forall>c\<in>set space. is_space c"
  shows "stoll (space @ int_string v @ rest) = Some (v, length space + length (int_string v))"
proof -
  define n where "n = nat \<bar>v\<bar>"
  obtain d s where ns: "numeral_string 10 n = digit_char d # s" "d < 10"
    by (rule numeral_string_hd[of 10 n]) auto
  have start: "\<not> is_space (digit_char d)" "digit_char d \<noteq> CHR ''-''" "digit_char d \<noteq> CHR ''+''" "\<not> is_space CHR ''-''"
    using digit_char_not[of d] ns(2) by (simp_all add: is_space_def)
  have shape: "int_string v = (if v < 0 then CHR ''-'' # numeral_string 10 n else numeral_string 10 n)"
    by (simp add: int_string_def n_def)
  have drop: "dropWhile is_space (space @ int_string v @ rest) = int_string v @ rest"
    using start assms(4) by (simp add: dropWhile_append2 shape ns(1))
  have sign: "number_sign (int_string v @ rest) = (v < 0, numeral_string 10 n @ rest)"
    using start by (simp add: shape ns(1))
  have value_of: "digits_value 10 (numeral_string 10 n) = n" "numeral_string 10 n \<noteq> []"
    using numeral_string_digits(1,4)[of 10 n] by simp_all
  have v: "(if v < 0 then - int n else int n) = v" by (simp add: n_def)
  have tw: "takeWhile (is_digit 10) (numeral_string 10 n @ rest) = numeral_string 10 n"
    "dropWhile (is_digit 10) (numeral_string 10 n @ rest) = rest"
    by (rule literal_scan; use stops in auto)+
  have len: "length (space @ int_string v @ rest) - length rest = length space + length (int_string v)" by simp
  show ?thesis
    unfolding stoll_def drop sign Let_def prod.case tw value_of(1) v len using value_of(2) assms(1,2) by simp
qed

text \<open>A numeric argument of the worker is accepted exactly when it is a whole decimal number from 1 to 2^31 - 1: such a number
  arrives as it is, one that is out of this range or followed by anything is refused, and without the argument the
  default is taken.\<close>
theorem number_reads_back:
  assumes "- (2 ^ 63) \<le> v" and "v < 2 ^ 63" and "rest = [] \<or> \<not> is_digit 10 (hd rest)"
  shows "number (args(key \<mapsto> int_string v @ rest)) key fallback =
      (if rest = [] \<and> 1 \<le> v \<and> v < 2 ^ 31 then Inr v else Inl (''invalid '' @ key)) \<and>
    number (args(key := None)) key fallback = Inr fallback"
proof -
  show ?thesis using stoll_printed[of v rest "[]"] assms by (auto simp: number_def)
qed

text \<open>The line of the coordinator, as \<open>run_campaign.py\<close> writes it.\<close>

definition start_line :: "worker_schedule \<Rightarrow> string" where
  "start_line sc = ''START '' @ int_string (lead_ns sc) @ '' '' @ int_string (t0_ns sc) @ '' '' @
     int_string (t1_ns sc) @ '' '' @ int_string (tail_ns sc)"

definition int64 :: "int \<Rightarrow> bool" where
  "int64 v \<longleftrightarrow> - (2 ^ 63) \<le> v \<and> v < 2 ^ 63"

lemma read_int64_printed:
  assumes "int64 v" and "rest = [] \<or> hd rest = CHR '' ''"
  shows "read_int64 (CHR '' '' # int_string v @ rest) = Some (v, rest)"
proof -
  have "rest = [] \<or> \<not> is_digit 10 (hd rest)" using assms(2) by (auto simp: is_digit_def digit_val_def)
  then have "stoll ([CHR '' ''] @ int_string v @ rest) = Some (v, length [CHR '' ''] + length (int_string v))"
    using assms(1) by (intro stoll_printed) (auto simp: int64_def is_space_def)
  then show ?thesis by (simp add: read_int64_def)
qed

theorem schedule_reads_back:
  assumes "int64 (lead_ns sc)" and "int64 (t0_ns sc)" and "int64 (t1_ns sc)" and "int64 (tail_ns sc)"
  shows "read_schedule (start_line sc) = Some sc"
proof -
  have word: "read_word (''START'' @ CHR '' '' # s) = Some (''START'', CHR '' '' # s)" for s
    by (simp add: read_word_def is_space_def)
  have line: "start_line sc = ''START'' @ CHR '' '' # int_string (lead_ns sc) @ CHR '' '' # int_string (t0_ns sc) @
      CHR '' '' # int_string (t1_ns sc) @ CHR '' '' # int_string (tail_ns sc) @ []"
    by (simp add: start_line_def)
  show ?thesis
    unfolding read_schedule_def line word
    by (simp only: bind.bind_lunit prod.case read_int64_printed[OF assms(1)] read_int64_printed[OF assms(2)]
        read_int64_printed[OF assms(3)] read_int64_printed[OF assms(4)] list.sel simp_thms if_True worker_schedule.surjective[symmetric]) simp
qed

subsection \<open>Arguments\<close>

fun pairs_of :: "string list \<Rightarrow> (string \<times> string) list option" where
  "pairs_of [] = Some []"
| "pairs_of [k] = None"
| "pairs_of (k # v # ws) = map_option (\<lambda>ps. (k, v) # ps) (pairs_of ws)"

lemma take_arguments_pairs:
  "take_arguments ws args =
    (case pairs_of ws of
       None \<Rightarrow> Inl ''invalid/duplicate argument''
     | Some ps \<Rightarrow> if distinct (map fst ps) \<and> set (map fst ps) \<subseteq> set allowed_keys \<and> (\<forall>k\<in>set (map fst ps). args k = None)
         then Inr (args ++ map_of ps) else Inl ''invalid/duplicate argument'')"
proof (induction ws args rule: take_arguments.induct)
  case (3 k v ws args)
  show ?case
  proof (cases "k \<notin> set allowed_keys \<or> args k \<noteq> None")
    case True
    then show ?thesis by (auto split: option.split)
  next
    case False
    have upd: "args(k \<mapsto> v) ++ map_of ps = args ++ map_of ((k, v) # ps)" if "k \<notin> fst ` set ps" for ps
      using that by (simp add: map_add_upd_left dom_map_of_conv_image_fst)
    have keys: "(\<forall>j\<in>set (map fst ps). (args(k \<mapsto> v)) j = None) \<longleftrightarrow> k \<notin> fst ` set ps \<and> (\<forall>j\<in>set (map fst ps). args j = None)"
      for ps :: "(string \<times> string) list" by auto
    have "take_arguments (k # v # ws) args = take_arguments ws (args(k \<mapsto> v))" using False by simp
    also have "\<dots> = (case pairs_of (k # v # ws) of
       None \<Rightarrow> Inl ''invalid/duplicate argument''
     | Some ps \<Rightarrow> if distinct (map fst ps) \<and> set (map fst ps) \<subseteq> set allowed_keys \<and> (\<forall>k\<in>set (map fst ps). args k = None)
         then Inr (args ++ map_of ps) else Inl ''invalid/duplicate argument'')"
    proof (cases "pairs_of ws")
      case None
      then show ?thesis unfolding 3[OF False] by simp
    next
      case (Some ps)
      then show ?thesis
        unfolding 3[OF False] keys using False upd[of ps] by (auto simp del: map_of.simps)
    qed
    finally show ?thesis .
  qed
qed simp_all

lemma find_filter: "find P xs = (case filter P xs of [] \<Rightarrow> None | x # _ \<Rightarrow> Some x)"
  by (induction xs) auto

text \<open>The worker accepts a command line exactly when it is a sequence of pairs of a known key and a value in which no key
  occurs twice and none of the six required ones is missing; the arguments are then these pairs, and otherwise the first
  missing key is named or the line is called invalid.\<close>
theorem worker_arguments_accepted:
  "worker_arguments ws =
    (case pairs_of ws of
       None \<Rightarrow> Inl ''invalid/duplicate argument''
     | Some ps \<Rightarrow>
         if distinct (map fst ps) \<and> set (map fst ps) \<subseteq> set allowed_keys
         then (case filter (\<lambda>k. k \<notin> set (map fst ps)) required_keys of
            [] \<Rightarrow> Inr (map_of ps) | k # _ \<Rightarrow> Inl (''missing '' @ k))
         else Inl ''invalid/duplicate argument'')"
proof -
  have "(\<lambda>k. map_of ps k = None) = (\<lambda>k. k \<notin> set (map fst ps))" for ps :: "(string \<times> string) list"
    by (simp only: map_of_eq_None_iff set_map)
  then show ?thesis
    by (auto simp: worker_arguments_def take_arguments_pairs find_filter split: option.split list.split)
qed

theorem number_reads_back_witness:
  "number (Map.empty(''--elements'' \<mapsto> int_string 42 @ ''x'')) ''--elements'' 7 = Inl (''invalid '' @ ''--elements'') \<and>
    number (Map.empty(''--elements'' \<mapsto> int_string 42 @ [])) ''--elements'' 7 = Inr 42"
  using number_reads_back[of 42 "''x''" Map.empty "''--elements''" 7] number_reads_back[of 42 "[]" Map.empty "''--elements''" 7]
  by (simp add: is_digit_def digit_val_def)

text \<open>The schedule the coordinator sends is the one the worker reads.\<close>

lemma schedule_reads_back_witness:
  "read_schedule (start_line \<lparr>lead_ns = 5, t0_ns = 7, t1_ns = 9, tail_ns = 11\<rparr>) =
    Some \<lparr>lead_ns = 5, t0_ns = 7, t1_ns = 9, tail_ns = 11\<rparr>"
  by (rule schedule_reads_back) (simp_all add: int64_def)

subsection \<open>PCI addresses\<close>

lemma digits_value_zeros: "digits_value b (replicate n CHR ''0'' @ ds) = digits_value b ds"
proof (induction n)
  case (Suc n)
  then show ?case by (simp add: digits_value_def digit_val_def)
qed simp

lemma scan_hex_padded:
  assumes "n < 2 ^ 32" and "rest = [] \<or> (\<not> is_digit 16 (hd rest) \<and> hd rest \<noteq> CHR ''x'' \<and> hd rest \<noteq> CHR ''X'')"
  shows "scan_hex (hex_padded w n @ rest) = Some (n, rest)"
proof -
  define ds where "ds = hex_padded w n"
  have all: "\<forall>c\<in>set ds. is_digit 16 c"
  proof
    fix c assume "c \<in> set ds"
    then have "c = CHR ''0'' \<or> c \<in> set (numeral_string 16 n)" by (auto simp: ds_def hex_padded_def Let_def)
    then show "is_digit 16 c"
      using numeral_string_digits(2)[of 16 n] is_digit_char[of _ 16] by (fastforce simp: is_digit_def digit_val_def)
  qed
  have ne: "ds \<noteq> []" and v: "digits_value 16 ds = n"
    using numeral_string_digits(1,4)[of 16 n] by (simp_all add: ds_def hex_padded_def Let_def digits_value_zeros)
  have plain: "\<not> is_space c \<and> c \<noteq> CHR ''-'' \<and> c \<noteq> CHR ''+'' \<and> c \<noteq> CHR ''x'' \<and> c \<noteq> CHR ''X''" if "is_digit 16 c" for c
    using that by (auto simp: is_digit_def digit_val_def is_space_def Let_def split: if_splits option.splits)
  obtain c t where c: "ds = c # t" using ne by (cases ds) auto
  then have hd_ok: "\<not> is_space c" "c \<noteq> CHR ''-''" "c \<noteq> CHR ''+''" using all plain by auto
  have sign: "number_sign (dropWhile is_space (ds @ rest)) = (False, ds @ rest)" using hd_ok by (simp add: c)
  have second: "d \<noteq> CHR ''x'' \<and> d \<noteq> CHR ''X''" if "t @ rest = d # s" for d s
  proof (cases t)
    case Nil
    then show ?thesis using that assms(2) by auto
  next
    case (Cons e t')
    then show ?thesis using that all plain c by auto
  qed
  have base: "fst (number_base (ds @ rest)) \<noteq> 16"
    using second by (cases "t @ rest"; cases "tl (t @ rest)") (auto simp: c)
  have tw: "takeWhile (is_digit 16) (ds @ rest) = ds" "dropWhile (is_digit 16) (ds @ rest) = rest"
  proof -
    have rest: "takeWhile (is_digit 16) rest = []" "dropWhile (is_digit 16) rest = rest"
      using assms(2) by (cases rest; simp)+
    show "takeWhile (is_digit 16) (ds @ rest) = ds" by (subst takeWhile_append2) (use all rest in auto)
    show "dropWhile (is_digit 16) (ds @ rest) = rest" by (subst dropWhile_append2) (use all rest in auto)
  qed
  have b: "(if fst (number_base (ds @ rest)) = 16 then snd (number_base (ds @ rest)) else ds @ rest) = ds @ rest"
    using base by simp
  show ?thesis
    unfolding ds_def[symmetric] scan_hex_def sign Let_def prod.case b tw using v ne assms(1) by simp
qed

text \<open>A PCI address in the normal form is left as it is, so that comparing normalised addresses compares devices.\<close>

lemma bdf_normal_form:
  assumes "d < 2 ^ 32" and "b < 2 ^ 32" and "l < 2 ^ 32" and "f < 2 ^ 32"
  shows "bdf (hex_padded 4 d @ '':'' @ hex_padded 2 b @ '':'' @ hex_padded 2 l @ ''.'' @ hex_padded 1 f) =
    Inr (hex_padded 4 d @ '':'' @ hex_padded 2 b @ '':'' @ hex_padded 2 l @ ''.'' @ hex_padded 1 f)"
proof -
  have stop: "\<not> is_digit 16 CHR '':''" "\<not> is_digit 16 CHR ''.''" by (simp_all add: is_digit_def digit_val_def)
  have "scan_hex (hex_padded 1 f @ []) = Some (f, [])" by (rule scan_hex_padded) (use assms in simp_all)
  then show ?thesis
    using assms stop by (simp add: bdf_def scan_hex_padded scan_char_def)
qed

theorem bdf_twice:
  assumes "bdf raw = Inr a"
  shows "bdf a = Inr a"
proof -
  have small: "v < 2 ^ 32" if "scan_hex s = Some (v, r)" for s v r
    using that by (auto simp: scan_hex_def Let_def split: if_splits prod.splits)
  obtain d b l f where "d < 2 ^ 32" "b < 2 ^ 32" "l < 2 ^ 32" "f < 2 ^ 32"
    "a = hex_padded 4 d @ '':'' @ hex_padded 2 b @ '':'' @ hex_padded 2 l @ ''.'' @ hex_padded 1 f"
    using assms by (auto simp: bdf_def bind_eq_Some_conv dest!: small split: option.splits)
  then show ?thesis using bdf_normal_form by simp
qed

end
