(* ===== verification/Triad_Kernels.thy ===== *)
theory Triad_Kernels
  imports Hip_Stream
begin

text \<open>
  The kernels of \<open>triad_worker.hip\<close>, the geometry of their launches, and what the arrays hold after
  them: the values the validation expects, in whatever order the threads run.
\<close>

subsection \<open>Kernels\<close>

definition seed_element :: "'d stream_ops \<Rightarrow> nat \<Rightarrow> 'd arrays \<Rightarrow> 'd arrays res" where
  "seed_element fp i s =
     rbind (arr_set (arr_a s) i (fp_nat fp 0)) (\<lambda>a.
     rbind (arr_set (arr_b s) i (fp_nat fp 2)) (\<lambda>b.
     rbind (arr_set (arr_c s) i (fp_nat fp 3)) (\<lambda>c. Inr \<lparr>arr_a = a, arr_b = b, arr_c = c\<rparr>)))"

definition initialize :: "'d stream_ops \<Rightarrow> nat \<Rightarrow> int \<Rightarrow> nat \<Rightarrow> 'd arrays \<Rightarrow> 'd arrays res" where
  "initialize fp block_dim n = guarded block_dim n (seed_element fp)"

definition controlled_triad :: "'d stream_ops \<Rightarrow> nat \<Rightarrow> int \<Rightarrow> nat \<Rightarrow> 'd arrays \<Rightarrow> 'd arrays res" where
  "controlled_triad fp block_dim n = guarded block_dim n (triad_line fp (fp_nat fp 3))"

text \<open>\<open>finite\<close> is \<open>isfinite\<close>; two finite numbers that are not 0 are equal when they are the same.\<close>

definition wrong_values :: "'d stream_ops \<Rightarrow> ('d \<Rightarrow> bool) \<Rightarrow> 'd \<Rightarrow> 'd \<Rightarrow> 'd \<Rightarrow> bool" where
  "wrong_values fp isfinite x y z \<longleftrightarrow>
     \<not> isfinite x \<or> \<not> isfinite y \<or> \<not> isfinite z \<or> x \<noteq> fp_nat fp 11 \<or> y \<noteq> fp_nat fp 2 \<or> z \<noteq> fp_nat fp 3"

definition validate_element :: "'d stream_ops \<Rightarrow> ('d \<Rightarrow> bool) \<Rightarrow> 'd arrays \<Rightarrow> nat \<Rightarrow> nat \<Rightarrow> nat res" where
  "validate_element fp isfinite s i bad =
     rbind (arr_get (arr_a s) i) (\<lambda>x. rbind (arr_get (arr_b s) i) (\<lambda>y. rbind (arr_get (arr_c s) i) (\<lambda>z.
     Inr (if wrong_values fp isfinite x y z then add64 bad 1 else bad))))"

definition validate_arrays :: "'d stream_ops \<Rightarrow> ('d \<Rightarrow> bool) \<Rightarrow> 'd arrays \<Rightarrow> nat \<Rightarrow> int \<Rightarrow> nat \<Rightarrow> nat \<Rightarrow> nat res" where
  "validate_arrays fp isfinite s block_dim n = guarded block_dim n (validate_element fp isfinite s)"

subsection \<open>Geometry\<close>

text \<open>The launch geometry from the number of elements, the block size and what the device allows; all are
  \<open>int\<close>, and the sum in the check is one of 64 bits.\<close>

definition launch_grid :: "nat \<Rightarrow> int \<Rightarrow> int \<Rightarrow> int option" where
  "launch_grid max_threads n block =
     (if int max_threads < block \<or> 2 ^ 31 - 1 < n + block then None else Some ((n + block - 1) div block))"

text \<open>The kernels cover the elements, with less than a block of idle threads, and no thread number
  leaves the range of an int.\<close>
theorem launch_grid_covers:
  assumes "launch_grid max_threads n block = Some grid" and "1 \<le> n" and "1 \<le> block"
  shows "n \<le> grid * block \<and> grid * block < n + block \<and> grid * block < 2 ^ 31 \<and> block \<le> int max_threads"
proof -
  define q where "q = (n + block - 1) div block"
  define r where "r = (n + block - 1) mod block"
  have qr: "n + block - 1 = q * block + r" "0 \<le> r" "r < block"
    using assms(3) by (simp_all add: q_def r_def)
  have "grid = q" "block \<le> int max_threads" "n + block \<le> 2 ^ 31 - 1"
    using assms(1) by (auto simp: launch_grid_def q_def split: if_splits)
  then show ?thesis using qr by auto
qed

theorem launch_grid_covers_witness:
  "(33554432 :: int) \<le> 174763 * 192 \<and> (174763 :: int) * 192 < 33554432 + 192"
  using launch_grid_covers[of 1024 33554432 192 174763] by (simp add: launch_grid_def)

subsection \<open>What the kernels do\<close>

lemma seed_loop: "parallel_for n (seed_element fp) (\<lambda>C. arrays_of n (fst \<circ> C) (fst \<circ> snd \<circ> C) (snd \<circ> snd \<circ> C))
    (\<lambda>j _. (fp_nat fp 0, fp_nat fp 2, fp_nat fp 3))"
  by unfold_locales (auto simp: seed_element_def arrays_of_def map_update fun_upd_def comp_def if_distrib intro!: nth_equalityI)

interpretation seed: kernel_launch "int_len n" "2 ^ 31" "initialize fp b (int (int_len n))"
    "\<lambda>C. arrays_of (int_len n) (fst \<circ> C) (fst \<circ> snd \<circ> C) (snd \<circ> snd \<circ> C)" "\<lambda>j _. (fp_nat fp 0, fp_nat fp 2, fp_nat fp 3)"
    for n b fp
  unfolding initialize_def by (rule launch_locale, rule seed_loop)

interpretation ctriad: kernel_launch "int_len n" "2 ^ 31" "controlled_triad fp b (int (int_len n))"
    "\<lambda>A. arrays_of (int_len n) A B C" "\<lambda>j _. fp_add fp (B j) (fp_mul fp (fp_nat fp 3) (C j))" for n b fp B C
  unfolding controlled_triad_def by (rule launch_locale, rule triad.parallel_for_axioms)

lemma initialize_launch:
  assumes "mset ks = mset [0..<threads]" and "n < 2 ^ 31" and "n \<le> threads" and "threads \<le> 2 ^ 31"
    and "length (arr_a s) = n" and "length (arr_b s) = n" and "length (arr_c s) = n"
  shows "for_each ks (initialize fp b (int n)) s = Inr (uniform n (fp_nat fp 0, fp_nat fp 2, fp_nat fp 3))"
proof -
  have n: "int_len n = n" using assms(2) by simp
  let ?C = "\<lambda>j. (arr_a s ! j, arr_b s ! j, arr_c s ! j)"
  have "s = arrays_of n (fst \<circ> ?C) (fst \<circ> snd \<circ> ?C) (snd \<circ> snd \<circ> ?C)"
    using assms(5-7) by (cases s) (auto simp: arrays_of_def intro!: nth_equalityI)
  then show ?thesis
    using seed.launch[of ks threads n fp b ?C, unfolded n, OF assms(1,3,4)] by (simp add: comp_def)
qed

lemma triad_launch:
  assumes "mset ks = mset [0..<threads]" and "n < 2 ^ 31" and "n \<le> threads" and "threads \<le> 2 ^ 31"
  shows "for_each ks (controlled_triad fp b (int n)) (uniform n (x, fp_nat fp 2, fp_nat fp 3)) =
    Inr (uniform n (fp_add fp (fp_nat fp 2) (fp_mul fp (fp_nat fp 3) (fp_nat fp 3)), fp_nat fp 2, fp_nat fp 3))"
proof -
  have n: "int_len n = n" using assms(2) by simp
  show ?thesis using ctriad.launch[of ks threads n fp b, unfolded n, OF assms(1,3,4)] by simp
qed

text \<open>The validation counts the wrong elements, whatever the order of the threads.\<close>
theorem validation_counts:
  assumes "mset ks = mset [0..<threads]" and "n \<le> threads" and "threads \<le> 2 ^ 31"
    and "length (arr_a s) = n" and "length (arr_b s) = n" and "length (arr_c s) = n"
  shows "for_each ks (validate_arrays fp isfinite s b (int n)) 0 =
    Inr (card {i. i < n \<and> wrong_values fp isfinite (arr_a s ! i) (arr_b s ! i) (arr_c s ! i)})"
proof -
  let ?wrong = "\<lambda>i. i < n \<and> wrong_values fp isfinite (arr_a s ! i) (arr_b s ! i) (arr_c s ! i)"
  have ks: "set ks = {..<threads}" "length ks = threads" "distinct ks"
    using mset_eq_setD[OF assms(1)] mset_eq_length[OF assms(1)] mset_eq_imp_distinct_iff[OF assms(1)]
    by (auto simp: atLeast0LessThan)
  have "for_each js (validate_arrays fp isfinite s b (int n)) bad = Inr (bad + length (filter ?wrong js))"
    if "set js \<subseteq> {..<threads}" "bad + length js < W64" for js bad
    using that
  proof (induction js arbitrary: bad)
    case (Cons j js)
    have j: "j < 2 ^ 31" using Cons.prems(1) assms(3) by auto
    have "add64 bad 1 = bad + 1" using Cons.prems(2) by (simp add: c_arith)
    then have "validate_arrays fp isfinite s b (int n) j bad = Inr (if ?wrong j then bad + 1 else bad)"
      using guarded_thread[OF j, of b n "validate_element fp isfinite s" bad] assms(4-6)
      by (auto simp: validate_arrays_def validate_element_def)
    then show ?case using Cons by simp
  qed simp
  from this[of ks 0] have "for_each ks (validate_arrays fp isfinite s b (int n)) 0 = Inr (length (filter ?wrong ks))"
    using ks assms(3) by (simp add: W64_def)
  also have "length (filter ?wrong ks) = card {i. ?wrong i}"
  proof -
    have "length (filter ?wrong ks) = card (set (filter ?wrong ks))"
      by (rule distinct_card[OF distinct_filter[OF ks(3)], symmetric])
    also have "set (filter ?wrong ks) = {i. ?wrong i}"
      unfolding set_filter ks(1) lessThan_iff using less_le_trans[OF _ assms(2)] by blast
    finally show ?thesis .
  qed
  finally show ?thesis .
qed

text \<open>Numbers in which 2 + 3 * 3 is 11, as in double.\<close>

definition triad_exact :: "'d stream_ops \<Rightarrow> ('d \<Rightarrow> bool) \<Rightarrow> bool" where
  "triad_exact fp isfinite \<longleftrightarrow>
     fp_add fp (fp_nat fp 2) (fp_mul fp (fp_nat fp 3) (fp_nat fp 3)) = fp_nat fp 11 \<and>
     isfinite (fp_nat fp 2) \<and> isfinite (fp_nat fp 3) \<and> isfinite (fp_nat fp 11)"

lemma uniform_valid:
  assumes "triad_exact fp isfinite"
  shows "{i. i < n \<and> wrong_values fp isfinite (arr_a (uniform n (fp_nat fp 11, fp_nat fp 2, fp_nat fp 3)) ! i)
    (arr_b (uniform n (fp_nat fp 11, fp_nat fp 2, fp_nat fp 3)) ! i) (arr_c (uniform n (fp_nat fp 11, fp_nat fp 2, fp_nat fp 3)) ! i)} = {}"
  using assms by (auto simp: wrong_values_def triad_exact_def)

end
