(* ===== verification/Triad_Run.thy ===== *)
theory Triad_Run
  imports Triad_Text Triad_Kernels
begin

text \<open>
  The run of \<open>triad_worker.hip\<close>: the checks of the environment and of the device, the arrays, the
  conversation with the coordinator, the measurement between the times it sends, the validation and the
  results. \<open>worker_env\<close> is everything outside the program; an action takes a state and gives an exception or
  a value, and the state it leaves.
\<close>

subsection \<open>Outside and state\<close>

text \<open>The checked calls of HIP; those of the launches are numbered.\<close>

datatype hip_call =
  Get_count | Set_device | Get_properties | Get_pci | Hip_allocate nat | Last_error nat | Sync nat
| Bad_malloc | Bad_memset | Bad_copy | Bad_free

text \<open>
  \<open>hip_error\<close> is the message of a call that fails, \<open>order i t\<close> the order of the \<open>t\<close> threads of the \<open>i\<close>-th
  launch, \<open>clock r\<close> the \<open>r\<close>-th reading of the clock, \<open>kernel_send l\<close> the answers to the sends of the \<open>l\<close>-th line.
\<close>

record 'd worker_env =
  getenv :: "string \<Rightarrow> string"
  devices :: "hip_device list"
  hip_error :: "hip_call \<Rightarrow> string option"
  malloc_block :: "nat \<Rightarrow> nat option"
  hip_block :: "nat \<Rightarrow> nat"
  fresh_arrays :: "nat \<Rightarrow> 'd arrays"
  gpu_fault :: string
  order :: "nat \<Rightarrow> nat \<Rightarrow> nat list"
  clock :: "nat \<Rightarrow> int"
  cpus :: "(nat \<Rightarrow> bool) option"
  socket_ok :: bool
  connect_ok :: bool
  kernel_send :: "nat \<Rightarrow> nat \<Rightarrow> nat \<Rightarrow> int"
  incoming :: string
  file_ok :: "string \<Rightarrow> bool"

text \<open>\<open>live\<close> are the blocks in use with their allocator; \<open>measured\<close> is the variable \<open>launches\<close>.\<close>

record 'd worker_state =
  readings :: nat
  nr_launches :: nat
  arrs :: "'d arrays"
  live :: "(nat \<times> string) list"
  bad_buffer :: bool
  measured :: nat
  batches :: "(int \<times> int \<times> int) list"
  calibrations :: "(string \<times> int \<times> int) list"
  sent_lines :: "string list"
  files :: "(string \<times> string) list"
  fd_open :: bool
  output_path :: string
  printed :: string

type_synonym ('d, 'a) action = "'d worker_state \<Rightarrow> 'a caught \<times> 'd worker_state"

definition xret :: "'a \<Rightarrow> ('d, 'a) action" where
  "xret x s = (Inr x, s)"

definition xthrow :: "string \<Rightarrow> ('d, 'a) action" where
  "xthrow m s = (Inl m, s)"

definition xbind :: "('d, 'a) action \<Rightarrow> ('a \<Rightarrow> ('d, 'b) action) \<Rightarrow> ('d, 'b) action" where
  "xbind m f s = (case m s of (Inl e, s) \<Rightarrow> (Inl e, s) | (Inr x, s) \<Rightarrow> f x s)"

definition xlift :: "'a caught \<Rightarrow> ('d, 'a) action" where
  "xlift r s = (r, s)"

definition require :: "bool \<Rightarrow> string \<Rightarrow> unit caught" where
  "require b m = (if b then Inr () else Inl m)"

definition checked :: "'d worker_env \<Rightarrow> hip_call \<Rightarrow> unit caught" where
  "checked e call = (case hip_error e call of None \<Rightarrow> Inr () | Some m \<Rightarrow> Inl m)"

subsection \<open>Configuration\<close>

record worker_config =
  elements :: int
  block :: int
  batch :: int
  grid :: int

definition device_identity :: "'d worker_env \<Rightarrow> nat \<Rightarrow> string caught" where
  "device_identity e d =
     sbind (checked e Get_properties) (\<lambda>_. sbind (checked e Get_pci) (\<lambda>_. identity d (devices e ! d)))"

definition probe :: "'d worker_env \<Rightarrow> string caught" where
  "probe e =
     sbind (checked e Get_count) (\<lambda>_.
     sbind (foldl (\<lambda>r d. sbind r (\<lambda>out. sbind (device_identity e d) (\<lambda>i. Inr (out @ (if d = 0 then [] else '','') @ i))))
              (Inr ''['') [0..<length (devices e)]) (\<lambda>out.
     Inr (out @ '']'' @ nl)))"

definition check_environment :: "'d worker_env \<Rightarrow> string \<Rightarrow> unit caught" where
  "check_environment e alloc =
     (let xnack = getenv e ''HSA_XNACK'' in
      sbind (require (xnack = ''0'' \<or> xnack = ''1'') ''explicit HSA_XNACK required'') (\<lambda>_.
      sbind (require (alloc \<noteq> ''malloc'' \<or> xnack = ''1'') ''malloc requires XNACK=1'') (\<lambda>_.
      require (getenv e ''ROCR_VISIBLE_DEVICES'' \<noteq> [] \<and> getenv e ''HIP_VISIBLE_DEVICES'' = [] \<and>
               getenv e ''CUDA_VISIBLE_DEVICES'' = []) ''use one explicit ROCr mask only'')))"

definition check_device :: "'d worker_env \<Rightarrow> (string \<rightharpoonup> string) \<Rightarrow> hip_device caught" where
  "check_device e args =
     sbind (checked e Get_count) (\<lambda>_.
     sbind (require (length (devices e) = 1) ''worker must see exactly one GPU'') (\<lambda>_.
     sbind (checked e Set_device) (\<lambda>_. sbind (checked e Get_properties) (\<lambda>_. sbind (checked e Get_pci) (\<lambda>_.
     let prop = devices e ! 0 in
     sbind (bdf (pci_bus_id prop)) (\<lambda>a.
     sbind (require (a = the (args ''--expected-bdf'')) ''selected HIP identity mismatch'') (\<lambda>_.
     sbind (number args ''--expected-cus'' 0) (\<lambda>cus.
     sbind (require (int (compute_units prop) = cus) ''selected HIP identity mismatch'') (\<lambda>_.
     sbind (require (sublist (if getenv e ''HSA_XNACK'' = ''1'' then ''xnack+'' else ''xnack-'') (arch_name prop))
              ''selected HIP XNACK architecture mismatch'') (\<lambda>_.
     Inr prop))))))))))"

definition configure_worker :: "'d worker_env \<Rightarrow> (string \<rightharpoonup> string) \<Rightarrow> worker_config caught" where
  "configure_worker e args =
     sbind (check_environment e (the (args ''--allocator''))) (\<lambda>_.
     sbind (check_device e args) (\<lambda>prop.
     sbind (number args ''--elements'' 33554432) (\<lambda>n.
     sbind (number args ''--block-size'' 192) (\<lambda>b.
     sbind (number args ''--batch-size'' 8) (\<lambda>k.
     case launch_grid (max_threads_per_block prop) n b of
       None \<Rightarrow> Inl ''invalid launch geometry''
     | Some g \<Rightarrow> Inr \<lparr>elements = n, block = b, batch = k, grid = g\<rparr>)))))"

subsection \<open>The arrays\<close>

definition allocate_one :: "'d worker_env \<Rightarrow> string \<Rightarrow> nat \<Rightarrow> nat caught" where
  "allocate_one e alloc i =
     (if alloc = ''malloc'' then (case malloc_block e i of None \<Rightarrow> Inl ''malloc failed'' | Some p \<Rightarrow> Inr p)
      else if alloc \<in> {''hipMalloc'', ''hipMallocManaged'', ''hipHostMalloc''} then
        sbind (checked e (Hip_allocate i)) (\<lambda>_. Inr (hip_block e i))
      else Inl ''unknown allocator'')"

text \<open>The function that frees, as the code chooses it, and as the documentation asks for it; a block given to another
  function stays.\<close>

definition free_api :: "string \<Rightarrow> string" where
  "free_api alloc = (if alloc = ''malloc'' then ''free'' else if alloc = ''hipHostMalloc'' then ''hipHostFree'' else ''hipFree'')"

definition documented_free :: "string \<rightharpoonup> string" where
  "documented_free = map_of [(''malloc'', ''free''), (''hipMalloc'', ''hipFree''), (''hipMallocManaged'', ''hipFree''),
     (''hipHostMalloc'', ''hipHostFree'')]"

definition free_block :: "string \<Rightarrow> nat \<Rightarrow> (nat \<times> string) list \<Rightarrow> (nat \<times> string) list" where
  "free_block api p = filter (\<lambda>(q, a). \<not> (q = p \<and> documented_free a = Some api))"

definition release :: "string \<Rightarrow> nat list \<Rightarrow> 'd worker_state \<Rightarrow> 'd worker_state" where
  "release alloc ps s = s\<lparr>live := foldl (\<lambda>l p. if p \<noteq> 0 then free_block (free_api alloc) p l else l) (live s) ps\<rparr>"

fun allocate_arrays :: "'d worker_env \<Rightarrow> string \<Rightarrow> nat list \<Rightarrow> nat list \<Rightarrow> ('d, nat list) action" where
  "allocate_arrays e alloc [] ps s = (Inr ps, s)"
| "allocate_arrays e alloc (i # is) ps s =
     (case allocate_one e alloc i of
        Inl m \<Rightarrow> (Inl m, release alloc ps s)
      | Inr p \<Rightarrow> allocate_arrays e alloc is (ps @ [p]) (s\<lparr>live := (p, alloc) # live s\<rparr>))"

text \<open>The scope of the object \<open>arrays\<close>; None when the body does not return.\<close>

definition with_arrays ::
    "'d worker_env \<Rightarrow> string \<Rightarrow> ('d worker_state \<Rightarrow> ('a caught \<times> 'd worker_state) option) \<Rightarrow>
     'd worker_state \<Rightarrow> ('a caught \<times> 'd worker_state) option" where
  "with_arrays e alloc body s =
     (case allocate_arrays e alloc [0, 1, 2] [] s of
        (Inl m, s) \<Rightarrow> Some (Inl m, s)
      | (Inr ps, s) \<Rightarrow> map_option (\<lambda>(r, s). (r, release alloc ps s)) (body s))"

subsection \<open>Steps\<close>

definition now_ns :: "'d worker_env \<Rightarrow> ('d, int) action" where
  "now_ns e s = (Inr (clock e (readings s)), s\<lparr>readings := readings s + 1\<rparr>)"

definition marker :: "'d worker_env \<Rightarrow> string \<Rightarrow> ('d, unit) action" where
  "marker e label =
     xbind (now_ns e) (\<lambda>before. xbind (now_ns e) (\<lambda>after. \<lambda>s.
     (Inr (), s\<lparr>calibrations := calibrations s @ [(label, before, after)]\<rparr>)))"

text \<open>A launch; a fault of the kernel shows as an error of HIP.\<close>

definition launch_threads_of :: "worker_config \<Rightarrow> nat" where
  "launch_threads_of c = nat (grid c * block c)"

definition launch_kernel ::
    "'d worker_env \<Rightarrow> worker_config \<Rightarrow> (nat \<Rightarrow> 'd arrays \<Rightarrow> 'd arrays res) \<Rightarrow> ('d, unit) action" where
  "launch_kernel e c kern s =
     (case for_each (order e (nr_launches s) (launch_threads_of c)) kern (arrs s) of
        Inl _ \<Rightarrow> (Inl (gpu_fault e), s)
      | Inr a \<Rightarrow> (Inr (), s\<lparr>arrs := a, nr_launches := nr_launches s + 1\<rparr>))"

fun launches :: "'d worker_env \<Rightarrow> worker_config \<Rightarrow> (nat \<Rightarrow> 'd arrays \<Rightarrow> 'd arrays res) \<Rightarrow> nat \<Rightarrow> ('d, unit) action" where
  "launches e c kern 0 = xret ()"
| "launches e c kern (Suc k) = xbind (launch_kernel e c kern) (\<lambda>_. launches e c kern k)"

definition synchronize :: "'d worker_env \<Rightarrow> ('d, unit) action" where
  "synchronize e s =
     xlift (sbind (checked e (Last_error (nr_launches s))) (\<lambda>_. checked e (Sync (nr_launches s)))) s"

definition send_text :: "'d worker_env \<Rightarrow> string \<Rightarrow> ('d, unit) action" where
  "send_text e data s =
     (case send_line (kernel_send e (length (sent_lines s))) data of
        Inl m \<Rightarrow> (Inl m, s)
      | Inr wire \<Rightarrow> (Inr (), s\<lparr>sent_lines := sent_lines s @ [wire]\<rparr>))"

definition connect_socket :: "'d worker_env \<Rightarrow> string \<Rightarrow> ('d, unit) action" where
  "connect_socket e path s =
     (if \<not> socket_ok e then (Inl ''socket failed'', s)
      else xlift (sbind (require (length path < 108) ''socket path too long'') (\<lambda>_.
                  require (connect_ok e) ''connect failed'')) (s\<lparr>fd_open := True\<rparr>))"

definition write_file :: "'d worker_env \<Rightarrow> string \<Rightarrow> string \<Rightarrow> ('d, unit) action" where
  "write_file e path content s =
     (if file_ok e path then (Inr (), s\<lparr>files := files s @ [(path, content @ nl)]\<rparr>)
      else (Inl ''output write failed'', s))"

definition get_affinity :: "'d worker_env \<Rightarrow> string caught" where
  "get_affinity e = (case cpus e of None \<Rightarrow> Inl ''sched_getaffinity'' | Some isset \<Rightarrow> Inr (affinity isset))"

subsection \<open>The measurement\<close>

definition kernel_of :: "'d stream_ops \<Rightarrow> worker_config \<Rightarrow> nat \<Rightarrow> 'd arrays \<Rightarrow> 'd arrays res" where
  "kernel_of fp c = controlled_triad fp (nat (block c)) (elements c)"

definition warm_up_worker :: "'d worker_env \<Rightarrow> 'd stream_ops \<Rightarrow> worker_config \<Rightarrow> ('d, unit) action" where
  "warm_up_worker e fp c =
     xbind (\<lambda>s. (Inr (), s\<lparr>arrs := fresh_arrays e (nat (elements c))\<rparr>)) (\<lambda>_.
     xbind (launch_kernel e c (initialize fp (nat (block c)) (elements c))) (\<lambda>_. xbind (synchronize e) (\<lambda>_.
     xbind (launches e c (kernel_of fp c) 20) (\<lambda>_. synchronize e))))"

definition ready_line :: "string \<Rightarrow> string \<Rightarrow> string \<Rightarrow> string" where
  "ready_line worker device cores =
     ''{'' @ quote ''state'' @ '':'' @ quote ''ready'' @ '','' @ quote ''worker'' @ '':'' @ quote worker @
     '','' @ quote ''device'' @ '':'' @ device @ '','' @ quote ''affinity'' @ '':'' @ cores @ ''}''"

definition announce :: "'d worker_env \<Rightarrow> (string \<rightharpoonup> string) \<Rightarrow> ('d, unit) action" where
  "announce e args =
     (let worker = the (args ''--worker-id'') in
      xbind (marker e (''rq5_ready_'' @ worker)) (\<lambda>_.
      xbind (connect_socket e (the (args ''--socket''))) (\<lambda>_.
      xbind (xlift (device_identity e 0)) (\<lambda>device. xbind (xlift (get_affinity e)) (\<lambda>cores.
      send_text e (ready_line worker device cores))))))"

definition receive_schedule :: "'d worker_env \<Rightarrow> ('d, worker_schedule) action" where
  "receive_schedule e =
     xbind (xlift (receive_line (incoming e))) (\<lambda>(line, _).
     case read_schedule line of
       None \<Rightarrow> xthrow ''invalid/late measurement schedule''
     | Some sc \<Rightarrow> xbind (now_ns e) (\<lambda>now.
         xbind (xlift (require (now < lead_ns sc \<and> lead_ns sc < t0_ns sc \<and> t0_ns sc < t1_ns sc \<and> t1_ns sc < tail_ns sc)
           ''invalid/late measurement schedule'')) (\<lambda>_. xret sc)))"

partial_function (option) wait_lead :: "(nat \<Rightarrow> int) \<Rightarrow> int \<Rightarrow> nat \<Rightarrow> nat option" where
  "wait_lead now lead r = (if now r < lead then wait_lead now lead (r + 1) else Some (r + 1))"

definition run_batch :: "'d worker_env \<Rightarrow> 'd stream_ops \<Rightarrow> worker_config \<Rightarrow> ('d, unit) action" where
  "run_batch e fp c =
     xbind (now_ns e) (\<lambda>before.
     xbind (launches e c (kernel_of fp c) (nat (batch c))) (\<lambda>_. xbind (synchronize e) (\<lambda>_.
     xbind (now_ns e) (\<lambda>after. \<lambda>s.
     (Inr (), s\<lparr>batches := batches s @ [(before, after, batch c)], measured := add64 (measured s) (nat (batch c))\<rparr>)))))"

partial_function (option) batch_loop ::
    "'d worker_env \<Rightarrow> 'd stream_ops \<Rightarrow> worker_config \<Rightarrow> int \<Rightarrow> 'd worker_state \<Rightarrow> (unit caught \<times> 'd worker_state) option" where
  "batch_loop e fp c tail s =
     (if clock e (readings s) < tail then
        (case run_batch e fp c (s\<lparr>readings := readings s + 1\<rparr>) of
           (Inl m, s) \<Rightarrow> Some (Inl m, s)
         | (Inr _, s) \<Rightarrow> batch_loop e fp c tail s)
      else Some (Inr (), s\<lparr>readings := readings s + 1\<rparr>))"

subsection \<open>Results\<close>

definition validate_on_device ::
    "'d worker_env \<Rightarrow> 'd stream_ops \<Rightarrow> ('d \<Rightarrow> bool) \<Rightarrow> worker_config \<Rightarrow> ('d, nat) action" where
  "validate_on_device e fp isfinite c =
     xbind (xlift (checked e Bad_malloc)) (\<lambda>_. xbind (\<lambda>s. (Inr (), s\<lparr>bad_buffer := True\<rparr>)) (\<lambda>_.
     xbind (xlift (checked e Bad_memset)) (\<lambda>_.
     xbind (\<lambda>s. case for_each (order e (nr_launches s) (launch_threads_of c))
            (validate_arrays fp isfinite (arrs s) (nat (block c)) (elements c)) 0 of
          Inl _ \<Rightarrow> (Inl (gpu_fault e), s)
        | Inr bad \<Rightarrow> (Inr bad, s\<lparr>nr_launches := nr_launches s + 1\<rparr>)) (\<lambda>bad.
     xbind (synchronize e) (\<lambda>_. xbind (xlift (checked e Bad_copy)) (\<lambda>_. xbind (xlift (checked e Bad_free)) (\<lambda>_.
     xbind (\<lambda>s. (Inr (), s\<lparr>bad_buffer := False\<rparr>)) (\<lambda>_. xret bad))))))))"

definition field :: "string \<Rightarrow> string \<Rightarrow> string" where
  "field key v = quote key @ '':'' @ v"

definition calibration_text :: "string \<times> int \<times> int \<Rightarrow> string" where
  "calibration_text = (\<lambda>(label, before, after).
     ''{'' @ commas [field ''label'' (quote label), field ''before_ns'' (int_string before),
       field ''after_ns'' (int_string after)] @ ''}'')"

definition batch_text :: "int \<times> int \<times> int \<Rightarrow> string" where
  "batch_text = (\<lambda>(before, after, k).
     ''{'' @ commas [field ''before_ns'' (int_string before), field ''after_ns'' (int_string after),
       field ''launches'' (int_string k)] @ ''}'')"

definition result_text ::
    "'d worker_env \<Rightarrow> (string \<rightharpoonup> string) \<Rightarrow> worker_config \<Rightarrow> worker_schedule \<Rightarrow> nat \<Rightarrow> string \<Rightarrow> string \<Rightarrow> 'd worker_state \<Rightarrow> string" where
  "result_text e args c sc errors device cores s =
     (let alloc = the (args ''--allocator'') in
      ''{'' @ commas
       [field ''schema_version'' ''1'', field ''worker'' (quote (the (args ''--worker-id''))),
        field ''status'' (quote (if errors \<noteq> 0 then ''invalid'' else ''ok'')),
        field ''validation_errors'' (numeral_string 10 errors),
        field ''device'' device, field ''affinity'' cores,
        field ''rocr_mask'' (quote (getenv e ''ROCR_VISIBLE_DEVICES'')), field ''xnack'' (getenv e ''HSA_XNACK''),
        field ''allocator'' (quote alloc),
        field ''allocator_flag'' (quote (if alloc = ''hipHostMalloc'' then ''hipHostMallocDefault'' else ''API default'')),
        field ''elements'' (int_string (elements c)), field ''element_bytes'' ''8'',
        field ''block_size'' (int_string (block c)), field ''grid_blocks'' (int_string (grid c)),
        field ''batch_size'' (int_string (batch c)), field ''warmup_launches'' ''20'',
        field ''measured_phase_launches'' (numeral_string 10 (measured s)),
        field ''t0_ns'' (int_string (t0_ns sc)), field ''t1_ns'' (int_string (t1_ns sc)),
        field ''calibrations'' (''['' @ commas (map calibration_text (calibrations s)) @ '']''),
        field ''batches'' (''['' @ commas (map batch_text (batches s)) @ '']'')] @ ''}'')"

definition done_line :: string where
  "done_line = ''{'' @ quote ''state'' @ '':'' @ quote ''done'' @ ''}''"

definition finish_worker ::
    "'d worker_env \<Rightarrow> 'd stream_ops \<Rightarrow> ('d \<Rightarrow> bool) \<Rightarrow> (string \<rightharpoonup> string) \<Rightarrow> worker_config \<Rightarrow> worker_schedule \<Rightarrow> ('d, nat) action" where
  "finish_worker e fp isfinite args c sc =
     xbind (marker e (''rq5_done_'' @ the (args ''--worker-id''))) (\<lambda>_.
     xbind (validate_on_device e fp isfinite c) (\<lambda>errors.
     xbind (xlift (device_identity e 0)) (\<lambda>device. xbind (xlift (get_affinity e)) (\<lambda>cores.
     xbind (\<lambda>s. write_file e (the (args ''--output'')) (result_text e args c sc errors device cores s) s) (\<lambda>_.
     xbind (send_text e done_line) (\<lambda>_.
     xbind (\<lambda>s. (Inr (), s\<lparr>fd_open := False\<rparr>)) (\<lambda>_. xret (if errors \<noteq> 0 then 2 else 0))))))))"

subsection \<open>main\<close>

definition measure_worker ::
    "'d worker_env \<Rightarrow> 'd stream_ops \<Rightarrow> ('d \<Rightarrow> bool) \<Rightarrow> (string \<rightharpoonup> string) \<Rightarrow> worker_config \<Rightarrow> 'd worker_state \<Rightarrow>
     (nat caught \<times> 'd worker_state) option" where
  "measure_worker e fp isfinite args c s =
     (case xbind (warm_up_worker e fp c) (\<lambda>_. xbind (announce e args) (\<lambda>_. receive_schedule e)) s of
        (Inl m, s) \<Rightarrow> Some (Inl m, s)
      | (Inr sc, s) \<Rightarrow>
          (case wait_lead (clock e) (lead_ns sc) (readings s) of
             None \<Rightarrow> None
           | Some r \<Rightarrow>
               (case batch_loop e fp c (tail_ns sc) (s\<lparr>readings := r\<rparr>) of
                  None \<Rightarrow> None
                | Some (Inl m, s) \<Rightarrow> Some (Inl m, s)
                | Some (Inr _, s) \<Rightarrow> Some (finish_worker e fp isfinite args c sc s))))"

text \<open>The handler of the exceptions; a second one, while it writes the output, is dropped.\<close>

definition failed_worker :: "'d worker_env \<Rightarrow> string \<Rightarrow> 'd worker_state \<Rightarrow> nat \<times> 'd worker_state" where
  "failed_worker e m s =
     (let s = s\<lparr>fd_open := False\<rparr>; path = output_path s in
      (1, if path = [] then s
          else snd (write_file e path (''{'' @ field ''status'' (quote ''failed'') @ '','' @ field ''error'' (quote m) @ ''}'') s)))"

definition worker_initial :: "'d worker_state" where
  "worker_initial = \<lparr>readings = 0, nr_launches = 0, arrs = \<lparr>arr_a = [], arr_b = [], arr_c = []\<rparr>, live = [], bad_buffer = False,
     measured = 0, batches = [], calibrations = [], sent_lines = [], files = [], fd_open = False, output_path = [], printed = []\<rparr>"

definition worker_main ::
    "'d worker_env \<Rightarrow> 'd stream_ops \<Rightarrow> ('d \<Rightarrow> bool) \<Rightarrow> string list \<Rightarrow> (nat \<times> 'd worker_state) option" where
  "worker_main e fp isfinite ws =
     (if ws = [''--probe''] then
        (case probe e of
           Inl m \<Rightarrow> Some (failed_worker e m worker_initial)
         | Inr out \<Rightarrow> Some (0, worker_initial\<lparr>printed := out\<rparr>))
      else case worker_arguments ws of
        Inl m \<Rightarrow> Some (failed_worker e m worker_initial)
      | Inr args \<Rightarrow>
          (let s = worker_initial\<lparr>output_path := the (args ''--output'')\<rparr> in
           case configure_worker e args of
             Inl m \<Rightarrow> Some (failed_worker e m s)
           | Inr c \<Rightarrow> map_option (\<lambda>(r, s). case r of Inl m \<Rightarrow> failed_worker e m s | Inr k \<Rightarrow> (k, s))
               (with_arrays e (the (args ''--allocator'')) (measure_worker e fp isfinite args c) s)))"

end
