(* ===== verification/Triad_Safe.thy ===== *)
theory Triad_Safe
  imports Triad_Run
begin

text \<open>
  What holds of every run of \<open>triad_worker.hip\<close>, whatever fails in it: the arrays are freed once with the
  function that belongs to their allocator, the socket is closed, the counters agree with the batches, and
  the arrays hold what the validation expects.
\<close>

subsection \<open>Actions that leave a part of the state alone\<close>

definition preserves :: "('d worker_state \<Rightarrow> 'b) \<Rightarrow> ('d, 'a) action \<Rightarrow> bool" where
  "preserves g m \<longleftrightarrow> (\<forall>s. g (snd (m s)) = g s)"

text \<open>What the measurement is about.\<close>

definition data :: "'d worker_state \<Rightarrow> 'd arrays \<times> nat \<times> (int \<times> int \<times> int) list" where
  "data s = (arrs s, measured s, batches s)"

named_theorems keeping \<open>actions that leave a part of the state alone\<close>

lemma keeps_xbind [keeping]: "preserves g m \<Longrightarrow> (\<And>x. preserves g (f x)) \<Longrightarrow> preserves g (xbind m f)"
  by (auto simp: preserves_def xbind_def split: sum.split prod.split) (metis snd_conv)+

lemma keeps_value [keeping]: "preserves g (xret x)" "preserves g (xthrow m)" "preserves g (xlift r)" "preserves g (synchronize e)"
  by (auto simp: preserves_def xret_def xthrow_def xlift_def synchronize_def)

lemma keeps_now [keeping]: "preserves live (now_ns e)" "preserves data (now_ns e)"
  by (simp_all add: preserves_def data_def now_ns_def)

lemma keeps_outside [keeping]:
  "preserves live (send_text e text)" "preserves data (send_text e text)"
  "preserves live (connect_socket e path)" "preserves data (connect_socket e path)"
  "preserves live (write_file e path content)" "preserves data (write_file e path content)"
  by (auto simp: preserves_def data_def xlift_def send_text_def connect_socket_def write_file_def split: sum.split)

lemma keeps_launch [keeping]: "preserves live (launch_kernel e c kern)"
  by (auto simp: preserves_def launch_kernel_def split: sum.split)

lemma keeps_launches [keeping]: "preserves live (launches e c kern k)"
  by (induction k) (auto intro!: keeping)

lemma keeps_update [keeping]: "(\<And>s. g (f s) = g s) \<Longrightarrow> preserves g (\<lambda>s. (Inr x, f s))"
  by (simp add: preserves_def)

lemma keeps_marker [keeping]: "preserves live (marker e label)" "preserves data (marker e label)"
  unfolding marker_def by (intro keeping; simp add: data_def)+

lemma keeps_announce [keeping]: "preserves live (announce e args)" "preserves data (announce e args)"
  unfolding announce_def Let_def by (intro keeping)+

lemma keeps_receive [keeping]: "preserves live (receive_schedule e)" "preserves data (receive_schedule e)"
  unfolding receive_schedule_def by (intro keeping; auto intro!: keeping split: option.split)+

lemma keeps_warm_up [keeping]: "preserves live (warm_up_worker e fp c)"
  unfolding warm_up_worker_def by (intro keeping) simp

lemma keeps_run_batch [keeping]: "preserves live (run_batch e fp c)"
  unfolding run_batch_def by (intro keeping) simp

lemma keeps_validate [keeping]:
  "preserves live (validate_on_device e fp isfinite c)" "preserves data (validate_on_device e fp isfinite c)"
proof -
  have bad: "preserves live (\<lambda>s. case for_each (order e (nr_launches s) n) (k s) 0 of
      Inl _ \<Rightarrow> (Inl m, s) | Inr bad \<Rightarrow> (Inr bad, s\<lparr>nr_launches := nr_launches s + 1\<rparr>))"
    "preserves data (\<lambda>s. case for_each (order e (nr_launches s) n) (k s) 0 of
      Inl _ \<Rightarrow> (Inl m, s) | Inr bad \<Rightarrow> (Inr bad, s\<lparr>nr_launches := nr_launches s + 1\<rparr>))" for n k m
    by (auto simp: preserves_def data_def split: sum.split)
  show "preserves live (validate_on_device e fp isfinite c)" "preserves data (validate_on_device e fp isfinite c)"
    unfolding validate_on_device_def by (intro keeping bad; simp add: data_def)+
qed

lemma keeps_finish [keeping]: "preserves live (finish_worker e fp isfinite args c sc)"
proof -
  have wr: "preserves live (\<lambda>s. write_file e path (f s) s)" for path f
    by (auto simp: preserves_def write_file_def)
  show ?thesis
    unfolding finish_worker_def by (intro keeping wr; simp)+
qed

lemma keepsD: "preserves g m \<Longrightarrow> m s = (r, s') \<Longrightarrow> g s' = g s"
  by (metis preserves_def snd_conv)

text \<open>What a batch keeps, the loop keeps.\<close>

lemma batch_loop_invariant:
  assumes "batch_loop e fp c tail s = Some y" and "I s"
    and step: "\<And>s q s'. I s \<Longrightarrow> clock e (readings s) < tail \<Longrightarrow>
      run_batch e fp c (s\<lparr>readings := readings s + 1\<rparr>) = (q, s') \<Longrightarrow> I s'"
    and last: "\<And>s. I s \<Longrightarrow> I (s\<lparr>readings := readings s + 1\<rparr>)"
  shows "I (snd y) \<and> (fst y = Inr () \<or> (\<exists>s m s'. I s \<and> run_batch e fp c (s\<lparr>readings := readings s + 1\<rparr>) = (Inl m, s')))"
proof -
  let ?good = "\<lambda>y. I (snd y) \<and> (fst y = Inr () \<or> (\<exists>s m s'. I s \<and> run_batch e fp c (s\<lparr>readings := readings s + 1\<rparr>) = (Inl m, s')))"
  let ?P = "\<lambda>e' fp' c' tail' s y. e' = e \<longrightarrow> fp' = fp \<longrightarrow> c' = c \<longrightarrow> tail' = tail \<longrightarrow> I s \<longrightarrow> ?good y"
  have "?P e fp c tail s y"
  proof (rule batch_loop.raw_induct[where P = ?P, OF _ assms(1)], intro impI)
    fix loop e' fp' c' tail' s y
    assume ih: "\<And>e' fp' c' tail' s y. loop e' fp' c' tail' s = Some y \<Longrightarrow> ?P e' fp' c' tail' s y"
      and round: "(if clock e' (readings s) < tail' then
          (case run_batch e' fp' c' (s\<lparr>readings := readings s + 1\<rparr>) of
             (Inl m, s) \<Rightarrow> Some (Inl m, s)
           | (Inr _, s) \<Rightarrow> loop e' fp' c' tail' s)
        else Some (Inr (), s\<lparr>readings := readings s + 1\<rparr>)) = Some y"
      and same: "e' = e" "fp' = fp" "c' = c" "tail' = tail" and I: "I s"
    show "?good y"
    proof (cases "clock e (readings s) < tail")
      case True
      obtain q s1 where b: "run_batch e fp c (s\<lparr>readings := readings s + 1\<rparr>) = (q, s1)" by force
      have I1: "I s1" by (rule step[OF I True b])
      show ?thesis
      proof (cases q)
        case (Inl m)
        then show ?thesis using round b True same I I1 by auto
      next
        case (Inr u)
        then show ?thesis using round b True same I1 ih[of e fp c tail s1 y] by simp
      qed
    next
      case False
      then show ?thesis using round same last[OF I] by auto
    qed
  qed
  then show ?thesis using assms(2) by simp
qed

lemma batch_loop_keeps:
  assumes "batch_loop e fp c tail s = Some y"
  shows "live (snd y) = live s"
  using keepsD[OF keeps_run_batch]
  by (intro batch_loop_invariant[OF assms, of "\<lambda>s'. live s' = live s", THEN conjunct1]) fastforce+

lemma measure_keeps:
  assumes "measure_worker e fp isfinite args c s = Some y"
  shows "live (snd y) = live s"
proof -
  let ?m = "xbind (warm_up_worker e fp c) (\<lambda>_. xbind (announce e args) (\<lambda>_. receive_schedule e))"
  obtain q s1 where m: "?m s = (q, s1)" by force
  then have 1: "live s1 = live s" by (rule keepsD[rotated]) (intro keeping)
  show ?thesis
  proof (cases q)
    case (Inl x)
    then show ?thesis using assms m 1 by (auto simp: measure_worker_def)
  next
    case (Inr sc)
    then obtain r where "wait_lead (clock e) (lead_ns sc) (readings s1) = Some r"
      and *: "(case batch_loop e fp c (tail_ns sc) (s1\<lparr>readings := r\<rparr>) of
                  None \<Rightarrow> None
                | Some (Inl m, s) \<Rightarrow> Some (Inl m, s)
                | Some (Inr _, s) \<Rightarrow> Some (finish_worker e fp isfinite args c sc s)) = Some y"
      using assms m by (auto simp: measure_worker_def split: option.splits)
    then obtain q2 s2 where b: "batch_loop e fp c (tail_ns sc) (s1\<lparr>readings := r\<rparr>) = Some (q2, s2)"
      by (auto split: option.splits)
    then have 2: "live s2 = live s" using batch_loop_keeps[OF b] 1 by simp
    show ?thesis
    proof (cases q2)
      case (Inl x)
      then show ?thesis using * b 2 by auto
    next
      case (Inr u)
      then have "finish_worker e fp isfinite args c sc s2 = y" using * b by simp
      then show ?thesis using keeps_finish[of e fp isfinite args c sc] 2 unfolding preserves_def by metis
    qed
  qed
qed

text \<open>The blocks the list of pointers can free.\<close>

definition owned :: "nat list \<Rightarrow> (nat \<times> string) list \<Rightarrow> string \<Rightarrow> bool" where
  "owned ps l alloc \<longleftrightarrow>
     (\<forall>q a. (q, a) \<in> set l \<longrightarrow> a = alloc \<and> q \<in> set ps \<and> q \<noteq> 0 \<and> documented_free alloc = Some (free_api alloc))"

lemma owned_step:
  assumes "owned (p # ps) l alloc"
  shows "owned ps (if p \<noteq> 0 then free_block (free_api alloc) p l else l) alloc"
  unfolding owned_def
proof (intro allI impI)
  fix q a
  assume *: "(q, a) \<in> set (if p \<noteq> 0 then free_block (free_api alloc) p l else l)"
  then have l: "(q, a) \<in> set l" and kept: "p \<noteq> 0 \<Longrightarrow> \<not> (q = p \<and> documented_free a = Some (free_api alloc))"
    by (auto simp: free_block_def split: if_splits)
  have "a = alloc" "q = p \<or> q \<in> set ps" "q \<noteq> 0" "documented_free alloc = Some (free_api alloc)"
    using assms[unfolded owned_def, rule_format, OF l] by simp_all
  then show "a = alloc \<and> q \<in> set ps \<and> q \<noteq> 0 \<and> documented_free alloc = Some (free_api alloc)"
    using kept by metis
qed

lemma release_owned: "owned ps (live s) alloc \<Longrightarrow> live (release alloc ps s) = []"
proof -
  have "owned ps l alloc \<Longrightarrow> foldl (\<lambda>l p. if p \<noteq> 0 then free_block (free_api alloc) p l else l) l ps = []" for l
  proof (induction ps arbitrary: l)
    case Nil
    then show ?case by (cases l) (auto simp: owned_def)
  next
    case (Cons p ps)
    show ?case unfolding foldl_Cons by (rule Cons.IH[OF owned_step[OF Cons.prems]])
  qed
  then show "owned ps (live s) alloc \<Longrightarrow> live (release alloc ps s) = []"
    by (simp add: release_def)
qed

lemma allocate_one_known:
  assumes "allocate_one e alloc i = Inr p" and "malloc_block e i \<noteq> Some 0" and "hip_block e i \<noteq> 0"
  shows "p \<noteq> 0" and "documented_free alloc = Some (free_api alloc)"
proof -
  have "(alloc = ''malloc'' \<and> malloc_block e i = Some p) \<or> (alloc \<in> {''hipMalloc'', ''hipMallocManaged'', ''hipHostMalloc''} \<and> p = hip_block e i)"
    using assms(1) unfolding allocate_one_def by (auto simp: sbind_Inr split: if_splits option.splits)
  then show "p \<noteq> 0" "documented_free alloc = Some (free_api alloc)"
    using assms(2,3) by (auto simp: documented_free_def free_api_def)
qed

lemma allocate_owned:
  assumes "\<And>i. malloc_block e i \<noteq> Some 0" and "\<And>i. hip_block e i \<noteq> 0"
    and "owned ps (live s) alloc" and "allocate_arrays e alloc is ps s = (r, s')"
  shows "case r of Inl m \<Rightarrow> live s' = [] | Inr ps' \<Rightarrow> owned ps' (live s') alloc"
  using assms(3,4)
proof (induction "is" arbitrary: ps s)
  case (Cons i "is")
  show ?case
  proof (cases "allocate_one e alloc i")
    case (Inl m)
    then show ?thesis using Cons by (auto simp: release_owned)
  next
    case (Inr p)
    note known = allocate_one_known[OF Inr assms(1)[of i] assms(2)[of i]]
    have "owned (ps @ [p]) ((p, alloc) # live s) alloc"
      using Cons.prems(1) known by (auto simp: owned_def)
    then show ?thesis
      using Cons.IH[of "ps @ [p]" "s\<lparr>live := (p, alloc) # live s\<rparr>"] Cons.prems(2) Inr by simp
  qed
qed auto

lemma with_arrays_releases:
  assumes "\<And>i. malloc_block e i \<noteq> Some 0" and "\<And>i. hip_block e i \<noteq> 0" and "live s = []"
    and "\<And>s y. body s = Some y \<Longrightarrow> live (snd y) = live s"
    and "with_arrays e alloc body s = Some y"
  shows "live (snd y) = []"
proof -
  obtain r s1 where a: "allocate_arrays e alloc [0, 1, 2] [] s = (r, s1)" by force
  have "owned [] (live s) alloc" using assms(3) by (simp add: owned_def)
  note o = allocate_owned[OF assms(1,2) this a]
  show ?thesis
  proof (cases r)
    case (Inl m)
    then show ?thesis using assms(5) a o by (auto simp: with_arrays_def)
  next
    case (Inr ps)
    then obtain q s2 where b: "body s1 = Some (q, s2)" "y = (q, release alloc ps s2)"
      using assms(5) a by (auto simp: with_arrays_def)
    then show ?thesis using assms(4)[OF b(1)] o Inr by (simp add: release_owned)
  qed
qed

lemma xbind_Inr: "xbind m f s = (Inr y, s') \<longleftrightarrow> (\<exists>x s1. m s = (Inr x, s1) \<and> f x s1 = (Inr y, s'))"
  by (auto simp: xbind_def split: sum.splits prod.splits)

lemma send_loop_whole:
  assumes "send_loop kern k wire pos sent = Inr out" and "sent = take pos wire"
  shows "out = wire"
  using assms
proof (induction kern k wire pos sent rule: send_loop.induct)
  case (1 kern k wire pos sent)
  show ?case
  proof (cases "pos < length wire")
    case True
    let ?n = "kern k (length wire - pos)"
    have n: "\<not> ?n \<le> 0" using 1(2) True by (subst (asm) send_loop.simps) (auto simp: Let_def split: if_splits)
    have "sent @ take (nat ?n) (drop pos wire) = take (pos + nat ?n) wire"
      using 1(3) by (simp add: take_add)
    then show ?thesis using 1(1)[OF True refl n] 1(2) True n by (subst (asm) (2) send_loop.simps) (simp add: Let_def)
  next
    case False
    then show ?thesis using 1(2,3) by (subst (asm) send_loop.simps) simp
  qed
qed

lemma send_text_sent: "send_text e text s = (Inr u, s') \<Longrightarrow> s' = s\<lparr>sent_lines := sent_lines s @ [text @ nl]\<rparr>"
  by (auto simp: send_text_def send_line_def dest!: send_loop_whole split: sum.splits)

lemma write_file_written: "write_file e path content s = (Inr u, s') \<Longrightarrow> s' = s\<lparr>files := files s @ [(path, content @ nl)]\<rparr>"
  by (auto simp: write_file_def split: if_splits)

lemma finish_result:
  assumes "finish_worker e fp isfinite args c sc s = (Inr k, s')"
  obtains errors device cores s2 s3 where
    "k = (if errors \<noteq> 0 then 2 else 0)" "\<not> fd_open s'" "data s' = data s" "arrs s2 = arrs s"
    "last (files s') = (the (args ''--output''), result_text e args c sc errors device cores s' @ nl)"
    "last (sent_lines s') = done_line @ nl" "validate_on_device e fp isfinite c s2 = (Inr errors, s3)"
    "device_identity e 0 = Inr device" "get_affinity e = Inr cores"
proof -
  obtain u errors device cores a b d s1 s2 where
    m: "marker e (''rq5_done_'' @ the (args ''--worker-id'')) s = (Inr u, a)"
    and v: "validate_on_device e fp isfinite c a = (Inr errors, b)"
    and i: "xlift (device_identity e 0) b = (Inr device, d)" and g: "xlift (get_affinity e) d = (Inr cores, s1)"
    and w: "write_file e (the (args ''--output'')) (result_text e args c sc errors device cores s1) s1 = (Inr (), s2)"
    and t: "\<exists>s3. send_text e done_line s2 = (Inr (), s3) \<and> s' = s3\<lparr>fd_open := False\<rparr>"
    and k: "k = (if errors \<noteq> 0 then 2 else 0)"
    using assms unfolding finish_worker_def xbind_Inr xret_def by auto
  have "data a = data s" by (rule keepsD[OF keeps_marker(2) m])
  moreover have "data b = data a" by (rule keepsD[OF keeps_validate(2) v])
  moreover have "data s1 = data b" using i g by (simp add: xlift_def)
  ultimately have "data s1 = data s" by simp
  obtain s3 where s': "s' = s1\<lparr>files := files s1 @ [(the (args ''--output''), result_text e args c sc errors device cores s1 @ nl)],
      sent_lines := sent_lines s1 @ [done_line @ nl], fd_open := False\<rparr>"
    using write_file_written[OF w] t send_text_sent[of e done_line s2] by auto
  have "data s' = data s" using \<open>data s1 = data s\<close> by (simp add: s' data_def)
  moreover have "result_text e args c sc errors device cores s' = result_text e args c sc errors device cores s1"
    by (simp add: s' result_text_def)
  moreover have "arrs a = arrs s" using \<open>data a = data s\<close> by (simp add: data_def)
  ultimately show ?thesis
    by (intro that[OF k _ _ _ _ _ v]) (use i g in \<open>simp_all add: s' xlift_def\<close>)
qed

lemma measure_ends:
  assumes "measure_worker e fp isfinite args c s = Some (Inr k, s')"
  shows "\<exists>s1 sc. finish_worker e fp isfinite args c sc s1 = (Inr k, s')"
  using assms unfolding measure_worker_def by (auto split: prod.splits sum.splits option.splits)

lemma allocate_data: "allocate_arrays e alloc is ps s = (r, s') \<Longrightarrow> data s' = data s"
  by (induction "is" arbitrary: ps s) (auto simp: data_def release_def split: sum.splits)

lemma with_arrays_ends:
  assumes "with_arrays e alloc body s = Some (Inr k, s')"
  shows "\<exists>s1 s2 ps. body s1 = Some (Inr k, s2) \<and> s' = release alloc ps s2 \<and> data s1 = data s"
proof -
  obtain r s1 where a: "allocate_arrays e alloc [0, 1, 2] [] s = (r, s1)" by force
  then show ?thesis using assms allocate_data[OF a] by (cases r) (auto simp: with_arrays_def)
qed

text \<open>The ways a run ends.\<close>

lemma worker_main_cases:
  assumes "worker_main e fp isfinite ws = Some (code, s)"
  obtains
    (probed) out where "ws = [''--probe'']" "code = 0" "s = worker_initial\<lparr>printed := out\<rparr>"
  | (early) m path where "failed_worker e m (worker_initial\<lparr>output_path := path\<rparr>) = (code, s)"
  | (late) args c m s1 where "worker_arguments ws = Inr args" "configure_worker e args = Inr c"
      "with_arrays e (the (args ''--allocator'')) (measure_worker e fp isfinite args c)
         (worker_initial\<lparr>output_path := the (args ''--output'')\<rparr>) = Some (Inl m, s1)"
      "failed_worker e m s1 = (code, s)"
  | (ended) args c where "worker_arguments ws = Inr args" "configure_worker e args = Inr c"
      "with_arrays e (the (args ''--allocator'')) (measure_worker e fp isfinite args c)
         (worker_initial\<lparr>output_path := the (args ''--output'')\<rparr>) = Some (Inr code, s)"
proof -
  have start: "worker_initial = worker_initial\<lparr>output_path := []\<rparr>" by (simp add: worker_initial_def)
  note early0 = early[of _ "[]", folded start]
  show ?thesis
  proof (cases "ws = [''--probe'']")
    case True
    then show ?thesis
      using assms probed early0 by (cases "probe e") (auto simp: worker_main_def)
  next
    case False
    show ?thesis
    proof (cases "worker_arguments ws")
      case (Inl m)
      then show ?thesis using assms False early0 by (auto simp: worker_main_def)
    next
      case args: (Inr args)
      show ?thesis
      proof (cases "configure_worker e args")
        case (Inl m)
        then show ?thesis using assms False args early by (auto simp: worker_main_def Let_def)
      next
        case (Inr c)
        then obtain r s1 where "with_arrays e (the (args ''--allocator'')) (measure_worker e fp isfinite args c)
             (worker_initial\<lparr>output_path := the (args ''--output'')\<rparr>) = Some (r, s1)"
          and "(case r of Inl m \<Rightarrow> failed_worker e m s1 | Inr k \<Rightarrow> (k, s1)) = (code, s)"
          using assms False args by (auto simp: worker_main_def Let_def)
        then show ?thesis using late[OF args Inr] ended[OF args Inr] by (cases r) auto
      qed
    qed
  qed
qed

text \<open>C39: Whatever fails in the controlled TRIAD worker - an argument, a call of HIP, an
  allocation, the socket, a kernel, the file - a run that ends has freed each of its arrays with
  the function that belongs to its allocator, has closed the socket, and exits with 0, 1 or 2.\<close>
theorem worker_releases:
  assumes blocks: "\<And>i. malloc_block e i \<noteq> Some 0" "\<And>i. hip_block e i \<noteq> 0"
    and "worker_main e fp isfinite ws = Some (code, s)"
  shows "live s = [] \<and> \<not> fd_open s \<and> code \<in> {0, 1, 2}"
proof -
  have failed: "live s = [] \<and> \<not> fd_open s \<and> code \<in> {0, 1, 2}"
    if "failed_worker e m s0 = (code, s)" "live s0 = []" for m s0
    using that by (auto simp: failed_worker_def write_file_def Let_def split: if_splits)
  have start: "live (worker_initial\<lparr>output_path := path\<rparr>) = []" for path by (simp add: worker_initial_def)
  from assms(3) show ?thesis
  proof (cases rule: worker_main_cases)
    case probed
    then show ?thesis by (simp add: worker_initial_def)
  next
    case early
    then show ?thesis using failed start by blast
  next
    case late
    then show ?thesis using failed with_arrays_releases[OF blocks start measure_keeps late(3)] by simp
  next
    case (ended args c)
    then obtain t1 t2 ps where "measure_worker e fp isfinite args c t1 = Some (Inr code, t2)"
      and s: "s = release (the (args ''--allocator'')) ps t2"
      using with_arrays_ends[OF ended(3)] by blast
    then obtain t3 sc where "finish_worker e fp isfinite args c sc t3 = (Inr code, t2)" using measure_ends by blast
    then have "\<not> fd_open t2 \<and> code \<in> {0, 2}" by (rule finish_result) auto
    then show ?thesis
      using with_arrays_releases[OF blocks start measure_keeps ended(3)] s by (auto simp: release_def)
  qed
qed

subsection \<open>What the arrays and the counters hold\<close>

text \<open>A launch runs its threads in some order; a new allocation has its size; the numbers are exact.\<close>

definition fair_orders :: "'d worker_env \<Rightarrow> bool" where
  "fair_orders e \<longleftrightarrow> (\<forall>i t. mset (order e i t) = mset [0..<t])"

definition sized_arrays :: "'d worker_env \<Rightarrow> bool" where
  "sized_arrays e \<longleftrightarrow> (\<forall>n. length (arr_a (fresh_arrays e n)) = n \<and> length (arr_b (fresh_arrays e n)) = n \<and>
     length (arr_c (fresh_arrays e n)) = n)"

definition covered :: "worker_config \<Rightarrow> bool" where
  "covered c \<longleftrightarrow> 1 \<le> elements c \<and> elements c \<le> grid c * block c \<and> grid c * block c < 2 ^ 31"

definition expected :: "'d stream_ops \<Rightarrow> worker_config \<Rightarrow> 'd arrays" where
  "expected fp c = uniform (nat (elements c)) (fp_nat fp 11, fp_nat fp 2, fp_nat fp 3)"

lemma coveredD:
  assumes "covered c"
  shows "nat (elements c) < 2 ^ 31" "nat (elements c) \<le> launch_threads_of c" "launch_threads_of c \<le> 2 ^ 31"
    "int (nat (elements c)) = elements c"
  using assms by (auto simp: covered_def launch_threads_of_def)

lemma number_positive: "number args key v = Inr n \<Longrightarrow> 1 \<le> v \<Longrightarrow> 1 \<le> n"
  by (auto simp: number_def split: option.splits if_splits prod.splits)

lemma configure_covered:
  assumes "configure_worker e args = Inr c"
  shows "covered c"
proof -
  obtain p :: hip_device and n b k where n: "number args ''--elements'' 33554432 = Inr n" and b: "number args ''--block-size'' 192 = Inr b"
    and c: "(case launch_grid (max_threads_per_block p) n b of None \<Rightarrow> Inl ''invalid launch geometry''
      | Some g \<Rightarrow> Inr \<lparr>elements = n, block = b, batch = k, grid = g\<rparr>) = Inr c"
    using assms unfolding configure_worker_def sbind_Inr by blast
  then obtain g where "launch_grid (max_threads_per_block p) n b = Some g" "c = \<lparr>elements = n, block = b, batch = k, grid = g\<rparr>"
    by (cases "launch_grid (max_threads_per_block p) n b") auto
  then show ?thesis
    using launch_grid_covers number_positive[OF n] number_positive[OF b] by (simp add: covered_def)
qed

lemma launch_runs:
  assumes "for_each (order e (nr_launches s) (launch_threads_of c)) kern (arrs s) = Inr a"
  shows "launch_kernel e c kern s = (Inr (), s\<lparr>arrs := a, nr_launches := nr_launches s + 1\<rparr>)"
  using assms by (simp add: launch_kernel_def)

lemma triad_step:
  assumes "fair_orders e" and "covered c" and "triad_exact fp isfinite"
    and "arrs s = uniform (nat (elements c)) (x, fp_nat fp 2, fp_nat fp 3)"
  shows "launch_kernel e c (kernel_of fp c) s = (Inr (), s\<lparr>arrs := expected fp c, nr_launches := nr_launches s + 1\<rparr>)"
proof (rule launch_runs)
  have "mset (order e (nr_launches s) (launch_threads_of c)) = mset [0..<launch_threads_of c]"
    using assms(1) unfolding fair_orders_def by blast
  note run = triad_launch[OF this coveredD(1-3)[OF assms(2)], unfolded coveredD(4)[OF assms(2)]]
  show "for_each (order e (nr_launches s) (launch_threads_of c)) (kernel_of fp c) (arrs s) = Inr (expected fp c)"
    unfolding kernel_of_def assms(4) run expected_def using assms(3) unfolding triad_exact_def by metis
qed

lemma triad_steps:
  assumes "fair_orders e" and "covered c" and "triad_exact fp isfinite" and "arrs s = expected fp c"
  shows "launches e c (kernel_of fp c) k s = (Inr (), s\<lparr>nr_launches := nr_launches s + k\<rparr>)"
  using assms(4)
proof (induction k arbitrary: s)
  case (Suc k)
  have same: "s\<lparr>arrs := expected fp c, nr_launches := n\<rparr> = s\<lparr>nr_launches := n\<rparr>" for n
    using Suc.prems by (cases s) simp
  note step = triad_step[OF assms(1-3) Suc.prems[unfolded expected_def], unfolded same]
  have "arrs (s\<lparr>nr_launches := nr_launches s + 1\<rparr>) = expected fp c" using Suc.prems by simp
  from Suc.IH[OF this] show ?case unfolding launches.simps xbind_def step by simp
qed (simp add: xret_def)

lemma seed_launch:
  assumes "fair_orders e" and "sized_arrays e" and "covered c"
  shows "launch_kernel e c (initialize fp (nat (block c)) (elements c)) (s\<lparr>arrs := fresh_arrays e (nat (elements c))\<rparr>) =
    (Inr (), s\<lparr>arrs := uniform (nat (elements c)) (fp_nat fp 0, fp_nat fp 2, fp_nat fp 3), nr_launches := nr_launches s + 1\<rparr>)"
proof -
  let ?s = "s\<lparr>arrs := fresh_arrays e (nat (elements c))\<rparr>"
  have o: "mset (order e (nr_launches ?s) (launch_threads_of c)) = mset [0..<launch_threads_of c]"
    using assms(1) unfolding fair_orders_def by blast
  have "for_each (order e (nr_launches ?s) (launch_threads_of c)) (initialize fp (nat (block c)) (elements c)) (arrs ?s) =
      Inr (uniform (nat (elements c)) (fp_nat fp 0, fp_nat fp 2, fp_nat fp 3))"
    using initialize_launch[OF o coveredD(1-3)[OF assms(3)], of "arrs ?s" fp "nat (block c)", unfolded coveredD(4)[OF assms(3)]] assms(2)
    unfolding sized_arrays_def by simp
  from launch_runs[OF this] show ?thesis by simp
qed

lemma warm_up_launches:
  assumes "fair_orders e" and "covered c" and "triad_exact fp isfinite"
    and u: "arrs s = uniform (nat (elements c)) (fp_nat fp 0, fp_nat fp 2, fp_nat fp 3)"
  shows "launches e c (kernel_of fp c) 20 s = (Inr (), s\<lparr>arrs := expected fp c, nr_launches := nr_launches s + 20\<rparr>)"
proof -
  let ?s = "s\<lparr>arrs := expected fp c, nr_launches := nr_launches s + 1\<rparr>"
  have first: "arrs ?s = expected fp c" by simp
  have twenty: "(20 :: nat) = Suc 19" by simp
  have "launches e c (kernel_of fp c) 20 s = (Inr (), ?s\<lparr>nr_launches := nr_launches ?s + 19\<rparr>)"
    unfolding twenty launches.simps(2) xbind_def triad_step[OF assms(1-3) u]
    by (simp only: prod.case sum.case triad_steps[OF assms(1-3) first])
  then show ?thesis by simp
qed

lemma warm_up_expected:
  assumes "fair_orders e" and "sized_arrays e" and "covered c" and "triad_exact fp isfinite"
    and "warm_up_worker e fp c s = (Inr (), s')"
  shows "arrs s' = expected fp c" and "measured s' = measured s" and "batches s' = batches s"
  using assms(5) seed_launch[OF assms(1-3)] warm_up_launches[OF assms(1,3,4)]
  by (auto simp: warm_up_worker_def xbind_def synchronize_def xlift_def split: sum.splits)

definition counted_batches :: "'d stream_ops \<Rightarrow> worker_config \<Rightarrow> 'd worker_state \<Rightarrow> bool" where
  "counted_batches fp c s \<longleftrightarrow> arrs s = expected fp c \<and> (\<forall>(before, after, k)\<in>set (batches s). k = batch c) \<and>
     measured s = (length (batches s) * nat (batch c)) mod 2 ^ 64"

lemma counted_data: "data s' = data s \<Longrightarrow> counted_batches fp c s \<Longrightarrow> counted_batches fp c s'"
  by (simp add: counted_batches_def data_def)

lemma run_batch_counted:
  assumes "fair_orders e" and "covered c" and "triad_exact fp isfinite"
    and "counted_batches fp c s" and "run_batch e fp c s = (q, s')"
  shows "counted_batches fp c s'"
proof -
  let ?s = "s\<lparr>readings := readings s + 1\<rparr>"
  have "add64 ((l * b) mod 2 ^ 64) b = (Suc l * b) mod 2 ^ 64" for l b
    by (simp add: add64_def W64_def add.commute mod_simps)
  moreover have "launches e c (kernel_of fp c) k ?s = (Inr (), ?s\<lparr>nr_launches := nr_launches s + k\<rparr>)" for k
    using triad_steps[OF assms(1-3), of ?s k] assms(4) by (simp add: counted_batches_def)
  ultimately show ?thesis
    using assms(4,5) by (auto simp: run_batch_def xbind_def now_ns_def synchronize_def xlift_def counted_batches_def split: sum.splits)
qed

lemma measure_counted:
  assumes "fair_orders e" and "sized_arrays e" and "covered c" and "triad_exact fp isfinite"
    and run: "measure_worker e fp isfinite args c s = Some (Inr k, s')" and start: "measured s = 0" "batches s = []"
  obtains sc line rest s1 where "finish_worker e fp isfinite args c sc s1 = (Inr k, s')" and "counted_batches fp c s1"
    and "receive_line (incoming e) = Inr (line, rest)" and "read_schedule line = Some sc"
proof -
  let ?m = "xbind (announce e args) (\<lambda>_. receive_schedule e)"
  obtain sc s2 where prep: "xbind (warm_up_worker e fp c) (\<lambda>_. ?m) s = (Inr sc, s2)"
    using run unfolding measure_worker_def by (auto split: prod.splits sum.splits)
  then obtain s3 where w: "warm_up_worker e fp c s = (Inr (), s3)" and m: "?m s3 = (Inr sc, s2)"
    unfolding xbind_Inr by auto
  have "\<exists>line rest. receive_line (incoming e) = Inr (line, rest) \<and> read_schedule line = Some sc"
    using m unfolding xbind_Inr receive_schedule_def
    by (auto simp: xlift_def xret_def xthrow_def xbind_Inr split: option.splits)
  then obtain line rest where line: "receive_line (incoming e) = Inr (line, rest)" "read_schedule line = Some sc" by blast
  have "data s2 = data s3" by (rule keepsD[where g = data and m = ?m and s = s3, OF _ m]) (intro keeping)
  then have counted2: "counted_batches fp c s2"
    using warm_up_expected[OF assms(1-4) w] start by (intro counted_data[of s2 s3]) (simp_all add: counted_batches_def)
  obtain r y where b: "batch_loop e fp c (tail_ns sc) (s2\<lparr>readings := r\<rparr>) = Some y"
    and fin: "\<exists>u s4. y = (Inr u, s4) \<and> finish_worker e fp isfinite args c sc s4 = (Inr k, s')"
    using run prep unfolding measure_worker_def by (auto split: prod.splits sum.splits option.splits)
  have "counted_batches fp c (snd y)"
  proof (rule batch_loop_invariant[OF b, THEN conjunct1])
    show "counted_batches fp c (s2\<lparr>readings := r\<rparr>)" using counted2 by (simp add: counted_batches_def)
    show "counted_batches fp c t'" if "counted_batches fp c t" "run_batch e fp c (t\<lparr>readings := readings t + 1\<rparr>) = (q, t')" for t q t'
      by (rule run_batch_counted[OF assms(1,3,4) _ that(2)]) (use that(1) in \<open>simp add: counted_batches_def\<close>)
  qed (simp_all add: counted_batches_def)
  then show ?thesis using that line fin by auto
qed

lemma validation_zero:
  assumes "fair_orders e" and "covered c" and "triad_exact fp isfinite"
  shows "for_each (order e i (launch_threads_of c)) (validate_arrays fp isfinite (expected fp c) (nat (block c)) (elements c)) 0 = Inr 0"
proof -
  have len: "length (arr_a (expected fp c)) = nat (elements c)" "length (arr_b (expected fp c)) = nat (elements c)"
    "length (arr_c (expected fp c)) = nat (elements c)" by (simp_all add: expected_def)
  have "mset (order e i (launch_threads_of c)) = mset [0..<launch_threads_of c]"
    using assms(1) unfolding fair_orders_def by blast
  from validation_counts[OF this coveredD(2,3)[OF assms(2)] len, of fp isfinite "nat (block c)", unfolded coveredD(4)[OF assms(2)]]
  show ?thesis by (simp only: expected_def uniform_valid[OF assms(3)] card.empty)
qed

lemma validate_expected:
  assumes "fair_orders e" and "covered c" and "triad_exact fp isfinite" and "arrs s = expected fp c"
    and "validate_on_device e fp isfinite c s = (Inr errors, s')"
  shows "errors = 0"
  using assms(4,5) validation_zero[OF assms(1-3)]
  by (auto simp: validate_on_device_def xbind_def xlift_def xret_def synchronize_def split: sum.splits)

text \<open>What the release of the arrays leaves alone.\<close>

lemma release_keeps:
  "data (release alloc ps s) = data s" "files (release alloc ps s) = files s" "sent_lines (release alloc ps s) = sent_lines s"
  "result_text e args c sc errors device cores (release alloc ps s) = result_text e args c sc errors device cores s"
  by (simp_all add: release_def data_def result_text_def)

text \<open>C38: The controlled TRIAD worker, with an exact 2 + 3 * 3 and kernels whose threads all
  run, in any order: no run reports wrong elements, it exits with 0 or 1. With 0 the arrays in
  the state it leaves hold the values of TRIAD, the count of measured launches in that state is
  that of all its batches (modulo 2 to the 64), each of the requested size, the output file ends
  with the result made of that state, the schedule received from the coordinator and the
  identity and affinity that HIP and the system give, and the coordinator is told that the
  worker is done.\<close>
theorem worker_never_invalid:
  assumes "fair_orders e" and "sized_arrays e" and "triad_exact fp isfinite"
    and "worker_main e fp isfinite ws = Some (code, s)" and "ws \<noteq> [''--probe'']"
  shows "code = 1 \<or> (code = 0 \<and> (\<exists>args c sc line rest device cores.
    worker_arguments ws = Inr args \<and> configure_worker e args = Inr c \<and>
    receive_line (incoming e) = Inr (line, rest) \<and> read_schedule line = Some sc \<and>
    device_identity e 0 = Inr device \<and> get_affinity e = Inr cores \<and>
    last (files s) = (the (args ''--output''), result_text e args c sc 0 device cores s @ nl) \<and>
    last (sent_lines s) = done_line @ nl \<and>
    arrs s = uniform (nat (elements c)) (fp_nat fp 11, fp_nat fp 2, fp_nat fp 3) \<and>
    measured s = (length (batches s) * nat (batch c)) mod 2 ^ 64 \<and>
    (\<forall>(before, after, k)\<in>set (batches s). k = batch c)))"
  using assms(4)
proof (cases rule: worker_main_cases)
  case (ended args c)
  note covered = configure_covered[OF ended(2)]
  obtain t1 t2 ps where m: "measure_worker e fp isfinite args c t1 = Some (Inr code, t2)"
    and s: "s = release (the (args ''--allocator'')) ps t2" and fresh: "measured t1 = 0" "batches t1 = []"
    using with_arrays_ends[OF ended(3)] by (auto simp: data_def worker_initial_def)
  obtain sc line rest s1 where fin: "finish_worker e fp isfinite args c sc s1 = (Inr code, t2)" and counted: "counted_batches fp c s1"
    and line: "receive_line (incoming e) = Inr (line, rest)" "read_schedule line = Some sc"
    by (rule measure_counted[OF assms(1,2) covered assms(3) m fresh])
  from fin show ?thesis
  proof (rule finish_result)
    fix errors device cores s3 s4
    assume code: "code = (if errors \<noteq> 0 then 2 else 0)" and "data t2 = data s1" and "arrs s3 = arrs s1"
      and out: "last (files t2) = (the (args ''--output''), result_text e args c sc errors device cores t2 @ nl)"
        "last (sent_lines t2) = done_line @ nl"
      and v: "validate_on_device e fp isfinite c s3 = (Inr errors, s4)"
      and id: "device_identity e 0 = Inr device" "get_affinity e = Inr cores"
    have "data s = data s1" using \<open>data t2 = data s1\<close> by (simp add: s release_keeps)
    then have "counted_batches fp c s" by (rule counted_data[OF _ counted])
    moreover have "errors = 0"
      using validate_expected[OF assms(1) covered assms(3) _ v] counted \<open>arrs s3 = arrs s1\<close> by (simp add: counted_batches_def)
    moreover from this have "last (files s) = (the (args ''--output''), result_text e args c sc 0 device cores s @ nl)"
      using out(1) by (simp only: s release_keeps)
    moreover have "last (sent_lines s) = done_line @ nl" using out(2) by (simp only: s release_keeps)
    ultimately show ?thesis
      using code ended(1,2) line id unfolding counted_batches_def expected_def
      by (intro disjI2 conjI exI[of _ args] exI[of _ c] exI[of _ sc] exI[of _ line] exI[of _ rest] exI[of _ device] exI[of _ cores]) simp_all
  qed
qed (use assms(5) in \<open>auto simp: failed_worker_def Let_def\<close>)

subsection \<open>The worker returns\<close>

definition clock_runs :: "'d worker_env \<Rightarrow> bool" where
  "clock_runs e \<longleftrightarrow> mono (clock e) \<and> (\<forall>t. \<exists>r. t \<le> clock e r)"

lemma clock_late: "clock_runs e \<Longrightarrow> \<exists>d. t \<le> clock e (r + d)"
  unfolding clock_runs_def by (metis le_add2 monoD order_trans)

lemma wait_lead_returns:
  assumes "lead \<le> now (r + d)"
  shows "\<exists>r'. wait_lead now lead r = Some r'"
  using assms
proof (induction d arbitrary: r)
  case 0
  then show ?case by (subst wait_lead.simps) simp
next
  case (Suc d)
  then show ?case using Suc.IH[of "r + 1"] by (subst wait_lead.simps) simp
qed

lemma keeps_readings:
  "preserves readings (launch_kernel e c kern)" "preserves readings (synchronize e)"
  by (auto simp: preserves_def launch_kernel_def synchronize_def xlift_def split: sum.split)

lemma keeps_readings_launches: "preserves readings (launches e c kern k)"
  by (induction k) (auto intro!: keeping keeps_readings)

lemma run_batch_readings:
  assumes "run_batch e fp c s = (Inr u, s')"
  shows "readings s' = readings s + 2"
proof -
  obtain x y s1 s2 where "launches e c (kernel_of fp c) (nat (batch c)) (s\<lparr>readings := readings s + 1\<rparr>) = (Inr x, s1)"
    and "synchronize e s1 = (Inr y, s2)" and "readings s' = readings s2 + 1"
    using assms unfolding run_batch_def xbind_Inr now_ns_def by auto
  then show ?thesis
    using keepsD[OF keeps_readings_launches] keepsD[OF keeps_readings(2)] by fastforce
qed

lemma batch_loop_returns:
  assumes "mono (clock e)" and "tail \<le> clock e (readings s + d)"
  shows "\<exists>y. batch_loop e fp c tail s = Some y"
  using assms(2)
proof (induction d arbitrary: s rule: less_induct)
  case (less d)
  show ?case
  proof (cases "clock e (readings s) < tail")
    case True
    obtain q s1 where b: "run_batch e fp c (s\<lparr>readings := readings s + 1\<rparr>) = (q, s1)" by force
    show ?thesis
    proof (cases q)
      case (Inl m)
      then show ?thesis using b True by (subst batch_loop.simps) simp
    next
      case (Inr u)
      have "readings s1 = readings s + 3" using run_batch_readings b Inr by fastforce
      moreover have "0 < d" using True less.prems by (cases d) auto
      ultimately have "readings s + d \<le> readings s1 + (d - 1)" by simp
      then have "tail \<le> clock e (readings s1 + (d - 1))" using less.prems monoD[OF assms(1)] order_trans by blast
      then obtain y where "batch_loop e fp c tail s1 = Some y" using less.IH[of "d - 1" s1] \<open>0 < d\<close> by auto
      then show ?thesis using b Inr True by (subst batch_loop.simps) simp
    qed
  next
    case False
    then show ?thesis by (subst batch_loop.simps) simp
  qed
qed

lemma measure_returns:
  assumes "clock_runs e"
  shows "\<exists>y. measure_worker e fp isfinite args c s = Some y"
proof -
  obtain q s1 where prep: "xbind (warm_up_worker e fp c) (\<lambda>_. xbind (announce e args) (\<lambda>_. receive_schedule e)) s = (q, s1)" by force
  show ?thesis
  proof (cases q)
    case (Inl m)
    then show ?thesis using prep by (simp add: measure_worker_def)
  next
    case (Inr sc)
    obtain d where "lead_ns sc \<le> clock e (readings s1 + d)" using clock_late[OF assms] by blast
    then obtain r where r: "wait_lead (clock e) (lead_ns sc) (readings s1) = Some r" using wait_lead_returns by blast
    let ?s = "s1\<lparr>readings := r\<rparr>"
    obtain d where "tail_ns sc \<le> clock e (readings ?s + d)" using clock_late[OF assms] by blast
    then obtain q2 s2 where "batch_loop e fp c (tail_ns sc) ?s = Some (q2, s2)"
      using batch_loop_returns[of e "tail_ns sc" ?s d] assms by (force simp: clock_runs_def)
    then show ?thesis using prep Inr r by (cases q2) (simp_all add: measure_worker_def)
  qed
qed

text \<open>C40: As long as the clock moves on past every time, the controlled TRIAD worker ends,
  whatever its arguments, the calls of HIP, the coordinator and the times it sends are.\<close>
theorem worker_returns:
  assumes "clock_runs e"
  shows "\<exists>code s. worker_main e fp isfinite ws = Some (code, s)"
proof -
  have arrays: "\<exists>r s'. with_arrays e alloc (measure_worker e fp isfinite args c) s = Some (r, s')" for alloc args c s
  proof -
    obtain q s1 where a: "allocate_arrays e alloc [0, 1, 2] [] s = (q, s1)" by force
    obtain r s2 where "measure_worker e fp isfinite args c s1 = Some (r, s2)" using measure_returns[OF assms] by force
    then show ?thesis using a by (cases q) (simp_all add: with_arrays_def)
  qed
  show ?thesis
  proof (cases "ws = [''--probe'']")
    case True
    then show ?thesis by (cases "probe e") (simp_all add: worker_main_def failed_worker_def Let_def)
  next
    case ws: False
    show ?thesis
    proof (cases "worker_arguments ws")
      case (Inl m)
      then show ?thesis using ws by (simp add: worker_main_def failed_worker_def Let_def)
    next
      case args: (Inr args)
      show ?thesis
      proof (cases "configure_worker e args")
        case (Inl m)
        then show ?thesis using ws args by (simp add: worker_main_def failed_worker_def Let_def)
      next
        case (Inr c)
        obtain r s' where "with_arrays e (the (args ''--allocator'')) (measure_worker e fp isfinite args c)
            (worker_initial\<lparr>output_path := the (args ''--output'')\<rparr>) = Some (r, s')"
          using arrays by blast
        then show ?thesis using ws args Inr by (cases r) (simp_all add: worker_main_def failed_worker_def Let_def)
      qed
    qed
  qed
qed

subsection \<open>A run that completes\<close>

definition works :: "'d worker_env \<Rightarrow> bool" where
  "works e \<longleftrightarrow> (\<forall>call. hip_error e call = None) \<and> socket_ok e \<and> connect_ok e \<and> cpus e \<noteq> None \<and>
     (\<forall>l k n. 0 < n \<longrightarrow> 0 < kernel_send e l k n) \<and> (\<forall>p. file_ok e p)"

lemma works_calls:
  assumes "works e"
  shows "checked e call = Inr ()" "synchronize e s = (Inr (), s)"
    "send_text e text s = (Inr (), s\<lparr>sent_lines := sent_lines s @ [text @ nl]\<rparr>)"
    "write_file e path content s = (Inr (), s\<lparr>files := files s @ [(path, content @ nl)]\<rparr>)"
    "\<exists>cores. get_affinity e = Inr cores"
    "length path < 108 \<Longrightarrow> connect_socket e path s = (Inr (), s\<lparr>fd_open := True\<rparr>)"
  using assms
  by (auto simp: works_def checked_def synchronize_def xlift_def send_text_def send_line_def send_loop_sends write_file_def
      get_affinity_def connect_socket_def require_def)

lemma identity_known: "bdf (pci_bus_id p) = Inr a \<Longrightarrow> \<exists>i. identity d p = Inr i"
  by (simp add: identity_def)

lemma configure_device:
  assumes "configure_worker e args = Inr c" and "works e"
  shows "\<exists>i. device_identity e 0 = Inr i"
proof -
  obtain p where "check_device e args = Inr p"
    using assms(1) unfolding configure_worker_def sbind_Inr by blast
  then have "\<exists>a. bdf (pci_bus_id (devices e ! 0)) = Inr a"
    by (auto simp: check_device_def sbind_Inr Let_def)
  then show ?thesis using identity_known works_calls(1)[OF assms(2)] by (auto simp: device_identity_def)
qed

lemma allocate_works:
  assumes "works e" and "alloc \<in> {''hipMalloc'', ''hipMallocManaged'', ''hipHostMalloc''}"
  shows "\<exists>ps' s'. allocate_arrays e alloc is ps s = (Inr ps', s') \<and> readings s' = readings s \<and> data s' = data s"
proof (induction "is" arbitrary: ps s)
  case (Cons i "is")
  have "allocate_one e alloc i = Inr (hip_block e i)"
    using assms(2) works_calls(1)[OF assms(1)] by (auto simp: allocate_one_def)
  then show ?case using Cons[of "ps @ [hip_block e i]" "s\<lparr>live := (hip_block e i, alloc) # live s\<rparr>"] by (auto simp: data_def)
qed simp

lemma warm_up_works:
  assumes "fair_orders e" and "sized_arrays e" and "covered c" and "triad_exact fp isfinite" and "works e"
  obtains s' where "warm_up_worker e fp c s = (Inr (), s')" and "readings s' = readings s" and "arrs s' = expected fp c"
proof -
  have "warm_up_worker e fp c s = (Inr (), s\<lparr>arrs := expected fp c, nr_launches := nr_launches s + 21\<rparr>)"
    using seed_launch[OF assms(1-3)] warm_up_launches[OF assms(1,3,4)] works_calls(2)[OF assms(5)]
    by (simp add: warm_up_worker_def xbind_def)
  then show ?thesis by (rule that) simp_all
qed

lemma announce_works:
  assumes "works e" and "length (the (args ''--socket'')) < 108" and "device_identity e 0 = Inr i"
  obtains s' where "announce e args s = (Inr (), s')" and "readings s' = readings s + 2" and "arrs s' = arrs s"
proof -
  obtain cores where "get_affinity e = Inr cores" using works_calls(5)[OF assms(1)] by blast
  then show ?thesis
    using that works_calls[OF assms(1)] assms(2,3)
    by (simp add: announce_def Let_def xbind_def xlift_def marker_def now_ns_def)
qed

lemma receive_works:
  assumes "incoming e = start_line sc @ nl @ rest" and "length (start_line sc) < 4096"
    and "int64 (lead_ns sc)" "int64 (t0_ns sc)" "int64 (t1_ns sc)" "int64 (tail_ns sc)"
    and "clock e (readings s) < lead_ns sc" "lead_ns sc < t0_ns sc" "t0_ns sc < t1_ns sc" "t1_ns sc < tail_ns sc"
  shows "receive_schedule e s = (Inr sc, s\<lparr>readings := readings s + 1\<rparr>)"
proof -
  have "CHR 0x0A \<notin> set (int_string v)" for v
  proof -
    have "\<not> is_digit 10 CHR 0x0A" by (simp add: is_digit_def digit_val_def)
    moreover have "is_digit 10 x" if "x \<in> set (numeral_string 10 n)" for x n
      using that numeral_string_digits(2)[of 10 n] is_digit_char[of _ 10] by fastforce
    ultimately show ?thesis by (auto simp: int_string_def)
  qed
  then have "CHR 0x0A \<notin> set (start_line sc)" by (auto simp: start_line_def)
  then have "receive_line (incoming e) = Inr (start_line sc, rest)"
    using receive_loop_line[of "start_line sc" "[]" rest] assms(1,2) by (simp add: receive_line_def nl_def)
  then show ?thesis
    using assms(7-) schedule_reads_back[OF assms(3-6)]
    by (simp add: receive_schedule_def xbind_def xlift_def now_ns_def require_def xret_def)
qed

lemma batch_loop_works:
  assumes "fair_orders e" and "covered c" and "triad_exact fp isfinite" and "works e"
    and "batch_loop e fp c tail s = Some (r, s')" and "arrs s = expected fp c"
  shows "r = Inr ()" and "arrs s' = expected fp c"
proof -
  let ?I = "\<lambda>s. arrs s = expected fp c"
  have run: "\<exists>s'. run_batch e fp c s = (Inr (), s') \<and> ?I s'" if "?I s" for s
    using triad_steps[OF assms(1-3), of "s\<lparr>readings := readings s + 1\<rparr>" "nat (batch c)"] that
    unfolding run_batch_def xbind_def now_ns_def by (simp add: works_calls(2)[OF assms(4)])
  have step: "q = Inr () \<and> ?I s1" if "?I s" "run_batch e fp c (s\<lparr>readings := readings s + 1\<rparr>) = (q, s1)" for s q s1
    using run[of "s\<lparr>readings := readings s + 1\<rparr>"] that by auto
  have "?I (snd (r, s')) \<and> (fst (r, s') = Inr () \<or> (\<exists>s m s'. ?I s \<and> run_batch e fp c (s\<lparr>readings := readings s + 1\<rparr>) = (Inl m, s')))"
  proof (rule batch_loop_invariant[OF assms(5), of ?I, OF assms(6)])
    show "?I s1" if "?I s" "run_batch e fp c (s\<lparr>readings := readings s + 1\<rparr>) = (q, s1)" for s q s1
      using step[OF that] by simp
  qed simp
  then have "arrs s' = expected fp c" "r = Inr () \<or> (\<exists>s m s'. ?I s \<and> run_batch e fp c (s\<lparr>readings := readings s + 1\<rparr>) = (Inl m, s'))"
    by simp_all
  moreover have "\<not> (?I s \<and> run_batch e fp c (s\<lparr>readings := readings s + 1\<rparr>) = (Inl m, s'))" for s m s'
    using step[of s "Inl m" s'] by (metis sum.distinct(1))
  ultimately show "r = Inr ()" "arrs s' = expected fp c" by metis+
qed

lemma finish_works:
  assumes "fair_orders e" and "covered c" and "triad_exact fp isfinite" and "works e" and "device_identity e 0 = Inr i"
    and "arrs s = expected fp c"
  obtains s' where "finish_worker e fp isfinite args c sc s = (Inr 0, s')"
proof -
  obtain cores where "get_affinity e = Inr cores" using works_calls(5)[OF assms(4)] by blast
  then show ?thesis
    using that validation_zero[OF assms(1-3)] works_calls[OF assms(4)] assms(5,6)
    by (simp add: finish_worker_def validate_on_device_def xbind_def xlift_def xret_def marker_def now_ns_def)
qed

text \<open>The worker finishes with 0 when HIP, the socket and the file work, the schedule is in time and its times follow one
  another.\<close>

lemma worker_completes:
  assumes env: "fair_orders e" "sized_arrays e" "clock_runs e" "works e" and exact: "triad_exact fp isfinite"
    and args: "worker_arguments ws = Inr args" "configure_worker e args = Inr c" "length (the (args ''--socket'')) < 108"
      "the (args ''--allocator'') \<in> {''hipMalloc'', ''hipMallocManaged'', ''hipHostMalloc''}" "ws \<noteq> [''--probe'']"
    and line: "incoming e = start_line sc @ nl @ rest" "length (start_line sc) < 4096"
    and int64: "int64 (lead_ns sc)" "int64 (t0_ns sc)" "int64 (t1_ns sc)" "int64 (tail_ns sc)"
    and times: "clock e 2 < lead_ns sc" "lead_ns sc < t0_ns sc" "t0_ns sc < t1_ns sc" "t1_ns sc < tail_ns sc"
  shows "\<exists>s. worker_main e fp isfinite ws = Some (0, s)"
proof -
  let ?start = "worker_initial\<lparr>output_path := the (args ''--output'')\<rparr>"
  note covered = configure_covered[OF args(2)]
  obtain i where i: "device_identity e 0 = Inr i" using configure_device[OF args(2) env(4)] by blast
  obtain ps s0 where a: "allocate_arrays e (the (args ''--allocator'')) [0, 1, 2] [] ?start = (Inr ps, s0)" and "readings s0 = 0"
    using allocate_works[OF env(4) args(4), of "[0, 1, 2]" "[]" ?start] by (auto simp: worker_initial_def)
  obtain s1 where w: "warm_up_worker e fp c s0 = (Inr (), s1)" "readings s1 = readings s0" "arrs s1 = expected fp c"
    by (rule warm_up_works[OF env(1,2) covered exact env(4)])
  obtain s2 where n: "announce e args s1 = (Inr (), s2)" "readings s2 = readings s1 + 2" "arrs s2 = arrs s1"
    by (rule announce_works[where e = e and args = args and s = s1, OF env(4) args(3) i])
  have "readings s2 = 2" using n(2) w(2) \<open>readings s0 = 0\<close> by simp
  then have "clock e (readings s2) < lead_ns sc" using times(1) by (simp only:)
  note m = receive_works[OF line int64 this times(2-)]
  let ?s3 = "s2\<lparr>readings := readings s2 + 1\<rparr>"
  obtain y where y: "measure_worker e fp isfinite args c s0 = Some y" using measure_returns[OF env(3)] by blast
  obtain r q s4 where wait: "wait_lead (clock e) (lead_ns sc) (readings ?s3) = Some r"
    and b: "batch_loop e fp c (tail_ns sc) (?s3\<lparr>readings := r\<rparr>) = Some (q, s4)"
    using y w(1) n(1) m by (auto simp: measure_worker_def xbind_def split: option.splits)
  have "arrs (?s3\<lparr>readings := r\<rparr>) = expected fp c" using n(3) w(3) by simp
  note b2 = batch_loop_works[OF env(1) covered exact env(4) b this]
  obtain s5 where "finish_worker e fp isfinite args c sc s4 = (Inr 0, s5)"
    by (rule finish_works[OF env(1) covered exact env(4) i b2(2)])
  then have "measure_worker e fp isfinite args c s0 = Some (Inr 0, s5)"
    using w(1) n(1) m wait b b2(1) by (simp add: measure_worker_def xbind_def)
  then show ?thesis using a args(1,2,5) by (simp add: worker_main_def Let_def with_arrays_def)
qed

subsection \<open>An example\<close>

definition demo_ops :: "nat stream_ops" where
  "demo_ops = fp_ops.extend nat_ops \<lparr>fp_le = (\<le>), fp_neg = (\<lambda>x. 0), fp_to_int = int\<rparr>"

definition demo_words :: "string list" where
  "demo_words = [''--socket'', ''/tmp/s'', ''--output'', ''/tmp/o'', ''--allocator'', ''hipMalloc'', ''--elements'', ''3'',
     ''--block-size'', ''2'', ''--batch-size'', ''1'', ''--expected-bdf'', ''0000:01:00.0'', ''--expected-cus'', ''228'',
     ''--worker-id'', ''w0'']"

definition demo_env :: "nat worker_env" where
  "demo_env = \<lparr>getenv = (\<lambda>v. if v = ''HSA_XNACK'' then ''1'' else if v = ''ROCR_VISIBLE_DEVICES'' then ''0'' else []),
     devices = [\<lparr>pci_bus_id = ''0000:01:00.0'', compute_units = 228, arch_name = ''gfx942:xnack+'', device_name = ''MI300A'',
       max_threads_per_block = 1024\<rparr>],
     hip_error = (\<lambda>_. None), malloc_block = (\<lambda>_. None), hip_block = (\<lambda>i. i + 1),
     fresh_arrays = (\<lambda>n. \<lparr>arr_a = replicate n 0, arr_b = replicate n 0, arr_c = replicate n 0\<rparr>), gpu_fault = ''fault'',
     order = (\<lambda>i t. [0..<t]), clock = (\<lambda>r. 10 * int r), cpus = Some (\<lambda>i. i < 2), socket_ok = True, connect_ok = True,
     kernel_send = (\<lambda>l k n. int n), incoming = start_line \<lparr>lead_ns = 40, t0_ns = 60, t1_ns = 90, tail_ns = 120\<rparr> @ nl, file_ok = (\<lambda>p. True)\<rparr>"

definition demo_args :: "string \<rightharpoonup> string" where
  "demo_args = [''--socket'' \<mapsto> ''/tmp/s'', ''--output'' \<mapsto> ''/tmp/o'', ''--allocator'' \<mapsto> ''hipMalloc'', ''--elements'' \<mapsto> ''3'',
     ''--block-size'' \<mapsto> ''2'', ''--batch-size'' \<mapsto> ''1'', ''--expected-bdf'' \<mapsto> ''0000:01:00.0'', ''--expected-cus'' \<mapsto> ''228'',
     ''--worker-id'' \<mapsto> ''w0'']"

lemma demo_arguments: "worker_arguments demo_words = Inr demo_args"
  by (simp add: worker_arguments_def demo_words_def demo_args_def allowed_keys_def required_keys_def)

lemma demo_numbers:
  "number demo_args ''--elements'' v = Inr 3" "number demo_args ''--block-size'' v = Inr 2"
  "number demo_args ''--batch-size'' v = Inr 1" "number demo_args ''--expected-cus'' v = Inr 228"
  by (simp_all add: number_def demo_args_def stoll_def is_space_def is_digit_def digit_val_def digits_value_def)

lemma demo_lookup:
  "demo_args ''--expected-bdf'' = Some ''0000:01:00.0''" "demo_args ''--allocator'' = Some ''hipMalloc''"
  "demo_args ''--socket'' = Some ''/tmp/s''"
  by (simp_all add: demo_args_def)

lemma demo_bdf: "bdf ''0000:01:00.0'' = Inr ''0000:01:00.0''"
proof -
  have "numeral_string 16 0 = ''0''" "numeral_string 16 1 = ''1''"
    by code_simp+
  then show ?thesis using bdf_normal_form[of 0 1 0 0] by (simp add: hex_padded_def Let_def numeral_3_eq_3)
qed

lemma demo_configuration: "configure_worker demo_env demo_args = Inr \<lparr>elements = 3, block = 2, batch = 1, grid = 2\<rparr>"
  by (simp add: configure_worker_def check_environment_def check_device_def demo_numbers demo_env_def demo_bdf Let_def
     require_def checked_def launch_grid_def sublist_Cons_right demo_lookup)

lemma demo_properties: "fair_orders demo_env" "sized_arrays demo_env" "clock_runs demo_env" "works demo_env" "triad_exact demo_ops (\<lambda>_. True)"
proof -
  have "t \<le> 10 * int (nat t)" for t by simp
  then have "\<exists>r. t \<le> 10 * int r" for t by blast
  then show "clock_runs demo_env" by (simp add: clock_runs_def demo_env_def mono_def)
qed (simp_all add: fair_orders_def sized_arrays_def works_def triad_exact_def demo_env_def demo_ops_def nat_ops_def fp_ops.defs)

lemma demo_numerals: "numeral_string 10 40 = ''40''" "numeral_string 10 60 = ''60''" "numeral_string 10 90 = ''90''"
  "numeral_string 10 120 = ''120''"
  by code_simp+

lemma demo_runs: "\<exists>s. worker_main demo_env demo_ops (\<lambda>_. True) demo_words = Some (0, s)"
  by (rule worker_completes[OF demo_properties demo_arguments demo_configuration, where sc = "\<lparr>lead_ns = 40, t0_ns = 60, t1_ns = 90, tail_ns = 120\<rparr>" and rest = "[]"])
    (simp_all add: demo_lookup demo_words_def demo_env_def start_line_def int_string_def int64_def demo_numerals)

theorem worker_releases_witness:
  "\<exists>s. worker_main demo_env demo_ops (\<lambda>_. True) demo_words = Some (0, s) \<and> live s = [] \<and> \<not> fd_open s"
proof -
  obtain s where run: "worker_main demo_env demo_ops (\<lambda>_. True) demo_words = Some (0, s)" using demo_runs by blast
  have "malloc_block demo_env i \<noteq> Some 0" "hip_block demo_env i \<noteq> 0" for i by (simp_all add: demo_env_def)
  from worker_releases[OF this run] run show ?thesis by blast
qed

theorem worker_never_invalid_witness:
  "\<exists>s. worker_main demo_env demo_ops (\<lambda>_. True) demo_words = Some (0, s) \<and> last (sent_lines s) = done_line @ nl \<and>
    arrs s = uniform 3 (11, 2, 3)"
proof -
  obtain s where run: "worker_main demo_env demo_ops (\<lambda>_. True) demo_words = Some (0, s)" using demo_runs by blast
  have "demo_words \<noteq> [''--probe'']" by (simp add: demo_words_def)
  from worker_never_invalid[OF demo_properties(1,2,5) run this] obtain args c where
      *: "worker_arguments demo_words = Inr args" "configure_worker demo_env args = Inr c" "last (sent_lines s) = done_line @ nl"
        "arrs s = uniform (nat (elements c)) (fp_nat demo_ops 11, fp_nat demo_ops 2, fp_nat demo_ops 3)"
    using zero_neq_one[where 'a = nat] by (elim disjE conjE exE) (erule notE, assumption, (rule that; assumption))
  then have "args = demo_args" using demo_arguments by (simp only: sum.inject)
  then have "nat (elements c) = 3" using *(2) demo_configuration by auto
  moreover have "fp_nat demo_ops n = n" for n by (simp add: demo_ops_def nat_ops_def fp_ops.defs)
  ultimately have "arrs s = uniform 3 (11, 2, 3)" using *(4) by (simp only:)
  then show ?thesis using run *(3) by blast
qed

theorem worker_returns_witness:
  "\<exists>code s. worker_main demo_env demo_ops (\<lambda>_. True) demo_words = Some (code, s)"
  by (rule worker_returns[OF demo_properties(3)])

end
