(* ===== verification/Spec2Isabelle.thy ===== *)
theory Spec2Isabelle
  imports Multi_Threads Multi_Sampling Pingpong_Main Fairness Sampling Worker Arena Threads Handshake
    Multiload_Main Stream Getmem Malloc_Bench Memcpy_Run Cmdparser_Help Matrices Gpu_Chase Hip_Stream Histo
    Fault Coherence Triad_Safe
begin

text \<open>
  \<^bold>\<open>The memory benchmarks of this repository, modelled and verified.\<close>

  The repository measures the memory system of the MI300A. Its own logic is in these programs, which
  this development models function by function: \<^bold>\<open>multichase\<close> and \<^bold>\<open>multiload\<close> (latency and bandwidth
  of memory under load), \<^bold>\<open>pingpong\<close> and \<^bold>\<open>fairness\<close> (exchange of a cache line between processors), all
  in \<open>src/multichase\<close>; the \<^bold>\<open>STREAM\<close> port (\<open>src/stream/mstream.cpp\<close>); the \<^bold>\<open>memory meter\<close>
  (\<open>src/measure/getmem.cpp\<close>); the \<^bold>\<open>memory copy benchmark\<close> (\<open>src/memcpy\<close>) with its command-line
  parser; the \<^bold>\<open>allocation benchmark\<close> (\<open>src/malloc/bench.cpp\<close>); and the GPU programs: \<^bold>\<open>STREAM in HIP\<close>
  (\<open>src/hip-stream/stream.hip\<close>), the \<^bold>\<open>atomics benchmark\<close> (\<open>src/atomics/histo.hip\<close>), the \<^bold>\<open>page fault
  benchmark\<close> (\<open>src/fault/fault.hip\<close>), the \<^bold>\<open>coherence test\<close> (\<open>src/coherence/atomic_test.hip\<close>) and the
  \<^bold>\<open>controlled TRIAD worker\<close> (\<open>src/experiments/triad_partition_controlled/triad_worker.hip\<close>).
  Everything that is not in the repository is a parameter of the definitions that use it:
  the heap (\<open>heap_env\<close>), the kernel (\<open>kernel_env\<close>), the generator behind \<open>random_r\<close>, HIP and libnuma
  (\<open>surroundings\<close>), floating-point arithmetic (\<open>fp_ops\<close>), the clock, the scheduler (a list of steps).

  \<^bold>\<open>How the programs work together.\<close> multichase reads its options (\<open>Options\<close>, sizes by \<open>Util\<close>), settles
  the geometry of the chase (stride, TLB group, memory), seeds a generator (\<open>Rng\<close>), fills the mixer
  table (\<open>Mixer\<close>), maps an arena (\<open>Arena\<close>) and starts its threads. Each thread (\<open>Threads\<close>, \<open>Worker\<close>)
  seeds a generator of its own, picks a cpu, builds its chases in the shared arena (\<open>Chase\<close>,
  \<open>Chase_Long\<close>: cycles of pointers along random permutations), rewrites them for some kernels
  (\<open>Worker\<close>, \<open>Branch\<close>), flushes the caches and waits at the barrier (\<open>Barrier\<close>). Then the kernels
  (\<open>Kernels\<close>) follow the cycles and main samples their counters (\<open>Sampling\<close>). \<open>Multichase_Main\<close> puts
  these parts together as main does. multiload has the same chases and in addition threads that load
  the memory (\<open>Memload\<close>, \<open>Load_Loops\<close>), with a protocol by which main asks them for a sample
  (\<open>Handshake\<close>); \<open>Multi_Options\<close>, \<open>Multi_Threads\<close>,
  \<open>Multi_Sampling\<close> and \<open>Multiload_Main\<close> are its main and threads.

  \<^bold>\<open>Theories, sources, state.\<close>
  \<^item> \<open>Prelude\<close>: results (\<open>failure + 'a\<close>; \<open>Exit\<close> for \<open>exit\<close>, \<open>OutOfBounds\<close> for an access outside an object,
    \<open>DivByZero\<close>, \<open>Undefined\<close>, \<open>AssertFail\<close>), their predicate \<open>wp\<close>, the loops \<open>for_each\<close> and \<open>for_range\<close>
    with their invariant rules, arrays with checked indices, \<open>size_t\<close> arithmetic (\<open>add64\<close>, \<open>mul64\<close>,
    \<open>sub64\<close> wrap at \<open>2 ^ 64\<close>), the heap. \<open>Perms\<close>: permutations of an interval in groups. \<open>Floats\<close>:
    the operations on double.
  \<^item> \<open>Memory\<close>: a map from addresses to bytes; \<open>load64\<close>, \<open>store64\<close>; the locale \<open>cell_store\<close> is what the
    rest uses of it; \<open>chase_cycle m p as\<close> says that memory holds the cycle \<open>as\<close> from \<open>p\<close> on.
  \<^item> \<open>Rng\<close>, \<open>Permutation\<close>, \<open>Mixer\<close>, \<open>Chase\<close>, \<open>Chase_Long\<close>, \<open>Checker\<close>, \<open>Chase_Props\<close>: \<open>permutation.c\<close> and
    \<open>permutation.h\<close>. The record \<open>chase_args\<close> is \<open>struct generate_chase_common_args\<close>; the locale
    \<open>perm_generator\<close> is the contract of its function pointer \<open>gen_permutation\<close>, interpreted on the random and
    on the ordered generator.
  \<^item> \<open>Util\<close>: \<open>util.c\<close> and the C readers it uses. \<open>Options\<close>: the table of chases, \<open>getopt\<close> loop and size checks of
    \<open>multichase.c\<close>; the record \<open>settings\<close> is the set of local variables of main the options change.
  \<^item> \<open>Threads\<close>, \<open>Worker\<close>, \<open>Kernels\<close>, \<open>Sampling\<close>, \<open>Barrier\<close>, \<open>Multichase_Main\<close>: the rest of \<open>multichase.c\<close>;
    \<open>per_thread\<close> is \<open>per_thread_t\<close>. \<open>Branch\<close>: \<open>br_asm.c\<close> with a small machine that runs the code it
    emits. \<open>Arena\<close>: \<open>arena.c\<close>.
  \<^item> \<open>Multi_Options\<close>, \<open>Memload\<close>, \<open>Load_Loops\<close>, \<open>Handshake\<close>, \<open>Multi_Threads\<close>, \<open>Multi_Sampling\<close>,
    \<open>Multiload_Main\<close>: \<open>multiload.c\<close>.
  \<^item> \<open>Pingpong\<close>, \<open>Pingpong_Main\<close>: \<open>pingpong.c\<close>. \<open>Fairness\<close>: \<open>fairness.c\<close>.
  \<^item> \<open>Gpu_Memset\<close>: \<open>memset_kernel\<close> and its launch in \<open>mstream.cpp\<close> and \<open>getmem.cpp\<close>. \<open>Stream\<close>: the rest of
    \<open>mstream.cpp\<close>. \<open>Getmem\<close>: the rest of \<open>getmem.cpp\<close>.
  \<^item> \<open>Cmdparser\<close>: \<open>cmdparser.hpp\<close>; the record \<open>cmd\<close> is \<open>CmdBase\<close> with its two subclasses. \<open>Memcpy_Bench\<close>:
    the host side of \<open>example_utils.hpp\<close> and the choice of sizes, devices and kinds in \<open>main.hip\<close>.
    \<open>Memcpy_Run\<close>: the measurements and main of \<open>main.hip\<close>; \<open>hip_api\<close> is what they call, \<open>working_hip\<close> what is
    promised of it. \<open>Cmdparser_Help\<close>: the texts of \<open>cmdparser.hpp\<close>. \<open>Matrices\<close>: the matrix templates of
    \<open>example_utils.hpp\<close>. \<open>Malloc_Bench\<close>: \<open>bench.cpp\<close>.
  \<^item> \<open>Parallel_Loops\<close>: parallel loops and kernels whose iterations touch one element each (locales
    \<open>parallel_for\<close> and \<open>kernel_launch\<close>), with the thread number as the GPU computes it. \<open>Gpu_Chase\<close>: the kernel of
    \<open>kernels.hip\<close> and its launch. \<open>Hip_Stream\<close>, \<open>Histo\<close>, \<open>Fault\<close>, \<open>Coherence\<close>: the GPU programs.
  \<^item> \<open>Triad_Text\<close>, \<open>Triad_Kernels\<close>, \<open>Triad_Run\<close>, \<open>Triad_Safe\<close>: \<open>triad_worker.hip\<close>: its texts (JSON, arguments,
    lines of the socket), its kernels and their geometry, its run as actions that give an exception or a value
    (\<open>worker_env\<close> is everything outside, \<open>worker_state\<close> the variables of main), and the theorems on the run.

  \<^bold>\<open>What is shown.\<close>
  \<^item> \<^emph>\<open>Chases.\<close> The generators write permutations; every column of the mixer is a permutation; a generated
    chase is one cycle through exactly the cells of its mixer row, keeps TLB groups together and touches
    nothing else; any interleaving of the stores of all threads, and any order of whole threads, gives
    every thread its cycles; the whole set-ups of multichase and of multiload (in its three tests)
    get there from every accepted command line whose chases need no conversion, when the memory they
    ask for is granted, at whatever places.
  \<^item> \<^emph>\<open>Code.\<close> On x86-64 and on AArch64 the converted chase, run by the machine, visits the cycle.
  \<^item> \<^emph>\<open>Kernels.\<close> Each kernel follows the cycles and counts its steps, whenever main takes the count; the
    SSE kernels equal the plain one.
  \<^item> \<^emph>\<open>Concurrency.\<close> The barriers are safe and lose no wakeup; the exchange loops alternate strictly; no
    sample of multiload is lost or taken for another; no count of fairness is lost: invariants proved by
    induction over the steps of any schedule, through the locale \<open>startup_barrier\<close> where two
    programs have the same barrier.
  \<^item> \<^emph>\<open>Loads.\<close> The seven loads stay in their buffer; the triad computes its recurrence; the unrolled load
    with injected delay is the triad.
  \<^item> \<^emph>\<open>Numbers printed.\<close> What the samples, the latencies, the tables and the summaries are made of.
  \<^item> \<^emph>\<open>Command lines.\<close> Types of the settings that can be reached, the geometry, round trips of numbers and
    of whole command lines.
  \<^item> \<^emph>\<open>STREAM.\<close> Iterations in any order (locale \<open>parallel_for\<close>, interpreted on the six loops) give the
    values the validation expects; in HIP the kernels do, whatever the order of their threads (locale
    \<open>kernel_launch\<close>, interpreted on the five kernels).
  \<^item> \<^emph>\<open>GPU programs.\<close> No atomic addition of the atomics benchmark is lost, under every schedule; the three
    kernels of the page fault benchmark agree, and its test does what its options ask for; the chase on the
    GPU is the chase on the cpu; main of the memory copy benchmark reports one bandwidth per size, kind and
    device and releases what it allocates.
  \<^item> \<^emph>\<open>TRIAD worker.\<close> What it quotes, sends and is sent reads back; a run ends when the clock moves on, frees
    its arrays whatever fails, completes when nothing fails, and never reports wrong elements.
  \<^item> \<^emph>\<open>Defects.\<close> Where the code does not do what it means to, a theorem says what it does.

  \<^bold>\<open>Bounds and termination.\<close> Loops that end are recursion on a list, a number or \<open>for_range\<close>; a loop that may
  not end is a \<open>partial_function\<close> in option, with None for not returning (the kernels, \<open>do_cells\<close>, \<open>cycle_len\<close>),
  or takes the finite list of what it waits for (\<open>wait_tick\<close>, \<open>write_loop\<close>, the schedules). Two definitions
  have fuel: the machine of \<open>Branch\<close>, whose call runs at most the instructions of a chunk, and the list of sizes
  of the memory copy benchmark, which is endless for a stride of 0; the theorems name a fuel that
  suffices, and say where none does. The theorems on chases ask for at most \<open>2 ^ 30\<close> chases, because the number of mixers is
  shifted as an \<open>int\<close>, and for \<open>__builtin_clzl(0)\<close> between 58 and 64 where main calls it with 0.

  \<^bold>\<open>Mappings.\<close> The calls of \<open>mmap\<close> are numbered in the order of main (the arena 0, the areas of the threads 1,
  the flush pages 2, the buffer of load thread \<open>i\<close> of multiload \<open>3 + i\<close>), and the kernel may answer each of them
  differently; the theorems ask that live mappings do not overlap.

  \<^bold>\<open>Memory model.\<close> Threads interleave at their accesses to shared memory where the code relies on it (the
  stores of the chases, \<open>sample_no\<close> and \<open>count\<close>, the exchanged words, the counters of fairness) and see them in
  one order; weaker orders of the hardware are not modelled.

  \<^bold>\<open>GPU.\<close> A kernel is the sequence of its threads in some order, and where they share a cell an
  interleaving of their atomic operations; a launch that the runtime rejects runs nothing. Additions of
  device scope beside threads of the cpu (\<open>-S\<close> of the atomics benchmark) are a data race and undefined. The
  limit of HIP on the number of work items of a launch (fewer than \<open>2 ^ 32\<close>) is not modelled.

  \<^bold>\<open>Not modelled.\<close> Usage texts and messages of the programs in C; reading of the clock and pause
  instructions (parameters, or nothing to state); buffers that are only written to clear caches; the
  generated macros \<open>xN\<close> (a fold); \<open>hipWaste.hip\<close>, which occupies memory, and \<open>mpi.cpp\<close>, which starts a
  program; the Python and shell scripts of \<open>experiments\<close>, which run the programs and plot their output.
\<close>

end
